(* ===== verification/Prelude.thy ===== *)
theory Prelude
  imports Main "HOL-Library.Word" "HOL-Library.Multiset"
begin

text \<open>
  What the component theories share: the machine types of the code, C++ exceptions as
  values, the window of a circular array that both ring buffers are proved against,
  counting of threads by program counter, and reachability of a transition system with
  the rule that lifts a one-step invariant to every reachable state.
\<close>

section \<open>Types and results\<close>

type_synonym u16 = "16 word"
type_synonym u32 = "32 word"
type_synonym u64 = "64 word"

text \<open>
  A C++ \<open>int\<close> is kept as its 32 bits: the casts between \<open>int\<close> and
  \<open>uint32_t\<close> in the code are then the identity, and \<open>sint\<close> reads the value.
\<close>

type_synonym i32 = "32 word"

text \<open>
  Time points and durations of the steady clock, in ticks of the clock. The clock's
  representation is a signed 64-bit count of nanoseconds, about 292 years.
\<close>

type_synonym time = int

text \<open>
  Exceptions thrown by the code are values of a sum type. \<open>UB\<close> marks behaviour the
  language leaves undefined (dereferencing an empty optional, copying outside an array):
  the models return it where the code would run into it, and lemmas show it is not
  reached from well-formed states.
\<close>

datatype cpp_exn =
    Invalid_Argument string
  | Logic_Error string
  | Runtime_Error string
  | Length_Error string
  | Out_Of_Range string
  | System_Error int
  | UB string

type_synonym 'a result = "cpp_exn + 'a"

abbreviation throw :: "cpp_exn \<Rightarrow> 'a result" where
  "throw e \<equiv> Inl e"

abbreviation ret :: "'a \<Rightarrow> 'a result" where
  "ret x \<equiv> Inr x"

text \<open>The message of an exception; that of a system error depends on the platform.\<close>

fun exn_what :: "cpp_exn \<Rightarrow> string" where
  "exn_what (Invalid_Argument m) = m"
| "exn_what (Logic_Error m) = m"
| "exn_what (Runtime_Error m) = m"
| "exn_what (Length_Error m) = m"
| "exn_what (Out_Of_Range m) = m"
| "exn_what (System_Error c) = []"
| "exn_what (UB m) = []"

text \<open>Sequencing: an exception ends the computation.\<close>

definition rbind :: "'a result \<Rightarrow> ('a \<Rightarrow> 'b result) \<Rightarrow> 'b result" where
  "rbind m f = (case m of Inl e \<Rightarrow> throw e | Inr x \<Rightarrow> f x)"

lemma rbind_simps [simp]: "rbind (Inl e) f = Inl e" "rbind (Inr x) f = f x"
  by (simp_all add: rbind_def)

lemma rbind_Inr_iff: "rbind m f = Inr y \<longleftrightarrow> (\<exists>x. m = Inr x \<and> f x = Inr y)"
  by (cases m) auto

lemma rbind_Inl_iff: "rbind m f = Inl e \<longleftrightarrow> m = Inl e \<or> (\<exists>x. m = Inr x \<and> f x = Inl e)"
  by (cases m) auto

section \<open>Decimal text\<close>

text \<open>\<open>std::to_string\<close> of a non-negative integer; it is injective.\<close>

fun decimal :: "nat \<Rightarrow> string" where
  "decimal n = (if n < 10 then [char_of (48 + n)] else decimal (n div 10) @ [char_of (48 + n mod 10)])"

declare decimal.simps [simp del]

definition undecimal :: "string \<Rightarrow> nat" where
  "undecimal s = foldl (\<lambda>v c. 10 * v + (of_char c - 48)) 0 s"

lemma undecimal_decimal: "undecimal (decimal n) = n"
proof (induction n rule: decimal.induct)
  case (1 n)
  show ?case
  proof (cases "n < 10")
    case False
    then show ?thesis
      using 1 by (subst decimal.simps) (simp add: undecimal_def)
  qed (simp add: decimal.simps undecimal_def)
qed

lemma decimal_inj [simp]: "decimal m = decimal n \<longleftrightarrow> m = n"
  by (metis undecimal_decimal)

section \<open>Critical sections\<close>

text \<open>
  Classes guarded by a mutex have operations of one shape: lock, wait on a condition variable
  until a predicate of the protected state holds, compute, unlock, notify. Such an operation
  is a function of the protected state. \<open>Blocked\<close>: the wait predicate is false, so the
  caller releases the lock and sleeps. \<open>Returns\<close>: the value returned, the new state and the
  notifications sent after unlocking. \<open>Throws\<close>: an exception, the state unchanged.
\<close>

datatype cv = Not_Empty | Not_Full

datatype notify = Notify_One cv | Notify_All cv

datatype ('r, 's) outcome =
    Blocked
  | Returns 'r 's "notify list"
  | Throws cpp_exn

fun map_reply :: "('r \<Rightarrow> 'q) \<Rightarrow> ('r, 's) outcome \<Rightarrow> ('q, 's) outcome" where
  "map_reply f Blocked = Blocked"
| "map_reply f (Returns r s ns) = Returns (f r) s ns"
| "map_reply f (Throws e) = Throws e"

fun map_state :: "('s \<Rightarrow> 't) \<Rightarrow> ('r, 's) outcome \<Rightarrow> ('r, 't) outcome" where
  "map_state f Blocked = Blocked"
| "map_state f (Returns r s ns) = Returns r (f s) ns"
| "map_state f (Throws e) = Throws e"

section \<open>Circular arrays\<close>

text \<open>The \<open>n\<close> cells from index \<open>h\<close> on, wrapping round at the end of the array.\<close>

definition ring_window :: "'a list \<Rightarrow> nat \<Rightarrow> nat \<Rightarrow> 'a list" where
  "ring_window xs h n = map (\<lambda>i. xs ! ((h + i) mod length xs)) [0..<n]"

lemma length_ring_window [simp]: "length (ring_window xs h n) = n"
  by (simp add: ring_window_def)

lemma ring_window_0 [simp]: "ring_window xs h 0 = []"
  by (simp add: ring_window_def)

lemma ring_window_eq_Nil [simp]: "ring_window xs h n = [] \<longleftrightarrow> n = 0"
  by (simp add: ring_window_def)

lemma ring_window_Suc:
  assumes "h < length xs"
  shows "ring_window xs h (Suc n) = xs ! h # ring_window xs (Suc h mod length xs) n"
proof -
  have "ring_window xs h (Suc n)
      = xs ! (h mod length xs) # map (\<lambda>i. xs ! ((h + Suc i) mod length xs)) [0..<n]"
    by (simp only: ring_window_def upt_conv_Cons [OF zero_less_Suc] list.map
          map_Suc_upt [symmetric] map_map o_def add_0_right)
  moreover have "(h + Suc i) mod length xs = (Suc h mod length xs + i) mod length xs" for i
    by (simp add: mod_add_left_eq)
  ultimately show ?thesis
    using assms by (simp add: ring_window_def)
qed

lemma ring_window_snoc:
  "ring_window xs h (Suc n) = ring_window xs h n @ [xs ! ((h + n) mod length xs)]"
  by (simp add: ring_window_def)

lemma ring_index_neq:
  fixes h i n L :: nat
  assumes "i < n" "n < L"
  shows "(h + i) mod L \<noteq> (h + n) mod L"
proof
  assume eq: "(h + i) mod L = (h + n) mod L"
  then have "L dvd (h + n) - (h + i)"
    using assms by (metis add_le_cancel_left less_imp_le mod_eq_dvd_iff_nat)
  with assms show False
    by (simp add: nat_dvd_not_less)
qed

text \<open>Writing the first free cell extends the window at its end.\<close>

lemma ring_window_write:
  assumes "n < length xs"
  shows "ring_window (xs[(h + n) mod length xs := x]) h (Suc n) = ring_window xs h n @ [x]"
proof -
  have pos: "xs \<noteq> []" using assms by auto
  have "xs[(h + n) mod length xs := x] ! ((h + i) mod length xs) = xs ! ((h + i) mod length xs)"
    if "i < n" for i
    using ring_index_neq [OF that assms, of h] by (simp add: nth_list_update_neq)
  then show ?thesis
    using pos by (simp add: ring_window_snoc ring_window_def)
qed

text \<open>Overwriting the first cell of the window does not change the rest of it.\<close>

lemma ring_window_clear_head:
  assumes "h < length xs" "n < length xs"
  shows "ring_window (xs[h := y]) (Suc h mod length xs) n
       = ring_window xs (Suc h mod length xs) n"
proof -
  have "(Suc h mod length xs + i) mod length xs \<noteq> h" if "i < n" for i
  proof -
    have "(h + 0) mod length xs \<noteq> (h + Suc i) mod length xs"
      by (rule ring_index_neq) (use that assms in auto)
    then show ?thesis using assms(1) by (simp add: mod_add_left_eq)
  qed
  then show ?thesis
    unfolding ring_window_def length_list_update
    by (intro map_cong refl nth_list_update_neq) (metis atLeast0LessThan atLeast_upt lessThan_iff)
qed

text \<open>
  The two updates of a ring buffer with \<open>n\<close> occupied cells from head \<open>h\<close>, whose free cells,
  from tail \<open>t\<close>, all hold \<open>d\<close>: storing at the tail and clearing the head.
\<close>

lemma ring_store:
  assumes "h < length xs" "n < length xs" "t = (h + n) mod length xs"
    and free: "ring_window xs t (length xs - n) = replicate (length xs - n) d"
  shows "ring_window (xs[t := x]) h (Suc n) = ring_window xs h n @ [x]"
    and "ring_window (xs[t := x]) (Suc t mod length xs) (length xs - Suc n)
       = replicate (length xs - Suc n) d"
proof -
  let ?L = "length xs"
  have t: "t < ?L" using assms(1,3) by (cases xs) auto
  show "ring_window (xs[t := x]) h (Suc n) = ring_window xs h n @ [x]"
    using ring_window_write [OF assms(2), of h x] assms(3) by simp
  have "ring_window xs t (Suc (?L - Suc n)) = replicate (Suc (?L - Suc n)) d"
    using free assms(2) by (metis Suc_diff_Suc)
  then have "ring_window xs (Suc t mod ?L) (?L - Suc n) = replicate (?L - Suc n) d"
    using ring_window_Suc [OF t, of "?L - Suc n"] by (metis list.inject replicate_Suc)
  then show "ring_window (xs[t := x]) (Suc t mod ?L) (?L - Suc n) = replicate (?L - Suc n) d"
    using ring_window_clear_head [OF t, of "?L - Suc n" x] assms(2) by simp
qed

lemma ring_clear:
  assumes "h < length xs" "n < length xs" "t = (h + Suc n) mod length xs"
    and free: "ring_window xs t (length xs - Suc n) = replicate (length xs - Suc n) d"
  shows "ring_window xs h (Suc n) = xs ! h # ring_window (xs[h := d]) (Suc h mod length xs) n"
    and "ring_window (xs[h := d]) t (length xs - n) = replicate (length xs - n) d"
proof -
  let ?L = "length xs"
  show "ring_window xs h (Suc n) = xs ! h # ring_window (xs[h := d]) (Suc h mod ?L) n"
    using ring_window_Suc [OF assms(1), of n] ring_window_clear_head [OF assms(1,2), of d]
    by simp
  have "(t + (?L - Suc n)) mod ?L = ((h + Suc n) + (?L - Suc n)) mod ?L"
    using assms(3) by (simp add: mod_add_left_eq)
  also have "(h + Suc n) + (?L - Suc n) = h + ?L"
    using assms(2) by simp
  finally have pos: "(t + (?L - Suc n)) mod ?L = h"
    using assms(1) by simp
  have "ring_window (xs[h := d]) t (Suc (?L - Suc n)) = replicate (?L - Suc n) d @ [d]"
    using ring_window_write [of "?L - Suc n" xs t d] assms(2) pos free by simp
  then show "ring_window (xs[h := d]) t (?L - n) = replicate (?L - n) d"
    using assms(2) by (metis Suc_diff_Suc replicate_Suc replicate_append_same)
qed

section \<open>Counting list entries\<close>

text \<open>
  Threads are entries of a list of program counters; a step updates one entry. The lemma
  says how that changes the number of entries with a property.
\<close>

definition count_pc :: "('a \<Rightarrow> bool) \<Rightarrow> 'a list \<Rightarrow> nat" where
  "count_pc P xs = length (filter P xs)"

lemma count_pc_simps [simp]:
  "count_pc P [] = 0"
  "count_pc P (x # xs) = of_bool (P x) + count_pc P xs"
  by (simp_all add: count_pc_def)

lemma count_pc_update:
  "i < length xs \<Longrightarrow>
   count_pc P (xs[i := y]) + of_bool (P (xs ! i)) = count_pc P xs + of_bool (P y)"
proof (induction xs arbitrary: i)
  case (Cons x xs)
  then show ?case by (cases i) auto
qed simp

lemma count_pc_update_out: "i < length xs \<Longrightarrow> P (xs ! i) \<Longrightarrow> \<not> P y \<Longrightarrow>
   Suc (count_pc P (xs[i := y])) = count_pc P xs"
  using count_pc_update [of i xs P y] by simp

lemma count_pc_update_in: "i < length xs \<Longrightarrow> \<not> P (xs ! i) \<Longrightarrow> P y \<Longrightarrow>
   count_pc P (xs[i := y]) = Suc (count_pc P xs)"
  using count_pc_update [of i xs P y] by simp

lemma count_pc_update_same: "P (xs ! i) = P y \<Longrightarrow> count_pc P (xs[i := y]) = count_pc P xs"
proof (cases "i < length xs")
  case True
  then show "P (xs ! i) = P y \<Longrightarrow> count_pc P (xs[i := y]) = count_pc P xs"
    using count_pc_update [of i xs P y] by simp
qed (simp add: list_update_beyond)

lemma count_pc_0_iff: "count_pc P xs = 0 \<longleftrightarrow> (\<forall>x \<in> set xs. \<not> P x)"
  by (simp add: count_pc_def filter_empty_conv)

lemma count_pc_pos: "i < length xs \<Longrightarrow> P (xs ! i) \<Longrightarrow> 0 < count_pc P xs"
  using count_pc_0_iff [of P xs] nth_mem [of i xs] by (metis neq0_conv)

lemma count_pc_pos_ex: "0 < count_pc P xs \<Longrightarrow> \<exists>i < length xs. P (xs ! i)"
  using count_pc_0_iff [of P xs] by (metis in_set_conv_nth less_irrefl_nat)

lemma sum_list_map_update:
  fixes f :: "'a \<Rightarrow> 'b :: cancel_comm_monoid_add"
  shows "i < length xs \<Longrightarrow>
    sum_list (map f (xs[i := y])) + f (xs ! i) = sum_list (map f xs) + f y"
proof (induction xs arbitrary: i)
  case (Cons x xs)
  show ?case
  proof (cases i)
    case 0
    then show ?thesis by (simp add: ac_simps)
  next
    case (Suc j)
    with Cons have "sum_list (map f (xs[j := y])) + f (xs ! j) = sum_list (map f xs) + f y"
      by simp
    with Suc show ?thesis by (simp add: add.assoc)
  qed
qed simp

text \<open>
  The bookkeeping of a step that moves entries between three places: the threads' share
  changes from \<open>r\<close> to \<open>n\<close>, the stock from \<open>Q\<close> to \<open>Q'\<close>, \<open>A\<close> arrives and \<open>F\<close> leaves.
\<close>

lemma transfer_balance:
  fixes D :: "'a :: cancel_comm_monoid_add"
  assumes "S' + r = S + n" "Q' + n + F = Q + r + A"
  shows "F + D + Q' + S' = A + (D + Q + S)"
proof -
  have "(F + D + Q' + S') + (r + n) = D + (Q' + n + F) + (S' + r)"
    by (simp only: ac_simps)
  also have "\<dots> = D + (Q + r + A) + (S + n)"
    by (simp only: assms)
  also have "\<dots> = (A + (D + Q + S)) + (r + n)"
    by (simp only: ac_simps)
  finally show ?thesis by (rule add_right_imp_eq)
qed

lemma sum_list_map_update_eq:
  fixes f :: "'a \<Rightarrow> nat"
  shows "i < length xs \<Longrightarrow>
    sum_list (map f (xs[i := y])) = sum_list (map f xs) + f y - f (xs ! i)"
  using sum_list_map_update [of i xs f y] by simp

lemma sum_list_map_member_le:
  fixes f :: "'a \<Rightarrow> nat"
  shows "i < length xs \<Longrightarrow> f (xs ! i) \<le> sum_list (map f xs)"
  by (simp add: member_le_sum_list)

lemma Bex_list_update_keep:
  assumes "\<exists>x \<in> set xs. P x" "P (xs ! i) \<Longrightarrow> P y" "i < length xs"
  shows "\<exists>x \<in> set (xs[i := y]). P x"
proof -
  obtain j where j: "j < length xs" "P (xs ! j)"
    using assms(1) by (auto simp: in_set_conv_nth)
  have "P (xs[i := y] ! j)"
    using assms(2) j by (cases "i = j") auto
  then show ?thesis
    using j(1) by (metis length_list_update nth_mem)
qed

lemma Bex_list_update_old:
  "\<exists>x \<in> set (xs[i := y]). P x \<Longrightarrow> \<not> P y \<Longrightarrow> \<exists>x \<in> set xs. P x"
  using set_update_subset_insert [of xs i y] by auto

lemma Ball_list_update:
  "\<forall>x \<in> set xs. P x \<Longrightarrow> P y \<Longrightarrow> \<forall>x \<in> set (xs[i := y]). P x"
  using set_update_subset_insert [of xs i y] by auto

section \<open>Lists without repetitions, as multisets\<close>

lemma distinct_iff_count: "distinct xs \<longleftrightarrow> (\<forall>x. count (mset xs) x \<le> 1)"
proof
  assume "distinct xs"
  then show "\<forall>x. count (mset xs) x \<le> 1"
    by (simp add: distinct_count_atmost_1)
next
  assume le: "\<forall>x. count (mset xs) x \<le> 1"
  have "count (mset xs) x = (if x \<in> set xs then 1 else 0)" for x
    using le count_greater_zero_iff [of "mset xs" x] by (metis One_nat_def Suc_leI count_mset_0_iff le_antisym set_mset_mset)
  then show "distinct xs" by (simp add: distinct_count_atmost_1)
qed

lemma distinct_mset_le: "mset xs \<subseteq># mset ys \<Longrightarrow> distinct ys \<Longrightarrow> distinct xs"
  unfolding distinct_iff_count using mset_subset_eq_count order_trans by metis

section \<open>Reachable states\<close>

inductive reach :: "('s \<Rightarrow> bool) \<Rightarrow> ('s \<Rightarrow> 's \<Rightarrow> bool) \<Rightarrow> 's \<Rightarrow> bool"
  for init :: "'s \<Rightarrow> bool" and step :: "'s \<Rightarrow> 's \<Rightarrow> bool" where
  reach_init: "init s \<Longrightarrow> reach init step s"
| reach_step: "reach init step s \<Longrightarrow> step s t \<Longrightarrow> reach init step t"

lemma reach_mono: "reach I step s \<Longrightarrow> (\<And>s. I s \<Longrightarrow> J s) \<Longrightarrow> reach J step s"
  by (induction rule: reach.induct) (auto intro: reach.intros)

inductive steps :: "('s \<Rightarrow> 's \<Rightarrow> bool) \<Rightarrow> 's \<Rightarrow> 's \<Rightarrow> bool"
  for step :: "'s \<Rightarrow> 's \<Rightarrow> bool" where
  steps_refl: "steps step s s"
| steps_snoc: "steps step s t \<Longrightarrow> step t u \<Longrightarrow> steps step s u"

lemma steps_single: "step s t \<Longrightarrow> steps step s t"
  by (rule steps_snoc [OF steps_refl])

lemma steps_trans: "steps step t u \<Longrightarrow> steps step s t \<Longrightarrow> steps step s u"
  by (induction rule: steps.induct) (auto intro: steps.intros)

lemma reach_steps: "steps step s t \<Longrightarrow> reach init step s \<Longrightarrow> reach init step t"
  by (induction rule: steps.induct) (auto intro: reach_step)

text \<open>
  The contract of a state machine with an invariant: the initial states have it and every
  step keeps it. Each component interprets it with its own step relation.
\<close>

locale invariant_system =
  fixes init :: "'s \<Rightarrow> bool"
    and step :: "'s \<Rightarrow> 's \<Rightarrow> bool"
    and inv :: "'s \<Rightarrow> bool"
  assumes inv_initial: "init s \<Longrightarrow> inv s"
    and inv_preserved: "step s t \<Longrightarrow> inv s \<Longrightarrow> inv t"
begin

lemma reach_inv: "reach init step s \<Longrightarrow> inv s"
  by (induction rule: reach.induct) (auto intro: inv_initial inv_preserved)

lemma steps_inv: "steps step s t \<Longrightarrow> inv s \<Longrightarrow> inv t"
  by (induction rule: steps.induct) (auto intro: inv_preserved)

end

end
