(* ===== verification/Bounded_Fifo.thy ===== *)
theory Bounded_Fifo
  imports Prelude
begin

text \<open>
  The interface through which the blocking queue and the thread pool use their ring
  buffers: a bounded first-in first-out queue. \<open>ok\<close> is the representation invariant,
  \<open>items\<close> the abstract content, oldest element first. The laws are what the callers
  rely on; what follows from them for any sequence of calls is proved once, here.
\<close>

datatype 'a fifo_op = Fifo_Push 'a | Fifo_Pop

text \<open>
  A run of calls. A call that throws leaves the queue as it was. The result is the list of
  pushed elements that were accepted, the list of popped elements, and the final queue.
\<close>

fun fifo_run ::
  "('q \<Rightarrow> 'a \<Rightarrow> 'q result) \<Rightarrow> ('q \<Rightarrow> ('a \<times> 'q) result) \<Rightarrow> 'q \<Rightarrow> 'a fifo_op list \<Rightarrow>
   'a list \<times> 'a list \<times> 'q" where
  "fifo_run push pop q [] = ([], [], q)"
| "fifo_run push pop q (Fifo_Push x # os) =
     (case push q x of
        Inl _ \<Rightarrow> fifo_run push pop q os
      | Inr q' \<Rightarrow> (let (ins, outs, q'') = fifo_run push pop q' os in (x # ins, outs, q'')))"
| "fifo_run push pop q (Fifo_Pop # os) =
     (case pop q of
        Inl _ \<Rightarrow> fifo_run push pop q os
      | Inr (x, q') \<Rightarrow> (let (ins, outs, q'') = fifo_run push pop q' os in (ins, x # outs, q'')))"

locale bounded_fifo =
  fixes push :: "'q \<Rightarrow> 'a \<Rightarrow> 'q result"
    and pop :: "'q \<Rightarrow> ('a \<times> 'q) result"
    and cap :: "'q \<Rightarrow> nat"
    and items :: "'q \<Rightarrow> 'a list"
    and ok :: "'q \<Rightarrow> bool"
  assumes items_le_cap: "ok q \<Longrightarrow> length (items q) \<le> cap q"
    and push_accepts: "ok q \<Longrightarrow> length (items q) < cap q \<Longrightarrow>
      \<exists>q'. push q x = Inr q' \<and> ok q' \<and> items q' = items q @ [x] \<and> cap q' = cap q"
    and push_rejects: "ok q \<Longrightarrow> length (items q) = cap q \<Longrightarrow> \<exists>e. push q x = Inl e"
    and pop_takes: "ok q \<Longrightarrow> items q = x # xs \<Longrightarrow>
      \<exists>q'. pop q = Inr (x, q') \<and> ok q' \<and> items q' = xs \<and> cap q' = cap q"
    and pop_rejects: "ok q \<Longrightarrow> items q = [] \<Longrightarrow> \<exists>e. pop q = Inl e"
begin

lemma push_InrD:
  assumes "ok q" "push q x = Inr q'"
  shows "length (items q) < cap q" "ok q'" "items q' = items q @ [x]" "cap q' = cap q"
proof -
  show less: "length (items q) < cap q"
    using assms items_le_cap [OF assms(1)] push_rejects [OF assms(1), of x]
    by (metis Inl_Inr_False le_neq_implies_less)
  show "ok q'" "items q' = items q @ [x]" "cap q' = cap q"
    using push_accepts [OF assms(1) less, of x] assms(2) by auto
qed

lemma pop_InrD:
  assumes "ok q" "pop q = Inr (x, q')"
  shows "items q = x # items q'" "ok q'" "cap q' = cap q"
proof -
  obtain y ys where it: "items q = y # ys"
    using pop_rejects [OF assms(1)] assms(2) by (cases "items q") auto
  show "items q = x # items q'" "ok q'" "cap q' = cap q"
    using pop_takes [OF assms(1) it] assms(2) it by auto
qed

text \<open>
  First in, first out, over any interleaving of calls: what came out, followed by what is
  still inside, is what was inside followed by what went in.
\<close>

lemma run_fifo:
  "ok q \<Longrightarrow> fifo_run push pop q os = (ins, outs, q') \<Longrightarrow>
   outs @ items q' = items q @ ins \<and> ok q' \<and> cap q' = cap q"
proof (induction os arbitrary: q ins outs q')
  case Nil
  then show ?case by simp
next
  case (Cons c os)
  show ?case
  proof (cases c)
    case (Fifo_Push x)
    show ?thesis
    proof (cases "push q x")
      case (Inl e)
      with Cons Fifo_Push show ?thesis by simp
    next
      case (Inr q1)
      obtain ins1 outs1 q2 where run: "fifo_run push pop q1 os = (ins1, outs1, q2)"
        by (metis prod_cases3)
      note q1 = push_InrD [OF Cons.prems(1) Inr]
      from Cons.IH [OF q1(2) run] Cons.prems(2) Fifo_Push Inr run q1 show ?thesis by simp
    qed
  next
    case Fifo_Pop
    show ?thesis
    proof (cases "pop q")
      case (Inl e)
      with Cons Fifo_Pop show ?thesis by simp
    next
      case (Inr r)
      then obtain x q1 where pop: "pop q = Inr (x, q1)" by (cases r) auto
      obtain ins1 outs1 q2 where run: "fifo_run push pop q1 os = (ins1, outs1, q2)"
        by (metis prod_cases3)
      note q1 = pop_InrD [OF Cons.prems(1) pop]
      from Cons.IH [OF q1(2) run] Cons.prems(2) Fifo_Pop pop run q1 show ?thesis by auto
    qed
  qed
qed

lemma run_bounded:
  "ok q \<Longrightarrow> fifo_run push pop q os = (ins, outs, q') \<Longrightarrow> length (items q') \<le> cap q"
  using run_fifo items_le_cap by metis

text \<open>Filling up to the capacity is accepted in full; draining gives everything back.\<close>

lemma run_fill:
  "ok q \<Longrightarrow> length (items q) + length xs \<le> cap q \<Longrightarrow>
   \<exists>q'. fifo_run push pop q (map Fifo_Push xs) = (xs, [], q') \<and> ok q' \<and>
        items q' = items q @ xs \<and> cap q' = cap q"
proof (induction xs arbitrary: q)
  case (Cons x xs)
  then obtain q1 where q1: "push q x = Inr q1" "ok q1" "items q1 = items q @ [x]" "cap q1 = cap q"
    using push_accepts [of q x] by auto
  moreover obtain q' where "fifo_run push pop q1 (map Fifo_Push xs) = (xs, [], q')"
    "ok q'" "items q' = items q1 @ xs" "cap q' = cap q1"
    using Cons.IH [of q1] Cons.prems q1 by auto
  ultimately show ?case by simp
qed simp

lemma run_drain:
  "ok q \<Longrightarrow> items q = xs \<Longrightarrow>
   \<exists>q'. fifo_run push pop q (replicate (length xs) Fifo_Pop) = ([], xs, q') \<and> ok q' \<and>
        items q' = [] \<and> cap q' = cap q"
proof (induction xs arbitrary: q)
  case (Cons x xs)
  then obtain q1 where q1: "pop q = Inr (x, q1)" "ok q1" "items q1 = xs" "cap q1 = cap q"
    using pop_takes by blast
  moreover obtain q' where
    "fifo_run push pop q1 (replicate (length xs) Fifo_Pop) = ([], xs, q')"
    "ok q'" "items q' = []" "cap q' = cap q1"
    using Cons.IH [of q1] q1 by auto
  ultimately show ?case by simp
qed simp

end

end
