(* ===== verification/Ring_Buffer.thy ===== *)
theory Ring_Buffer
  imports Bounded_Fifo
begin

text \<open>
  \<open>RingBuffer<T>\<close> of code/BlockingQueue/include/blocking_queue.hpp: a circular
  \<open>vector<optional<T>>\<close> with head, tail and size. The invariant \<open>rb_ok\<close>
  says that the occupied window holds values and the free window holds none; the abstract
  content is the occupied window. The batch operations are the loops of the code.
\<close>

section \<open>State and operations\<close>

record 'a ring =
  rb_buffer :: "'a option list"
  rb_capacity :: nat
  rb_head :: nat
  rb_tail :: nat
  rb_size :: nat

definition rb_new :: "nat \<Rightarrow> 'a ring result" where
  "rb_new capacity =
     (if capacity = 0
      then throw (Invalid_Argument ''RingBuffer capacity must be greater than 0'')
      else ret \<lparr>rb_buffer = replicate capacity None, rb_capacity = capacity,
                rb_head = 0, rb_tail = 0, rb_size = 0\<rparr>)"

definition rb_empty :: "'a ring \<Rightarrow> bool" where
  "rb_empty r \<longleftrightarrow> rb_size r = 0"

definition rb_full :: "'a ring \<Rightarrow> bool" where
  "rb_full r \<longleftrightarrow> rb_size r = rb_capacity r"

definition rb_next_index :: "'a ring \<Rightarrow> nat \<Rightarrow> nat" where
  "rb_next_index r index = (index + 1) mod rb_capacity r"

definition rb_emplace :: "'a ring \<Rightarrow> 'a \<Rightarrow> 'a ring result" where
  "rb_emplace r x =
     (if rb_full r then throw (Logic_Error ''RingBuffer is full'')
      else ret (r\<lparr>rb_buffer := (rb_buffer r)[rb_tail r := Some x],
                  rb_tail := rb_next_index r (rb_tail r),
                  rb_size := rb_size r + 1\<rparr>))"

definition rb_front :: "'a ring \<Rightarrow> 'a result" where
  "rb_front r =
     (if rb_empty r then throw (Logic_Error ''RingBuffer is empty'')
      else (case rb_buffer r ! rb_head r of
              None \<Rightarrow> throw (UB ''empty optional dereferenced'')
            | Some x \<Rightarrow> ret x))"

definition rb_pop_front :: "'a ring \<Rightarrow> 'a ring result" where
  "rb_pop_front r =
     (if rb_empty r then throw (Logic_Error ''RingBuffer is empty'')
      else ret (r\<lparr>rb_buffer := (rb_buffer r)[rb_head r := None],
                  rb_head := rb_next_index r (rb_head r),
                  rb_size := rb_size r - 1\<rparr>))"

definition rb_pop :: "'a ring \<Rightarrow> ('a \<times> 'a ring) result" where
  "rb_pop r =
     (case rb_front r of
        Inl e \<Rightarrow> throw e
      | Inr value \<Rightarrow> (case rb_pop_front r of Inl e \<Rightarrow> throw e | Inr r' \<Rightarrow> ret (value, r')))"

text \<open>
  The loop of \<open>push_batch\<close>: \<open>k\<close> iterations are left, \<open>i\<close> is the index of
  the next value. The size is updated after the loop.
\<close>

fun rb_push_loop :: "'a list \<Rightarrow> nat \<Rightarrow> nat \<Rightarrow> 'a ring \<Rightarrow> 'a ring" where
  "rb_push_loop values i 0 r = r"
| "rb_push_loop values i (Suc k) r =
     rb_push_loop values (i + 1) k
       (r\<lparr>rb_buffer := (rb_buffer r)[rb_tail r := Some (values ! i)],
          rb_tail := rb_next_index r (rb_tail r)\<rparr>)"

definition rb_push_batch :: "'a ring \<Rightarrow> 'a list \<Rightarrow> nat \<times> 'a ring" where
  "rb_push_batch r values =
     (let available = rb_capacity r - rb_size r;
          pushed = (if length values \<le> available then length values else available);
          r' = rb_push_loop values 0 pushed r
      in (pushed, r'\<lparr>rb_size := rb_size r' + pushed\<rparr>))"

fun rb_pop_loop :: "nat \<Rightarrow> nat \<Rightarrow> 'a list \<Rightarrow> 'a ring \<Rightarrow> ('a list \<times> 'a ring) result" where
  "rb_pop_loop i 0 output r = ret (output, r)"
| "rb_pop_loop i (Suc k) output r =
     (case rb_buffer r ! rb_head r of
        None \<Rightarrow> throw (UB ''empty optional dereferenced'')
      | Some x \<Rightarrow>
          rb_pop_loop (i + 1) k (output[i := x])
            (r\<lparr>rb_buffer := (rb_buffer r)[rb_head r := None],
               rb_head := rb_next_index r (rb_head r)\<rparr>))"

text \<open>The span \<open>output\<close> is returned with its first entries overwritten.\<close>

definition rb_pop_batch :: "'a ring \<Rightarrow> 'a list \<Rightarrow> (nat \<times> 'a list \<times> 'a ring) result" where
  "rb_pop_batch r output =
     (let popped = (if length output \<le> rb_size r then length output else rb_size r)
      in (case rb_pop_loop 0 popped output r of
            Inl e \<Rightarrow> throw e
          | Inr (output', r') \<Rightarrow> ret (popped, output', r'\<lparr>rb_size := rb_size r' - popped\<rparr>)))"

section \<open>Invariant and content\<close>

text \<open>
  \<open>rb_shape\<close> leaves the size out, because the batch loops move head or tail before
  they update it: \<open>n\<close> cells are occupied.
\<close>

definition rb_shape :: "'a ring \<Rightarrow> nat \<Rightarrow> bool" where
  "rb_shape r n \<longleftrightarrow>
     0 < rb_capacity r \<and> length (rb_buffer r) = rb_capacity r \<and> n \<le> rb_capacity r \<and>
     rb_head r < rb_capacity r \<and> rb_tail r = (rb_head r + n) mod rb_capacity r \<and>
     None \<notin> set (ring_window (rb_buffer r) (rb_head r) n) \<and>
     ring_window (rb_buffer r) (rb_tail r) (rb_capacity r - n) = replicate (rb_capacity r - n) None"

definition rb_ok :: "'a ring \<Rightarrow> bool" where
  "rb_ok r \<longleftrightarrow> rb_shape r (rb_size r)"

definition rb_cells :: "'a ring \<Rightarrow> nat \<Rightarrow> 'a list" where
  "rb_cells r n = map the (ring_window (rb_buffer r) (rb_head r) n)"

definition rb_items :: "'a ring \<Rightarrow> 'a list" where
  "rb_items r = rb_cells r (rb_size r)"

lemma length_rb_cells [simp]: "length (rb_cells r n) = n"
  by (simp add: rb_cells_def)

lemma length_rb_items [simp]: "length (rb_items r) = rb_size r"
  by (simp add: rb_items_def)

lemma rb_cells_Suc:
  assumes "rb_shape r (Suc n)"
  shows "rb_buffer r ! rb_head r = Some (hd (rb_cells r (Suc n)))"
    and "rb_cells r (Suc n) = hd (rb_cells r (Suc n)) #
           map the (ring_window (rb_buffer r) (rb_next_index r (rb_head r)) n)"
  using assms by (auto simp: rb_shape_def rb_cells_def ring_window_Suc rb_next_index_def)

text \<open>Storing at the tail: the occupied window grows at its end.\<close>

lemma rb_shape_store:
  fixes r :: "'a ring" and x :: 'a
  assumes "rb_shape r n" "n < rb_capacity r"
  defines "r' \<equiv> r\<lparr>rb_buffer := (rb_buffer r)[rb_tail r := Some x],
                    rb_tail := rb_next_index r (rb_tail r)\<rparr>"
  shows "rb_shape r' (Suc n)" "rb_cells r' (Suc n) = rb_cells r n @ [x]"
proof -
  have L: "length (rb_buffer r) = rb_capacity r" "rb_head r < length (rb_buffer r)"
    "n < length (rb_buffer r)" "rb_tail r = (rb_head r + n) mod length (rb_buffer r)"
    "ring_window (rb_buffer r) (rb_tail r) (length (rb_buffer r) - n)
       = replicate (length (rb_buffer r) - n) None"
    using assms(1,2) unfolding rb_shape_def by auto
  note st = ring_store [OF L(2-5), of "Some x"]
  show "rb_shape r' (Suc n)"
    using assms(1,2) st L(1,4)
    by (auto simp: rb_shape_def r'_def rb_next_index_def mod_Suc_eq)
  show "rb_cells r' (Suc n) = rb_cells r n @ [x]"
    using st(1) by (simp add: rb_cells_def r'_def)
qed

text \<open>Emptying the head cell: the occupied window loses its first element.\<close>

lemma rb_shape_clear:
  assumes "rb_shape r (Suc n)"
  defines "r' \<equiv> r\<lparr>rb_buffer := (rb_buffer r)[rb_head r := None],
                    rb_head := rb_next_index r (rb_head r)\<rparr>"
  shows "rb_shape r' n" "rb_cells r (Suc n) = hd (rb_cells r (Suc n)) # rb_cells r' n"
proof -
  have L: "length (rb_buffer r) = rb_capacity r" "rb_head r < length (rb_buffer r)"
    "n < length (rb_buffer r)" "rb_tail r = (rb_head r + Suc n) mod length (rb_buffer r)"
    "ring_window (rb_buffer r) (rb_tail r) (length (rb_buffer r) - Suc n)
       = replicate (length (rb_buffer r) - Suc n) None"
    using assms(1) unfolding rb_shape_def by auto
  note cl = ring_clear [OF L(2-5)]
  have "None \<notin> set (ring_window (rb_buffer r) (rb_head r) (Suc n))"
    using assms(1) by (simp add: rb_shape_def)
  then have "None \<notin> set (ring_window ((rb_buffer r)[rb_head r := None])
      (Suc (rb_head r) mod length (rb_buffer r)) n)"
    unfolding cl(1) by simp
  then show "rb_shape r' n"
    using assms(1) cl(2) L(1,4)
    by (simp add: rb_shape_def r'_def rb_next_index_def mod_add_left_eq)
  show "rb_cells r (Suc n) = hd (rb_cells r (Suc n)) # rb_cells r' n"
    using cl(1) L(1) by (simp add: rb_cells_def r'_def rb_next_index_def)
qed

section \<open>The operations\<close>

lemma rb_new_ok:
  "rb_new c = Inr r \<Longrightarrow> rb_ok r \<and> rb_items r = [] \<and> rb_capacity r = c \<and> 0 < c"
  by (auto simp: rb_new_def rb_ok_def rb_shape_def rb_items_def rb_cells_def ring_window_def
      intro!: nth_equalityI split: if_splits)

lemma rb_empty_iff: "rb_empty r \<longleftrightarrow> rb_items r = []"
  by (simp add: rb_empty_def flip: length_0_conv)

lemma rb_full_iff: "rb_full r \<longleftrightarrow> length (rb_items r) = rb_capacity r"
  by (simp add: rb_full_def)

lemma rb_ok_size_le: "rb_ok r \<Longrightarrow> rb_size r \<le> rb_capacity r"
  by (simp add: rb_ok_def rb_shape_def)

lemma rb_shape_size [simp]: "rb_shape (r\<lparr>rb_size := m\<rparr>) n = rb_shape r n"
  by (simp add: rb_shape_def)

lemma rb_cells_size [simp]: "rb_cells (r\<lparr>rb_size := m\<rparr>) n = rb_cells r n"
  by (simp add: rb_cells_def)

lemma rb_emplace_ok:
  assumes "rb_ok r" "length (rb_items r) < rb_capacity r"
  shows "\<exists>r'. rb_emplace r x = Inr r' \<and> rb_ok r' \<and> rb_items r' = rb_items r @ [x] \<and>
              rb_capacity r' = rb_capacity r"
proof -
  have "rb_shape r (rb_size r)" "rb_size r < rb_capacity r"
    using assms by (auto simp: rb_ok_def)
  from rb_shape_store [OF this, of x] this(2) show ?thesis
    by (auto simp: rb_emplace_def rb_full_def rb_ok_def rb_items_def
        dest: rb_shape_size [THEN iffD2] intro!: exI)
qed

lemma rb_front_ok:
  assumes "rb_ok r" "rb_items r = x # xs"
  shows "rb_front r = Inr x"
proof -
  obtain n where "rb_size r = Suc n"
    using assms(2) length_rb_items [of r] by (cases "rb_size r") auto
  with assms rb_cells_Suc(1) [of r n] show ?thesis
    by (simp add: rb_front_def rb_empty_def rb_ok_def rb_items_def)
qed

lemma rb_pop_front_ok:
  assumes "rb_ok r" "rb_items r = x # xs"
  shows "\<exists>r'. rb_pop_front r = Inr r' \<and> rb_ok r' \<and> rb_items r' = xs \<and>
              rb_capacity r' = rb_capacity r"
proof -
  obtain n where n: "rb_size r = Suc n"
    using assms(2) length_rb_items [of r] by (cases "rb_size r") auto
  then have "rb_shape r (Suc n)"
    using assms(1) by (simp add: rb_ok_def)
  from rb_shape_clear [OF this] n assms(2) show ?thesis
    by (auto simp: rb_pop_front_def rb_empty_def rb_ok_def rb_items_def
        dest: rb_shape_size [THEN iffD2] intro!: exI)
qed

lemma rb_pop_ok:
  assumes "rb_ok r" "rb_items r = x # xs"
  shows "\<exists>r'. rb_pop r = Inr (x, r') \<and> rb_ok r' \<and> rb_items r' = xs \<and>
              rb_capacity r' = rb_capacity r"
  using rb_front_ok [OF assms] rb_pop_front_ok [OF assms] by (auto simp: rb_pop_def)

interpretation ring: bounded_fifo rb_emplace rb_pop rb_capacity rb_items rb_ok
proof unfold_locales
  fix r :: "'a ring" and x :: 'a and xs
  show "rb_ok r \<Longrightarrow> length (rb_items r) \<le> rb_capacity r"
    by (simp add: rb_ok_size_le)
  show "rb_ok r \<Longrightarrow> length (rb_items r) < rb_capacity r \<Longrightarrow>
      \<exists>q'. rb_emplace r x = Inr q' \<and> rb_ok q' \<and> rb_items q' = rb_items r @ [x] \<and>
           rb_capacity q' = rb_capacity r"
    by (rule rb_emplace_ok)
  show "\<exists>e. rb_emplace r x = Inl e" if "length (rb_items r) = rb_capacity r"
    using that by (simp add: rb_emplace_def rb_full_def)
  show "rb_ok r \<Longrightarrow> rb_items r = x # xs \<Longrightarrow>
      \<exists>q'. rb_pop r = Inr (x, q') \<and> rb_ok q' \<and> rb_items q' = xs \<and>
           rb_capacity q' = rb_capacity r"
    by (rule rb_pop_ok)
  show "\<exists>e. rb_pop r = Inl e" if "rb_items r = []"
    using that by (simp add: rb_pop_def rb_front_def rb_empty_iff)
qed

section \<open>The batch operations\<close>

text \<open>
  The batch loops against the single-element operations: iterating \<open>rb_emplace\<close> over the
  values gives the very state the loop leaves, once the size is added.
\<close>

fun rb_emplace_all :: "'a ring \<Rightarrow> 'a list \<Rightarrow> 'a ring result" where
  "rb_emplace_all r [] = ret r"
| "rb_emplace_all r (x # xs) =
     (case rb_emplace r x of Inl e \<Rightarrow> throw e | Inr r' \<Rightarrow> rb_emplace_all r' xs)"

fun rb_pop_all :: "'a ring \<Rightarrow> nat \<Rightarrow> ('a list \<times> 'a ring) result" where
  "rb_pop_all r 0 = ret ([], r)"
| "rb_pop_all r (Suc k) =
     (case rb_pop r of
        Inl e \<Rightarrow> throw e
      | Inr (x, r') \<Rightarrow> (case rb_pop_all r' k of
                         Inl e \<Rightarrow> throw e
                       | Inr (xs, r'') \<Rightarrow> ret (x # xs, r'')))"

lemma rb_push_loop_emplace_all:
  "rb_size r + k \<le> rb_capacity r \<Longrightarrow> i + k \<le> length values \<Longrightarrow>
   rb_emplace_all r (take k (drop i values)) =
     Inr ((rb_push_loop values i k r)\<lparr>rb_size := rb_size r + k\<rparr>)"
proof (induction k arbitrary: i r)
  case 0
  then show ?case by simp
next
  case (Suc k)
  let ?r1 = "r\<lparr>rb_buffer := (rb_buffer r)[rb_tail r := Some (values ! i)],
              rb_tail := rb_next_index r (rb_tail r), rb_size := rb_size r + 1\<rparr>"
  have split: "take (Suc k) (drop i values) = values ! i # take k (drop (i + 1) values)"
    using Suc.prems(2) by (simp add: Cons_nth_drop_Suc [symmetric])
  have step: "rb_emplace r (values ! i) = Inr ?r1"
    using Suc.prems(1) by (simp add: rb_emplace_def rb_full_def)
  have size_out: "(rb_push_loop vs j m (q\<lparr>rb_size := s\<rparr>))\<lparr>rb_size := t\<rparr>
      = (rb_push_loop vs j m q)\<lparr>rb_size := t\<rparr>" for vs j m and q :: "'a ring" and s t
  proof (induction vs j m q arbitrary: s rule: rb_push_loop.induct)
    case (2 vs i k r)
    then show ?case by (cases r) (simp add: rb_next_index_def)
  qed simp
  show ?case
    using Suc.IH [of ?r1 "i + 1"] Suc.prems split step
      size_out [where vs = "values" and j = "i + 1" and m = k and s = "rb_size r + 1"
          and q = "?r1\<lparr>rb_size := rb_size r\<rparr>" and t = "rb_size r + Suc k"]
    by simp
qed

lemma rb_push_loop_frame [simp]:
  "rb_size (rb_push_loop vs i k r) = rb_size r"
  "rb_capacity (rb_push_loop vs i k r) = rb_capacity r"
  by (induction vs i k r rule: rb_push_loop.induct) auto

lemma rb_emplace_all_ok:
  "rb_ok r \<Longrightarrow> rb_size r + length xs \<le> rb_capacity r \<Longrightarrow>
   \<exists>r'. rb_emplace_all r xs = Inr r' \<and> rb_ok r' \<and> rb_items r' = rb_items r @ xs \<and>
        rb_capacity r' = rb_capacity r"
proof (induction xs arbitrary: r)
  case (Cons x xs)
  then obtain r1 where r1: "rb_emplace r x = Inr r1" "rb_ok r1" "rb_items r1 = rb_items r @ [x]"
    "rb_capacity r1 = rb_capacity r"
    using rb_emplace_ok [of r x] by auto
  then have "rb_size r1 = Suc (rb_size r)"
    by (metis length_append_singleton length_rb_items)
  with Cons.IH [of r1] Cons.prems r1 show ?case by auto
qed simp

lemma rb_push_batch_emplace_all:
  assumes "rb_ok r" "rb_push_batch r values = (m, r')"
  shows "m = min (length values) (rb_capacity r - rb_size r)"
    and "rb_emplace_all r (take m values) = Inr r'"
proof -
  show m: "m = min (length values) (rb_capacity r - rb_size r)"
    using assms(2) by (auto simp: rb_push_batch_def Let_def split: if_splits)
  have "r' = (rb_push_loop values 0 m r)\<lparr>rb_size := rb_size r + m\<rparr>"
    using assms(2) by (auto simp: rb_push_batch_def Let_def)
  then show "rb_emplace_all r (take m values) = Inr r'"
    using rb_push_loop_emplace_all [of r m 0 "values"] m rb_ok_size_le [OF assms(1)] by simp
qed

lemma rb_push_batch_ok:
  assumes "rb_ok r" "rb_push_batch r values = (m, r')"
  shows "rb_ok r'" "rb_items r' = rb_items r @ take m values" "rb_capacity r' = rb_capacity r"
  using rb_push_batch_emplace_all [OF assms] rb_emplace_all_ok [OF assms(1), of "take m values"]
    rb_ok_size_le [OF assms(1)] by auto

lemma rb_pop_loop_pop_all:
  "rb_pop_all r k = Inr (xs, r') \<Longrightarrow> i + k \<le> length out \<Longrightarrow> k \<le> rb_size r \<Longrightarrow>
   length xs = k \<and>
   rb_pop_loop i k out (r\<lparr>rb_size := s\<rparr>) =
     Inr (take i out @ xs @ drop (i + k) out, r'\<lparr>rb_size := s\<rparr>) \<and>
   rb_size r' = rb_size r - k"
proof (induction k arbitrary: i r xs out)
  case 0
  then show ?case by auto
next
  case (Suc k)
  then obtain x r1 ys where pop: "rb_pop r = Inr (x, r1)" and all: "rb_pop_all r1 k = Inr (ys, r')"
    and xs: "xs = x # ys"
    by (auto split: sum.splits prod.splits)
  have cell: "rb_buffer r ! rb_head r = Some x"
    and r1: "r1 = r\<lparr>rb_buffer := (rb_buffer r)[rb_head r := None],
                   rb_head := rb_next_index r (rb_head r), rb_size := rb_size r - 1\<rparr>"
    using pop by (auto simp: rb_pop_def rb_front_def rb_pop_front_def
        split: if_splits option.splits)
  have i: "i < length out" using Suc.prems(2) by simp
  have "take (Suc i) (out[i := x]) = take i out @ [x]"
    using i by (simp add: take_Suc_conv_app_nth)
  moreover have "drop (Suc i + k) (out[i := x]) = drop (i + Suc k) out"
    by simp
  ultimately show ?case
    using Suc.IH [OF all, of "i + 1" "out[i := x]"] Suc.prems(2,3) cell r1 xs
    by (cases r) (auto simp: rb_next_index_def)
qed

lemma rb_pop_all_ok:
  "rb_ok r \<Longrightarrow> k \<le> rb_size r \<Longrightarrow>
   \<exists>r'. rb_pop_all r k = Inr (take k (rb_items r), r') \<and> rb_ok r' \<and>
        rb_items r' = drop k (rb_items r) \<and> rb_capacity r' = rb_capacity r"
proof (induction k arbitrary: r)
  case (Suc k)
  then obtain x xs where it: "rb_items r = x # xs"
    using length_rb_items [of r] by (cases "rb_items r") auto
  then obtain r1 where r1: "rb_pop r = Inr (x, r1)" "rb_ok r1" "rb_items r1 = xs"
    "rb_capacity r1 = rb_capacity r"
    using rb_pop_ok [OF Suc.prems(1) it] by auto
  then have "rb_size r1 = rb_size r - 1"
    using it length_rb_items [of r] length_rb_items [of r1] by simp
  then have "k \<le> rb_size r1"
    using Suc.prems(2) by simp
  then obtain r' where "rb_pop_all r1 k = Inr (take k (rb_items r1), r')" "rb_ok r'"
    "rb_items r' = drop k (rb_items r1)" "rb_capacity r' = rb_capacity r1"
    using Suc.IH [OF r1(2)] by blast
  with r1 it show ?case by simp
qed simp

text \<open>\<open>pop_batch\<close> never dereferences an empty slot, and hands out the oldest elements in order.\<close>

lemma rb_pop_batch_ok:
  assumes "rb_ok r"
  shows "\<exists>m r'. rb_pop_batch r out = Inr (m, take m (rb_items r) @ drop m out, r') \<and>
     m = min (length out) (rb_size r) \<and> rb_pop_all r m = Inr (take m (rb_items r), r') \<and>
     rb_ok r' \<and> rb_items r' = drop m (rb_items r) \<and> rb_capacity r' = rb_capacity r"
proof -
  define m where "m = (if length out \<le> rb_size r then length out else rb_size r)"
  have m: "m \<le> rb_size r" "m \<le> length out" "m = min (length out) (rb_size r)"
    by (auto simp: m_def)
  obtain r' where r': "rb_pop_all r m = Inr (take m (rb_items r), r')" "rb_ok r'"
    "rb_items r' = drop m (rb_items r)" "rb_capacity r' = rb_capacity r"
    using rb_pop_all_ok [OF assms m(1)] by auto
  have loop: "rb_pop_loop 0 m out r =
      Inr (take m (rb_items r) @ drop m out, r'\<lparr>rb_size := rb_size r\<rparr>)"
    and size: "rb_size r' = rb_size r - m"
    using rb_pop_loop_pop_all [OF r'(1), of 0 out "rb_size r"] m by auto
  have "rb_pop_batch r out = Inr (m, take m (rb_items r) @ drop m out, r')"
    using loop size by (simp add: rb_pop_batch_def flip: m_def)
  with r' m show ?thesis by blast
qed

section \<open>Properties\<close>

text \<open>
  C1. Over any sequence of pushes and pops on a new ring buffer (rejected calls included),
  the popped elements followed by what is still stored are exactly the accepted elements in
  the order they were pushed, and never more than the capacity is stored.
\<close>

theorem ring_buffer_fifo:
  assumes "rb_new c = Inr r" and "fifo_run rb_emplace rb_pop r os = (ins, outs, r')"
  shows "outs @ rb_items r' = ins \<and> length (rb_items r') \<le> c"
  using ring.run_fifo [OF _ assms(2)] ring.run_bounded [OF _ assms(2)] rb_new_ok [OF assms(1)]
  by auto

lemma ring_buffer_fifo_witness:
  "\<exists>r r'. rb_new 2 = Inr r \<and>
     fifo_run rb_emplace rb_pop r [Fifo_Push 1, Fifo_Push 2, Fifo_Push (3 :: nat), Fifo_Pop, Fifo_Push 4]
       = ([1, 2, 4], [1], r') \<and>
     [1] @ rb_items r' = [1, 2, 4] \<and> length (rb_items r') \<le> 2"
proof -
  obtain r where r: "rb_new 2 = (Inr r :: nat ring result)"
    by (simp add: rb_new_def)
  obtain r' where run: "fifo_run rb_emplace rb_pop r
      [Fifo_Push 1, Fifo_Push 2, Fifo_Push (3 :: nat), Fifo_Pop, Fifo_Push 4] = ([1, 2, 4], [1], r')"
    using r by (auto simp: rb_new_def rb_emplace_def rb_full_def rb_pop_def rb_front_def
        rb_pop_front_def rb_empty_def rb_next_index_def numeral_2_eq_2)
  show ?thesis
    using r run ring_buffer_fifo [OF r run] by blast
qed

text \<open>
  The batch operations are the single-element operations iterated: \<open>push_batch\<close> stores
  the longest prefix that fits and reaches the very state of that many \<open>emplace\<close> calls;
  \<open>pop_batch\<close> fills the front of the output span with the elements that that many \<open>pop\<close>
  calls return, reaches their state, and leaves the rest of the span alone. No empty slot is
  ever dereferenced.
\<close>

theorem ring_batch_equivalence:
  assumes "rb_ok r"
  shows "(\<exists>m r'. rb_push_batch r vs = (m, r') \<and> m = min (length vs) (rb_capacity r - rb_size r) \<and>
            rb_emplace_all r (take m vs) = Inr r') \<and>
         (\<exists>m xs r'. rb_pop_batch r out = Inr (m, xs @ drop m out, r') \<and>
            m = min (length out) (rb_size r) \<and> rb_pop_all r m = Inr (xs, r'))"
proof
  obtain m r' where "rb_push_batch r vs = (m, r')" by fastforce
  then show "\<exists>m r'. rb_push_batch r vs = (m, r') \<and>
      m = min (length vs) (rb_capacity r - rb_size r) \<and> rb_emplace_all r (take m vs) = Inr r'"
    using rb_push_batch_emplace_all [OF assms] by blast
  show "\<exists>m xs r'. rb_pop_batch r out = Inr (m, xs @ drop m out, r') \<and>
      m = min (length out) (rb_size r) \<and> rb_pop_all r m = Inr (xs, r')"
    using rb_pop_batch_ok [OF assms, of out] by blast
qed

lemma ring_batch_equivalence_witness:
  "\<exists>r :: nat ring. rb_new 2 = Inr r \<and>
     (\<exists>m r'. rb_push_batch r [5, 6, 7] = (m, r') \<and>
        m = min (length [5, 6, 7 :: nat]) (rb_capacity r - rb_size r) \<and>
        rb_emplace_all r (take m [5, 6, 7]) = Inr r')"
proof -
  obtain r :: "nat ring" where r: "rb_new 2 = Inr r"
    by (simp add: rb_new_def)
  then have "rb_ok r" by (simp add: rb_new_ok)
  from ring_batch_equivalence [OF this, of "[5, 6, 7]" "[]"] r show ?thesis by blast
qed

end
