(* ===== verification/Blocking_Queue.thy ===== *)
theory Blocking_Queue
  imports Ring_Buffer
begin

text \<open>
  \<open>BlockingQueue<T>\<close> of code/BlockingQueue/include/blocking_queue.hpp. Every public
  operation is one critical section of \<open>mutex_\<close>: it waits until a predicate of the
  protected state holds, then runs with the lock held, unlocks and notifies. An operation
  is therefore a function of the protected state that says whether the caller blocks, or
  what it returns, the new state and the notifications it then sends. The overloads for
  \<open>const T&\<close> and \<open>T&&\<close> store the same value and are one definition. The abstract
  queue at the end is the contract; the theorem there is that every operation implements it.
\<close>

section \<open>State and operations\<close>

record 'a bq =
  bq_capacity :: nat
  bq_ring :: "'a ring"
  bq_closed :: bool

definition bq_new :: "nat \<Rightarrow> 'a bq result" where
  "bq_new capacity =
     (case rb_new capacity of
        Inl e \<Rightarrow> throw e
      | Inr r \<Rightarrow>
          if capacity = 0
          then throw (Invalid_Argument ''BlockingQueue capacity must be greater than 0'')
          else ret \<lparr>bq_capacity = capacity, bq_ring = r, bq_closed = False\<rparr>)"

definition bq_not_full_pred :: "'a bq \<Rightarrow> bool" where
  "bq_not_full_pred q \<longleftrightarrow> bq_closed q \<or> \<not> rb_full (bq_ring q)"

definition bq_not_empty_pred :: "'a bq \<Rightarrow> bool" where
  "bq_not_empty_pred q \<longleftrightarrow> bq_closed q \<or> \<not> rb_empty (bq_ring q)"

text \<open>\<open>buffer_.emplace(value); lock.unlock(); not_empty_.notify_one(); return true;\<close>\<close>

definition bq_store :: "'a bq \<Rightarrow> 'a \<Rightarrow> (bool, 'a bq) outcome" where
  "bq_store q v =
     (case rb_emplace (bq_ring q) v of
        Inl e \<Rightarrow> Throws e
      | Inr r \<Rightarrow> Returns True (q\<lparr>bq_ring := r\<rparr>) [Notify_One Not_Empty])"

text \<open>\<open>value = std::move(buffer_.front()); buffer_.pop_front();\<close> and the notification.\<close>

definition bq_fetch :: "'a bq \<Rightarrow> (bool \<times> 'a, 'a bq) outcome" where
  "bq_fetch q =
     (case rb_front (bq_ring q) of
        Inl e \<Rightarrow> Throws e
      | Inr v \<Rightarrow>
          (case rb_pop_front (bq_ring q) of
             Inl e \<Rightarrow> Throws e
           | Inr r \<Rightarrow> Returns (True, v) (q\<lparr>bq_ring := r\<rparr>) [Notify_One Not_Full]))"

definition bq_push :: "'a bq \<Rightarrow> 'a \<Rightarrow> (bool, 'a bq) outcome" where
  "bq_push q v =
     (if \<not> bq_not_full_pred q then Blocked
      else if bq_closed q then Returns False q []
      else bq_store q v)"

text \<open>
  The private waits: \<open>None\<close> while the thread has to sleep, else the value returned.
  For the timed waits \<open>expired\<close> says whether the deadline has passed.
\<close>

definition bq_wait_not_full :: "'a bq \<Rightarrow> bool option" where
  "bq_wait_not_full q = (if \<not> bq_not_full_pred q then None else Some (\<not> bq_closed q))"

definition bq_wait_not_full_until :: "bool \<Rightarrow> 'a bq \<Rightarrow> bool option" where
  "bq_wait_not_full_until expired q =
     (if \<not> bq_not_full_pred q \<and> \<not> expired then None
      else let ready = bq_not_full_pred q in Some (ready \<and> \<not> bq_closed q))"

definition bq_wait_not_empty_until :: "bool \<Rightarrow> 'a bq \<Rightarrow> bool option" where
  "bq_wait_not_empty_until expired q =
     (if \<not> bq_not_empty_pred q \<and> \<not> expired then None
      else let ready = bq_not_empty_pred q in Some (ready \<and> \<not> rb_empty (bq_ring q)))"

definition bq_emplace :: "'a bq \<Rightarrow> 'a \<Rightarrow> (bool, 'a bq) outcome" where
  "bq_emplace q v =
     (case bq_wait_not_full q of
        None \<Rightarrow> Blocked
      | Some False \<Rightarrow> Returns False q []
      | Some True \<Rightarrow> bq_store q v)"

text \<open>The reference parameter \<open>value\<close> is passed in and returned, overwritten or not.\<close>

definition bq_pop :: "'a bq \<Rightarrow> 'a \<Rightarrow> (bool \<times> 'a, 'a bq) outcome" where
  "bq_pop q value =
     (if \<not> bq_not_empty_pred q then Blocked
      else if rb_empty (bq_ring q) then Returns (False, value) q []
      else bq_fetch q)"

definition bq_try_push :: "'a bq \<Rightarrow> 'a \<Rightarrow> (bool, 'a bq) outcome" where
  "bq_try_push q v =
     (if bq_closed q \<or> rb_full (bq_ring q) then Returns False q [] else bq_store q v)"

definition bq_push_for :: "bool \<Rightarrow> 'a bq \<Rightarrow> 'a \<Rightarrow> (bool, 'a bq) outcome" where
  "bq_push_for expired q v =
     (case bq_wait_not_full_until expired q of
        None \<Rightarrow> Blocked
      | Some False \<Rightarrow> Returns False q []
      | Some True \<Rightarrow> bq_store q v)"

definition bq_try_pop :: "'a bq \<Rightarrow> 'a \<Rightarrow> (bool \<times> 'a, 'a bq) outcome" where
  "bq_try_pop q value =
     (if rb_empty (bq_ring q) then Returns (False, value) q [] else bq_fetch q)"

definition bq_pop_for :: "bool \<Rightarrow> 'a bq \<Rightarrow> 'a \<Rightarrow> (bool \<times> 'a, 'a bq) outcome" where
  "bq_pop_for expired q value =
     (case bq_wait_not_empty_until expired q of
        None \<Rightarrow> Blocked
      | Some False \<Rightarrow> Returns (False, value) q []
      | Some True \<Rightarrow> bq_fetch q)"

definition bq_push_batch :: "'a bq \<Rightarrow> 'a list \<Rightarrow> (nat, 'a bq) outcome" where
  "bq_push_batch q vals =
     (if \<not> (bq_closed q \<or> vals = [] \<or> rb_size (bq_ring q) < rb_capacity (bq_ring q))
      then Blocked
      else if vals = [] \<or> bq_closed q then Returns 0 q []
      else let (pushed, r) = rb_push_batch (bq_ring q) vals
           in Returns pushed (q\<lparr>bq_ring := r\<rparr>) (if pushed > 0 then [Notify_One Not_Empty] else []))"

definition bq_pop_batch :: "'a bq \<Rightarrow> 'a list \<Rightarrow> (nat \<times> 'a list, 'a bq) outcome" where
  "bq_pop_batch q output =
     (if \<not> (bq_closed q \<or> output = [] \<or> \<not> rb_empty (bq_ring q)) then Blocked
      else if output = [] then Returns (0, output) q []
      else (case rb_pop_batch (bq_ring q) output of
              Inl e \<Rightarrow> Throws e
            | Inr (popped, output', r) \<Rightarrow>
                Returns (popped, output') (q\<lparr>bq_ring := r\<rparr>)
                  (if popped > 0 then [Notify_One Not_Full] else [])))"

definition bq_close :: "'a bq \<Rightarrow> (unit, 'a bq) outcome" where
  "bq_close q =
     (if bq_closed q then Returns () q []
      else Returns () (q\<lparr>bq_closed := True\<rparr>) [Notify_All Not_Empty, Notify_All Not_Full])"

definition bq_is_empty :: "'a bq \<Rightarrow> bool" where
  "bq_is_empty q = rb_empty (bq_ring q)"

definition bq_is_full :: "'a bq \<Rightarrow> bool" where
  "bq_is_full q = rb_full (bq_ring q)"

definition bq_size :: "'a bq \<Rightarrow> nat" where
  "bq_size q = rb_size (bq_ring q)"

section \<open>The public interface as calls\<close>

datatype 'a bq_call =
    Push 'a | Emplace 'a | Pop 'a | Try_Push 'a | Push_For 'a | Try_Pop 'a | Pop_For 'a
  | Push_Batch "'a list" | Pop_Batch "'a list" | Close

datatype 'a bq_reply =
    R_Bool bool | R_Value bool 'a | R_Count nat | R_Out nat "'a list" | R_Unit

fun bq_exec :: "'a bq_call \<Rightarrow> bool \<Rightarrow> 'a bq \<Rightarrow> ('a bq_reply, 'a bq) outcome" where
  "bq_exec (Push v) expired q = map_reply R_Bool (bq_push q v)"
| "bq_exec (Emplace v) expired q = map_reply R_Bool (bq_emplace q v)"
| "bq_exec (Pop v) expired q = map_reply (\<lambda>(b, x). R_Value b x) (bq_pop q v)"
| "bq_exec (Try_Push v) expired q = map_reply R_Bool (bq_try_push q v)"
| "bq_exec (Push_For v) expired q = map_reply R_Bool (bq_push_for expired q v)"
| "bq_exec (Try_Pop v) expired q = map_reply (\<lambda>(b, x). R_Value b x) (bq_try_pop q v)"
| "bq_exec (Pop_For v) expired q = map_reply (\<lambda>(b, x). R_Value b x) (bq_pop_for expired q v)"
| "bq_exec (Push_Batch vs) expired q = map_reply R_Count (bq_push_batch q vs)"
| "bq_exec (Pop_Batch out) expired q = map_reply (\<lambda>(n, xs). R_Out n xs) (bq_pop_batch q out)"
| "bq_exec Close expired q = map_reply (\<lambda>_. R_Unit) (bq_close q)"

section \<open>The contract: an abstract bounded queue\<close>

record 'a aq =
  aq_items :: "'a list"
  aq_cap :: nat
  aq_closed :: bool

definition aq_put :: "bool \<Rightarrow> 'a \<Rightarrow> 'a aq \<Rightarrow> ('a bq_reply, 'a aq) outcome" where
  "aq_put may_wait v q =
     (if aq_closed q then Returns (R_Bool False) q []
      else if length (aq_items q) < aq_cap q
      then Returns (R_Bool True) (q\<lparr>aq_items := aq_items q @ [v]\<rparr>) [Notify_One Not_Empty]
      else if may_wait then Blocked else Returns (R_Bool False) q [])"

definition aq_take :: "bool \<Rightarrow> 'a \<Rightarrow> 'a aq \<Rightarrow> ('a bq_reply, 'a aq) outcome" where
  "aq_take may_wait v q =
     (case aq_items q of
        x # xs \<Rightarrow> Returns (R_Value True x) (q\<lparr>aq_items := xs\<rparr>) [Notify_One Not_Full]
      | [] \<Rightarrow> if may_wait \<and> \<not> aq_closed q then Blocked else Returns (R_Value False v) q [])"

text \<open>\<open>aq_exec\<close>: elements are accepted while open and not full, handed out oldest first.\<close>

fun aq_exec :: "'a bq_call \<Rightarrow> bool \<Rightarrow> 'a aq \<Rightarrow> ('a bq_reply, 'a aq) outcome" where
  "aq_exec (Push v) expired q = aq_put True v q"
| "aq_exec (Emplace v) expired q = aq_put True v q"
| "aq_exec (Try_Push v) expired q = aq_put False v q"
| "aq_exec (Push_For v) expired q = aq_put (\<not> expired) v q"
| "aq_exec (Pop v) expired q = aq_take True v q"
| "aq_exec (Try_Pop v) expired q = aq_take False v q"
| "aq_exec (Pop_For v) expired q = aq_take (\<not> expired) v q"
| "aq_exec (Push_Batch vs) expired q =
     (let n = min (length vs) (aq_cap q - length (aq_items q))
      in if vs = [] \<or> aq_closed q then Returns (R_Count 0) q []
         else if n = 0 then Blocked
         else Returns (R_Count n) (q\<lparr>aq_items := aq_items q @ take n vs\<rparr>)
                [Notify_One Not_Empty])"
| "aq_exec (Pop_Batch out) expired q =
     (let n = min (length out) (length (aq_items q))
      in if n > 0
         then Returns (R_Out n (take n (aq_items q) @ drop n out))
                (q\<lparr>aq_items := drop n (aq_items q)\<rparr>) [Notify_One Not_Full]
         else if out = [] \<or> aq_closed q then Returns (R_Out 0 out) q [] else Blocked)"
| "aq_exec Close expired q =
     (if aq_closed q then Returns R_Unit q []
      else Returns R_Unit (q\<lparr>aq_closed := True\<rparr>) [Notify_All Not_Empty, Notify_All Not_Full])"

definition bq_abs :: "'a bq \<Rightarrow> 'a aq" where
  "bq_abs q = \<lparr>aq_items = rb_items (bq_ring q), aq_cap = bq_capacity q, aq_closed = bq_closed q\<rparr>"

definition bq_ok :: "'a bq \<Rightarrow> bool" where
  "bq_ok q \<longleftrightarrow> rb_ok (bq_ring q) \<and> rb_capacity (bq_ring q) = bq_capacity q"

lemma bq_new_ok:
  "bq_new c = Inr q \<Longrightarrow> bq_ok q \<and> bq_abs q = \<lparr>aq_items = [], aq_cap = c, aq_closed = False\<rparr>"
  by (auto simp: bq_new_def bq_ok_def bq_abs_def dest: rb_new_ok split: sum.splits if_splits)

lemma bq_abs_simps [simp]:
  "aq_items (bq_abs q) = rb_items (bq_ring q)"
  "aq_cap (bq_abs q) = bq_capacity q"
  "aq_closed (bq_abs q) = bq_closed q"
  by (simp_all add: bq_abs_def)

lemma bq_full_iff: "bq_ok q \<Longrightarrow> rb_full (bq_ring q) \<longleftrightarrow> \<not> rb_size (bq_ring q) < bq_capacity q"
  using rb_ok_size_le [of "bq_ring q"] by (auto simp: bq_ok_def rb_full_def)

text \<open>The two ways an operation touches the ring buffer, through the queue interface.\<close>

lemma bq_store_spec:
  assumes "bq_ok q" "rb_size (bq_ring q) < bq_capacity q"
  shows "\<exists>q'. bq_store q v = Returns True q' [Notify_One Not_Empty] \<and> bq_ok q' \<and>
     bq_abs q' = (bq_abs q)\<lparr>aq_items := rb_items (bq_ring q) @ [v]\<rparr>"
  using ring.push_accepts [of "bq_ring q" v] assms
  by (auto simp: bq_store_def bq_ok_def bq_abs_def)

lemma bq_fetch_spec:
  assumes "bq_ok q" "rb_items (bq_ring q) = x # xs"
  shows "\<exists>q'. bq_fetch q = Returns (True, x) q' [Notify_One Not_Full] \<and> bq_ok q' \<and>
     bq_abs q' = (bq_abs q)\<lparr>aq_items := xs\<rparr>"
  using rb_front_ok [of "bq_ring q" x xs] rb_pop_front_ok [of "bq_ring q" x xs] assms
  by (auto simp: bq_fetch_def bq_ok_def bq_abs_def)

text \<open>What a call does to the invariant, and that it never throws.\<close>

definition outcome_ok :: "('r, 'a bq) outcome \<Rightarrow> ('r, 'a aq) outcome \<Rightarrow> bool" where
  "outcome_ok c a \<longleftrightarrow> map_state bq_abs c = a \<and>
     (case c of Blocked \<Rightarrow> True | Returns r q ns \<Rightarrow> bq_ok q | Throws e \<Rightarrow> False)"

lemma outcome_ok_simps [simp]:
  "outcome_ok Blocked a \<longleftrightarrow> a = Blocked"
  "outcome_ok (Returns r q ns) a \<longleftrightarrow> a = Returns r (bq_abs q) ns \<and> bq_ok q"
  "\<not> outcome_ok (Throws e) a"
  by (auto simp: outcome_ok_def)

lemma bq_put_refines:
  assumes "bq_ok q"
  shows "outcome_ok (map_reply R_Bool (bq_push q v)) (aq_put True v (bq_abs q))"
    "outcome_ok (map_reply R_Bool (bq_emplace q v)) (aq_put True v (bq_abs q))"
    "outcome_ok (map_reply R_Bool (bq_try_push q v)) (aq_put False v (bq_abs q))"
    "outcome_ok (map_reply R_Bool (bq_push_for expired q v)) (aq_put (\<not> expired) v (bq_abs q))"
  using bq_store_spec [OF assms, of v] assms bq_full_iff [OF assms]
  by (auto simp: bq_push_def bq_emplace_def bq_try_push_def bq_push_for_def aq_put_def
      bq_wait_not_full_def bq_wait_not_full_until_def bq_not_full_pred_def Let_def)

lemma bq_take_refines:
  assumes "bq_ok q"
  shows "outcome_ok (map_reply (\<lambda>(b, x). R_Value b x) (bq_pop q v)) (aq_take True v (bq_abs q))"
    "outcome_ok (map_reply (\<lambda>(b, x). R_Value b x) (bq_try_pop q v)) (aq_take False v (bq_abs q))"
    "outcome_ok (map_reply (\<lambda>(b, x). R_Value b x) (bq_pop_for expired q v))
       (aq_take (\<not> expired) v (bq_abs q))"
  using bq_fetch_spec [OF assms] assms
  by (auto simp: bq_pop_def bq_try_pop_def bq_pop_for_def aq_take_def rb_empty_iff
      bq_wait_not_empty_until_def bq_not_empty_pred_def Let_def neq_Nil_conv split: list.splits)

lemma bq_push_batch_refines:
  assumes "bq_ok q"
  shows "outcome_ok (map_reply R_Count (bq_push_batch q vs)) (aq_exec (Push_Batch vs) e (bq_abs q))"
proof -
  obtain n r where b: "rb_push_batch (bq_ring q) vs = (n, r)" by fastforce
  have ok: "rb_ok (bq_ring q)" "rb_capacity (bq_ring q) = bq_capacity q"
    using assms by (auto simp: bq_ok_def)
  show ?thesis
    using rb_push_batch_emplace_all(1) [OF ok(1) b] rb_push_batch_ok [OF ok(1) b] ok b
    by (auto simp: bq_push_batch_def bq_ok_def bq_abs_def Let_def min_def split: if_splits)
qed

lemma bq_pop_batch_refines:
  assumes "bq_ok q"
  shows "outcome_ok (map_reply (\<lambda>(n, xs). R_Out n xs) (bq_pop_batch q out))
           (aq_exec (Pop_Batch out) e (bq_abs q))"
proof -
  have ok: "rb_ok (bq_ring q)" "rb_capacity (bq_ring q) = bq_capacity q"
    using assms by (auto simp: bq_ok_def)
  obtain m r where
    "rb_pop_batch (bq_ring q) out
       = Inr (m, take m (rb_items (bq_ring q)) @ drop m out, r)"
    "m = min (length out) (rb_size (bq_ring q))" "rb_ok r"
    "rb_items r = drop m (rb_items (bq_ring q))" "rb_capacity r = rb_capacity (bq_ring q)"
    using rb_pop_batch_ok [OF ok(1), of out] by blast
  with ok show ?thesis
    by (auto simp: bq_pop_batch_def bq_ok_def bq_abs_def Let_def rb_empty_def)
qed

lemma bq_exec_ok: "bq_ok q \<Longrightarrow> outcome_ok (bq_exec c e q) (aq_exec c e (bq_abs q))"
  by (cases c)
    (simp_all add: bq_put_refines bq_take_refines bq_push_batch_refines bq_pop_batch_refines
      del: aq_exec.simps(8,9),
     auto simp: bq_close_def bq_ok_def bq_abs_def)

section \<open>Properties\<close>

text \<open>
  C2. Refinement: on a well-formed queue every operation, blocking, timed or not, single or
  batch, behaves as the abstract bounded queue does: it blocks in the same states, returns
  the same value, sends the same notifications and reaches a state with the abstract
  operation's content; it never throws, and the queue stays well-formed.
\<close>

theorem blocking_queue_refines:
  assumes "bq_ok q"
  shows "map_state bq_abs (bq_exec c expired q) = aq_exec c expired (bq_abs q) \<and>
    (\<forall>r q' ns. bq_exec c expired q = Returns r q' ns \<longrightarrow> bq_ok q') \<and>
    (\<forall>e. bq_exec c expired q \<noteq> Throws e)"
  using bq_exec_ok [OF assms, of c expired] by (cases "bq_exec c expired q") auto

lemma blocking_queue_refines_witness:
  "\<exists>q :: nat bq. bq_new 1 = Inr q \<and>
     map_state bq_abs (bq_exec (Push 5) False q) = aq_exec (Push 5) False (bq_abs q)"
proof -
  obtain q :: "nat bq" where q: "bq_new 1 = Inr q"
    by (simp add: bq_new_def rb_new_def)
  then have "bq_ok q" by (simp add: bq_new_ok)
  from blocking_queue_refines [OF this] q show ?thesis by blast
qed

end
