(* ===== verification/Blocking_Queue_Threads.thy ===== *)
theory Blocking_Queue_Threads
  imports Blocking_Queue
begin

text \<open>
  Any number of threads using one blocking queue. A thread calls an operation, evaluates
  its critical section, sleeps on the condition variable of its wait when it has to, and
  sends its notifications one by one after unlocking. Which thread moves, when a deadline
  passes, which sleeper a \<open>notify_one\<close> wakes and when a spurious wakeup happens is not
  determined. Two history variables record the elements accepted and handed out, in the
  order of the critical sections.
\<close>

section \<open>Threads\<close>

datatype 'a bq_pc =
    Idle
  | Enter "'a bq_call" bool
  | Asleep cv "'a bq_call"
  | Notifying "notify list"

record 'a bq_sys =
  sys_q :: "'a bq"
  sys_pcs :: "'a bq_pc list"
  sys_in :: "'a list"
  sys_out :: "'a list"

text \<open>The condition variable an operation waits on, and whether its wait has a deadline.\<close>

fun bq_call_cv :: "'a bq_call \<Rightarrow> cv" where
  "bq_call_cv (Pop v) = Not_Empty"
| "bq_call_cv (Pop_For v) = Not_Empty"
| "bq_call_cv (Try_Pop v) = Not_Empty"
| "bq_call_cv (Pop_Batch out) = Not_Empty"
| "bq_call_cv _ = Not_Full"

fun bq_call_timed :: "'a bq_call \<Rightarrow> bool" where
  "bq_call_timed (Push_For v) = True"
| "bq_call_timed (Pop_For v) = True"
| "bq_call_timed _ = False"

text \<open>The elements a call that returned has added or removed.\<close>

fun bq_added :: "'a bq_call \<Rightarrow> 'a bq_reply \<Rightarrow> 'a list" where
  "bq_added (Push v) (R_Bool True) = [v]"
| "bq_added (Emplace v) (R_Bool True) = [v]"
| "bq_added (Try_Push v) (R_Bool True) = [v]"
| "bq_added (Push_For v) (R_Bool True) = [v]"
| "bq_added (Push_Batch vs) (R_Count n) = take n vs"
| "bq_added _ _ = []"

fun bq_removed :: "'a bq_call \<Rightarrow> 'a bq_reply \<Rightarrow> 'a list" where
  "bq_removed (Pop v) (R_Value True x) = [x]"
| "bq_removed (Try_Pop v) (R_Value True x) = [x]"
| "bq_removed (Pop_For v) (R_Value True x) = [x]"
| "bq_removed (Pop_Batch out) (R_Out n xs) = take n xs"
| "bq_removed _ _ = []"

definition wake :: "cv \<Rightarrow> 'a bq_pc \<Rightarrow> 'a bq_pc" where
  "wake cv pc = (case pc of Asleep cv' c \<Rightarrow> (if cv' = cv then Enter c False else pc) | _ \<Rightarrow> pc)"

definition asleep_on :: "cv \<Rightarrow> 'a bq_pc \<Rightarrow> bool" where
  "asleep_on cv pc \<longleftrightarrow> (case pc of Asleep cv' c \<Rightarrow> cv' = cv | _ \<Rightarrow> False)"

text \<open>
  The steps of thread \<open>t\<close>. \<open>bqs_run\<close> and \<open>bqs_block\<close> are the critical section; \<open>bqs_block\<close> releases
  the lock and sleeps atomically, as \<open>condition_variable::wait\<close> does.
\<close>

inductive bq_step :: "('a bq_call \<Rightarrow> bool) \<Rightarrow> 'a bq_sys \<Rightarrow> 'a bq_sys \<Rightarrow> bool"
  for used :: "'a bq_call \<Rightarrow> bool" where
  bqs_call: "t < length (sys_pcs s) \<Longrightarrow> sys_pcs s ! t = Idle \<Longrightarrow> used c \<Longrightarrow>
    bq_step used s (s\<lparr>sys_pcs := (sys_pcs s)[t := Enter c False]\<rparr>)"
| bqs_run: "t < length (sys_pcs s) \<Longrightarrow> sys_pcs s ! t = Enter c e \<Longrightarrow>
    bq_exec c e (sys_q s) = Returns r q ns \<Longrightarrow>
    bq_step used s (s\<lparr>sys_q := q, sys_pcs := (sys_pcs s)[t := Notifying ns],
                     sys_in := sys_in s @ bq_added c r, sys_out := sys_out s @ bq_removed c r\<rparr>)"
| bqs_block: "t < length (sys_pcs s) \<Longrightarrow> sys_pcs s ! t = Enter c e \<Longrightarrow>
    bq_exec c e (sys_q s) = Blocked \<Longrightarrow>
    bq_step used s (s\<lparr>sys_pcs := (sys_pcs s)[t := Asleep (bq_call_cv c) c]\<rparr>)"
| bqs_expire: "t < length (sys_pcs s) \<Longrightarrow> sys_pcs s ! t = Asleep cv c \<Longrightarrow> bq_call_timed c \<Longrightarrow>
    bq_step used s (s\<lparr>sys_pcs := (sys_pcs s)[t := Enter c True]\<rparr>)"
| bqs_spurious: "t < length (sys_pcs s) \<Longrightarrow> sys_pcs s ! t = Asleep cv c \<Longrightarrow>
    bq_step used s (s\<lparr>sys_pcs := (sys_pcs s)[t := Enter c False]\<rparr>)"
| bqs_notify_one: "t < length (sys_pcs s) \<Longrightarrow> sys_pcs s ! t = Notifying (Notify_One cv # ns) \<Longrightarrow>
    u < length (sys_pcs s) \<Longrightarrow> sys_pcs s ! u = Asleep cv c \<Longrightarrow>
    bq_step used s (s\<lparr>sys_pcs := (sys_pcs s)[t := Notifying ns, u := Enter c False]\<rparr>)"
| bqs_notify_none: "t < length (sys_pcs s) \<Longrightarrow> sys_pcs s ! t = Notifying (Notify_One cv # ns) \<Longrightarrow>
    \<forall>pc \<in> set (sys_pcs s). \<not> asleep_on cv pc \<Longrightarrow>
    bq_step used s (s\<lparr>sys_pcs := (sys_pcs s)[t := Notifying ns]\<rparr>)"
| bqs_notify_all: "t < length (sys_pcs s) \<Longrightarrow> sys_pcs s ! t = Notifying (Notify_All cv # ns) \<Longrightarrow>
    bq_step used s (s\<lparr>sys_pcs := map (wake cv) ((sys_pcs s)[t := Notifying ns])\<rparr>)"
| bqs_done: "t < length (sys_pcs s) \<Longrightarrow> sys_pcs s ! t = Notifying [] \<Longrightarrow>
    bq_step used s (s\<lparr>sys_pcs := (sys_pcs s)[t := Idle]\<rparr>)"

inductive_cases bq_stepE: "bq_step used s t"

text \<open>Initially the queue is new and \<open>n\<close> threads are idle.\<close>

definition bq_init :: "nat \<Rightarrow> nat \<Rightarrow> 'a bq_sys \<Rightarrow> bool" where
  "bq_init capacity n s \<longleftrightarrow>
     bq_new capacity = Inr (sys_q s) \<and> sys_pcs s = replicate n Idle \<and>
     sys_in s = [] \<and> sys_out s = []"

section \<open>First in, first out across threads\<close>

definition bq_fifo_inv :: "nat \<Rightarrow> 'a bq_sys \<Rightarrow> bool" where
  "bq_fifo_inv capacity s \<longleftrightarrow>
     bq_ok (sys_q s) \<and> bq_capacity (sys_q s) = capacity \<and>
     sys_in s = sys_out s @ rb_items (bq_ring (sys_q s))"

text \<open>One call, on the contract: what it adds and removes is what its reply says.\<close>

lemma aq_exec_history:
  "aq_exec c e q = Returns r q' ns \<Longrightarrow>
   aq_items q @ bq_added c r = bq_removed c r @ aq_items q' \<and> aq_cap q' = aq_cap q \<and>
   aq_closed q' = (aq_closed q \<or> c = Close)"
  by (cases c)
    (auto simp: aq_put_def aq_take_def Let_def min_def split: if_splits list.splits)

lemma bq_exec_Returns:
  assumes "bq_ok q" "bq_exec c e q = Returns r q' ns"
  shows "bq_ok q'" "aq_exec c e (bq_abs q) = Returns r (bq_abs q') ns"
  using bq_exec_ok [OF assms(1), of c e] assms(2) by auto

lemma bq_exec_Blocked:
  assumes "bq_ok q" "bq_exec c e q = Blocked"
  shows "aq_exec c e (bq_abs q) = Blocked"
  using bq_exec_ok [OF assms(1), of c e] assms(2) by auto

interpretation bq_fifo: invariant_system "bq_init capacity n" "bq_step used" "bq_fifo_inv capacity"
proof unfold_locales
  fix s :: "'a bq_sys"
  show "bq_init capacity n s \<Longrightarrow> bq_fifo_inv capacity s"
    using bq_new_ok [of capacity "sys_q s"]
    by (auto simp: bq_init_def bq_fifo_inv_def bq_abs_def)
next
  fix s t :: "'a bq_sys"
  assume "bq_step used s t" and inv: "bq_fifo_inv capacity s"
  then show "bq_fifo_inv capacity t"
  proof cases
    case (bqs_run t c e r q ns)
    have "bq_ok (sys_q s)" using inv by (simp add: bq_fifo_inv_def)
    note ret = bq_exec_Returns [OF this bqs_run(4)]
    show ?thesis
      using aq_exec_history [OF ret(2)] ret(1) inv bqs_run(1) by (auto simp: bq_fifo_inv_def)
  qed (use inv in \<open>auto simp: bq_fifo_inv_def\<close>)
qed


section \<open>No lost wakeup with single-element operations\<close>

text \<open>
  The credit of a thread for a condition variable: the notifications on it the thread has
  still to send, and one if it is about to run an operation that waits on it. While the
  queue is open and somebody sleeps on the variable, the available elements (or free
  cells) are covered by credit: each of them has a thread that is on its way.
\<close>

fun single_element :: "'a bq_call \<Rightarrow> bool" where
  "single_element (Push_Batch vs) = False"
| "single_element (Pop_Batch out) = False"
| "single_element _ = True"

definition credit :: "cv \<Rightarrow> 'a bq_pc \<Rightarrow> nat" where
  "credit cv pc =
     (case pc of
        Notifying ns \<Rightarrow> count_list ns (Notify_One cv)
      | Enter c e \<Rightarrow> of_bool (bq_call_cv c = cv \<and> c \<noteq> Close)
      | _ \<Rightarrow> 0)"

lemma credit_simps [simp]:
  "credit cv Idle = 0"
  "credit cv (Asleep cv' c) = 0"
  "credit cv (Notifying ns) = count_list ns (Notify_One cv)"
  "credit cv (Enter c e) = of_bool (bq_call_cv c = cv \<and> c \<noteq> Close)"
  by (simp_all add: credit_def)

definition total_credit :: "cv \<Rightarrow> 'a bq_pc list \<Rightarrow> nat" where
  "total_credit cv pcs = sum_list (map (credit cv) pcs)"

fun available :: "cv \<Rightarrow> 'a bq \<Rightarrow> nat" where
  "available Not_Empty q = bq_size q"
| "available Not_Full q = bq_capacity q - bq_size q"

fun pc_wf :: "'a bq_pc \<Rightarrow> bool" where
  "pc_wf (Asleep cv c) \<longleftrightarrow> cv = bq_call_cv c \<and> c \<noteq> Close \<and> single_element c"
| "pc_wf (Enter c e) \<longleftrightarrow> single_element c"
| "pc_wf _ \<longleftrightarrow> True"

definition announces :: "cv \<Rightarrow> 'a bq_pc \<Rightarrow> bool" where
  "announces cv pc \<longleftrightarrow> (case pc of Notifying ns \<Rightarrow> Notify_All cv \<in> set ns | _ \<Rightarrow> False)"

definition wakeup_inv :: "'a bq_sys \<Rightarrow> bool" where
  "wakeup_inv s \<longleftrightarrow>
     bq_ok (sys_q s) \<and> (\<forall>pc \<in> set (sys_pcs s). pc_wf pc) \<and>
     (\<forall>cv. (\<exists>pc \<in> set (sys_pcs s). asleep_on cv pc) \<longrightarrow>
        (if bq_closed (sys_q s) then \<exists>pc \<in> set (sys_pcs s). announces cv pc
         else available cv (sys_q s) \<le> total_credit cv (sys_pcs s)))"

lemma asleep_on_simps [simp]:
  "\<not> asleep_on cv Idle" "\<not> asleep_on cv (Enter c e)" "\<not> asleep_on cv (Notifying ns)"
  "asleep_on cv (Asleep cv' c) \<longleftrightarrow> cv' = cv"
  by (auto simp: asleep_on_def)

lemma announces_simps [simp]:
  "\<not> announces cv Idle" "\<not> announces cv (Enter c e)" "\<not> announces cv (Asleep cv' c)"
  "announces cv (Notifying ns) \<longleftrightarrow> Notify_All cv \<in> set ns"
  by (auto simp: announces_def)

text \<open>What one single-element call does, in the terms of the invariant.\<close>

lemma aq_exec_single:
  assumes "aq_exec c e q = Returns r q' ns" "single_element c" "c \<noteq> Close" "\<not> aq_closed q"
  shows "\<not> aq_closed q' \<and> aq_cap q' = aq_cap q \<and>
    (if bq_call_cv c = Not_Full
     then (if ns = [] then aq_cap q \<le> length (aq_items q) \<and>
             length (aq_items q') = length (aq_items q)
           else ns = [Notify_One Not_Empty] \<and> length (aq_items q') = Suc (length (aq_items q)))
     else (if ns = [] then length (aq_items q) = 0 \<and> length (aq_items q') = 0
           else ns = [Notify_One Not_Full] \<and> Suc (length (aq_items q')) = length (aq_items q)))"
  using assms by (cases c) (auto simp: aq_put_def aq_take_def split: if_splits list.splits)

lemma aq_exec_closed:
  "aq_closed q \<Longrightarrow> aq_exec c e q \<noteq> Blocked"
  by (cases c) (auto simp: aq_put_def aq_take_def Let_def split: list.splits)

lemma aq_exec_Blocked_single:
  "aq_exec c e q = Blocked \<Longrightarrow> single_element c \<Longrightarrow>
   \<not> aq_closed q \<and> c \<noteq> Close \<and>
   (if bq_call_cv c = Not_Full then aq_cap q \<le> length (aq_items q) else aq_items q = [])"
  by (cases c) (auto simp: aq_put_def aq_take_def split: if_splits list.splits)

lemma cv_other: "cv \<noteq> Not_Empty \<Longrightarrow> cv = Not_Full" "cv \<noteq> Not_Full \<Longrightarrow> cv = Not_Empty"
  by (cases cv; simp)+

lemma total_credit_update:
  "t < length pcs \<Longrightarrow>
   total_credit cv (pcs[t := y]) + credit cv (pcs ! t) = total_credit cv pcs + credit cv y"
  by (simp add: total_credit_def sum_list_map_update)

lemma credit_le_total: "t < length pcs \<Longrightarrow> credit cv (pcs ! t) \<le> total_credit cv pcs"
  by (simp add: total_credit_def sum_list_map_member_le)

text \<open>Steps that touch one program counter only and lose no credit and no announcement.\<close>

lemma wakeup_update:
  assumes inv: "wakeup_inv s" and t: "t < length (sys_pcs s)" and wf: "pc_wf y"
    and "\<And>cv. \<not> asleep_on cv y"
    and "\<And>cv. announces cv (sys_pcs s ! t) \<Longrightarrow> announces cv y"
    and "\<And>cv. credit cv (sys_pcs s ! t) \<le> credit cv y"
  shows "wakeup_inv (s\<lparr>sys_pcs := (sys_pcs s)[t := y]\<rparr>)"
proof -
  let ?pcs = "sys_pcs s"
  have "if bq_closed (sys_q s) then \<exists>pc \<in> set (?pcs[t := y]). announces cv pc
        else available cv (sys_q s) \<le> total_credit cv (?pcs[t := y])"
    if "\<exists>pc \<in> set (?pcs[t := y]). asleep_on cv pc" for cv
  proof -
    have "\<exists>pc \<in> set ?pcs. asleep_on cv pc"
      using Bex_list_update_old [OF that] assms(4) by blast
    then have old: "if bq_closed (sys_q s) then \<exists>pc \<in> set ?pcs. announces cv pc
        else available cv (sys_q s) \<le> total_credit cv ?pcs"
      using inv by (auto simp: wakeup_inv_def)
    have "total_credit cv ?pcs \<le> total_credit cv (?pcs[t := y])"
      using total_credit_update [OF t, of cv y] assms(6) [of cv] by linarith
    moreover have "\<exists>pc \<in> set (?pcs[t := y]). announces cv pc"
      if "\<exists>pc \<in> set ?pcs. announces cv pc"
      using Bex_list_update_keep [OF that, of t y] assms(5) t by blast
    ultimately show ?thesis
      using old by (auto split: if_splits)
  qed
  moreover have "\<forall>pc \<in> set (?pcs[t := y]). pc_wf pc"
    using inv wf by (intro Ball_list_update) (auto simp: wakeup_inv_def)
  ultimately show ?thesis
    using inv by (simp add: wakeup_inv_def)
qed

text \<open>The critical section of a call, and going to sleep.\<close>

lemma wakeup_run:
  assumes inv: "wakeup_inv s" and t: "t < length (sys_pcs s)" "sys_pcs s ! t = Enter c e"
    and ret: "bq_exec c e (sys_q s) = Returns r q ns"
  shows "wakeup_inv (s\<lparr>sys_q := q, sys_pcs := (sys_pcs s)[t := Notifying ns],
                       sys_in := xs, sys_out := ys\<rparr>)"
proof -
  let ?pcs = "sys_pcs s" and ?y = "Notifying ns :: 'a bq_pc"
  have ok: "bq_ok (sys_q s)" and single: "single_element c"
    using inv t nth_mem [OF t(1)] by (auto simp: wakeup_inv_def)
  note q = bq_exec_Returns [OF ok ret]
  have hist: "bq_closed q = (bq_closed (sys_q s) \<or> c = Close)"
    using aq_exec_history [OF q(2)] by simp
  have old: "if bq_closed (sys_q s) then \<exists>pc \<in> set ?pcs. announces cv pc
      else available cv (sys_q s) \<le> total_credit cv ?pcs"
    if "\<exists>pc \<in> set (?pcs[t := ?y]). asleep_on cv pc" for cv
    using Bex_list_update_old [OF that] inv by (auto simp: wakeup_inv_def)
  have keep: "\<exists>pc \<in> set (?pcs[t := ?y]). announces cv pc"
    if "\<exists>pc \<in> set ?pcs. announces cv pc" for cv
    using Bex_list_update_keep [OF that, of t ?y] t by simp
  have "if bq_closed q then \<exists>pc \<in> set (?pcs[t := ?y]). announces cv pc
        else available cv q \<le> total_credit cv (?pcs[t := ?y])"
    if sl: "\<exists>pc \<in> set (?pcs[t := ?y]). asleep_on cv pc" for cv
  proof (cases "bq_closed (sys_q s)")
    case True
    then show ?thesis using old [OF sl] keep hist by simp
  next
    case open_q: False
    show ?thesis
    proof (cases "c = Close")
      case True
      then have "announces cv ?y"
        using ret open_q by (cases cv) (auto simp: bq_close_def)
      then show ?thesis
        using True hist bexI [OF _ set_update_memI [OF t(1), of ?y], of "announces cv"] by simp
    next
      case False
      note one = aq_exec_single [OF q(2) single False]
      have cap: "bq_size q \<le> bq_capacity q"
        using q(1) rb_ok_size_le [of "bq_ring q"] by (auto simp: bq_ok_def bq_size_def)
      have "available cv (sys_q s) \<le> total_credit cv ?pcs"
        using old [OF sl] open_q by simp
      moreover have "available cv q + credit cv (Enter c e) \<le> available cv (sys_q s) + credit cv ?y
          \<or> available cv q = 0"
        using one open_q False cap
        by (cases cv; cases "bq_call_cv c") (auto simp: bq_size_def split: if_splits)
      ultimately have "available cv q \<le> total_credit cv (?pcs[t := ?y])"
        using total_credit_update [OF t(1), of cv ?y] t(2) by auto
      then show ?thesis using hist open_q False by simp
    qed
  qed
  moreover have "\<forall>pc \<in> set (?pcs[t := ?y]). pc_wf pc"
    using inv by (intro Ball_list_update) (auto simp: wakeup_inv_def)
  ultimately show ?thesis
    using q(1) by (simp add: wakeup_inv_def)
qed

lemma wakeup_block:
  assumes inv: "wakeup_inv s" and t: "t < length (sys_pcs s)" "sys_pcs s ! t = Enter c e"
    and blk: "bq_exec c e (sys_q s) = Blocked"
  shows "wakeup_inv (s\<lparr>sys_pcs := (sys_pcs s)[t := Asleep (bq_call_cv c) c]\<rparr>)"
proof -
  let ?pcs = "sys_pcs s" and ?y = "Asleep (bq_call_cv c) c :: 'a bq_pc"
  have ok: "bq_ok (sys_q s)" and single: "single_element c"
    using inv t nth_mem [OF t(1)] by (auto simp: wakeup_inv_def)
  note b = aq_exec_Blocked_single [OF bq_exec_Blocked [OF ok blk] single]
  have "available cv (sys_q s) \<le> total_credit cv (?pcs[t := ?y])"
    if sl: "\<exists>pc \<in> set (?pcs[t := ?y]). asleep_on cv pc" for cv
  proof (cases "cv = bq_call_cv c")
    case True
    then have "available cv (sys_q s) = 0"
      using b length_rb_items [of "bq_ring (sys_q s)"]
      by (cases cv) (auto simp: bq_size_def split: if_splits)
    then show ?thesis by simp
  next
    case False
    then have "\<exists>pc \<in> set ?pcs. asleep_on cv pc"
      using Bex_list_update_old [OF sl] by simp
    then have "available cv (sys_q s) \<le> total_credit cv ?pcs"
      using inv b by (auto simp: wakeup_inv_def)
    then show ?thesis
      using total_credit_update [OF t(1), of cv ?y] t(2) False by auto
  qed
  moreover have "\<forall>pc \<in> set (?pcs[t := ?y]). pc_wf pc"
    using inv single b by (intro Ball_list_update) (auto simp: wakeup_inv_def)
  ultimately show ?thesis
    using ok b by (simp add: wakeup_inv_def)
qed

text \<open>Notifications: a waker passes its credit on to the thread it wakes.\<close>

lemma wakeup_notify_one:
  assumes inv: "wakeup_inv s"
    and t: "t < length (sys_pcs s)" "sys_pcs s ! t = Notifying (Notify_One cv # ns)"
    and u: "u < length (sys_pcs s)" "sys_pcs s ! u = Asleep cv c"
  shows "wakeup_inv (s\<lparr>sys_pcs := (sys_pcs s)[t := Notifying ns, u := Enter c False]\<rparr>)"
proof -
  let ?pcs = "sys_pcs s"
  let ?p1 = "?pcs[u := Enter c False]"
  have ne: "t \<noteq> u" using t u by auto
  have c: "bq_call_cv c = cv" "c \<noteq> Close" "single_element c"
    using inv nth_mem [OF u(1)] u(2) by (auto simp: wakeup_inv_def)
  have swap: "?pcs[t := Notifying ns, u := Enter c False] = ?p1[t := Notifying ns]"
    using ne by (simp add: list_update_swap)
  have "if bq_closed (sys_q s) then \<exists>pc \<in> set (?p1[t := Notifying ns]). announces cv' pc
        else available cv' (sys_q s) \<le> total_credit cv' (?p1[t := Notifying ns])"
    if sl: "\<exists>pc \<in> set (?p1[t := Notifying ns]). asleep_on cv' pc" for cv'
  proof -
    have sl1: "\<exists>pc \<in> set ?p1. asleep_on cv' pc"
      using Bex_list_update_old [OF sl] by simp
    have "\<exists>pc \<in> set ?pcs. asleep_on cv' pc"
      using Bex_list_update_old [OF sl1] by simp
    then have old: "if bq_closed (sys_q s) then \<exists>pc \<in> set ?pcs. announces cv' pc
        else available cv' (sys_q s) \<le> total_credit cv' ?pcs"
      using inv by (auto simp: wakeup_inv_def)
    have "\<exists>pc \<in> set (?p1[t := Notifying ns]). announces cv' pc"
      if a: "\<exists>pc \<in> set ?pcs. announces cv' pc"
    proof (rule Bex_list_update_keep)
      show "\<exists>pc \<in> set ?p1. announces cv' pc"
        using Bex_list_update_keep [OF a, of u "Enter c False"] u by simp
    qed (use t ne in auto)
    moreover have "total_credit cv' (?p1[t := Notifying ns]) = total_credit cv' ?pcs"
      using total_credit_update [OF u(1), of cv' "Enter c False"]
        total_credit_update [of t ?p1 cv' "Notifying ns"] t u ne c
      by (cases "cv = cv'") auto
    ultimately show ?thesis using old by auto
  qed
  moreover have "\<forall>pc \<in> set (?p1[t := Notifying ns]). pc_wf pc"
    using inv c by (intro Ball_list_update) (auto simp: wakeup_inv_def)
  ultimately show ?thesis
    using inv by (simp add: wakeup_inv_def swap)
qed

lemma wakeup_notify_none:
  assumes inv: "wakeup_inv s"
    and t: "t < length (sys_pcs s)" "sys_pcs s ! t = Notifying (Notify_One cv # ns)"
    and none: "\<forall>pc \<in> set (sys_pcs s). \<not> asleep_on cv pc"
  shows "wakeup_inv (s\<lparr>sys_pcs := (sys_pcs s)[t := Notifying ns]\<rparr>)"
proof -
  let ?pcs = "sys_pcs s" and ?y = "Notifying ns :: 'a bq_pc"
  have "if bq_closed (sys_q s) then \<exists>pc \<in> set (?pcs[t := ?y]). announces cv' pc
        else available cv' (sys_q s) \<le> total_credit cv' (?pcs[t := ?y])"
    if sl: "\<exists>pc \<in> set (?pcs[t := ?y]). asleep_on cv' pc" for cv'
  proof -
    have sl': "\<exists>pc \<in> set ?pcs. asleep_on cv' pc"
      using Bex_list_update_old [OF sl] by simp
    with none have "cv' \<noteq> cv" by auto
    then have "total_credit cv' (?pcs[t := ?y]) = total_credit cv' ?pcs"
      using total_credit_update [OF t(1), of cv' ?y] t(2) by auto
    moreover have "\<exists>pc \<in> set (?pcs[t := ?y]). announces cv' pc"
      if "\<exists>pc \<in> set ?pcs. announces cv' pc"
      using Bex_list_update_keep [OF that, of t ?y] t by simp
    moreover have "if bq_closed (sys_q s) then \<exists>pc \<in> set ?pcs. announces cv' pc
        else available cv' (sys_q s) \<le> total_credit cv' ?pcs"
      using inv sl' by (auto simp: wakeup_inv_def)
    ultimately show ?thesis by auto
  qed
  moreover have "\<forall>pc \<in> set (?pcs[t := ?y]). pc_wf pc"
    using inv by (intro Ball_list_update) (auto simp: wakeup_inv_def)
  ultimately show ?thesis
    using inv by (simp add: wakeup_inv_def)
qed

lemma wake_asleep: "asleep_on cv' (wake cv pc) \<longleftrightarrow> cv' \<noteq> cv \<and> asleep_on cv' pc"
  by (cases pc) (auto simp: wake_def)

lemma wake_announces: "announces cv' (wake cv pc) = announces cv' pc"
  by (cases pc) (auto simp: wake_def)

lemma wake_credit: "pc_wf pc \<Longrightarrow> cv' \<noteq> cv \<Longrightarrow> credit cv' (wake cv pc) = credit cv' pc"
  by (cases pc) (auto simp: wake_def)

lemma wake_wf: "pc_wf pc \<Longrightarrow> pc_wf (wake cv pc)"
  by (cases pc) (auto simp: wake_def)

lemma wakeup_notify_all:
  assumes inv: "wakeup_inv s"
    and t: "t < length (sys_pcs s)" "sys_pcs s ! t = Notifying (Notify_All cv # ns)"
  shows "wakeup_inv (s\<lparr>sys_pcs := map (wake cv) ((sys_pcs s)[t := Notifying ns])\<rparr>)"
proof -
  let ?pcs = "sys_pcs s" and ?y = "Notifying ns :: 'a bq_pc"
  let ?p = "?pcs[t := ?y]"
  have wf: "\<forall>pc \<in> set ?p. pc_wf pc"
    using inv by (intro Ball_list_update) (auto simp: wakeup_inv_def)
  have "if bq_closed (sys_q s) then \<exists>pc \<in> set (map (wake cv) ?p). announces cv' pc
        else available cv' (sys_q s) \<le> total_credit cv' (map (wake cv) ?p)"
    if sl: "\<exists>pc \<in> set (map (wake cv) ?p). asleep_on cv' pc" for cv'
  proof -
    from sl have ne: "cv' \<noteq> cv" and sl': "\<exists>pc \<in> set ?p. asleep_on cv' pc"
      by (auto simp: wake_asleep)
    have "\<exists>pc \<in> set ?pcs. asleep_on cv' pc"
      using Bex_list_update_old [OF sl'] by simp
    then have old: "if bq_closed (sys_q s) then \<exists>pc \<in> set ?pcs. announces cv' pc
        else available cv' (sys_q s) \<le> total_credit cv' ?pcs"
      using inv by (auto simp: wakeup_inv_def)
    have "total_credit cv' (map (wake cv) ?p) = total_credit cv' ?p"
      unfolding total_credit_def map_map
      by (rule arg_cong [where f = sum_list]) (use wf ne wake_credit in auto)
    moreover have "total_credit cv' ?p = total_credit cv' ?pcs"
      using total_credit_update [OF t(1), of cv' ?y] t(2) by simp
    moreover have "\<exists>pc \<in> set (map (wake cv) ?p). announces cv' pc"
      if a: "\<exists>pc \<in> set ?pcs. announces cv' pc"
      using Bex_list_update_keep [OF a, of t ?y] t ne by (auto simp: wake_announces)
    ultimately show ?thesis using old by auto
  qed
  moreover have "\<forall>pc \<in> set (map (wake cv) ?p). pc_wf pc"
    using wf wake_wf by auto
  ultimately show ?thesis
    using inv by (simp add: wakeup_inv_def del: set_map)
qed

interpretation bq_wakeup: invariant_system "bq_init capacity n" "bq_step single_element" wakeup_inv
proof unfold_locales
  fix s :: "'a bq_sys"
  show "bq_init capacity n s \<Longrightarrow> wakeup_inv s"
    using bq_new_ok [of capacity "sys_q s"]
    by (auto simp: bq_init_def wakeup_inv_def set_replicate_conv_if)
next
  fix s t :: "'a bq_sys"
  assume "bq_step single_element s t" and inv: "wakeup_inv s"
  then show "wakeup_inv t"
  proof cases
    case (bqs_call t c)
    then show ?thesis using inv by (auto intro: wakeup_update)
  next
    case (bqs_run t c e r q ns)
    then show ?thesis using wakeup_run [OF inv] by auto
  next
    case (bqs_block t c e)
    then show ?thesis using wakeup_block [OF inv] by auto
  next
    case (bqs_expire t cv c)
    then have "pc_wf (Asleep cv c)"
      using inv nth_mem [of t "sys_pcs s"] by (auto simp: wakeup_inv_def)
    with bqs_expire show ?thesis using inv by (auto intro!: wakeup_update)
  next
    case (bqs_spurious t cv c)
    then have "pc_wf (Asleep cv c)"
      using inv nth_mem [of t "sys_pcs s"] by (auto simp: wakeup_inv_def)
    with bqs_spurious show ?thesis using inv by (auto intro!: wakeup_update)
  next
    case (bqs_notify_one t cv ns u c)
    then show ?thesis using wakeup_notify_one [OF inv] by auto
  next
    case (bqs_notify_none t cv ns)
    then show ?thesis using wakeup_notify_none [OF inv] by auto
  next
    case (bqs_notify_all t cv ns)
    then show ?thesis using wakeup_notify_all [OF inv] by auto
  next
    case (bqs_done t)
    then show ?thesis using inv by (auto intro: wakeup_update)
  qed
qed

section \<open>Properties\<close>

text \<open>
  C3. First in, first out across threads: however the threads are scheduled and whichever
  operations they use, the elements handed out are, in order, a prefix of the elements
  accepted; what is missing is exactly what the queue holds, at most its capacity.
\<close>

theorem concurrent_fifo:
  assumes "reach (bq_init capacity n) (bq_step used) s"
  shows "sys_in s = sys_out s @ rb_items (bq_ring (sys_q s)) \<and>
         length (rb_items (bq_ring (sys_q s))) \<le> capacity"
  using bq_fifo.reach_inv [OF assms] rb_ok_size_le [of "bq_ring (sys_q s)"]
  by (auto simp: bq_fifo_inv_def bq_ok_def)

text \<open>A run used in the witnesses: one consumer of an empty queue goes to sleep.\<close>

definition demo_queue :: "nat list \<Rightarrow> nat bq" where
  "demo_queue xs = \<lparr>bq_capacity = 2,
     bq_ring = \<lparr>rb_buffer = map Some xs @ replicate (2 - length xs) None, rb_capacity = 2,
                rb_head = 0, rb_tail = length xs mod 2, rb_size = length xs\<rparr>,
     bq_closed = False\<rparr>"

definition demo_sys :: "nat list \<Rightarrow> nat bq_pc list \<Rightarrow> nat bq_sys" where
  "demo_sys xs pcs = \<lparr>sys_q = demo_queue xs, sys_pcs = pcs, sys_in = xs, sys_out = []\<rparr>"

lemmas demo_defs = demo_sys_def demo_queue_def bq_pop_def bq_not_empty_pred_def rb_empty_def

lemma demo_start: "reach (bq_init 2 n) (bq_step used) (demo_sys [] (replicate n Idle))"
  by (rule reach_init) (simp add: bq_init_def demo_defs bq_new_def rb_new_def)

lemma demo_call:
  assumes "reach i (bq_step used) (demo_sys xs pcs)" "t < length pcs" "pcs ! t = Idle" "used c"
  shows "reach i (bq_step used) (demo_sys xs (pcs[t := Enter c False]))"
  using reach_step [OF assms(1) bqs_call [of t "demo_sys xs pcs" used c]] assms(2-)
  by (simp add: demo_sys_def)

lemma demo_sleep:
  assumes "reach i (bq_step used) (demo_sys [] pcs)" "t < length pcs" "pcs ! t = Enter (Pop v) False"
  shows "reach i (bq_step used) (demo_sys [] (pcs[t := Asleep Not_Empty (Pop v)]))"
  using reach_step [OF assms(1) bqs_block [of t "demo_sys [] pcs" "Pop v" False used]] assms(2-)
  by (simp add: demo_defs)

lemma concurrent_fifo_witness:
  "reach (bq_init 2 1) (bq_step (\<lambda>_. True)) (demo_sys [] [Enter (Pop 0) False]) \<and>
   [] = [] @ rb_items (bq_ring (demo_queue []))"
proof -
  have r: "reach (bq_init 2 1) (bq_step (\<lambda>_. True)) (demo_sys [] [Enter (Pop 0) False])"
    using demo_call [OF demo_start [of 1], of 0 "\<lambda>_. True" "Pop 0"] by simp
  from r concurrent_fifo [OF r] show ?thesis by (simp add: demo_sys_def)
qed

text \<open>
  C4. No lost wakeup: when threads use the single-element operations and \<open>close\<close> only, then in
  a reachable state where every thread is idle or asleep (no call in progress and no
  notification pending), a thread that sleeps on \<open>not_empty_\<close> sleeps because the queue is
  empty, one that sleeps on \<open>not_full_\<close> because it is full, and nobody sleeps on a closed queue.
\<close>

theorem no_lost_wakeup:
  assumes "reach (bq_init capacity n) (bq_step single_element) s"
    and "\<forall>pc \<in> set (sys_pcs s). pc = Idle \<or> (\<exists>cv c. pc = Asleep cv c)"
    and "Asleep cv c \<in> set (sys_pcs s)"
  shows "\<not> bq_closed (sys_q s) \<and>
    (cv = Not_Empty \<longrightarrow> bq_size (sys_q s) = 0) \<and>
    (cv = Not_Full \<longrightarrow> bq_size (sys_q s) = bq_capacity (sys_q s))"
proof -
  have inv: "wakeup_inv s" by (rule bq_wakeup.reach_inv [OF assms(1)])
  have "credit cv pc = 0 \<and> \<not> announces cv pc" if "pc \<in> set (sys_pcs s)" for pc
    using assms(2) that by auto
  then have none: "total_credit cv (sys_pcs s) = 0"
    "\<not> (\<exists>pc \<in> set (sys_pcs s). announces cv pc)"
    by (auto simp: total_credit_def)
  have "\<exists>pc \<in> set (sys_pcs s). asleep_on cv pc"
    using assms(3) by (intro bexI [OF _ assms(3)]) simp
  with inv none have "\<not> bq_closed (sys_q s)" "available cv (sys_q s) = 0"
    by (auto simp: wakeup_inv_def split: if_splits)
  moreover have "bq_size (sys_q s) \<le> bq_capacity (sys_q s)"
    using inv rb_ok_size_le [of "bq_ring (sys_q s)"]
    by (auto simp: wakeup_inv_def bq_ok_def bq_size_def)
  ultimately show ?thesis by (cases cv) auto
qed

lemma no_lost_wakeup_witness:
  "reach (bq_init 2 1) (bq_step single_element) (demo_sys [] [Asleep Not_Empty (Pop 0)]) \<and>
   \<not> bq_closed (demo_queue []) \<and> bq_size (demo_queue []) = 0"
proof -
  have "reach (bq_init 2 1) (bq_step single_element) (demo_sys [] [Enter (Pop 0) False])"
    using demo_call [OF demo_start [of 1], of 0 single_element "Pop 0"] by simp
  from demo_sleep [OF this, of 0 0]
  have r: "reach (bq_init 2 1) (bq_step single_element) (demo_sys [] [Asleep Not_Empty (Pop 0)])"
    by simp
  from no_lost_wakeup [OF r, of Not_Empty "Pop 0"] r show ?thesis
    by (simp add: demo_sys_def)
qed

text \<open>
  With \<open>push_batch\<close> the guarantee is lost: it notifies one consumer however many elements
  it stored. There is a reachable state with one element in an open queue, one consumer asleep
  in \<open>pop\<close>, and no other thread active: the consumer sleeps on although its element is there.
\<close>

theorem push_batch_strands_consumer:
  "\<exists>s :: nat bq_sys. reach (bq_init 2 3) (bq_step (\<lambda>_. True)) s \<and>
     sys_pcs s = [Idle, Asleep Not_Empty (Pop 0), Idle] \<and>
     \<not> bq_closed (sys_q s) \<and> bq_size (sys_q s) = 1"
proof -
  let ?R = "reach (bq_init 2 3) (bq_step (\<lambda>_. True :: bool))"
  let ?P = "Pop 0 :: nat bq_call"
  have r0: "?R (demo_sys [] [Idle, Idle, Idle])"
    using demo_start [of 3] by (simp add: numeral_3_eq_3)
  have r1: "?R (demo_sys [] [Asleep Not_Empty ?P, Idle, Idle])"
    using demo_sleep [OF demo_call [OF r0, of 0 ?P], of 0 0] by simp
  have r2: "?R (demo_sys [] [Asleep Not_Empty ?P, Asleep Not_Empty ?P, Idle])"
    using demo_sleep [OF demo_call [OF r1, of 1 ?P], of 1 0] by simp
  have r3: "?R (demo_sys [] [Asleep Not_Empty ?P, Asleep Not_Empty ?P, Enter (Push_Batch [7, 8]) False])"
    using demo_call [OF r2, of 2 "Push_Batch [7, 8]"] by simp
  have r4: "?R (demo_sys [7, 8] [Asleep Not_Empty ?P, Asleep Not_Empty ?P,
      Notifying [Notify_One Not_Empty]])"
    by (rule reach_step [OF r3], rule bqs_run [of 2, THEN back_subst [of "bq_step (\<lambda>_. True) _"]])
      (auto simp: demo_defs bq_push_batch_def rb_push_batch_def rb_next_index_def numeral_2_eq_2)
  have r5: "?R (demo_sys [7, 8] [Enter ?P False, Asleep Not_Empty ?P, Notifying []])"
    using reach_step [OF r4 bqs_notify_one [of 2 _ Not_Empty "[]" 0 ?P]] by (simp add: demo_sys_def)
  have r6: "?R (demo_sys [7, 8] [Enter ?P False, Asleep Not_Empty ?P, Idle])"
    using reach_step [OF r5 bqs_done [of 2]] by (simp add: demo_sys_def)
  let ?q = "(demo_queue [7, 8])\<lparr>bq_ring := \<lparr>rb_buffer = [None, Some 8], rb_capacity = 2,
      rb_head = 1, rb_tail = 0, rb_size = 1\<rparr>\<rparr>"
  have r7: "?R \<lparr>sys_q = ?q, sys_pcs = [Notifying [Notify_One Not_Full], Asleep Not_Empty ?P, Idle],
      sys_in = [7, 8], sys_out = [7]\<rparr>"
    by (rule reach_step [OF r6], rule bqs_run [of 0, THEN back_subst [of "bq_step (\<lambda>_. True) _"]])
      (auto simp: demo_defs bq_fetch_def rb_front_def rb_pop_front_def rb_next_index_def)
  have r8: "?R \<lparr>sys_q = ?q, sys_pcs = [Notifying [], Asleep Not_Empty ?P, Idle],
      sys_in = [7, 8], sys_out = [7]\<rparr>"
    using reach_step [OF r7 bqs_notify_none [of 0 _ Not_Full "[]"]] by simp
  have r9: "?R \<lparr>sys_q = ?q, sys_pcs = [Idle, Asleep Not_Empty ?P, Idle],
      sys_in = [7, 8], sys_out = [7]\<rparr>"
    using reach_step [OF r8 bqs_done [of 0]] by simp
  show ?thesis
    by (rule exI, rule conjI, rule r9) (simp add: demo_queue_def bq_size_def)
qed

end
