(* ===== verification/Move_Only_Function.thy ===== *)
theory Move_Only_Function
  imports Prelude
begin

text \<open>
  \<open>MoveOnlyFunction<void()>\<close> of code/ThreadPool/MoveOnlyFunction.h, the type of the tasks of the
  pool: a callable kept in a buffer inside the object when it is small, on the heap otherwise.
  The model has the objects, their buffers and the heap, so that ownership is visible:
  destroying or freeing what is not alive, and building over a live object, are errors.
\<close>

section \<open>Objects and memory\<close>

datatype mo_ptr = Buffer_Of nat | Heap_At nat

datatype 'f heap_cell = Freed | Dead | Alive 'f

record 'f mof =
  m_buffer :: "'f option"
  m_ptr :: "mo_ptr option"
  m_local :: bool

record 'f mo_mem =
  mm_objs :: "'f mof list"
  mm_heap :: "'f heap_cell list"

definition mo_update :: "nat \<Rightarrow> ('f mof \<Rightarrow> 'f mof) \<Rightarrow> 'f mo_mem \<Rightarrow> 'f mo_mem" where
  "mo_update i g m = m\<lparr>mm_objs := (mm_objs m)[i := g (mm_objs m ! i)]\<rparr>"

fun mo_deref :: "'f mo_mem \<Rightarrow> mo_ptr \<Rightarrow> 'f option" where
  "mo_deref m (Buffer_Of i) = m_buffer (mm_objs m ! i)"
| "mo_deref m (Heap_At a) = (case mm_heap m ! a of Alive f \<Rightarrow> Some f | _ \<Rightarrow> None)"

fun mo_store :: "mo_ptr \<Rightarrow> 'f \<Rightarrow> 'f mo_mem \<Rightarrow> 'f mo_mem" where
  "mo_store (Buffer_Of i) f m = mo_update i (\<lambda>obj. obj\<lparr>m_buffer := Some f\<rparr>) m"
| "mo_store (Heap_At a) f m = m\<lparr>mm_heap := (mm_heap m)[a := Alive f]\<rparr>"

text \<open>The destructor call \<open>p->~CallableBase()\<close>, and \<open>delete p\<close>.\<close>

fun mo_destruct :: "mo_ptr \<Rightarrow> 'f mo_mem \<Rightarrow> 'f mo_mem result" where
  "mo_destruct (Buffer_Of i) m =
     (if m_buffer (mm_objs m ! i) = None then throw (UB ''destructor of a dead object'')
      else ret (mo_update i (\<lambda>obj. obj\<lparr>m_buffer := None\<rparr>) m))"
| "mo_destruct (Heap_At a) m =
     (case mm_heap m ! a of
        Alive f \<Rightarrow> ret (m\<lparr>mm_heap := (mm_heap m)[a := Dead]\<rparr>)
      | _ \<Rightarrow> throw (UB ''destructor of a dead object''))"

fun mo_delete :: "mo_ptr \<Rightarrow> 'f mo_mem \<Rightarrow> 'f mo_mem result" where
  "mo_delete (Buffer_Of i) m = throw (UB ''delete of an object that is not on the heap'')"
| "mo_delete (Heap_At a) m =
     (case mm_heap m ! a of
        Alive f \<Rightarrow> ret (m\<lparr>mm_heap := (mm_heap m)[a := Freed]\<rparr>)
      | _ \<Rightarrow> throw (UB ''double delete''))"

section \<open>Operations\<close>

text \<open>
  The constructor from a callable; \<open>small\<close> is the compile-time test on its size, alignment and
  move constructor. The new object is the last of \<open>mm_objs\<close>.
\<close>

definition mo_new :: "'f \<Rightarrow> bool \<Rightarrow> 'f mo_mem \<Rightarrow> 'f mo_mem" where
  "mo_new f small m =
     (if small
      then m\<lparr>mm_objs := mm_objs m @ [\<lparr>m_buffer = Some f,
               m_ptr = Some (Buffer_Of (length (mm_objs m))), m_local = True\<rparr>]\<rparr>
      else m\<lparr>mm_heap := mm_heap m @ [Alive f],
             mm_objs := mm_objs m @ [\<lparr>m_buffer = None,
               m_ptr = Some (Heap_At (length (mm_heap m))), m_local = False\<rparr>]\<rparr>)"

definition mo_new_empty :: "'f mo_mem \<Rightarrow> 'f mo_mem" where
  "mo_new_empty m =
     m\<lparr>mm_objs := mm_objs m @ [\<lparr>m_buffer = None, m_ptr = None, m_local = False\<rparr>]\<rparr>"

definition mo_reset :: "nat \<Rightarrow> 'f mo_mem \<Rightarrow> 'f mo_mem result" where
  "mo_reset i m =
     (let obj = mm_objs m ! i in
      case m_ptr obj of
        None \<Rightarrow> ret m
      | Some p \<Rightarrow>
          (case (if m_local obj then mo_destruct p m else mo_delete p m) of
             Inl e \<Rightarrow> throw e
           | Inr m' \<Rightarrow> ret (mo_update i (\<lambda>obj. obj\<lparr>m_ptr := None, m_local := False\<rparr>) m')))"

text \<open>
  \<open>RelocateTo\<close> builds the callable in the buffer of object \<open>i\<close> from the one at \<open>p\<close>; the old one
  stays alive until it is destroyed.
\<close>

definition mo_relocate :: "mo_ptr \<Rightarrow> nat \<Rightarrow> 'f mo_mem \<Rightarrow> 'f mo_mem result" where
  "mo_relocate p i m =
     (case mo_deref m p of
        None \<Rightarrow> throw (UB ''relocation of a dead object'')
      | Some f \<Rightarrow>
          if m_buffer (mm_objs m ! i) \<noteq> None then throw (UB ''buffer in use'')
          else ret (mo_store (Buffer_Of i) f m))"

definition mo_move_from :: "nat \<Rightarrow> nat \<Rightarrow> 'f mo_mem \<Rightarrow> 'f mo_mem result" where
  "mo_move_from i j m =
     (let other = mm_objs m ! j in
      case m_ptr other of
        None \<Rightarrow> ret m
      | Some p \<Rightarrow>
          if m_local other
          then (case mo_relocate p i m of
                  Inl e \<Rightarrow> throw e
                | Inr m1 \<Rightarrow>
                    let m2 = mo_update i (\<lambda>obj. obj\<lparr>m_ptr := Some (Buffer_Of i), m_local := True\<rparr>) m1
                    in (case mo_destruct p m2 of
                          Inl e \<Rightarrow> throw e
                        | Inr m3 \<Rightarrow>
                            ret (mo_update j (\<lambda>obj. obj\<lparr>m_ptr := None, m_local := False\<rparr>) m3)))
          else let m1 = mo_update i (\<lambda>obj. obj\<lparr>m_ptr := Some p, m_local := False\<rparr>) m
               in ret (mo_update j (\<lambda>obj. obj\<lparr>m_ptr := None\<rparr>) m1))"

definition mo_move_new :: "nat \<Rightarrow> 'f mo_mem \<Rightarrow> 'f mo_mem result" where
  "mo_move_new j m = mo_move_from (length (mm_objs m)) j (mo_new_empty m)"

definition mo_assign :: "nat \<Rightarrow> nat \<Rightarrow> 'f mo_mem \<Rightarrow> 'f mo_mem result" where
  "mo_assign i j m =
     (if i \<noteq> j
      then (case mo_reset i m of Inl e \<Rightarrow> throw e | Inr m' \<Rightarrow> mo_move_from i j m')
      else ret m)"

definition mo_bool :: "nat \<Rightarrow> 'f mo_mem \<Rightarrow> bool" where
  "mo_bool i m \<longleftrightarrow> m_ptr (mm_objs m ! i) \<noteq> None"

text \<open>The call operator: \<open>invoke\<close> is what a call does to the callable's own state.\<close>

definition mo_invoke :: "('f \<Rightarrow> 'f) \<Rightarrow> nat \<Rightarrow> 'f mo_mem \<Rightarrow> 'f mo_mem result" where
  "mo_invoke invoke i m =
     (case m_ptr (mm_objs m ! i) of
        None \<Rightarrow> throw (UB ''call of an empty function'')
      | Some p \<Rightarrow>
          (case mo_deref m p of
             None \<Rightarrow> throw (UB ''call of a dead object'')
           | Some f \<Rightarrow> ret (mo_store p (invoke f) m)))"

section \<open>Programs over function objects\<close>

datatype 'f mo_op =
    New 'f bool
  | New_Empty
  | Move_New nat
  | Assign nat nat
  | Destroy nat
  | Invoke nat

fun mo_exec :: "('f \<Rightarrow> 'f) \<Rightarrow> 'f mo_op \<Rightarrow> 'f mo_mem \<Rightarrow> 'f mo_mem result" where
  "mo_exec call (New f small) m = ret (mo_new f small m)"
| "mo_exec call New_Empty m = ret (mo_new_empty m)"
| "mo_exec call (Move_New j) m = mo_move_new j m"
| "mo_exec call (Assign i j) m = mo_assign i j m"
| "mo_exec call (Destroy i) m = mo_reset i m"
| "mo_exec call (Invoke i) m = mo_invoke call i m"

text \<open>What it is meant to be: every object holds a callable or nothing.\<close>

fun spec_exec :: "('f \<Rightarrow> 'f) \<Rightarrow> 'f mo_op \<Rightarrow> 'f option list \<Rightarrow> 'f option list result" where
  "spec_exec call (New f small) fs = ret (fs @ [Some f])"
| "spec_exec call New_Empty fs = ret (fs @ [None])"
| "spec_exec call (Move_New j) fs = ret (fs[j := None] @ [fs ! j])"
| "spec_exec call (Assign i j) fs = ret (if i = j then fs else fs[i := fs ! j, j := None])"
| "spec_exec call (Destroy i) fs = ret (fs[i := None])"
| "spec_exec call (Invoke i) fs =
     (case fs ! i of None \<Rightarrow> throw (UB ''call of an empty function'')
      | Some f \<Rightarrow> ret (fs[i := Some (call f)]))"

fun op_valid :: "nat \<Rightarrow> 'f mo_op \<Rightarrow> bool" where
  "op_valid n (Move_New j) \<longleftrightarrow> j < n"
| "op_valid n (Assign i j) \<longleftrightarrow> i < n \<and> j < n"
| "op_valid n (Destroy i) \<longleftrightarrow> i < n"
| "op_valid n (Invoke i) \<longleftrightarrow> i < n"
| "op_valid n _ \<longleftrightarrow> True"


section \<open>Ownership\<close>

text \<open>
  The well-formed states: an object holds nothing, or the callable in its own buffer, or one
  live heap cell; heap cells have one owner each, and a cell without an owner has been freed.
\<close>

datatype 'f holder = Nothing | Inline 'f | Owner nat

fun obj_of :: "nat \<Rightarrow> 'f holder \<Rightarrow> 'f mof" where
  "obj_of i Nothing = \<lparr>m_buffer = None, m_ptr = None, m_local = False\<rparr>"
| "obj_of i (Inline f) = \<lparr>m_buffer = Some f, m_ptr = Some (Buffer_Of i), m_local = True\<rparr>"
| "obj_of i (Owner a) = \<lparr>m_buffer = None, m_ptr = Some (Heap_At a), m_local = False\<rparr>"

definition mo_state :: "'f holder list \<Rightarrow> 'f heap_cell list \<Rightarrow> 'f mo_mem" where
  "mo_state vs h = \<lparr>mm_objs = map (\<lambda>i. obj_of i (vs ! i)) [0..<length vs], mm_heap = h\<rparr>"

definition heap_ok :: "'f holder list \<Rightarrow> 'f heap_cell list \<Rightarrow> bool" where
  "heap_ok vs h \<longleftrightarrow> Dead \<notin> set h \<and>
     (\<forall>a. count_pc (\<lambda>v. v = Owner a) vs = of_bool (a < length h \<and> h ! a \<noteq> Freed))"

definition mo_ok :: "'f mo_mem \<Rightarrow> bool" where
  "mo_ok m \<longleftrightarrow> (\<exists>vs. m = mo_state vs (mm_heap m) \<and> heap_ok vs (mm_heap m))"

text \<open>What an object holds, read off its pointer.\<close>

definition mo_target :: "'f mo_mem \<Rightarrow> nat \<Rightarrow> 'f option" where
  "mo_target m i = (case m_ptr (mm_objs m ! i) of None \<Rightarrow> None | Some p \<Rightarrow> mo_deref m p)"

definition mo_abs :: "'f mo_mem \<Rightarrow> 'f option list" where
  "mo_abs m = map (mo_target m) [0..<length (mm_objs m)]"

fun holder_target :: "'f heap_cell list \<Rightarrow> 'f holder \<Rightarrow> 'f option" where
  "holder_target h Nothing = None"
| "holder_target h (Inline f) = Some f"
| "holder_target h (Owner a) = (case h ! a of Alive f \<Rightarrow> Some f | _ \<Rightarrow> None)"

lemma mo_state_simps [simp]:
  "length (mm_objs (mo_state vs h)) = length vs"
  "mm_heap (mo_state vs h) = h"
  "i < length vs \<Longrightarrow> mm_objs (mo_state vs h) ! i = obj_of i (vs ! i)"
  by (simp_all add: mo_state_def)

lemma mo_abs_state: "mo_abs (mo_state vs h) = map (holder_target h) vs"
proof (rule nth_equalityI)
  fix i assume "i < length (mo_abs (mo_state vs h))"
  then show "mo_abs (mo_state vs h) ! i = map (holder_target h) vs ! i"
    by (cases "vs ! i") (simp_all add: mo_abs_def mo_target_def)
qed (simp add: mo_abs_def)

lemma mo_okE:
  assumes "mo_ok m"
  obtains vs h where "m = mo_state vs h" "heap_ok vs h"
  using assms unfolding mo_ok_def by blast

lemma mo_okI: "heap_ok vs h \<Longrightarrow> mo_ok (mo_state vs h)"
  unfolding mo_ok_def by auto

text \<open>Updates of one object that lead from holder to holder.\<close>

lemma mo_update_twice: "i < length (mm_objs m) \<Longrightarrow>
  mo_update i g (mo_update i g' m) = mo_update i (\<lambda>obj. g (g' obj)) m"
  by (simp add: mo_update_def)

lemma mo_update_swap: "i \<noteq> j \<Longrightarrow> mo_update i g (mo_update j g' m) = mo_update j g' (mo_update i g m)"
  by (simp add: mo_update_def list_update_swap)

lemma mo_update_state:
  "i < length vs \<Longrightarrow> g (obj_of i (vs ! i)) = obj_of i v \<Longrightarrow>
   mo_update i g (mo_state vs h) = mo_state (vs[i := v]) h"
  by (auto simp: mo_update_def mo_state_def nth_list_update intro!: nth_equalityI)

lemma mo_update_heap: "(mo_state vs h)\<lparr>mm_heap := h'\<rparr> = mo_state vs h'"
  by (simp add: mo_state_def)

lemma map_holder_update:
  "map (holder_target h) (vs[i := v]) = (map (holder_target h) vs)[i := holder_target h v]"
  by (simp add: map_update)

lemma heap_ok_owner:
  assumes "heap_ok vs h" "i < length vs" "vs ! i = Owner a"
  obtains f where "a < length h" "h ! a = Alive f"
proof -
  have "0 < count_pc (\<lambda>v. v = Owner a) vs"
    by (rule count_pc_pos [OF assms(2)]) (rule assms(3))
  then have a: "a < length h" "h ! a \<noteq> Freed"
    using assms(1) unfolding heap_ok_def by (auto split: if_splits)
  moreover have "h ! a \<noteq> Dead"
    using assms(1) nth_mem [OF a(1)] unfolding heap_ok_def by metis
  ultimately show ?thesis
    using that by (cases "h ! a") auto
qed

lemma heap_ok_drop:
  assumes "heap_ok vs h" "i < length vs" "\<And>a. vs ! i \<noteq> Owner a" "\<And>a. v \<noteq> Owner a"
  shows "heap_ok (vs[i := v]) h"
proof -
  have "count_pc (\<lambda>v. v = Owner a) (vs[i := v]) = count_pc (\<lambda>v. v = Owner a) vs" for a
    by (rule count_pc_update_same) (simp add: assms(3,4))
  then show ?thesis
    using assms(1) by (simp add: heap_ok_def)
qed

lemma heap_ok_move:
  assumes "heap_ok vs h" "i < length vs" "j < length vs" "vs ! i = Nothing"
  shows "heap_ok (vs[i := vs ! j, j := Nothing]) h"
proof (cases "i = j")
  case True
  with assms show ?thesis
    using heap_ok_drop [OF assms(1,2), of Nothing] by simp
next
  case False
  have "count_pc (\<lambda>v. v = Owner a) (vs[i := vs ! j, j := Nothing]) = count_pc (\<lambda>v. v = Owner a) vs"
    for a
    using count_pc_update [of i vs "\<lambda>v. v = Owner a" "vs ! j"] False
      count_pc_update [of j "vs[i := vs ! j]" "\<lambda>v. v = Owner a" Nothing] assms(2-4)
    by simp
  then show ?thesis
    using assms(1) by (simp add: heap_ok_def)
qed

text \<open>Freeing the cell of one owner is not seen by the others.\<close>

lemma heap_ok_free:
  assumes "heap_ok vs h" "i < length vs" "vs ! i = Owner a"
  shows "heap_ok (vs[i := Nothing]) (h[a := Freed])"
    and "map (holder_target (h[a := Freed])) (vs[i := Nothing])
       = (map (holder_target h) vs)[i := None]"
proof -
  obtain f where a: "a < length h" "h ! a = Alive f"
    by (rule heap_ok_owner [OF assms])
  have count: "count_pc (\<lambda>v. v = Owner b) (vs[i := Nothing])
      = of_bool (b < length (h[a := Freed]) \<and> h[a := Freed] ! b \<noteq> Freed)" for b
    using count_pc_update [OF assms(2), of "\<lambda>v. v = Owner b" Nothing] assms(1,3) a
    unfolding heap_ok_def by (cases "b = a") auto
  moreover have "Dead \<notin> set (h[a := Freed])"
    using assms(1) set_update_subset_insert [of h a Freed] unfolding heap_ok_def by auto
  ultimately show "heap_ok (vs[i := Nothing]) (h[a := Freed])"
    unfolding heap_ok_def by blast
  have "count_pc (\<lambda>v. v = Owner a) (vs[i := Nothing]) = 0"
    using count [of a] a(1) by simp
  then have "v \<noteq> Owner a" if "v \<in> set (vs[i := Nothing])" for v
    using that unfolding count_pc_0_iff by blast
  moreover have freed_elsewhere: "holder_target (h[a := Freed]) v = holder_target h v"
    if "v \<noteq> Owner a" for v
    using that by (cases v) auto
  ultimately have "map (holder_target (h[a := Freed])) (vs[i := Nothing])
      = map (holder_target h) (vs[i := Nothing])"
    using freed_elsewhere by (intro map_cong refl) blast
  then show "map (holder_target (h[a := Freed])) (vs[i := Nothing])
       = (map (holder_target h) vs)[i := None]"
    by (simp add: map_update)
qed

section \<open>The operations keep ownership\<close>

lemma mo_reset_state:
  assumes "heap_ok vs h" "i < length vs"
  shows "\<exists>h'. mo_reset i (mo_state vs h) = Inr (mo_state (vs[i := Nothing]) h') \<and>
    heap_ok (vs[i := Nothing]) h' \<and>
    map (holder_target h') (vs[i := Nothing]) = (map (holder_target h) vs)[i := None]"
proof (cases "vs ! i")
  case Nothing
  then have vs: "vs[i := Nothing] = vs" by (metis list_update_id)
  then have "map (holder_target h) vs = (map (holder_target h) vs)[i := None]"
    using map_update [of "holder_target h" vs i Nothing] by simp
  moreover have "mo_reset i (mo_state vs h) = Inr (mo_state vs h)"
    using Nothing assms(2) by (simp add: mo_reset_def)
  ultimately show ?thesis
    using vs assms(1) by metis
next
  case (Inline f)
  have "mo_reset i (mo_state vs h) = Inr (mo_state (vs[i := Nothing]) h)"
    using Inline assms(2)
    by (simp add: mo_reset_def Let_def mo_update_twice mo_update_state [where v = Nothing])
  then show ?thesis
    using heap_ok_drop [OF assms] Inline by (auto simp: map_update)
next
  case (Owner a)
  obtain f where a: "a < length h" "h ! a = Alive f"
    by (rule heap_ok_owner [OF assms Owner])
  have "mo_reset i (mo_state vs h) = Inr (mo_state (vs[i := Nothing]) (h[a := Freed]))"
    using Owner assms(2) a
    by (simp add: mo_reset_def Let_def mo_update_heap mo_update_state [where v = Nothing])
  then show ?thesis
    using heap_ok_free [OF assms Owner] by blast
qed

lemma mo_move_from_state:
  assumes "heap_ok vs h" "i < length vs" "j < length vs" "i \<noteq> j" "vs ! i = Nothing"
  shows "mo_move_from i j (mo_state vs h) = Inr (mo_state (vs[i := vs ! j, j := Nothing]) h)"
proof (cases "vs ! j")
  case Nothing
  then have "vs[i := vs ! j, j := Nothing] = vs"
    using assms(5) by (metis list_update_id)
  with Nothing assms show ?thesis by (simp add: mo_move_from_def)
next
  case (Inline f)
  let ?m = "mo_state (vs[i := Inline f]) h"
  have "mo_update i (\<lambda>obj. obj\<lparr>m_ptr := Some (Buffer_Of i), m_local := True\<rparr>)
        (mo_update i (\<lambda>obj. obj\<lparr>m_buffer := Some f\<rparr>) (mo_state vs h)) = ?m"
    using assms by (simp add: mo_update_twice mo_update_state [where v = "Inline f"])
  moreover have "mo_update j (\<lambda>obj. obj\<lparr>m_ptr := None, m_local := False\<rparr>)
        (mo_update j (\<lambda>obj. obj\<lparr>m_buffer := None\<rparr>) ?m) = mo_state (vs[i := Inline f, j := Nothing]) h"
    using assms Inline by (simp add: mo_update_twice mo_update_state [where v = Nothing])
  ultimately show ?thesis
    using assms Inline by (simp add: mo_move_from_def mo_relocate_def)
next
  case (Owner a)
  have "mo_update i (\<lambda>obj. obj\<lparr>m_ptr := Some (Heap_At a), m_local := False\<rparr>) (mo_state vs h)
      = mo_state (vs[i := Owner a]) h"
    using assms by (simp add: mo_update_state [where v = "Owner a"])
  moreover have "mo_update j (\<lambda>obj. obj\<lparr>m_ptr := None\<rparr>) (mo_state (vs[i := Owner a]) h)
      = mo_state (vs[i := Owner a, j := Nothing]) h"
    using assms Owner by (simp add: mo_update_state [where v = Nothing])
  ultimately show ?thesis
    using assms Owner by (simp add: mo_move_from_def)
qed


text \<open>Every valid operation does on well-formed memory what its specification does.\<close>

lemma heap_ok_Nothing: "heap_ok vs h \<Longrightarrow> heap_ok (vs @ [Nothing]) h"
  unfolding heap_ok_def by (simp add: count_pc_def)

lemma heap_ok_new:
  assumes "heap_ok vs h"
  shows "heap_ok (vs @ [Owner (length h)]) (h @ [Alive f])"
    and "map (holder_target (h @ [Alive f])) vs = map (holder_target h) vs"
proof -
  have "count_pc (\<lambda>v. v = Owner a) (vs @ [Owner (length h)])
      = of_bool (a < length (h @ [Alive f]) \<and> (h @ [Alive f]) ! a \<noteq> Freed)" for a
    using assms unfolding heap_ok_def
    by (cases "a = length h") (auto simp: count_pc_def nth_append)
  then show "heap_ok (vs @ [Owner (length h)]) (h @ [Alive f])"
    using assms unfolding heap_ok_def by simp
  show "map (holder_target (h @ [Alive f])) vs = map (holder_target h) vs"
  proof (rule nth_equalityI)
    fix i assume i: "i < length (map (holder_target (h @ [Alive f])) vs)"
    then show "map (holder_target (h @ [Alive f])) vs ! i = map (holder_target h) vs ! i"
      using heap_ok_owner [OF assms, of i]
      by (cases "vs ! i") (auto simp: nth_append)
  qed simp
qed

lemma mo_new_empty_state: "mo_new_empty (mo_state vs h) = mo_state (vs @ [Nothing]) h"
  by (simp add: mo_new_empty_def mo_state_def nth_append cong: map_cong)

lemma mo_new_state:
  "mo_new f small (mo_state vs h) =
     (if small then mo_state (vs @ [Inline f]) h
      else mo_state (vs @ [Owner (length h)]) (h @ [Alive f]))"
  by (simp add: mo_new_def mo_state_def nth_append cong: map_cong)

lemma heap_ok_write:
  assumes "heap_ok vs h" "i < length vs" "vs ! i = Owner a"
  shows "heap_ok vs (h[a := Alive f])"
    and "map (holder_target (h[a := Alive f])) vs = (map (holder_target h) vs)[i := Some f]"
proof -
  obtain g where a: "a < length h" "h ! a = Alive g"
    by (rule heap_ok_owner [OF assms])
  have "of_bool (b < length (h[a := Alive f]) \<and> h[a := Alive f] ! b \<noteq> Freed)
      = (of_bool (b < length h \<and> h ! b \<noteq> Freed) :: nat)" for b
    using a by (auto simp: nth_list_update)
  then show "heap_ok vs (h[a := Alive f])"
    using assms(1) set_update_subset_insert [of h a "Alive f"] unfolding heap_ok_def by auto
  show "map (holder_target (h[a := Alive f])) vs = (map (holder_target h) vs)[i := Some f]"
  proof (rule nth_equalityI)
    fix j assume "j < length (map (holder_target (h[a := Alive f])) vs)"
    then have j: "j < length vs" by simp
    have "vs ! j \<noteq> Owner a" if "j \<noteq> i"
    proof -
      have "count_pc (\<lambda>v. v = Owner a) (vs[i := Nothing]) = 0"
        using count_pc_update [OF assms(2), of "\<lambda>v. v = Owner a" Nothing] assms(1,3) a
        unfolding heap_ok_def by simp
      then show ?thesis
        using that j unfolding count_pc_0_iff
        by (metis length_list_update nth_list_update_neq nth_mem)
    qed
    then show "map (holder_target (h[a := Alive f])) vs ! j = (map (holder_target h) vs)[i := Some f] ! j"
      using j a(1) assms(3) by (cases "j = i"; cases "vs ! j") (auto simp: nth_list_update)
  qed simp
qed

lemma mo_invoke_state:
  assumes "heap_ok vs h" "i < length vs"
  shows "(case holder_target h (vs ! i) of
      None \<Rightarrow> mo_invoke call i (mo_state vs h) = throw (UB ''call of an empty function'')
    | Some f \<Rightarrow> \<exists>vs' h'. mo_invoke call i (mo_state vs h) = Inr (mo_state vs' h') \<and> heap_ok vs' h' \<and>
        map (holder_target h') vs' = (map (holder_target h) vs)[i := Some (call f)])"
proof (cases "vs ! i")
  case Nothing
  with assms show ?thesis by (simp add: mo_invoke_def)
next
  case (Inline f)
  then have "mo_invoke call i (mo_state vs h) = Inr (mo_state (vs[i := Inline (call f)]) h)"
    using assms by (simp add: mo_invoke_def mo_update_state [where v = "Inline (call f)"])
  then show ?thesis
    using heap_ok_drop [OF assms, of "Inline (call f)"] Inline map_holder_update [of h vs i "Inline (call f)"]
    by (simp only: holder_target.simps option.case) blast
next
  case (Owner a)
  obtain f where a: "a < length h" "h ! a = Alive f"
    by (rule heap_ok_owner [OF assms Owner])
  then have "mo_invoke call i (mo_state vs h) = Inr (mo_state vs (h[a := Alive (call f)]))"
    using assms Owner by (simp add: mo_invoke_def mo_update_heap)
  then show ?thesis
    using heap_ok_write [OF assms Owner, of "call f"] Owner a by auto
qed

lemma mo_exec_refines:
  assumes "mo_ok m" "op_valid (length (mm_objs m)) c"
  shows "map_sum id mo_abs (mo_exec call c m) = spec_exec call c (mo_abs m) \<and>
    (\<forall>m'. mo_exec call c m = Inr m' \<longrightarrow> mo_ok m')"
proof -
  obtain vs h where m: "m = mo_state vs h" and ok: "heap_ok vs h"
    by (rule mo_okE [OF assms(1)])
  show ?thesis
  proof (cases c)
    case (New f small)
    have "heap_ok (vs @ [Inline f]) h"
      using ok unfolding heap_ok_def by (simp add: count_pc_def)
    with New m ok heap_ok_new [OF ok, of f] show ?thesis
      by (simp add: mo_new_state mo_abs_state mo_okI)
  next
    case New_Empty
    with m heap_ok_Nothing [OF ok] show ?thesis
      by (simp add: mo_new_empty_state mo_abs_state mo_okI)
  next
    case (Move_New j)
    let ?vs = "vs @ [Nothing]" and ?n = "length vs"
    have j: "j < length vs"
      using assms(2) m Move_New by simp
    have "mo_move_new j m = Inr (mo_state (?vs[?n := ?vs ! j, j := Nothing]) h)"
      using mo_move_from_state [OF heap_ok_Nothing [OF ok], of ?n j] j m
      by (simp add: mo_move_new_def mo_new_empty_state)
    moreover have "heap_ok (?vs[?n := ?vs ! j, j := Nothing]) h"
      using heap_ok_move [OF heap_ok_Nothing [OF ok], of ?n j] j by simp
    ultimately show ?thesis
      using Move_New m j by (simp add: mo_abs_state mo_okI map_update nth_append list_update_append)
  next
    case (Assign i j)
    then have ij: "i < length vs" "j < length vs"
      using assms(2) m by auto
    show ?thesis
    proof (cases "i = j")
      case True
      with Assign assms(1) show ?thesis by (simp add: mo_assign_def)
    next
      case False
      obtain h' where h': "mo_reset i m = Inr (mo_state (vs[i := Nothing]) h')"
        "heap_ok (vs[i := Nothing]) h'"
        "map (holder_target h') (vs[i := Nothing]) = (map (holder_target h) vs)[i := None]"
        using mo_reset_state [OF ok ij(1)] m by blast
      have tj: "holder_target h' (vs ! j) = holder_target h (vs ! j)"
        using arg_cong [OF h'(3), of "\<lambda>xs. xs ! j"] ij False by simp
      have "mo_assign i j m = Inr (mo_state (vs[i := vs ! j, j := Nothing]) h')"
        using mo_move_from_state [OF h'(2), of i j] h'(1) ij False by (simp add: mo_assign_def)
      moreover have "heap_ok (vs[i := vs ! j, j := Nothing]) h'"
        using heap_ok_move [OF h'(2), of i j] ij False by simp
      moreover have "map (holder_target h') (vs[i := vs ! j, j := Nothing])
          = ((map (holder_target h') (vs[i := Nothing]))[i := holder_target h' (vs ! j)])[j := None]"
        by (simp add: map_update)
      ultimately show ?thesis
        using Assign False m h'(3) tj ij by (simp add: mo_abs_state mo_okI)
    qed
  next
    case (Destroy i)
    with mo_reset_state [OF ok, of i] assms(2) m show ?thesis
      by (auto simp: mo_abs_state mo_okI)
  next
    case (Invoke i)
    with mo_invoke_state [OF ok, of i call] assms(2) m show ?thesis
      by (auto simp: mo_abs_state mo_okI split: option.splits)
  qed
qed


section \<open>Properties\<close>

fun mo_run :: "('f \<Rightarrow> 'f) \<Rightarrow> 'f mo_op list \<Rightarrow> 'f mo_mem \<Rightarrow> 'f mo_mem result" where
  "mo_run call [] m = ret m"
| "mo_run call (c # cs) m =
     (case mo_exec call c m of Inl e \<Rightarrow> throw e | Inr m' \<Rightarrow> mo_run call cs m')"

fun spec_run :: "('f \<Rightarrow> 'f) \<Rightarrow> 'f mo_op list \<Rightarrow> 'f option list \<Rightarrow> 'f option list result" where
  "spec_run call [] fs = ret fs"
| "spec_run call (c # cs) fs =
     (case spec_exec call c fs of Inl e \<Rightarrow> throw e | Inr fs' \<Rightarrow> spec_run call cs fs')"

text \<open>A program names only objects that exist when its operations run.\<close>

fun grows :: "'f mo_op \<Rightarrow> nat" where
  "grows (New f small) = 1"
| "grows New_Empty = 1"
| "grows (Move_New j) = 1"
| "grows _ = 0"

fun prog_valid :: "nat \<Rightarrow> 'f mo_op list \<Rightarrow> bool" where
  "prog_valid n [] \<longleftrightarrow> True"
| "prog_valid n (c # cs) \<longleftrightarrow> op_valid n c \<and> prog_valid (n + grows c) cs"

lemma length_spec_exec: "spec_exec call c fs = Inr fs' \<Longrightarrow> length fs' = length fs + grows c"
  by (cases c) (auto split: option.splits if_splits)

lemma mo_run_refines:
  "mo_ok m \<Longrightarrow> prog_valid (length (mm_objs m)) cs \<Longrightarrow>
   map_sum id mo_abs (mo_run call cs m) = spec_run call cs (mo_abs m) \<and>
   (\<forall>m'. mo_run call cs m = Inr m' \<longrightarrow> mo_ok m')"
proof (induction cs arbitrary: m)
  case (Cons c cs)
  have c: "map_sum id mo_abs (mo_exec call c m) = spec_exec call c (mo_abs m)"
    "\<And>m'. mo_exec call c m = Inr m' \<Longrightarrow> mo_ok m'"
    using mo_exec_refines [OF Cons.prems(1), of c call] Cons.prems(2) by auto
  show ?case
  proof (cases "mo_exec call c m")
    case (Inl e)
    with c(1) show ?thesis by (metis mo_run.simps(2) spec_run.simps(2) map_sum.simps(1) id_apply
          old.sum.simps(5) sum.distinct(1))
  next
    case (Inr m')
    have spec: "spec_exec call c (mo_abs m) = Inr (mo_abs m')"
      using c(1) Inr by simp
    have "length (mm_objs m') = length (mm_objs m) + grows c"
      using length_spec_exec [OF spec] by (simp add: mo_abs_def)
    with Cons.IH [OF c(2) [OF Inr]] Cons.prems(2) show ?thesis
      using Inr spec by simp
  qed
qed simp

definition mo_empty_mem :: "'f mo_mem" where
  "mo_empty_mem = \<lparr>mm_objs = [], mm_heap = []\<rparr>"

lemma mo_ok_empty: "mo_ok mo_empty_mem"
proof -
  have "mo_empty_mem = mo_state [] []" "heap_ok [] []"
    by (simp_all add: mo_empty_mem_def mo_state_def heap_ok_def)
  then show ?thesis by (metis mo_okI)
qed

text \<open>
  C8. Function objects are values with one owner: any program of constructions, move
  constructions, assignments (to itself too), calls and destructions has the result it has when
  an object is simply a callable or nothing. In particular no dead object is destroyed, moved
  or called, nothing is freed twice, no buffer in use is overwritten, and the only error is the
  call of an empty function. The size test makes no difference to the result.
\<close>

theorem function_objects_refine:
  assumes "prog_valid 0 cs"
  shows "map_sum id mo_abs (mo_run call cs mo_empty_mem) = spec_run call cs []"
  using mo_run_refines [OF mo_ok_empty, of cs call] assms
  by (simp add: mo_empty_mem_def mo_abs_def)

lemma function_objects_refine_witness:
  "map_sum id mo_abs (mo_run Suc [New 1 True, New 5 False, Assign 0 1, Invoke 0, Move_New 0] mo_empty_mem)
     = Inr [None, None, Some 6] \<and>
   map_sum id mo_abs (mo_run Suc [New 1 True, Move_New 0, Invoke 0] mo_empty_mem)
     = Inl (UB ''call of an empty function'')"
  using function_objects_refine [of "[New 1 True, New 5 False, Assign 0 1, Invoke 0, Move_New 0]" Suc]
    function_objects_refine [of "[New 1 True, Move_New 0, Invoke 0]" Suc]
  by simp

text \<open>
  No leak: after any program, the heap cells still allocated are as many as the objects
  that point to one; when every object has been destroyed or moved from, all memory has been
  given back and every buffer is empty.
\<close>

theorem function_objects_no_leak:
  assumes "prog_valid 0 cs" "mo_run call cs mo_empty_mem = Inr m"
    and "\<forall>i < length (mm_objs m). \<not> mo_bool i m"
  shows "set (mm_heap m) \<subseteq> {Freed} \<and> (\<forall>i < length (mm_objs m). m_buffer (mm_objs m ! i) = None)"
proof -
  have "mo_ok m"
    using mo_run_refines [OF mo_ok_empty, of cs call] assms(1,2) by (simp add: mo_empty_mem_def)
  then obtain vs h where m: "m = mo_state vs h" and ok: "heap_ok vs h"
    by (rule mo_okE)
  have vs: "vs ! i = Nothing" if "i < length vs" for i
    using assms(3) that m by (cases "vs ! i") (auto simp: mo_bool_def)
  then have "count_pc (\<lambda>v. v = Owner a) vs = 0" for a
    unfolding count_pc_0_iff by (metis holder.distinct(3) in_set_conv_nth)
  then have "h ! a = Freed" if "a < length h" for a
    using ok that unfolding heap_ok_def by auto
  then show ?thesis
    using m vs by (auto simp: in_set_conv_nth)
qed

lemma function_objects_no_leak_witness:
  "\<exists>m. mo_run Suc [New 1 True, New 5 False, Assign 0 1, Invoke 0, Destroy 0] mo_empty_mem = Inr m \<and>
     mm_heap m = [Freed]"
proof -
  let ?cs = "[New 1 True, New 5 False, Assign 0 1, Invoke 0, Destroy 0]"
  obtain m where m: "mo_run Suc ?cs mo_empty_mem = Inr m" "length (mm_objs m) = 2" "length (mm_heap m) = 1"
    "\<forall>i < length (mm_objs m). \<not> mo_bool i m"
    by (simp add: mo_empty_mem_def mo_new_def mo_assign_def mo_reset_def mo_move_from_def
        mo_update_def mo_invoke_def mo_bool_def Let_def All_less_Suc numeral_2_eq_2)
  from function_objects_no_leak [OF _ m(1,4)] m(3) have "mm_heap m = [Freed]"
    by (cases "mm_heap m") auto
  with m(1) show ?thesis by blast
qed

end
