(* ===== verification/Task_Queues.thy ===== *)
theory Task_Queues
  imports Bounded_Fifo
begin

text \<open>
  The two task queues of the thread pool. \<open>BoundedRingQueue<T>\<close> (code/ThreadPool/
  BoundedRingQueue.h) is the shared queue: a circular vector whose freed cells are reset to
  \<open>T()\<close>, the parameter \<open>d\<close> here. \<open>LocalTaskQueue\<close> (code/ThreadPool/LocalTaskQueue.h) is
  the deque of one worker: the owner works at its front, thieves take from its back.
\<close>

section \<open>BoundedRingQueue\<close>

record 'a brq =
  brq_buffer :: "'a list"
  brq_capacity :: nat
  brq_head :: nat
  brq_tail :: nat
  brq_size :: nat

definition brq_new :: "'a \<Rightarrow> nat \<Rightarrow> 'a brq result" where
  "brq_new d capacity =
     (if capacity = 0 then throw (Runtime_Error ''queue capacity must be greater than 0'')
      else ret \<lparr>brq_buffer = replicate capacity d, brq_capacity = capacity,
                brq_head = 0, brq_tail = 0, brq_size = 0\<rparr>)"

definition brq_empty :: "'a brq \<Rightarrow> bool" where
  "brq_empty q \<longleftrightarrow> brq_size q = 0"

definition brq_full :: "'a brq \<Rightarrow> bool" where
  "brq_full q \<longleftrightarrow> brq_size q = brq_capacity q"

definition brq_push :: "'a brq \<Rightarrow> 'a \<Rightarrow> 'a brq result" where
  "brq_push q value =
     (if brq_full q then throw (Runtime_Error ''queue is full'')
      else ret (q\<lparr>brq_buffer := (brq_buffer q)[brq_tail q := value],
                  brq_tail := (brq_tail q + 1) mod brq_capacity q,
                  brq_size := brq_size q + 1\<rparr>))"

definition brq_pop :: "'a \<Rightarrow> 'a brq \<Rightarrow> ('a \<times> 'a brq) result" where
  "brq_pop d q =
     (if brq_empty q then throw (Runtime_Error ''queue is empty'')
      else ret (brq_buffer q ! brq_head q,
                q\<lparr>brq_buffer := (brq_buffer q)[brq_head q := d],
                  brq_head := (brq_head q + 1) mod brq_capacity q,
                  brq_size := brq_size q - 1\<rparr>))"

function brq_clear :: "'a \<Rightarrow> 'a brq \<Rightarrow> 'a brq result" where
  "brq_clear d q =
     (if brq_empty q then ret q
      else (case brq_pop d q of Inl e \<Rightarrow> throw e | Inr (x, q') \<Rightarrow> brq_clear d q'))"
  by pat_completeness auto
termination
  by (relation "measure (\<lambda>(d, q). brq_size q)") (auto simp: brq_pop_def brq_empty_def)

declare brq_clear.simps [simp del]

definition brq_items :: "'a brq \<Rightarrow> 'a list" where
  "brq_items q = ring_window (brq_buffer q) (brq_head q) (brq_size q)"

text \<open>The invariant: indices in range, tail behind the last element, free cells reset.\<close>

definition brq_ok :: "'a \<Rightarrow> 'a brq \<Rightarrow> bool" where
  "brq_ok d q \<longleftrightarrow>
     0 < brq_capacity q \<and> length (brq_buffer q) = brq_capacity q \<and>
     brq_size q \<le> brq_capacity q \<and> brq_head q < brq_capacity q \<and>
     brq_tail q = (brq_head q + brq_size q) mod brq_capacity q \<and>
     ring_window (brq_buffer q) (brq_tail q) (brq_capacity q - brq_size q)
       = replicate (brq_capacity q - brq_size q) d"

lemma length_brq_items [simp]: "length (brq_items q) = brq_size q"
  by (simp add: brq_items_def)

lemma brq_empty_iff: "brq_empty q \<longleftrightarrow> brq_items q = []"
  by (simp add: brq_empty_def flip: length_0_conv)

lemma brq_new_ok: "brq_new d c = Inr q \<Longrightarrow> brq_ok d q \<and> brq_items q = [] \<and> brq_capacity q = c"
  by (auto simp: brq_new_def brq_ok_def brq_items_def ring_window_def
      intro!: nth_equalityI split: if_splits)

lemma brq_push_ok:
  assumes "brq_ok d q" "length (brq_items q) < brq_capacity q"
  shows "\<exists>q'. brq_push q x = Inr q' \<and> brq_ok d q' \<and> brq_items q' = brq_items q @ [x] \<and>
              brq_capacity q' = brq_capacity q"
proof -
  have L: "length (brq_buffer q) = brq_capacity q" "brq_head q < length (brq_buffer q)"
    "brq_size q < length (brq_buffer q)"
    "brq_tail q = (brq_head q + brq_size q) mod length (brq_buffer q)"
    "ring_window (brq_buffer q) (brq_tail q) (length (brq_buffer q) - brq_size q)
       = replicate (length (brq_buffer q) - brq_size q) d"
    using assms unfolding brq_ok_def by auto
  show ?thesis
    using ring_store [OF L(2-5), of x] L(1-4)
    by (auto simp: brq_push_def brq_full_def brq_ok_def brq_items_def mod_Suc_eq)
qed

lemma brq_pop_ok:
  assumes "brq_ok d q" "brq_items q = x # xs"
  shows "\<exists>q'. brq_pop d q = Inr (x, q') \<and> brq_ok d q' \<and> brq_items q' = xs \<and>
              brq_capacity q' = brq_capacity q"
proof -
  obtain n where n: "brq_size q = Suc n"
    using assms(2) length_brq_items [of q] by (cases "brq_size q") auto
  have L: "length (brq_buffer q) = brq_capacity q" "brq_head q < length (brq_buffer q)"
    "n < length (brq_buffer q)" "brq_tail q = (brq_head q + Suc n) mod length (brq_buffer q)"
    "ring_window (brq_buffer q) (brq_tail q) (length (brq_buffer q) - Suc n)
       = replicate (length (brq_buffer q) - Suc n) d"
    using assms(1) n unfolding brq_ok_def by auto
  note cl = ring_clear [OF L(2-5)]
  have "brq_tail q = (Suc (brq_head q) mod brq_capacity q + n) mod brq_capacity q"
    using L(1,4) by (simp add: mod_add_left_eq)
  with cl assms(2) n L(1-3) show ?thesis
    by (auto simp: brq_pop_def brq_empty_def brq_ok_def brq_items_def)
qed

lemma brq_bounded: "brq_ok d q \<Longrightarrow> length (brq_items q) \<le> brq_capacity q"
  by (simp add: brq_ok_def)

interpretation brq: bounded_fifo brq_push "brq_pop d" brq_capacity brq_items "brq_ok d"
  for d :: 'a
proof unfold_locales
  fix q :: "'a brq" and x :: 'a and xs
  show "brq_ok d q \<Longrightarrow> length (brq_items q) \<le> brq_capacity q"
    by (rule brq_bounded)
  show "brq_ok d q \<Longrightarrow> length (brq_items q) < brq_capacity q \<Longrightarrow>
      \<exists>q'. brq_push q x = Inr q' \<and> brq_ok d q' \<and> brq_items q' = brq_items q @ [x] \<and>
           brq_capacity q' = brq_capacity q"
    by (rule brq_push_ok)
  show "\<exists>e. brq_push q x = Inl e" if "length (brq_items q) = brq_capacity q"
    using that by (simp add: brq_push_def brq_full_def)
  show "brq_ok d q \<Longrightarrow> brq_items q = x # xs \<Longrightarrow>
      \<exists>q'. brq_pop d q = Inr (x, q') \<and> brq_ok d q' \<and> brq_items q' = xs \<and>
           brq_capacity q' = brq_capacity q"
    by (rule brq_pop_ok)
  show "\<exists>e. brq_pop d q = Inl e" if "brq_items q = []"
    using that by (simp add: brq_pop_def brq_empty_iff)
qed

lemma brq_ok_empty_cells:
  assumes "brq_ok d q" "brq_items q = []"
  shows "set (brq_buffer q) = {d}"
proof -
  let ?L = "brq_capacity q" and ?w = "ring_window (brq_buffer q) (brq_tail q) (brq_capacity q)"
  have size: "brq_size q = 0"
    using assms(2) by (metis length_brq_items list.size(3))
  have L: "0 < ?L" "length (brq_buffer q) = ?L" "brq_tail q < ?L" "?w = replicate ?L d"
    using assms(1) size by (auto simp: brq_ok_def)
  have "brq_buffer q ! i = d" if "i < ?L" for i
  proof -
    let ?j = "(i + (?L - brq_tail q)) mod ?L"
    have "(brq_tail q + ?j) mod ?L = (brq_tail q + (i + (?L - brq_tail q))) mod ?L"
      by (simp add: mod_add_right_eq)
    then have "(brq_tail q + ?j) mod ?L = i"
      using L(3) that by (simp add: add.left_commute)
    moreover have "?w ! ?j = d"
      using L(1,4) by simp
    ultimately show ?thesis
      using L(1,2) by (simp add: ring_window_def)
  qed
  then show ?thesis
    using L(1,2) by (force simp: set_conv_nth)
qed

text \<open>\<open>clear\<close> pops until the queue is empty; it terminates and never throws.\<close>

lemma brq_clear_ok:
  "brq_ok d q \<Longrightarrow> \<exists>q'. brq_clear d q = Inr q' \<and> brq_ok d q' \<and> brq_items q' = [] \<and>
                      brq_capacity q' = brq_capacity q"
proof (induction "brq_items q" arbitrary: q)
  case Nil
  then show ?case by (auto simp: brq_clear.simps [of d q] brq_empty_iff)
next
  case (Cons x xs)
  then obtain q1 where q1: "brq_pop d q = Inr (x, q1)" "brq_ok d q1" "brq_items q1 = xs"
    "brq_capacity q1 = brq_capacity q"
    using brq_pop_ok [of d q x xs] by metis
  have "\<not> brq_empty q"
    using Cons.hyps(2) by (metis brq_empty_iff list.distinct(1))
  with Cons.hyps(1) [of q1] q1 show ?case
    by (auto simp: brq_clear.simps [of d q])
qed

section \<open>LocalTaskQueue\<close>

type_synonym 'a lq = "'a list"

definition lq_push_owner :: "'a lq \<Rightarrow> 'a \<Rightarrow> 'a lq" where
  "lq_push_owner q task = task # q"

text \<open>\<open>None\<close> stands for the return value false, with the reference parameter untouched.\<close>

definition lq_try_pop_owner :: "'a lq \<Rightarrow> ('a \<times> 'a lq) option" where
  "lq_try_pop_owner q = (case q of [] \<Rightarrow> None | t # q' \<Rightarrow> Some (t, q'))"

definition lq_try_steal :: "'a lq \<Rightarrow> ('a \<times> 'a lq) option" where
  "lq_try_steal q = (if q = [] then None else Some (last q, butlast q))"

definition lq_empty :: "'a lq \<Rightarrow> bool" where
  "lq_empty q \<longleftrightarrow> q = []"

definition lq_size :: "'a lq \<Rightarrow> nat" where
  "lq_size q = length q"

lemma lq_try_pop_owner_Some:
  "lq_try_pop_owner q = Some (t, q') \<longleftrightarrow> q = t # q'"
  by (auto simp: lq_try_pop_owner_def split: list.splits)

lemma lq_try_steal_Some:
  "lq_try_steal q = Some (t, q') \<longleftrightarrow> q = q' @ [t]"
  by (auto simp: lq_try_steal_def)

lemma lq_try_steal_None: "lq_try_steal q = None \<longleftrightarrow> q = []"
  by (simp add: lq_try_steal_def)

text \<open>A history of calls on one deque: owner pushes and pops, steals by others.\<close>

datatype 'a lq_op = Owner_Push 'a | Owner_Pop | Steal

fun lq_run :: "'a lq \<Rightarrow> 'a lq_op list \<Rightarrow> 'a list \<times> 'a list \<times> 'a lq" where
  "lq_run q [] = ([], [], q)"
| "lq_run q (Owner_Push t # os) = lq_run (lq_push_owner q t) os"
| "lq_run q (Owner_Pop # os) =
     (case lq_try_pop_owner q of
        None \<Rightarrow> lq_run q os
      | Some (t, q') \<Rightarrow> (let (own, stolen, q'') = lq_run q' os in (t # own, stolen, q'')))"
| "lq_run q (Steal # os) =
     (case lq_try_steal q of
        None \<Rightarrow> lq_run q os
      | Some (t, q') \<Rightarrow> (let (own, stolen, q'') = lq_run q' os in (own, t # stolen, q'')))"

fun lq_pushed :: "'a lq_op list \<Rightarrow> 'a list" where
  "lq_pushed [] = []"
| "lq_pushed (Owner_Push t # os) = t # lq_pushed os"
| "lq_pushed (_ # os) = lq_pushed os"

lemma lq_run_conserves:
  "lq_run q os = (own, stolen, q') \<Longrightarrow>
   mset q + mset (lq_pushed os) = mset own + mset stolen + mset q'"
proof (induction q os arbitrary: own stolen q' rule: lq_run.induct)
  case (3 q os)
  then show ?case
    by (cases "lq_try_pop_owner q") (fastforce simp: lq_try_pop_owner_Some split: prod.splits)+
next
  case (4 q os)
  then show ?case
    by (cases "lq_try_steal q") (fastforce simp: lq_try_steal_Some split: prod.splits)+
qed (auto simp: lq_push_owner_def)

text \<open>
  Without owner pops the deque is a queue: thieves see the tasks in the order they were
  pushed, oldest first.
\<close>

lemma lq_steal_order:
  "lq_run q os = (own, stolen, q') \<Longrightarrow> Owner_Pop \<notin> set os \<Longrightarrow>
   stolen @ rev q' = rev q @ lq_pushed os"
proof (induction q os arbitrary: own stolen q' rule: lq_run.induct)
  case (4 q os)
  then show ?case
    by (cases "lq_try_steal q") (fastforce simp: lq_try_steal_Some split: prod.splits)+
qed (auto simp: lq_push_owner_def)


section \<open>Properties\<close>

text \<open>
  The shared task queue is a bounded FIFO: over any sequence of pushes and pops on a new
  queue, rejected calls included, what came out followed by what is stored is what went in, in
  order, within the capacity; and \<open>clear\<close> then terminates without an exception, leaving an
  empty queue of the same capacity in which every cell holds the default value again.
\<close>

theorem task_queue_fifo:
  assumes "brq_new d c = Inr q" and "fifo_run brq_push (brq_pop d) q os = (ins, outs, q')"
  shows "outs @ brq_items q' = ins \<and> length (brq_items q') \<le> c \<and>
    (\<exists>q''. brq_clear d q' = Inr q'' \<and> brq_items q'' = [] \<and> brq_capacity q'' = c \<and>
           set (brq_buffer q'') = {d})"
proof -
  have q: "brq_ok d q" "brq_items q = []" "brq_capacity q = c"
    using brq_new_ok [OF assms(1)] by auto
  note run = brq.run_fifo [OF q(1) assms(2)]
  obtain q'' where q'': "brq_clear d q' = Inr q''" "brq_ok d q''" "brq_items q'' = []"
    "brq_capacity q'' = c"
    using brq_clear_ok [of d q'] run q by auto
  then show ?thesis
    using run q brq.run_bounded [OF q(1) assms(2)] brq_ok_empty_cells [of d q''] by auto
qed

lemma task_queue_fifo_witness:
  "\<exists>q q' q'' :: nat brq. brq_new 0 2 = Inr q \<and>
     fifo_run brq_push (brq_pop 0) q [Fifo_Push 5, Fifo_Push 6, Fifo_Push 7, Fifo_Pop, Fifo_Push 8]
       = ([5, 6, 8], [5], q') \<and>
     brq_items q' = [6, 8] \<and> brq_clear 0 q' = Inr q'' \<and> set (brq_buffer q'') = {0}"
proof -
  obtain q where q: "brq_new 0 2 = (Inr q :: nat brq result)"
    by (simp add: brq_new_def)
  obtain q' where run: "fifo_run brq_push (brq_pop 0) q
      [Fifo_Push 5, Fifo_Push 6, Fifo_Push 7, Fifo_Pop, Fifo_Push 8] = ([5, 6, 8], [5], q')"
    using q by (auto simp: brq_new_def brq_push_def brq_full_def brq_pop_def brq_empty_def
        numeral_2_eq_2)
  show ?thesis
    using q run task_queue_fifo [OF q run] by auto
qed

text \<open>
  The deque of a worker loses and duplicates nothing: over any history of owner pushes,
  owner pops and steals, what was pushed is what the owner popped, what was stolen and what is
  left. While the owner does not pop, thieves get the tasks oldest first; the owner always gets
  the task it pushed last.
\<close>

theorem local_queue_histories:
  "(case lq_run [] os of (own, stolen, q') \<Rightarrow>
      mset (lq_pushed os) = mset own + mset stolen + mset q' \<and>
      (Owner_Pop \<notin> set os \<longrightarrow> own = [] \<and> stolen @ rev q' = lq_pushed os)) \<and>
   lq_run q [Owner_Push t, Owner_Pop] = ([t], [], q)"
proof -
  obtain own stolen q' where run: "lq_run [] os = (own, stolen, q')"
    by (metis prod_cases3)
  have "own = []" if "Owner_Pop \<notin> set os"
  proof -
    have "stolen @ rev q' = lq_pushed os"
      using lq_steal_order [OF run that] by simp
    then have "mset (lq_pushed os) = mset stolen + mset q'"
      by (metis mset_append mset_rev)
    then show ?thesis
      using lq_run_conserves [OF run] by simp
  qed
  then show ?thesis
    using run lq_run_conserves [OF run] lq_steal_order [OF run]
    by (auto simp: lq_push_owner_def lq_try_pop_owner_def)
qed

lemma local_queue_histories_witness:
  "lq_run [] [Owner_Push 1, Owner_Push 2, Steal, Owner_Push (3 :: nat), Steal] = ([], [1, 2], [3]) \<and>
   [1, 2] @ rev [3] = lq_pushed [Owner_Push 1, Owner_Push 2, Steal, Owner_Push (3 :: nat), Steal]"
  using local_queue_histories [of "[Owner_Push 1, Owner_Push 2, Steal, Owner_Push (3 :: nat), Steal]" "[]" 0]
  by (simp add: lq_push_owner_def lq_try_steal_def)

end
