(* ===== verification/Thread_Pool.thy ===== *)
theory Thread_Pool
  imports Task_Queues
begin

text \<open>
  \<open>ThreadPool\<close> of code/ThreadPool/ThreadPool.h and ThreadPool.cpp. A task is a
  \<open>MoveOnlyFunction\<close>, \<open>None\<close> when it is the empty function. The submission operations are
  critical sections of \<open>mutex\<close>; they depend on the thread-local pointer \<open>tls_local\<close>, which is
  passed as the content of the local queue it points to (\<open>None\<close> for the null pointer). The
  worker loop is a function of its program counter, one step per lock acquisition.
\<close>

section \<open>State\<close>

type_synonym 'a task = "'a option"

datatype submit_result = Accepted | Queue_Full | Timed_Out | Pool_Stopping

datatype reject_policy = Abort | Caller_Runs | Discard

record 'a pool =
  tp_locals :: "'a task lq list"
  tp_tasks :: "'a task brq"
  tp_queue_capacity :: nat
  tp_reject_policy :: reject_policy
  tp_stopping :: bool

text \<open>The member initialiser builds \<open>tasks\<close> first, so its exception comes before the checks.\<close>

definition tp_new :: "nat \<Rightarrow> nat \<Rightarrow> reject_policy \<Rightarrow> 'a pool result" where
  "tp_new worker_count queue_capacity policy =
     (case brq_new None queue_capacity of
        Inl e \<Rightarrow> throw e
      | Inr tasks \<Rightarrow>
          if worker_count = 0
          then throw (Runtime_Error ''worker_count must be greater than 0'')
          else if queue_capacity = 0
          then throw (Runtime_Error ''queue_capacity must be greater than 0'')
          else ret \<lparr>tp_locals = replicate worker_count [], tp_tasks = tasks,
                     tp_queue_capacity = queue_capacity, tp_reject_policy = policy,
                     tp_stopping = False\<rparr>)"

section \<open>Submitting tasks\<close>

text \<open>
  The state an operation works on: the queue under \<open>tls_local\<close>, if any, and the pool.
\<close>

type_synonym 'a tp_view = "'a task lq option \<times> 'a pool"

definition tp_push_task :: "'a pool \<Rightarrow> 'a task \<Rightarrow> 'r \<Rightarrow> ('r, 'a tp_view) outcome" where
  "tp_push_task p task r =
     (case brq_push (tp_tasks p) task of
        Inl e \<Rightarrow> Throws e
      | Inr q \<Rightarrow> Returns r (None, p\<lparr>tp_tasks := q\<rparr>) [Notify_One Not_Empty])"

definition tp_try_post :: "'a task \<Rightarrow> 'a tp_view \<Rightarrow> (submit_result, 'a tp_view) outcome" where
  "tp_try_post task v =
     (case v of
        (Some lq, p) \<Rightarrow> Returns Accepted (Some (lq_push_owner lq task), p) [Notify_One Not_Empty]
      | (None, p) \<Rightarrow>
          if tp_stopping p then Returns Pool_Stopping v []
          else if brq_full (tp_tasks p) then Returns Queue_Full v []
          else tp_push_task p task Accepted)"

definition tp_post_wait :: "'a task \<Rightarrow> 'a tp_view \<Rightarrow> (unit, 'a tp_view) outcome" where
  "tp_post_wait task v =
     (case v of
        (Some lq, p) \<Rightarrow> Returns () (Some (lq_push_owner lq task), p) [Notify_One Not_Empty]
      | (None, p) \<Rightarrow>
          if \<not> (tp_stopping p \<or> \<not> brq_full (tp_tasks p)) then Blocked
          else if tp_stopping p then Throws (Runtime_Error ''submit on stopped ThreadPool'')
          else tp_push_task p task ())"

definition tp_post_for :: "bool \<Rightarrow> 'a task \<Rightarrow> 'a tp_view \<Rightarrow> (submit_result, 'a tp_view) outcome"
  where
  "tp_post_for expired task v =
     (case v of
        (Some lq, p) \<Rightarrow> Returns Accepted (Some (lq_push_owner lq task), p) [Notify_One Not_Empty]
      | (None, p) \<Rightarrow>
          let ready = (tp_stopping p \<or> \<not> brq_full (tp_tasks p))
          in if \<not> ready \<and> \<not> expired then Blocked
             else if tp_stopping p then Returns Pool_Stopping v []
             else if \<not> ready then Returns Timed_Out v []
             else tp_push_task p task Accepted)"

text \<open>
  \<open>post\<close>, the private operation behind \<open>submit\<close>: its result says whether the caller has to
  run the task itself after unlocking.
\<close>

datatype 'a post_result = Posted | Dropped | Run_Here "'a task"

definition tp_post :: "'a task \<Rightarrow> 'a tp_view \<Rightarrow> ('a post_result, 'a tp_view) outcome" where
  "tp_post task v =
     (case v of
        (Some lq, p) \<Rightarrow> Returns Posted (Some (lq_push_owner lq task), p) [Notify_One Not_Empty]
      | (None, p) \<Rightarrow>
          if tp_stopping p then Throws (Runtime_Error ''submit on stopped ThreadPool'')
          else if brq_full (tp_tasks p)
          then (if tp_reject_policy p = Abort then Throws (Runtime_Error ''task queue is full'')
                else if tp_reject_policy p = Discard then Returns Dropped v []
                else Returns (Run_Here task) v [])
          else tp_push_task p task Posted)"

section \<open>Looking for work\<close>

text \<open>
  The loops of \<open>TrySteal\<close> and \<open>HasStealableWork\<close> over \<open>offset = 1 .. count - 1\<close>; \<open>k\<close> offsets
  are left.
\<close>

definition tp_victim :: "'a pool \<Rightarrow> nat \<Rightarrow> nat \<Rightarrow> nat" where
  "tp_victim p worker_index offset = (worker_index + offset) mod length (tp_locals p)"

fun tp_steal_loop :: "'a pool \<Rightarrow> nat \<Rightarrow> nat \<Rightarrow> nat \<Rightarrow> ('a task \<times> 'a pool) option" where
  "tp_steal_loop p w offset 0 = None"
| "tp_steal_loop p w offset (Suc k) =
     (let victim = tp_victim p w offset
      in case lq_try_steal (tp_locals p ! victim) of
           Some (t, q) \<Rightarrow> Some (t, p\<lparr>tp_locals := (tp_locals p)[victim := q]\<rparr>)
         | None \<Rightarrow> tp_steal_loop p w (offset + 1) k)"

definition tp_try_steal :: "'a pool \<Rightarrow> nat \<Rightarrow> ('a task \<times> 'a pool) option" where
  "tp_try_steal p w = tp_steal_loop p w 1 (length (tp_locals p) - 1)"

fun tp_stealable_loop :: "'a pool \<Rightarrow> nat \<Rightarrow> nat \<Rightarrow> nat \<Rightarrow> bool" where
  "tp_stealable_loop p w offset 0 = False"
| "tp_stealable_loop p w offset (Suc k) =
     (if \<not> lq_empty (tp_locals p ! tp_victim p w offset) then True
      else tp_stealable_loop p w (offset + 1) k)"

definition tp_has_stealable_work :: "'a pool \<Rightarrow> nat \<Rightarrow> bool" where
  "tp_has_stealable_work p w = tp_stealable_loop p w 1 (length (tp_locals p) - 1)"

fun tp_all_empty_loop :: "'a pool \<Rightarrow> nat \<Rightarrow> nat \<Rightarrow> bool" where
  "tp_all_empty_loop p i 0 = True"
| "tp_all_empty_loop p i (Suc k) =
     (if \<not> lq_empty (tp_locals p ! i) then False else tp_all_empty_loop p (i + 1) k)"

definition tp_all_local_empty :: "'a pool \<Rightarrow> bool" where
  "tp_all_local_empty p = tp_all_empty_loop p 0 (length (tp_locals p))"

definition tp_has_any_work :: "'a pool \<Rightarrow> nat \<Rightarrow> bool" where
  "tp_has_any_work p w =
     (if \<not> brq_empty (tp_tasks p) then True
      else if \<not> lq_empty (tp_locals p ! w) then True
      else tp_has_stealable_work p w)"

section \<open>The worker loop\<close>

text \<open>
  Where a worker is in \<open>WorkerLoop\<close>: at the top of the loop; about to look at the shared
  queue; about to try the victim of an offset; about to lock for the wait; evaluating
  \<open>HasStealableWork\<close> at an offset, with the lock held; past the wait, with the lock held;
  evaluating \<open>AllLocalEmpty\<close> at an index, with the lock held; asleep; running a task; returned.
\<close>

datatype 'a w_pc =
    W_Pop
  | W_Global
  | W_Steal nat
  | W_Wait
  | W_Pred nat
  | W_Ready
  | W_Scan nat
  | W_Sleep
  | W_Run "'a task"
  | W_Exited

fun holds_lock :: "'a w_pc \<Rightarrow> bool" where
  "holds_lock (W_Pred k) = True"
| "holds_lock W_Ready = True"
| "holds_lock (W_Scan k) = True"
| "holds_lock _ = False"

text \<open>
  One step of worker \<open>w\<close> by itself: \<open>free\<close> says that nobody holds \<open>mutex\<close>. \<open>None\<close>: it waits
  for the mutex, sleeps, runs a task, or has returned. \<open>brq_pop\<close> cannot throw under its guard.
\<close>

fun tp_worker_step :: "nat \<Rightarrow> bool \<Rightarrow> 'a pool \<Rightarrow> 'a w_pc \<Rightarrow> ('a pool \<times> 'a w_pc) option" where
  "tp_worker_step w free p W_Pop =
     (case lq_try_pop_owner (tp_locals p ! w) of
        Some (t, q) \<Rightarrow> Some (p\<lparr>tp_locals := (tp_locals p)[w := q]\<rparr>, W_Run t)
      | None \<Rightarrow> Some (p, W_Global))"
| "tp_worker_step w free p W_Global =
     (if \<not> free then None
      else if \<not> brq_empty (tp_tasks p)
      then (case brq_pop None (tp_tasks p) of
              Inl e \<Rightarrow> None
            | Inr (t, q) \<Rightarrow> Some (p\<lparr>tp_tasks := q\<rparr>, W_Run t))
      else Some (p, W_Steal 1))"
| "tp_worker_step w free p (W_Steal offset) =
     (if offset < length (tp_locals p)
      then (let victim = tp_victim p w offset
            in case lq_try_steal (tp_locals p ! victim) of
                 Some (t, q) \<Rightarrow> Some (p\<lparr>tp_locals := (tp_locals p)[victim := q]\<rparr>, W_Run t)
               | None \<Rightarrow> Some (p, W_Steal (offset + 1)))
      else Some (p, W_Wait))"
| "tp_worker_step w free p W_Wait =
     (if \<not> free then None
      else if tp_stopping p \<or> \<not> brq_empty (tp_tasks p) \<or> \<not> lq_empty (tp_locals p ! w)
      then Some (p, W_Ready) else Some (p, W_Pred 1))"
| "tp_worker_step w free p (W_Pred offset) =
     (if offset < length (tp_locals p)
      then (if \<not> lq_empty (tp_locals p ! tp_victim p w offset) then Some (p, W_Ready)
            else Some (p, W_Pred (offset + 1)))
      else Some (p, W_Sleep))"
| "tp_worker_step w free p W_Ready =
     (if tp_stopping p \<and> brq_empty (tp_tasks p) then Some (p, W_Scan 0) else Some (p, W_Pop))"
| "tp_worker_step w free p (W_Scan i) =
     (if i < length (tp_locals p)
      then (if \<not> lq_empty (tp_locals p ! i) then Some (p, W_Pop) else Some (p, W_Scan (i + 1)))
      else Some (p, W_Exited))"
| "tp_worker_step w free p _ = None"

section \<open>The whole pool\<close>

text \<open>
  Threads outside the pool submit tasks, run a task the \<open>Caller_Runs\<close> policy handed back, or
  destroy the pool: set \<open>stopping\<close> under the lock, notify everybody, join the workers.
  History variables record the tasks accepted for execution and the tasks run to completion.
\<close>

datatype 'a tp_call =
    Try_Post "'a task" | Post_Wait "'a task" | Post_For "'a task" | Post "'a task"

datatype 'a c_pc =
    C_Idle
  | C_Enter "'a tp_call" bool
  | C_Sleep "'a tp_call"
  | C_Run "'a task"
  | C_Destroy
  | C_Notify_All
  | C_Join
  | C_Joined

record 'a tp_sys =
  ts_pool :: "'a pool"
  ts_workers :: "'a w_pc list"
  ts_clients :: "'a c_pc list"
  ts_accepted :: "'a task list"
  ts_done :: "'a task list"

definition lock_free :: "'a tp_sys \<Rightarrow> bool" where
  "lock_free s \<longleftrightarrow> (\<forall>pc \<in> set (ts_workers s). \<not> holds_lock pc)"

datatype 'a tp_reply = Taken "'a task" | Not_Taken | Take_Back "'a task"

fun tp_exec :: "'a tp_call \<Rightarrow> bool \<Rightarrow> 'a tp_view \<Rightarrow> ('a tp_reply, 'a tp_view) outcome" where
  "tp_exec (Try_Post t) expired v =
     map_reply (\<lambda>r. if r = Accepted then Taken t else Not_Taken) (tp_try_post t v)"
| "tp_exec (Post_Wait t) expired v = map_reply (\<lambda>_. Taken t) (tp_post_wait t v)"
| "tp_exec (Post_For t) expired v =
     map_reply (\<lambda>r. if r = Accepted then Taken t else Not_Taken) (tp_post_for expired t v)"
| "tp_exec (Post t) expired v =
     map_reply (\<lambda>r. case r of Posted \<Rightarrow> Taken t | Dropped \<Rightarrow> Not_Taken | Run_Here t' \<Rightarrow> Take_Back t')
       (tp_post t v)"

fun reply_accepted :: "'a tp_reply \<Rightarrow> 'a task list" where
  "reply_accepted (Taken t) = [t]"
| "reply_accepted Not_Taken = []"
| "reply_accepted (Take_Back t) = [t]"

fun reply_pc :: "'a tp_reply \<Rightarrow> 'a c_pc" where
  "reply_pc (Take_Back t) = C_Run t"
| "reply_pc _ = C_Idle"

inductive tp_step :: "'a tp_sys \<Rightarrow> 'a tp_sys \<Rightarrow> bool" where
  tps_worker: "w < length (ts_workers s) \<Longrightarrow>
    tp_worker_step w (lock_free s) (ts_pool s) (ts_workers s ! w) = Some (p, pc) \<Longrightarrow>
    tp_step s (s\<lparr>ts_pool := p, ts_workers := (ts_workers s)[w := pc]\<rparr>)"
| tps_wake: "w < length (ts_workers s) \<Longrightarrow> ts_workers s ! w = W_Sleep \<Longrightarrow>
    tp_step s (s\<lparr>ts_workers := (ts_workers s)[w := W_Wait]\<rparr>)"
| tps_finish: "w < length (ts_workers s) \<Longrightarrow> ts_workers s ! w = W_Run (Some a) \<Longrightarrow>
    tp_step s (s\<lparr>ts_workers := (ts_workers s)[w := W_Pop], ts_done := Some a # ts_done s\<rparr>)"
| tps_worker_post: "w < length (ts_workers s) \<Longrightarrow> ts_workers s ! w = W_Run (Some a) \<Longrightarrow>
    tp_exec c e (Some (tp_locals (ts_pool s) ! w), ts_pool s) = Returns r (Some q, p) ns \<Longrightarrow>
    tp_step s (s\<lparr>ts_pool := p\<lparr>tp_locals := (tp_locals p)[w := q]\<rparr>,
                 ts_accepted := reply_accepted r @ ts_accepted s\<rparr>)"
| tps_call: "i < length (ts_clients s) \<Longrightarrow> ts_clients s ! i = C_Idle \<Longrightarrow>
    tp_step s (s\<lparr>ts_clients := (ts_clients s)[i := C_Enter c False]\<rparr>)"
| tps_return: "i < length (ts_clients s) \<Longrightarrow> ts_clients s ! i = C_Enter c e \<Longrightarrow> lock_free s \<Longrightarrow>
    tp_exec c e (None, ts_pool s) = Returns r (None, p) ns \<Longrightarrow>
    tp_step s (s\<lparr>ts_pool := p, ts_clients := (ts_clients s)[i := reply_pc r],
                 ts_accepted := reply_accepted r @ ts_accepted s\<rparr>)"
| tps_throw: "i < length (ts_clients s) \<Longrightarrow> ts_clients s ! i = C_Enter c e \<Longrightarrow> lock_free s \<Longrightarrow>
    tp_exec c e (None, ts_pool s) = Throws x \<Longrightarrow>
    tp_step s (s\<lparr>ts_clients := (ts_clients s)[i := C_Idle]\<rparr>)"
| tps_block: "i < length (ts_clients s) \<Longrightarrow> ts_clients s ! i = C_Enter c e \<Longrightarrow> lock_free s \<Longrightarrow>
    tp_exec c e (None, ts_pool s) = Blocked \<Longrightarrow>
    tp_step s (s\<lparr>ts_clients := (ts_clients s)[i := C_Sleep c]\<rparr>)"
| tps_unblock: "i < length (ts_clients s) \<Longrightarrow> ts_clients s ! i = C_Sleep c \<Longrightarrow>
    tp_step s (s\<lparr>ts_clients := (ts_clients s)[i := C_Enter c e]\<rparr>)"
| tps_caller_runs: "i < length (ts_clients s) \<Longrightarrow> ts_clients s ! i = C_Run (Some a) \<Longrightarrow>
    tp_step s (s\<lparr>ts_clients := (ts_clients s)[i := C_Idle], ts_done := Some a # ts_done s\<rparr>)"
| tps_destroy: "i < length (ts_clients s) \<Longrightarrow> ts_clients s ! i = C_Idle \<Longrightarrow>
    tp_step s (s\<lparr>ts_clients := (ts_clients s)[i := C_Destroy]\<rparr>)"
| tps_stopping: "i < length (ts_clients s) \<Longrightarrow> ts_clients s ! i = C_Destroy \<Longrightarrow> lock_free s \<Longrightarrow>
    tp_step s (s\<lparr>ts_pool := (ts_pool s)\<lparr>tp_stopping := True\<rparr>,
                 ts_clients := (ts_clients s)[i := C_Notify_All]\<rparr>)"
| tps_notify_all: "i < length (ts_clients s) \<Longrightarrow> ts_clients s ! i = C_Notify_All \<Longrightarrow>
    tp_step s (s\<lparr>ts_workers := map (\<lambda>pc. if pc = W_Sleep then W_Wait else pc) (ts_workers s),
                 ts_clients := map (\<lambda>pc. case pc of C_Sleep c \<Rightarrow> C_Enter c False | _ \<Rightarrow> pc)
                                 ((ts_clients s)[i := C_Join])\<rparr>)"
| tps_joined: "i < length (ts_clients s) \<Longrightarrow> ts_clients s ! i = C_Join \<Longrightarrow>
    \<forall>pc \<in> set (ts_workers s). pc = W_Exited \<Longrightarrow>
    tp_step s (s\<lparr>ts_clients := (ts_clients s)[i := C_Joined]\<rparr>)"

definition tp_init :: "nat \<Rightarrow> nat \<Rightarrow> reject_policy \<Rightarrow> nat \<Rightarrow> 'a tp_sys \<Rightarrow> bool" where
  "tp_init workers capacity policy clients s \<longleftrightarrow>
     tp_new workers capacity policy = Inr (ts_pool s) \<and>
     ts_workers s = replicate workers W_Pop \<and> ts_clients s = replicate clients C_Idle \<and>
     ts_accepted s = [] \<and> ts_done s = []"

section \<open>Stealing\<close>

lemma tp_victims:
  fixes w n :: nat and P :: "nat \<Rightarrow> bool"
  assumes "w < n"
  shows "(\<exists>offset. 1 \<le> offset \<and> offset < n \<and> P ((w + offset) mod n)) \<longleftrightarrow>
         (\<exists>v < n. v \<noteq> w \<and> P v)"
proof
  assume "\<exists>offset. 1 \<le> offset \<and> offset < n \<and> P ((w + offset) mod n)"
  then obtain d where d: "1 \<le> d" "d < n" "P ((w + d) mod n)" by blast
  have "(w + 0) mod n \<noteq> (w + d) mod n"
    by (rule ring_index_neq) (use d in auto)
  with d assms show "\<exists>v < n. v \<noteq> w \<and> P v"
    by (intro exI [of _ "(w + d) mod n"]) auto
next
  assume "\<exists>v < n. v \<noteq> w \<and> P v"
  then obtain v where v: "v < n" "v \<noteq> w" "P v" by blast
  let ?d = "if w < v then v - w else n + v - w"
  have "1 \<le> ?d" "?d < n" "(w + ?d) mod n = v"
    using assms v by auto
  with v(3) show "\<exists>offset. 1 \<le> offset \<and> offset < n \<and> P ((w + offset) mod n)"
    by metis
qed

lemma range_Suc_ex:
  "(\<exists>d. offset \<le> d \<and> d < offset + Suc k \<and> P d) \<longleftrightarrow>
   P offset \<or> (\<exists>d. Suc offset \<le> d \<and> d < Suc offset + k \<and> P d)" (is "?l \<longleftrightarrow> ?r")
proof
  assume ?l
  then obtain d where d: "offset \<le> d" "d < offset + Suc k" "P d" by blast
  then show ?r by (cases "d = offset") (auto intro!: exI [of _ d])
next
  assume ?r
  then show ?l by (auto intro: exI [of _ offset] Suc_leD)
qed

lemma tp_stealable_loop_iff:
  "tp_stealable_loop p w offset k \<longleftrightarrow>
   (\<exists>d. offset \<le> d \<and> d < offset + k \<and> tp_locals p ! tp_victim p w d \<noteq> [])"
proof (induction p w offset k rule: tp_stealable_loop.induct)
  case (2 p w offset k)
  then show ?case
    unfolding range_Suc_ex [of offset k] by (simp add: lq_empty_def)
qed auto

lemma tp_has_stealable_work_iff:
  assumes "w < length (tp_locals p)"
  shows "tp_has_stealable_work p w \<longleftrightarrow>
    (\<exists>v < length (tp_locals p). v \<noteq> w \<and> tp_locals p ! v \<noteq> [])"
proof -
  have "1 + (length (tp_locals p) - 1) = length (tp_locals p)"
    using assms by simp
  then have "tp_has_stealable_work p w \<longleftrightarrow> (\<exists>d. 1 \<le> d \<and> d < length (tp_locals p) \<and>
      tp_locals p ! ((w + d) mod length (tp_locals p)) \<noteq> [])"
    by (simp add: tp_has_stealable_work_def tp_stealable_loop_iff tp_victim_def)
  then show ?thesis
    using tp_victims [OF assms, of "\<lambda>v. tp_locals p ! v \<noteq> []"] by simp
qed

lemma tp_steal_loop_None:
  "tp_steal_loop p w offset k = None \<longleftrightarrow> \<not> tp_stealable_loop p w offset k"
  by (induction p w offset k rule: tp_steal_loop.induct)
    (auto simp: Let_def lq_empty_def lq_try_steal_def split: option.splits)

lemma tp_steal_loop_Some:
  "tp_steal_loop p w offset k = Some (t, p') \<Longrightarrow>
   \<exists>d q. offset \<le> d \<and> d < offset + k \<and> tp_locals p ! tp_victim p w d = q @ [t] \<and>
     p' = p\<lparr>tp_locals := (tp_locals p)[tp_victim p w d := q]\<rparr>"
proof (induction p w offset k rule: tp_steal_loop.induct)
  case (2 p w offset k)
  show ?case
  proof (cases "lq_try_steal (tp_locals p ! tp_victim p w offset)")
    case None
    with 2 obtain d q where "offset + 1 \<le> d" "d < offset + 1 + k"
      "tp_locals p ! tp_victim p w d = q @ [t]"
      "p' = p\<lparr>tp_locals := (tp_locals p)[tp_victim p w d := q]\<rparr>"
      by (auto simp: Let_def)
    then show ?thesis by (intro exI [of _ d] exI [of _ q]) auto
  next
    case (Some r)
    with "2.prems" show ?thesis
      by (cases r) (auto simp: Let_def lq_try_steal_Some intro!: exI [of _ offset])
  qed
qed simp

lemma tp_all_empty_loop_iff:
  "tp_all_empty_loop p i k \<longleftrightarrow> \<not> (\<exists>j. i \<le> j \<and> j < i + k \<and> tp_locals p ! j \<noteq> [])"
proof (induction p i k rule: tp_all_empty_loop.induct)
  case (2 p i k)
  then show ?case
    unfolding range_Suc_ex [of i k] by (simp add: lq_empty_def)
qed auto

lemma tp_all_local_empty_iff: "tp_all_local_empty p \<longleftrightarrow> (\<forall>q \<in> set (tp_locals p). q = [])"
  by (auto simp: tp_all_local_empty_def tp_all_empty_loop_iff all_set_conv_all_nth)

lemma tp_has_any_work_iff:
  "w < length (tp_locals p) \<Longrightarrow>
   tp_has_any_work p w \<longleftrightarrow> brq_items (tp_tasks p) \<noteq> [] \<or> \<not> tp_all_local_empty p"
  by (auto simp: tp_has_any_work_def tp_has_stealable_work_iff tp_all_local_empty_iff
      brq_empty_iff lq_empty_def all_set_conv_all_nth)

section \<open>The invariant of the pool\<close>

definition tp_queued :: "'a pool \<Rightarrow> 'a task multiset" where
  "tp_queued p = sum_list (map mset (tp_locals p)) + mset (brq_items (tp_tasks p))"

definition w_running :: "'a w_pc \<Rightarrow> 'a task multiset" where
  "w_running pc = (case pc of W_Run t \<Rightarrow> {#t#} | _ \<Rightarrow> {#})"

definition c_running :: "'a c_pc \<Rightarrow> 'a task multiset" where
  "c_running pc = (case pc of C_Run t \<Rightarrow> {#t#} | _ \<Rightarrow> {#})"

text \<open>What a worker's place in the loop says of the queues.\<close>

fun worker_ok :: "'a pool \<Rightarrow> nat \<Rightarrow> 'a w_pc \<Rightarrow> bool" where
  "worker_ok p w W_Exited \<longleftrightarrow>
     tp_stopping p \<and> brq_items (tp_tasks p) = [] \<and> tp_locals p ! w = []"
| "worker_ok p w (W_Scan i) \<longleftrightarrow>
     tp_stopping p \<and> brq_items (tp_tasks p) = [] \<and> (w < i \<longrightarrow> tp_locals p ! w = [])"
| "worker_ok p w (W_Pred offset) \<longleftrightarrow> \<not> tp_stopping p"
| "worker_ok p w _ \<longleftrightarrow> True"

definition tp_inv :: "'a tp_sys \<Rightarrow> bool" where
  "tp_inv s \<longleftrightarrow>
     brq_ok None (tp_tasks (ts_pool s)) \<and>
     length (ts_workers s) = length (tp_locals (ts_pool s)) \<and>
     mset (ts_accepted s) = mset (ts_done s) + tp_queued (ts_pool s) +
       sum_list (map w_running (ts_workers s)) + sum_list (map c_running (ts_clients s)) \<and>
     (\<forall>w < length (ts_workers s). worker_ok (ts_pool s) w (ts_workers s ! w)) \<and>
     (\<forall>pc \<in> set (ts_clients s). pc \<in> {C_Notify_All, C_Join, C_Joined} \<longrightarrow> tp_stopping (ts_pool s)) \<and>
     (\<forall>pc \<in> set (ts_clients s). pc \<in> {C_Join, C_Joined} \<longrightarrow> W_Sleep \<notin> set (ts_workers s)) \<and>
     (C_Joined \<in> set (ts_clients s) \<longrightarrow> (\<forall>pc \<in> set (ts_workers s). pc = W_Exited))"

lemma w_running_simps [simp]:
  "w_running (W_Run t) = {#t#}" "w_running W_Pop = {#}" "w_running W_Global = {#}"
  "w_running (W_Steal k) = {#}" "w_running W_Wait = {#}" "w_running (W_Pred k) = {#}"
  "w_running W_Ready = {#}" "w_running (W_Scan k) = {#}" "w_running W_Sleep = {#}"
  "w_running W_Exited = {#}"
  by (simp_all add: w_running_def)

lemma c_running_simps [simp]:
  "c_running (C_Run t) = {#t#}" "c_running C_Idle = {#}" "c_running (C_Enter c e) = {#}"
  "c_running (C_Sleep c) = {#}" "c_running C_Destroy = {#}" "c_running C_Notify_All = {#}"
  "c_running C_Join = {#}" "c_running C_Joined = {#}"
  by (simp_all add: c_running_def)

text \<open>Replacing the content of one local queue.\<close>

lemma tp_queued_local:
  "v < length (tp_locals p) \<Longrightarrow>
   tp_queued (p\<lparr>tp_locals := (tp_locals p)[v := q]\<rparr>) + mset (tp_locals p ! v)
     = tp_queued p + mset q"
  using sum_list_map_update [of v "tp_locals p" mset q]
  by (simp add: tp_queued_def ac_simps)

text \<open>
  A worker's own step moves tasks from the queues to itself and never adds one; \<open>shrinks\<close>
  is what the other threads see of it.
\<close>

definition shrinks :: "'a pool \<Rightarrow> 'a pool \<Rightarrow> bool" where
  "shrinks p p' \<longleftrightarrow>
     tp_stopping p' = tp_stopping p \<and> length (tp_locals p') = length (tp_locals p) \<and>
     (brq_items (tp_tasks p) = [] \<longrightarrow> brq_items (tp_tasks p') = []) \<and>
     (\<forall>v. tp_locals p ! v = [] \<longrightarrow> tp_locals p' ! v = [])"

lemma shrinks_refl [simp]: "shrinks p p"
  by (simp add: shrinks_def)

lemma shrinks_local:
  "(tp_locals p ! v = [] \<Longrightarrow> q = []) \<Longrightarrow> shrinks p (p\<lparr>tp_locals := (tp_locals p)[v := q]\<rparr>)"
  by (cases "v < length (tp_locals p)")
    (auto simp: shrinks_def nth_list_update list_update_beyond)

lemma worker_ok_shrinks: "shrinks p p' \<Longrightarrow> worker_ok p v pc \<Longrightarrow> worker_ok p' v pc"
  by (cases pc) (auto simp: shrinks_def)

lemma tp_worker_step_ok:
  assumes "tp_worker_step w free p pc = Some (p', pc')"
    and "brq_ok None (tp_tasks p)" "w < length (tp_locals p)" "worker_ok p w pc"
  shows "brq_ok None (tp_tasks p') \<and> shrinks p p' \<and> worker_ok p' w pc' \<and>
    tp_queued p' + w_running pc' = tp_queued p + w_running pc \<and>
    (pc' = W_Sleep \<longrightarrow> \<not> tp_stopping p')"
proof (cases pc)
  case W_Pop
  show ?thesis
  proof (cases "tp_locals p ! w")
    case Nil
    with W_Pop assms show ?thesis by (auto simp: lq_try_pop_owner_def)
  next
    case (Cons t q)
    with W_Pop assms tp_queued_local [OF assms(3), of q] show ?thesis
      by (auto simp: lq_try_pop_owner_def intro!: shrinks_local)
  qed
next
  case W_Global
  show ?thesis
  proof (cases "brq_items (tp_tasks p)")
    case Nil
    with W_Global assms show ?thesis
      by (auto simp: brq_empty_iff split: if_splits)
  next
    case (Cons t ts)
    then obtain q where q: "brq_pop None (tp_tasks p) = Inr (t, q)" "brq_ok None q"
      "brq_items q = ts"
      using brq_pop_ok [OF assms(2) Cons] by blast
    with W_Global Cons assms show ?thesis
      by (auto simp: brq_empty_iff shrinks_def tp_queued_def split: if_splits)
  qed
next
  case (W_Steal offset)
  let ?v = "tp_victim p w offset"
  have v: "?v < length (tp_locals p)"
    using assms(3) by (cases "tp_locals p") (auto simp: tp_victim_def)
  show ?thesis
  proof (cases "tp_locals p ! ?v" rule: rev_cases)
    case Nil
    with W_Steal assms show ?thesis by (auto simp: lq_try_steal_def Let_def split: if_splits)
  next
    case (snoc q t)
    with W_Steal assms tp_queued_local [OF v, of q] show ?thesis
      by (auto simp: lq_try_steal_def Let_def split: if_splits intro!: shrinks_local)
  qed
next
  case (W_Scan i)
  with assms show ?thesis
    by (auto simp: lq_empty_def less_Suc_eq split: if_splits)
qed (use assms in \<open>auto simp: brq_empty_iff lq_empty_def split: if_splits\<close>)

text \<open>Submission from outside touches the shared queue only, and only while not stopping.\<close>

lemma tp_exec_outside:
  assumes "tp_exec c e (None, p) = Returns r (None, p') ns" "brq_ok None (tp_tasks p)"
  shows "brq_ok None (tp_tasks p') \<and> tp_locals p' = tp_locals p \<and>
    tp_stopping p' = tp_stopping p \<and>
    tp_queued p' + c_running (reply_pc r) = tp_queued p + mset (reply_accepted r) \<and>
    (tp_stopping p \<longrightarrow> p' = p)"
proof -
  have push: "brq_ok None q' \<and> brq_items q' = brq_items (tp_tasks p) @ [t]"
    if "brq_push (tp_tasks p) t = Inr q'" for t q'
    using brq.push_InrD [OF assms(2) that] by simp
  show ?thesis
    using assms
    by (cases c)
      (auto simp: tp_try_post_def tp_post_wait_def tp_post_for_def tp_post_def tp_push_task_def
        tp_queued_def Let_def dest!: push split: if_splits sum.splits)
qed

text \<open>Submission from a worker goes to its own queue, whatever the state of the pool.\<close>

lemma tp_exec_inside:
  "tp_exec c e (Some lq, p) = Returns r (Some q, p') ns \<Longrightarrow>
   p' = p \<and> (\<exists>t. q = t # lq \<and> reply_accepted r = [t])"
  by (cases c)
    (auto simp: tp_try_post_def tp_post_wait_def tp_post_for_def tp_post_def lq_push_owner_def)


lemma tp_invD:
  assumes "tp_inv s"
  shows "brq_ok None (tp_tasks (ts_pool s))"
    and "length (ts_workers s) = length (tp_locals (ts_pool s))"
    and "mset (ts_accepted s) = mset (ts_done s) + tp_queued (ts_pool s) +
       sum_list (map w_running (ts_workers s)) + sum_list (map c_running (ts_clients s))"
    and "w < length (ts_workers s) \<Longrightarrow> worker_ok (ts_pool s) w (ts_workers s ! w)"
    and "pc \<in> set (ts_clients s) \<Longrightarrow> pc \<in> {C_Notify_All, C_Join, C_Joined} \<Longrightarrow>
       tp_stopping (ts_pool s)"
    and "pc \<in> set (ts_clients s) \<Longrightarrow> pc \<in> {C_Join, C_Joined} \<Longrightarrow> W_Sleep \<notin> set (ts_workers s)"
    and "C_Joined \<in> set (ts_clients s) \<Longrightarrow> wpc \<in> set (ts_workers s) \<Longrightarrow> wpc = W_Exited"
  using assms unfolding tp_inv_def by blast+

lemma tp_invI:
  assumes "ts_pool s = p" "ts_workers s = ws" "ts_clients s = cs"
    and "brq_ok None (tp_tasks p)" "length ws = length (tp_locals p)"
    and "mset (ts_accepted s) = mset (ts_done s) + tp_queued p +
       sum_list (map w_running ws) + sum_list (map c_running cs)"
    and "\<And>w. w < length ws \<Longrightarrow> worker_ok p w (ws ! w)"
    and "\<And>pc. pc \<in> set cs \<Longrightarrow> pc \<in> {C_Notify_All, C_Join, C_Joined} \<Longrightarrow> tp_stopping p"
    and "\<And>pc. pc \<in> set cs \<Longrightarrow> pc \<in> {C_Join, C_Joined} \<Longrightarrow> W_Sleep \<notin> set ws"
    and "\<And>pc. C_Joined \<in> set cs \<Longrightarrow> pc \<in> set ws \<Longrightarrow> pc = W_Exited"
  shows "tp_inv s"
  using assms unfolding tp_inv_def by blast

text \<open>One worker changes its place, taking from the queues what it now runs.\<close>

lemma tp_inv_worker:
  assumes inv: "tp_inv s" and w: "w < length (ts_workers s)"
    and new: "brq_ok None (tp_tasks p)" "shrinks (ts_pool s) p" "worker_ok p w pc"
      "tp_queued p + w_running pc + mset fin = tp_queued (ts_pool s) + w_running (ts_workers s ! w)"
      "pc = W_Sleep \<Longrightarrow> \<not> tp_stopping p" "ts_workers s ! w \<noteq> W_Exited"
  shows "tp_inv (s\<lparr>ts_pool := p, ts_workers := (ts_workers s)[w := pc],
                   ts_done := fin @ ts_done s\<rparr>)"
proof -
  let ?ws = "(ts_workers s)[w := pc]"
  have st: "tp_stopping p = tp_stopping (ts_pool s)"
    "length (tp_locals p) = length (tp_locals (ts_pool s))"
    using new(2) by (simp_all add: shrinks_def)
  have "sum_list (map w_running ?ws) + w_running (ts_workers s ! w)
      = sum_list (map w_running (ts_workers s)) + w_running pc"
    by (rule sum_list_map_update [OF w])
  from transfer_balance [OF this, of "tp_queued p" "mset fin" "tp_queued (ts_pool s)" "{#}"
      "mset (ts_done s)"] new(4) tp_invD(3) [OF inv]
  have sum: "mset (ts_accepted s) = mset (fin @ ts_done s) + tp_queued p +
       sum_list (map w_running ?ws) + sum_list (map c_running (ts_clients s))"
    by simp
  have ok: "worker_ok p v (?ws ! v)" if "v < length ?ws" for v
    using that tp_invD(4) [OF inv, of v] new(3) worker_ok_shrinks [OF new(2)]
    by (cases "v = w") auto
  have awake: "W_Sleep \<notin> set ?ws" if "c \<in> set (ts_clients s)" "c \<in> {C_Join, C_Joined}" for c
  proof -
    have "tp_stopping p" "W_Sleep \<notin> set (ts_workers s)"
      using tp_invD(5,6) [OF inv that(1)] that(2) st(1) by auto
    with new(5) show ?thesis
      using set_update_subset_insert [of "ts_workers s" w pc] by auto
  qed
  have "C_Joined \<notin> set (ts_clients s)"
    using tp_invD(7) [OF inv, of "ts_workers s ! w"] new(6) w by auto
  then show ?thesis
    using new(1) st tp_invD(2,5) [OF inv] sum ok awake unfolding tp_inv_def
    by simp
qed

text \<open>One client changes its place and perhaps the shared queue.\<close>

lemma tp_inv_client:
  assumes inv: "tp_inv s" and i: "i < length (ts_clients s)"
    and new: "brq_ok None (tp_tasks p)" "tp_locals p = tp_locals (ts_pool s)"
      "tp_stopping p = tp_stopping (ts_pool s)" "tp_stopping (ts_pool s) \<longrightarrow> p = ts_pool s"
      "tp_queued p + c_running pc + mset fin
         = tp_queued (ts_pool s) + c_running (ts_clients s ! i) + mset acc"
      "pc \<notin> {C_Notify_All, C_Join, C_Joined}"
  shows "tp_inv (s\<lparr>ts_pool := p, ts_clients := (ts_clients s)[i := pc],
                   ts_accepted := acc @ ts_accepted s, ts_done := fin @ ts_done s\<rparr>)"
proof -
  let ?cs = "(ts_clients s)[i := pc]"
  have "sum_list (map c_running ?cs) + c_running (ts_clients s ! i)
      = sum_list (map c_running (ts_clients s)) + c_running pc"
    by (rule sum_list_map_update [OF i])
  from transfer_balance [OF this, of "tp_queued p" "mset fin" "tp_queued (ts_pool s)" "mset acc"
      "mset (ts_done s)"] new(5) tp_invD(3) [OF inv]
  have sum: "mset (acc @ ts_accepted s) = mset (fin @ ts_done s) + tp_queued p +
      sum_list (map w_running (ts_workers s)) + sum_list (map c_running ?cs)"
    by (simp add: ac_simps)
  have ok: "worker_ok p w (ts_workers s ! w)" if "w < length (ts_workers s)" for w
  proof -
    have "worker_ok (ts_pool s) w (ts_workers s ! w)"
      using inv that unfolding tp_inv_def by blast
    then show ?thesis
      using new(2-4) by (cases "ts_workers s ! w") auto
  qed
  have cs: "c \<in> set (ts_clients s)" if "c \<in> set ?cs" "c \<in> {C_Notify_All, C_Join, C_Joined}" for c
    using that new(6) set_update_subset_insert [of "ts_clients s" i pc] by auto
  show ?thesis
    using new(1-3) tp_invD(2,5-7) [OF inv] sum ok cs unfolding tp_inv_def
    by simp blast
qed


text \<open>A running task submits to its worker's own queue.\<close>

lemma tp_inv_worker_post:
  assumes inv: "tp_inv s" and w: "w < length (ts_workers s)" "ts_workers s ! w = W_Run (Some a)"
    and q: "q = t # tp_locals (ts_pool s) ! w"
  shows "tp_inv (s\<lparr>ts_pool := (ts_pool s)\<lparr>tp_locals := (tp_locals (ts_pool s))[w := q]\<rparr>,
                   ts_accepted := t # ts_accepted s\<rparr>)"
proof -
  let ?p = "(ts_pool s)\<lparr>tp_locals := (tp_locals (ts_pool s))[w := q]\<rparr>"
  have w': "w < length (tp_locals (ts_pool s))"
    using w(1) tp_invD(2) [OF inv] by simp
  have "tp_queued ?p = add_mset t (tp_queued (ts_pool s))"
    using tp_queued_local [OF w', of q] q by simp
  then have "mset (t # ts_accepted s) = mset (ts_done s) + tp_queued ?p +
      sum_list (map w_running (ts_workers s)) + sum_list (map c_running (ts_clients s))"
    using tp_invD(3) [OF inv] by simp
  moreover have "worker_ok ?p v (ts_workers s ! v)" if "v < length (ts_workers s)" for v
    using tp_invD(4) [OF inv that] w(2) by (cases "v = w"; cases "ts_workers s ! v") auto
  ultimately show ?thesis
    using tp_invD(1,2,5-7) [OF inv] unfolding tp_inv_def by simp
qed

text \<open>The three steps of the destructor.\<close>

lemma tp_inv_stopping:
  assumes inv: "tp_inv s" and i: "i < length (ts_clients s)" "ts_clients s ! i = C_Destroy"
    and free: "lock_free s"
  shows "tp_inv (s\<lparr>ts_pool := (ts_pool s)\<lparr>tp_stopping := True\<rparr>,
                   ts_clients := (ts_clients s)[i := C_Notify_All]\<rparr>)"
proof -
  let ?p = "(ts_pool s)\<lparr>tp_stopping := True\<rparr>" and ?cs = "(ts_clients s)[i := C_Notify_All]"
  have "sum_list (map c_running ?cs) = sum_list (map c_running (ts_clients s))"
    using sum_list_map_update [OF i(1), of c_running C_Notify_All] i(2) by simp
  moreover have "worker_ok ?p w (ts_workers s ! w)" if w: "w < length (ts_workers s)" for w
    using tp_invD(4) [OF inv w] free nth_mem [OF w] unfolding lock_free_def
    by (cases "ts_workers s ! w") auto
  moreover have "c \<in> set (ts_clients s)" if "c \<in> set ?cs" "c \<in> {C_Join, C_Joined}" for c
    using that set_update_subset_insert [of "ts_clients s" i C_Notify_All] by auto
  moreover have "tp_queued ?p = tp_queued (ts_pool s)"
    by (simp add: tp_queued_def)
  ultimately show ?thesis
    using tp_invD [OF inv] unfolding tp_inv_def by simp blast
qed

lemma c_running_woken:
  "c_running (case pc of C_Sleep c \<Rightarrow> C_Enter c False | _ \<Rightarrow> pc) = c_running pc"
  by (cases pc) simp_all

lemma tp_inv_notify_all:
  assumes inv: "tp_inv s" and i: "i < length (ts_clients s)" "ts_clients s ! i = C_Notify_All"
  shows "tp_inv (s\<lparr>ts_workers := map (\<lambda>pc. if pc = W_Sleep then W_Wait else pc) (ts_workers s),
                 ts_clients := map (\<lambda>pc. case pc of C_Sleep c \<Rightarrow> C_Enter c False | _ \<Rightarrow> pc)
                                 ((ts_clients s)[i := C_Join])\<rparr>)"
proof -
  let ?f = "\<lambda>pc. if pc = W_Sleep then W_Wait else pc"
  let ?g = "\<lambda>pc. case pc of C_Sleep c \<Rightarrow> C_Enter c False | _ \<Rightarrow> pc"
  let ?ws = "map ?f (ts_workers s)" and ?cs = "map ?g ((ts_clients s)[i := C_Join])"
  have st: "tp_stopping (ts_pool s)"
    using tp_invD(5) [OF inv, of C_Notify_All] i nth_mem [OF i(1)] by simp
  have "sum_list (map c_running ((ts_clients s)[i := C_Join])) = sum_list (map c_running (ts_clients s))"
    using sum_list_map_update [OF i(1), of c_running C_Join] i(2) by simp
  then have cs: "sum_list (map c_running ?cs) = sum_list (map c_running (ts_clients s))"
    by (simp add: o_def c_running_woken)
  have "w_running (?f pc) = w_running pc" for pc :: "'a w_pc"
    by simp
  then have ws: "map w_running ?ws = map w_running (ts_workers s)"
    by (simp only: list.map_comp o_def)
  have ok: "worker_ok (ts_pool s) w (?ws ! w)" if "w < length ?ws" for w
    using that tp_invD(4) [OF inv, of w] by simp
  have len: "length ?ws = length (tp_locals (ts_pool s))"
    using tp_invD(2) [OF inv] by simp
  have awake: "W_Sleep \<notin> set ?ws" by auto
  have "C_Joined \<in> set ?cs \<Longrightarrow> C_Joined \<in> set (ts_clients s)"
    using set_update_subset_insert [of "ts_clients s" i C_Join]
    by (auto split: c_pc.splits)
  then have joined: "C_Joined \<in> set ?cs \<Longrightarrow> \<forall>pc \<in> set ?ws. pc = W_Exited"
    using tp_invD(7) [OF inv] by fastforce
  show ?thesis
  proof (rule tp_invI [where ws = ?ws and cs = ?cs and p = "ts_pool s"], goal_cases)
    case 6
    have "ts_accepted (s\<lparr>ts_workers := ?ws, ts_clients := ?cs\<rparr>) = ts_accepted s"
      "ts_done (s\<lparr>ts_workers := ?ws, ts_clients := ?cs\<rparr>) = ts_done s"
      by simp_all
    then show ?case by (simp only: cs ws tp_invD(3) [OF inv])
  next
    case (7 w)
    then show ?case by (rule ok)
  next
    case (10 pc)
    then show ?case using joined by blast
  qed (use st len awake tp_invD(1) [OF inv] in \<open>simp; fail\<close>)+
qed

lemma tp_inv_joined:
  assumes inv: "tp_inv s" and i: "i < length (ts_clients s)" "ts_clients s ! i = C_Join"
    and ex: "\<forall>pc \<in> set (ts_workers s). pc = W_Exited"
  shows "tp_inv (s\<lparr>ts_clients := (ts_clients s)[i := C_Joined]\<rparr>)"
proof -
  let ?cs = "(ts_clients s)[i := C_Joined]"
  have "C_Join \<in> set (ts_clients s)"
    using i nth_mem [OF i(1)] by simp
  then have "tp_stopping (ts_pool s)" "W_Sleep \<notin> set (ts_workers s)"
    using tp_invD(5,6) [OF inv, of C_Join] by auto
  moreover have "sum_list (map c_running ?cs) = sum_list (map c_running (ts_clients s))"
    using sum_list_map_update [OF i(1), of c_running C_Joined] i(2) by simp
  ultimately show ?thesis
    using tp_invD(1-4) [OF inv] ex unfolding tp_inv_def by simp
qed

lemma tp_inv_step:
  assumes "tp_step s s'" "tp_inv s"
  shows "tp_inv s'"
  using assms(1)
proof cases
  case (tps_worker w p pc)
  have w': "w < length (tp_locals (ts_pool s))"
    using tps_worker(2) tp_invD(2) [OF assms(2)] by simp
  have "ts_workers s ! w \<noteq> W_Exited"
    using tps_worker(3) by auto
  with tp_worker_step_ok [OF tps_worker(3) tp_invD(1) [OF assms(2)] w'
      tp_invD(4) [OF assms(2) tps_worker(2)]]
  have "tp_inv (s\<lparr>ts_pool := p, ts_workers := (ts_workers s)[w := pc], ts_done := [] @ ts_done s\<rparr>)"
    by (intro tp_inv_worker [OF assms(2) tps_worker(2)]) auto
  with tps_worker(1) show ?thesis by simp
next
  case (tps_wake w)
  have "tp_inv (s\<lparr>ts_pool := ts_pool s, ts_workers := (ts_workers s)[w := W_Wait],
                 ts_done := [] @ ts_done s\<rparr>)"
    by (rule tp_inv_worker [OF assms(2) tps_wake(2)])
      (use tps_wake(3) tp_invD(1) [OF assms(2)] in auto)
  with tps_wake(1) show ?thesis by simp
next
  case (tps_finish w a)
  have "tp_inv (s\<lparr>ts_pool := ts_pool s, ts_workers := (ts_workers s)[w := W_Pop],
                 ts_done := [Some a] @ ts_done s\<rparr>)"
    by (rule tp_inv_worker [OF assms(2) tps_finish(2)])
      (use tps_finish(3) tp_invD(1) [OF assms(2)] in auto)
  with tps_finish(1) show ?thesis by simp
next
  case (tps_worker_post w a c e r q p ns)
  with tp_exec_inside [OF tps_worker_post(4)] tp_inv_worker_post [OF assms(2) tps_worker_post(2,3)]
  show ?thesis by auto
next
  case (tps_call i c)
  have "tp_inv (s\<lparr>ts_pool := ts_pool s, ts_clients := (ts_clients s)[i := C_Enter c False],
                 ts_accepted := [] @ ts_accepted s, ts_done := [] @ ts_done s\<rparr>)"
    by (rule tp_inv_client [OF assms(2) tps_call(2)])
      (use tps_call(3) tp_invD(1) [OF assms(2)] in auto)
  with tps_call(1) show ?thesis by simp
next
  case (tps_return i c e r p ns)
  note out = tp_exec_outside [OF tps_return(5) tp_invD(1) [OF assms(2)]]
  have "tp_inv (s\<lparr>ts_pool := p, ts_clients := (ts_clients s)[i := reply_pc r],
                 ts_accepted := reply_accepted r @ ts_accepted s, ts_done := [] @ ts_done s\<rparr>)"
    by (rule tp_inv_client [OF assms(2) tps_return(2)])
      (use tps_return(3) out in \<open>cases r; auto\<close>)+
  with tps_return(1) show ?thesis by simp
next
  case (tps_throw i c e x)
  have "tp_inv (s\<lparr>ts_pool := ts_pool s, ts_clients := (ts_clients s)[i := C_Idle],
                 ts_accepted := [] @ ts_accepted s, ts_done := [] @ ts_done s\<rparr>)"
    by (rule tp_inv_client [OF assms(2) tps_throw(2)])
      (use tps_throw(3) tp_invD(1) [OF assms(2)] in auto)
  with tps_throw(1) show ?thesis by simp
next
  case (tps_block i c e)
  have "tp_inv (s\<lparr>ts_pool := ts_pool s, ts_clients := (ts_clients s)[i := C_Sleep c],
                 ts_accepted := [] @ ts_accepted s, ts_done := [] @ ts_done s\<rparr>)"
    by (rule tp_inv_client [OF assms(2) tps_block(2)])
      (use tps_block(3) tp_invD(1) [OF assms(2)] in auto)
  with tps_block(1) show ?thesis by simp
next
  case (tps_unblock i c e)
  have "tp_inv (s\<lparr>ts_pool := ts_pool s, ts_clients := (ts_clients s)[i := C_Enter c e],
                 ts_accepted := [] @ ts_accepted s, ts_done := [] @ ts_done s\<rparr>)"
    by (rule tp_inv_client [OF assms(2) tps_unblock(2)])
      (use tps_unblock(3) tp_invD(1) [OF assms(2)] in auto)
  with tps_unblock(1) show ?thesis by simp
next
  case (tps_caller_runs i a)
  have "tp_inv (s\<lparr>ts_pool := ts_pool s, ts_clients := (ts_clients s)[i := C_Idle],
                 ts_accepted := [] @ ts_accepted s, ts_done := [Some a] @ ts_done s\<rparr>)"
    by (rule tp_inv_client [OF assms(2) tps_caller_runs(2)])
      (use tps_caller_runs(3) tp_invD(1) [OF assms(2)] in auto)
  with tps_caller_runs(1) show ?thesis by simp
next
  case (tps_destroy i)
  have "tp_inv (s\<lparr>ts_pool := ts_pool s, ts_clients := (ts_clients s)[i := C_Destroy],
                 ts_accepted := [] @ ts_accepted s, ts_done := [] @ ts_done s\<rparr>)"
    by (rule tp_inv_client [OF assms(2) tps_destroy(2)])
      (use tps_destroy(3) tp_invD(1) [OF assms(2)] in auto)
  with tps_destroy(1) show ?thesis by simp
next
  case (tps_stopping i)
  with tp_inv_stopping [OF assms(2)] show ?thesis by simp
next
  case (tps_notify_all i)
  with tp_inv_notify_all [OF assms(2)] show ?thesis by simp
next
  case (tps_joined i)
  with tp_inv_joined [OF assms(2)] show ?thesis by simp
qed

lemma sum_list_all_empty: "(\<And>x. x \<in> set xs \<Longrightarrow> f x = {#}) \<Longrightarrow> sum_list (map f xs) = {#}"
  by (induction xs) auto

lemma sum_list_empties: "sum_list (replicate n {#}) = {#}"
  by (induction n) auto

lemma tp_new_ok:
  "tp_new n c policy = Inr p \<Longrightarrow> brq_ok None (tp_tasks p) \<and> tp_queued p = {#} \<and>
     tp_locals p = replicate n [] \<and> \<not> tp_stopping p"
  by (auto simp: tp_new_def tp_queued_def sum_list_empties dest!: brq_new_ok
      split: sum.splits if_splits)

lemma tp_inv_init: "tp_init n c policy m s \<Longrightarrow> tp_inv s"
  by (auto simp: tp_init_def tp_inv_def sum_list_empties dest!: tp_new_ok)

lemma length_tp_step: "tp_step s s' \<Longrightarrow> length (ts_workers s') = length (ts_workers s)"
  by (cases rule: tp_step.cases) auto

lemma tp_workers_nonempty:
  "reach (tp_init n c policy m) tp_step s \<Longrightarrow> ts_workers s \<noteq> []"
proof (induction rule: reach.induct)
  case (reach_init s)
  then show ?case
    by (auto simp: tp_init_def tp_new_def split: sum.splits if_splits)
next
  case (reach_step s s')
  then show ?case using length_tp_step by fastforce
qed

interpretation tp: invariant_system "tp_init n c policy m" tp_step tp_inv
  for n c :: nat and policy m
proof unfold_locales
  show "tp_init n c policy m s \<Longrightarrow> tp_inv s" for s
    by (rule tp_inv_init)
  show "tp_step s s' \<Longrightarrow> tp_inv s \<Longrightarrow> tp_inv s'" for s s'
    by (rule tp_inv_step)
qed


section \<open>Properties\<close>

text \<open>
  \<open>TrySteal\<close>, \<open>HasStealableWork\<close> and \<open>HasAnyWork\<close> agree with each other and with the queues:
  stealing fails exactly when the test says there is nothing to steal, which is when every
  other worker's queue is empty; a successful steal takes the oldest task of another worker's
  queue and changes nothing else; \<open>HasAnyWork\<close> looks at every queue of the pool.
\<close>

theorem steal_finds_work:
  assumes "w < length (tp_locals p)"
  shows "(tp_try_steal p w = None \<longleftrightarrow> \<not> tp_has_stealable_work p w) \<and>
    (tp_has_stealable_work p w \<longleftrightarrow> (\<exists>v < length (tp_locals p). v \<noteq> w \<and> tp_locals p ! v \<noteq> [])) \<and>
    (tp_has_any_work p w \<longleftrightarrow> brq_items (tp_tasks p) \<noteq> [] \<or> \<not> tp_all_local_empty p) \<and>
    (\<forall>t p'. tp_try_steal p w = Some (t, p') \<longrightarrow>
       (\<exists>v q. v < length (tp_locals p) \<and> v \<noteq> w \<and> tp_locals p ! v = q @ [t] \<and>
              p' = p\<lparr>tp_locals := (tp_locals p)[v := q]\<rparr>))"
proof -
  have "\<exists>v q. v < length (tp_locals p) \<and> v \<noteq> w \<and> tp_locals p ! v = q @ [t] \<and>
          p' = p\<lparr>tp_locals := (tp_locals p)[v := q]\<rparr>"
    if "tp_try_steal p w = Some (t, p')" for t p'
  proof -
    have "tp_steal_loop p w 1 (length (tp_locals p) - 1) = Some (t, p')"
      using that by (simp only: tp_try_steal_def)
    from tp_steal_loop_Some [OF this] assms
    obtain d q where d: "1 \<le> d" "d < length (tp_locals p)"
      "tp_locals p ! ((w + d) mod length (tp_locals p)) = q @ [t]"
      "p' = p\<lparr>tp_locals := (tp_locals p)[(w + d) mod length (tp_locals p) := q]\<rparr>"
      by (auto simp: tp_victim_def)
    then show ?thesis
      using tp_victims [OF assms, of "\<lambda>v. tp_locals p ! v = q @ [t] \<and>
          p' = p\<lparr>tp_locals := (tp_locals p)[v := q]\<rparr>"] by blast
  qed
  moreover have "tp_try_steal p w = None \<longleftrightarrow> \<not> tp_has_stealable_work p w"
    by (simp add: tp_try_steal_def tp_has_stealable_work_def tp_steal_loop_None)
  ultimately show ?thesis
    by (simp add: tp_has_stealable_work_iff [OF assms] tp_has_any_work_iff [OF assms])
qed

lemma steal_finds_work_witness:
  "let p = \<lparr>tp_locals = [[], [Some 1, Some 2], [Some (3 :: nat)]],
        tp_tasks = \<lparr>brq_buffer = [None], brq_capacity = 1, brq_head = 0, brq_tail = 0, brq_size = 0\<rparr>,
        tp_queue_capacity = 1, tp_reject_policy = Abort, tp_stopping = False\<rparr>
   in tp_has_stealable_work p 0 \<and>
      tp_try_steal p 0 = Some (Some 2, p\<lparr>tp_locals := [[], [Some 1], [Some 3]]\<rparr>)"
proof -
  let ?p = "\<lparr>tp_locals = [[], [Some 1, Some 2], [Some (3 :: nat)]],
        tp_tasks = \<lparr>brq_buffer = [None], brq_capacity = 1, brq_head = 0, brq_tail = 0, brq_size = 0\<rparr>,
        tp_queue_capacity = 1, tp_reject_policy = Abort, tp_stopping = False\<rparr>"
  have "tp_has_stealable_work ?p 0"
    using steal_finds_work [of 0 ?p] by (auto intro!: exI [of _ 1])
  moreover have "tp_try_steal ?p 0 = Some (Some 2, ?p\<lparr>tp_locals := [[], [Some 1], [Some 3]]\<rparr>)"
    by (simp add: tp_try_steal_def tp_victim_def lq_try_steal_def numeral_2_eq_2)
  ultimately show ?thesis by (simp add: Let_def)
qed

text \<open>
  Runs for the witnesses: worker \<open>w\<close> takes \<open>k\<close> steps by itself.
\<close>

primrec tp_work :: "nat \<Rightarrow> nat \<Rightarrow> 'a tp_sys \<Rightarrow> 'a tp_sys" where
  "tp_work w 0 s = s"
| "tp_work w (Suc k) s =
     (if w < length (ts_workers s)
      then (case tp_worker_step w (lock_free s) (ts_pool s) (ts_workers s ! w) of
              None \<Rightarrow> s
            | Some (p, pc) \<Rightarrow> tp_work w k (s\<lparr>ts_pool := p, ts_workers := (ts_workers s)[w := pc]\<rparr>))
      else s)"

lemma reach_tp_work: "reach i tp_step s \<Longrightarrow> reach i tp_step (tp_work w k s)"
  by (induction k arbitrary: s) (auto intro: reach_step tps_worker split: option.splits)

definition demo_pool :: "nat task list \<Rightarrow> nat \<Rightarrow> bool \<Rightarrow> nat w_pc \<Rightarrow> nat c_pc \<Rightarrow> nat task list \<Rightarrow>
    nat task list \<Rightarrow> nat tp_sys" where
  "demo_pool xs h stop wpc cpc acc fin =
     \<lparr>ts_pool = \<lparr>tp_locals = [[]],
        tp_tasks = \<lparr>brq_buffer = xs, brq_capacity = 2, brq_head = h,
                    brq_tail = (if h = 0 then (if xs = [None, None] then 0 else 1) else 1),
                    brq_size = (if xs = [None, None] then 0 else 1)\<rparr>,
        tp_queue_capacity = 2, tp_reject_policy = Abort, tp_stopping = stop\<rparr>,
      ts_workers = [wpc], ts_clients = [cpc], ts_accepted = acc, ts_done = fin\<rparr>"

lemmas demo_simps = demo_pool_def brq_empty_def brq_full_def brq_pop_def brq_push_def
  lq_empty_def lq_try_pop_owner_def lock_free_def tp_try_post_def tp_push_task_def
  eval_nat_numeral

lemma demo_accepted:
  "reach (tp_init 1 2 Abort 1) tp_step (demo_pool [Some 7, None] 0 False W_Pop C_Idle [Some 7] [])"
proof -
  let ?R = "reach (tp_init 1 2 Abort 1) tp_step"
  have "?R (demo_pool [None, None] 0 False W_Pop C_Idle [] [])"
    by (rule reach_init) (simp add: tp_init_def tp_new_def brq_new_def demo_simps)
  from reach_step [OF this tps_call [of 0 _ "Try_Post (Some 7)"]]
  have "?R (demo_pool [None, None] 0 False W_Pop (C_Enter (Try_Post (Some 7)) False) [] [])"
    by (simp add: demo_pool_def)
  from reach_step [OF this tps_return [of 0 _ "Try_Post (Some 7)" False "Taken (Some 7)"]]
  show ?thesis by (simp add: demo_simps)
qed

lemma demo_joining:
  "reach (tp_init 1 2 Abort 1) tp_step (demo_pool [None, None] 1 True W_Pop C_Join [Some 7] [Some 7])"
proof -
  let ?R = "reach (tp_init 1 2 Abort 1) tp_step"
  from reach_tp_work [OF demo_accepted, of 0 2]
  have "?R (demo_pool [None, None] 1 False (W_Run (Some 7)) C_Idle [Some 7] [])"
    by (simp add: demo_simps)
  from reach_step [OF this tps_finish [of 0 _ 7]]
  have "?R (demo_pool [None, None] 1 False W_Pop C_Idle [Some 7] [Some 7])"
    by (simp add: demo_pool_def)
  from reach_step [OF this tps_destroy [of 0]]
  have "?R (demo_pool [None, None] 1 False W_Pop C_Destroy [Some 7] [Some 7])"
    by (simp add: demo_pool_def)
  from reach_step [OF this tps_stopping [of 0]]
  have "?R (demo_pool [None, None] 1 True W_Pop C_Notify_All [Some 7] [Some 7])"
    by (simp add: demo_pool_def lock_free_def)
  from reach_step [OF this tps_notify_all [of 0]] show ?thesis
    by (simp add: demo_pool_def)
qed

lemma demo_joined:
  "reach (tp_init 1 2 Abort 1) tp_step
     (demo_pool [None, None] 1 True W_Exited C_Joined [Some 7] [Some 7])"
proof -
  let ?R = "reach (tp_init 1 2 Abort 1) tp_step"
  from reach_tp_work [OF demo_joining, of 0 8]
  have "?R (demo_pool [None, None] 1 True W_Exited C_Join [Some 7] [Some 7])"
    by (simp add: demo_simps)
  from reach_step [OF this tps_joined [of 0]] show ?thesis
    by (simp add: demo_pool_def)
qed

text \<open>
  C5. No task is lost or run twice: in every reachable state of a pool with any number of
  workers and submitting threads, the accepted tasks are, as a multiset, the finished ones, the
  queued ones and the ones being run by a worker or by a caller (\<open>Caller_Runs\<close>); and the shared
  queue never exceeds its capacity.
\<close>

theorem pool_conserves_tasks:
  assumes "reach (tp_init workers capacity policy clients) tp_step s"
  shows "mset (ts_accepted s) = mset (ts_done s) + tp_queued (ts_pool s) +
      sum_list (map w_running (ts_workers s)) + sum_list (map c_running (ts_clients s)) \<and>
    length (brq_items (tp_tasks (ts_pool s))) \<le> brq_capacity (tp_tasks (ts_pool s))"
  using tp_invD(1,3) [OF tp.reach_inv [OF assms]] brq_bounded [of None "tp_tasks (ts_pool s)"]
  by simp

lemma pool_conserves_tasks_witness:
  "reach (tp_init 1 2 Abort 1) tp_step (demo_pool [Some 7, None] 0 False W_Pop C_Idle [Some 7] []) \<and>
   {#Some 7#} = tp_queued (ts_pool (demo_pool [Some 7, None] 0 False W_Pop C_Idle [Some 7] []))"
  using pool_conserves_tasks [OF demo_accepted] demo_accepted by (simp add: demo_pool_def)

text \<open>
  C6. The destructor drains the pool: when it has returned (all workers joined), every worker
  has left its loop, the shared queue and all local queues are empty, and every task ever
  accepted has been run to completion, except those a caller is still running itself.
\<close>

theorem destructor_drains:
  assumes "reach (tp_init workers capacity policy clients) tp_step s"
    and "C_Joined \<in> set (ts_clients s)"
  shows "(\<forall>pc \<in> set (ts_workers s). pc = W_Exited) \<and>
    brq_items (tp_tasks (ts_pool s)) = [] \<and> tp_all_local_empty (ts_pool s) \<and>
    mset (ts_accepted s) = mset (ts_done s) + sum_list (map c_running (ts_clients s))"
proof -
  note inv = tp.reach_inv [OF assms(1)]
  have ex: "\<forall>pc \<in> set (ts_workers s). pc = W_Exited"
    using tp_invD(7) [OF inv assms(2)] by blast
  have ok: "worker_ok (ts_pool s) w W_Exited" if "w < length (ts_workers s)" for w
    using tp_invD(4) [OF inv that] ex nth_mem [OF that] by auto
  have locals: "q = []" if "q \<in> set (tp_locals (ts_pool s))" for q
    using that ok tp_invD(2) [OF inv] by (auto simp: in_set_conv_nth)
  have workers: "ts_workers s \<noteq> []"
    using tp_workers_nonempty [OF assms(1)] by simp
  have tasks: "brq_items (tp_tasks (ts_pool s)) = []"
    using ok [of 0] workers by simp
  have "sum_list (map w_running (ts_workers s)) = {#}"
    using ex by (intro sum_list_all_empty) (drule (1) bspec, simp)
  moreover have "tp_queued (ts_pool s) = {#}"
    using locals tasks by (simp add: tp_queued_def sum_list_all_empty)
  ultimately show ?thesis
    using ex tasks locals tp_invD(3) [OF inv] by (simp add: tp_all_local_empty_iff)
qed

lemma destructor_drains_witness:
  "C_Joined \<in> set (ts_clients (demo_pool [None, None] 1 True W_Exited C_Joined [Some 7] [Some 7])) \<and>
   brq_items (tp_tasks (ts_pool (demo_pool [None, None] 1 True W_Exited C_Joined [Some 7] [Some 7]))) = []"
  using destructor_drains [OF demo_joined] by (simp add: demo_pool_def)

text \<open>
  C7. Shutdown does not get stuck: while the destructor waits in \<open>join\<close> no worker is asleep, and
  as long as a worker has not left its loop, some worker is running a task or can take a step
  of its loop, so that no worker waits for a notification that nobody will send.
\<close>

theorem shutdown_not_stuck:
  assumes "reach (tp_init workers capacity policy clients) tp_step s"
    and "C_Join \<in> set (ts_clients s)" "\<exists>pc \<in> set (ts_workers s). pc \<noteq> W_Exited"
  shows "W_Sleep \<notin> set (ts_workers s) \<and>
    (\<exists>w < length (ts_workers s). (\<exists>t. ts_workers s ! w = W_Run t) \<or>
       tp_worker_step w (lock_free s) (ts_pool s) (ts_workers s ! w) \<noteq> None)"
proof -
  note inv = tp.reach_inv [OF assms(1)]
  have awake: "W_Sleep \<notin> set (ts_workers s)"
    using tp_invD(6) [OF inv assms(2)] by simp
  obtain w where w: "w < length (ts_workers s)"
    "ts_workers s ! w \<noteq> W_Exited" "lock_free s \<or> holds_lock (ts_workers s ! w)"
    using assms(3) unfolding lock_free_def in_set_conv_nth
    by (metis holds_lock.simps(10) in_set_conv_nth)
  then have "ts_workers s ! w \<noteq> W_Sleep"
    using awake by (metis nth_mem)
  moreover have "\<exists>r. brq_pop None (tp_tasks (ts_pool s)) = Inr r"
    if "\<not> brq_empty (tp_tasks (ts_pool s))"
    using that by (simp add: brq_pop_def)
  ultimately have "(\<exists>t. ts_workers s ! w = W_Run t) \<or>
      tp_worker_step w (lock_free s) (ts_pool s) (ts_workers s ! w) \<noteq> None"
    using w(2,3) by (cases "ts_workers s ! w") (auto simp: Let_def split: option.splits)
  with w(1) awake show ?thesis by blast
qed

lemma shutdown_not_stuck_witness:
  "C_Join \<in> set (ts_clients (demo_pool [None, None] 1 True W_Pop C_Join [Some 7] [Some 7])) \<and>
   W_Sleep \<notin> set (ts_workers (demo_pool [None, None] 1 True W_Pop C_Join [Some 7] [Some 7]))"
  using shutdown_not_stuck [OF demo_joining] by (simp add: demo_pool_def)

end
