(* ===== verification/Timer_Scheduler.thy ===== *)
theory Timer_Scheduler
  imports Thread_Pool
begin

text \<open>
  \<open>TimerScheduler\<close> (code/TimerScheduler/TimerScheduler.cpp and .h): timers kept in a priority
  queue, a scheduler thread that hands the due ones to the thread pool, and the wrapper that
  runs a callback there. \<open>SharedState\<close> is the record \<open>tstate\<close>; every critical section of its
  mutex is a function of it. \<open>std::priority_queue\<close> is the list of its elements in the order
  they would be popped. The thread-pool's answer to \<open>try_post\<close> is a parameter of the steps.
\<close>

section \<open>State\<close>

type_synonym timer_id = u64

datatype scheduler_state = Created | Running | Stopping | Stopped

datatype timer_state = Pending | Submitted | Executing | Cancelled

record 'a timer =
  tt_id :: timer_id
  tt_expiration :: time
  tt_interval :: time
  tt_repeated :: bool
  tt_callback :: "'a task"

definition timer_after :: "'a timer \<Rightarrow> 'a timer \<Rightarrow> bool" where
  "timer_after l r =
     (if tt_expiration l \<noteq> tt_expiration r then tt_expiration l > tt_expiration r
      else tt_id l > tt_id r)"

fun tq_push :: "'a timer \<Rightarrow> 'a timer list \<Rightarrow> 'a timer list" where
  "tq_push t [] = [t]"
| "tq_push t (u # us) = (if timer_after t u then u # tq_push t us else t # u # us)"

type_synonym timer_states = "timer_id \<rightharpoonup> timer_state"

record 'a tstate =
  tm_tasks :: "'a timer list"
  tm_states :: timer_states
  tm_scheduler :: scheduler_state
  tm_next_id :: timer_id
  tm_in_flight :: nat

definition tm_new :: "'a tstate" where
  "tm_new = \<lparr>tm_tasks = [], tm_states = Map.empty, tm_scheduler = Created, tm_next_id = 1,
             tm_in_flight = 0\<rparr>"

section \<open>Operations of the clients\<close>

text \<open>
  Each returns what the caller gets, the new state, and whether the scheduler thread is
  notified. \<open>std::thread\<close> may fail to start: \<open>start\<close> then leaves the state as it was.
\<close>

definition tm_start :: "bool \<Rightarrow> 'a tstate \<Rightarrow> 'a tstate result" where
  "tm_start thread_ok s =
     (if tm_scheduler s \<noteq> Created
      then throw (Logic_Error ''TimerScheduler can only be started once'')
      else if thread_ok then ret (s\<lparr>tm_scheduler := Running\<rparr>)
      else throw (System_Error 11))"

fun cancel_pending :: "timer_state option \<Rightarrow> timer_state option" where
  "cancel_pending (Some Pending) = Some Cancelled"
| "cancel_pending x = x"

definition tm_request_stop :: "'a tstate \<Rightarrow> 'a tstate \<times> bool" where
  "tm_request_stop s =
     (case tm_scheduler s of
        Created \<Rightarrow> (s\<lparr>tm_scheduler := Stopped\<rparr>, False)
      | Running \<Rightarrow> (s\<lparr>tm_scheduler := Stopping, tm_states := cancel_pending \<circ> tm_states s\<rparr>, True)
      | Stopping \<Rightarrow> (s, False)
      | Stopped \<Rightarrow> (s, False))"

text \<open>The last section of \<open>wait\<close> and \<open>stop\<close>, after the join and once \<open>in_flight\<close> is 0.\<close>

definition tm_finish_stop :: "'a tstate \<Rightarrow> 'a tstate" where
  "tm_finish_stop s = s\<lparr>tm_tasks := [], tm_states := Map.empty, tm_scheduler := Stopped\<rparr>"

definition tm_add :: "'a timer \<Rightarrow> 'a tstate \<Rightarrow> 'a tstate \<times> bool" where
  "tm_add t s =
     (let need_wakeup = (tm_tasks s = [] \<or> tt_expiration t < tt_expiration (hd (tm_tasks s)))
      in (s\<lparr>tm_states := (if tm_states s (tt_id t) = None then (tm_states s)(tt_id t \<mapsto> Pending)
                          else tm_states s),
            tm_tasks := tq_push t (tm_tasks s)\<rparr>, need_wakeup))"

definition tm_schedule_after :: "time \<Rightarrow> time \<Rightarrow> 'a task \<Rightarrow> 'a tstate \<Rightarrow>
    (timer_id \<times> 'a tstate \<times> bool) result" where
  "tm_schedule_after now delay task s =
     (if delay < 0 then throw (Invalid_Argument ''Timer delay cannot be negative'')
      else if task = None then throw (Invalid_Argument ''Timer callback cannot be empty'')
      else
        let expiration = now + delay
        in if tm_scheduler s \<noteq> Running then throw (Logic_Error ''TimerScheduler is not running'')
           else
             let tid = tm_next_id s;
                 s = s\<lparr>tm_next_id := tid + 1\<rparr>;
                 (s, wake) = tm_add \<lparr>tt_id = tid, tt_expiration = expiration, tt_interval = 0,
                                     tt_repeated = False, tt_callback = task\<rparr> s
             in ret (tid, s, wake))"

definition tm_schedule_every :: "time \<Rightarrow> time \<Rightarrow> 'a task \<Rightarrow> 'a tstate \<Rightarrow>
    (timer_id \<times> 'a tstate \<times> bool) result" where
  "tm_schedule_every now interval task s =
     (if interval \<le> 0 then throw (Invalid_Argument ''Timer interval must be positive'')
      else if task = None then throw (Invalid_Argument ''Timer callback cannot be empty'')
      else
        let expiration = now + interval
        in if tm_scheduler s \<noteq> Running then throw (Logic_Error ''TimerScheduler is not running'')
           else
             let tid = tm_next_id s;
                 s = s\<lparr>tm_next_id := tid + 1\<rparr>;
                 (s, wake) = tm_add \<lparr>tt_id = tid, tt_expiration = expiration, tt_interval = interval,
                                     tt_repeated = True, tt_callback = task\<rparr> s
             in ret (tid, s, wake))"

definition tm_cancel :: "timer_id \<Rightarrow> 'a tstate \<Rightarrow> bool \<times> 'a tstate \<times> bool" where
  "tm_cancel tid s =
     (case tm_states s tid of
        None \<Rightarrow> (False, s, False)
      | Some Cancelled \<Rightarrow> (False, s, False)
      | Some _ \<Rightarrow>
          let need_wakeup = (tm_tasks s \<noteq> [] \<and> tt_id (hd (tm_tasks s)) = tid)
          in (True, s\<lparr>tm_states := (tm_states s)(tid \<mapsto> Cancelled)\<rparr>, need_wakeup))"

definition tm_finish_in_flight :: "'a tstate \<Rightarrow> 'a tstate" where
  "tm_finish_in_flight s =
     (if tm_in_flight s > 0 then s\<lparr>tm_in_flight := tm_in_flight s - 1\<rparr> else s)"

definition tm_erase :: "timer_id \<Rightarrow> 'a tstate \<Rightarrow> 'a tstate" where
  "tm_erase tid s = s\<lparr>tm_states := (tm_states s)(tid := None)\<rparr>"

section \<open>The scheduler thread\<close>

text \<open>
  Where the thread is: not started; about to lock for the first time; waiting for a timer;
  waiting for an expiration; going through the ready timers, without the lock; about to post
  one; about to erase a refused one; about to drop the completion of a refused one; spinning
  with the lock held; returned.
\<close>

datatype 'a wk_pc =
    Wk_None
  | Wk_Start
  | Wk_Idle
  | Wk_Wait timer_id time
  | Wk_Batch "'a timer list"
  | Wk_Post "'a timer" "'a timer list"
  | Wk_Reject "'a timer" "'a timer list"
  | Wk_Drop "'a timer list"
  | Wk_Spin
  | Wk_Exited

text \<open>The loop that removes cancelled timers from the top of the queue.\<close>

fun purge :: "'a timer list \<Rightarrow> timer_states \<Rightarrow> 'a timer list \<times> timer_states" where
  "purge [] st = ([], st)"
| "purge (t # ts) st =
     (if st (tt_id t) = Some Cancelled then purge ts (st(tt_id t := None)) else (t # ts, st))"

text \<open>The loop that takes the due timers off the queue.\<close>

fun collect :: "time \<Rightarrow> 'a timer list \<Rightarrow> timer_states \<Rightarrow>
    'a timer list \<times> 'a timer list \<times> timer_states" where
  "collect now [] st = ([], [], st)"
| "collect now (t # ts) st =
     (if tt_expiration t \<le> now
      then (case st (tt_id t) of
              None \<Rightarrow> collect now ts st
            | Some Cancelled \<Rightarrow> collect now ts (st(tt_id t := None))
            | Some Pending \<Rightarrow>
                (let (ready, rest, st') = collect now ts (st(tt_id t \<mapsto> Submitted))
                 in (t # ready, rest, st'))
            | Some _ \<Rightarrow> collect now ts st)
      else ([], t # ts, st))"

lemma purge_length: "length (fst (purge ts st)) \<le> length ts"
  by (induction ts st rule: purge.induct) (auto simp del: fun_upd_apply intro: le_SucI)

text \<open>
  From the head of the \<open>while\<close> loop, with the lock held, to the next point where the thread
  sleeps. \<open>cv.wait\<close> and \<open>cv.wait_until\<close> evaluate their predicate first: right there it can
  only be true because the top timer is cancelled or unknown; in the second case neither it nor
  the purge loop changes anything and the thread keeps spinning.
\<close>

function tm_enter :: "'a tstate \<Rightarrow> 'a tstate \<times> 'a wk_pc" where
  "tm_enter s =
     (if tm_scheduler s \<noteq> Running then (s, Wk_Exited)
      else case tm_tasks s of
        [] \<Rightarrow> (s, Wk_Idle)
      | t # ts \<Rightarrow>
          (case tm_states s (tt_id t) of
             None \<Rightarrow> (s, Wk_Spin)
           | Some Cancelled \<Rightarrow>
               let (h, st) = purge (t # ts) (tm_states s)
               in tm_enter (s\<lparr>tm_tasks := h, tm_states := st\<rparr>)
           | Some _ \<Rightarrow> (s, Wk_Wait (tt_id t) (tt_expiration t))))"
  by pat_completeness auto
termination
proof (relation "measure (\<lambda>s. length (tm_tasks s))", simp)
  fix s :: "'a tstate" and t ts x x2 h st
  assume "tm_tasks s = t # ts" "tm_states s (tt_id t) = Some x2" "x2 = Cancelled"
    "x = purge (t # ts) (tm_states s)" "(h, st) = x"
  then have "length h \<le> length ts"
    using purge_length [of ts "(tm_states s)(tt_id t := None)"] by (metis fst_conv fun_upd_apply purge.simps(2))
  then show "(s\<lparr>tm_tasks := h, tm_states := st\<rparr>, s) \<in> measure (\<lambda>s. length (tm_tasks s))"
    using \<open>tm_tasks s = t # ts\<close> by simp
qed

declare tm_enter.simps [simp del]

text \<open>The predicate of \<open>wait_until\<close>.\<close>

definition tm_interrupted :: "timer_id \<Rightarrow> time \<Rightarrow> 'a tstate \<Rightarrow> bool" where
  "tm_interrupted waiting_id expiration s =
     (if tm_scheduler s \<noteq> Running then True
      else if tm_tasks s = [] then True
      else if tt_id (hd (tm_tasks s)) \<noteq> waiting_id then True
      else if tt_expiration (hd (tm_tasks s)) < expiration then True
      else (case tm_states s waiting_id of None \<Rightarrow> True | Some x \<Rightarrow> x = Cancelled))"

definition tm_wake_idle :: "'a tstate \<Rightarrow> 'a tstate \<times> 'a wk_pc" where
  "tm_wake_idle s =
     (if tm_scheduler s \<noteq> Running \<or> tm_tasks s \<noteq> [] then tm_enter s else (s, Wk_Idle))"

definition tm_wake_wait :: "time \<Rightarrow> bool \<Rightarrow> timer_id \<Rightarrow> time \<Rightarrow> 'a tstate \<Rightarrow> 'a tstate \<times> 'a wk_pc" where
  "tm_wake_wait now timed_out waiting_id expiration s =
     (if tm_interrupted waiting_id expiration s
      then (let (h, st) = purge (tm_tasks s) (tm_states s)
            in tm_enter (s\<lparr>tm_tasks := h, tm_states := st\<rparr>))
      else if \<not> timed_out then (s, Wk_Wait waiting_id expiration)
      else if tm_tasks s = [] \<or> tt_expiration (hd (tm_tasks s)) > now then tm_enter s
      else (let (ready, h, st) = collect now (tm_tasks s) (tm_states s)
            in (s\<lparr>tm_tasks := h, tm_states := st\<rparr>, Wk_Batch ready)))"

text \<open>The check of one ready timer before it is posted.\<close>

definition tm_check_ready :: "'a timer \<Rightarrow> 'a timer list \<Rightarrow> 'a tstate \<Rightarrow> 'a tstate \<times> 'a wk_pc" where
  "tm_check_ready t rest s =
     (let st = tm_states s (tt_id t)
      in if st = None \<or> st = Some Cancelled \<or> tm_scheduler s \<noteq> Running
         then (if st \<noteq> None then (tm_erase (tt_id t) s, Wk_Batch rest) else (s, Wk_Batch rest))
         else if st \<noteq> Some Submitted then (s, Wk_Batch rest)
         else (s\<lparr>tm_in_flight := tm_in_flight s + 1\<rparr>, Wk_Post t rest))"

section \<open>The wrapper on the thread pool\<close>

text \<open>
  A posted wrapper: queued or about to look; running the callback; about to destroy its
  completion; gone.
\<close>

datatype 'a wr = Wr_Queued "'a timer" | Wr_Running "'a timer" | Wr_Done | Wr_Gone

definition tm_wrapper_begin :: "'a timer \<Rightarrow> 'a tstate \<Rightarrow> 'a tstate \<times> 'a wr" where
  "tm_wrapper_begin t s =
     (case tm_states s (tt_id t) of
        None \<Rightarrow> (s, Wr_Done)
      | Some Cancelled \<Rightarrow> (tm_erase (tt_id t) s, Wr_Done)
      | Some Submitted \<Rightarrow> (s\<lparr>tm_states := (tm_states s)(tt_id t \<mapsto> Executing)\<rparr>, Wr_Running t)
      | Some _ \<Rightarrow> (s, Wr_Done))"

definition tm_wrapper_end :: "time \<Rightarrow> 'a timer \<Rightarrow> 'a tstate \<Rightarrow> 'a tstate \<times> bool" where
  "tm_wrapper_end now t s =
     (case tm_states s (tt_id t) of
        None \<Rightarrow> (s, False)
      | Some Cancelled \<Rightarrow> (tm_erase (tt_id t) s, False)
      | Some Executing \<Rightarrow>
          if tt_repeated t \<and> tm_scheduler s = Running
          then
            let next_expiration = now + tt_interval t;
                need_wakeup = (tm_tasks s = [] \<or> next_expiration < tt_expiration (hd (tm_tasks s)))
            in (s\<lparr>tm_states := (tm_states s)(tt_id t \<mapsto> Pending),
                  tm_tasks := tq_push (t\<lparr>tt_expiration := next_expiration, tt_repeated := True\<rparr>)
                                (tm_tasks s)\<rparr>, need_wakeup)
          else (tm_erase (tt_id t) s, False)
      | Some _ \<Rightarrow> (tm_erase (tt_id t) s, False))"

section \<open>The whole scheduler\<close>

text \<open>
  One step of the scheduler thread: \<open>timed_out\<close> is how \<open>wait_until\<close> woke up, \<open>answer\<close> what
  \<open>try_post\<close> returns. The last component is the wrappers the pool has accepted.
\<close>

fun tm_worker_step :: "time \<Rightarrow> bool \<Rightarrow> submit_result \<Rightarrow> 'a tstate \<Rightarrow> 'a wk_pc \<Rightarrow>
    (('a tstate \<times> 'a wk_pc) \<times> 'a wr list) option" where
  "tm_worker_step now timed_out answer s Wk_Start = Some (tm_enter s, [])"
| "tm_worker_step now timed_out answer s Wk_Idle = Some (tm_wake_idle s, [])"
| "tm_worker_step now timed_out answer s (Wk_Wait i e) =
     (if timed_out \<and> now < e then None else Some (tm_wake_wait now timed_out i e s, []))"
| "tm_worker_step now timed_out answer s (Wk_Batch []) = Some (tm_enter s, [])"
| "tm_worker_step now timed_out answer s (Wk_Batch (t # rest)) = Some (tm_check_ready t rest s, [])"
| "tm_worker_step now timed_out answer s (Wk_Post t rest) =
     (if answer = Accepted then Some ((s, Wk_Batch rest), [Wr_Queued t])
      else Some ((s, Wk_Reject t rest), []))"
| "tm_worker_step now timed_out answer s (Wk_Reject t rest) = Some ((tm_erase (tt_id t) s, Wk_Drop rest), [])"
| "tm_worker_step now timed_out answer s (Wk_Drop rest) = Some ((tm_finish_in_flight s, Wk_Batch rest), [])"
| "tm_worker_step now timed_out answer s _ = None"

text \<open>
  Client threads call the operations; \<open>wait\<close> and the end of \<open>stop\<close> are a join followed by
  the last section, which a caller inside a callback skips. Time passes. A notification is
  kept until the sleeping thread wakes, and is lost when it does not sleep. The history records
  which timer's callback was started when.
\<close>

datatype cl_pc = Cl_Idle | Cl_Join | Cl_Finish

record 'a tsys =
  sy_state :: "'a tstate"
  sy_worker :: "'a wk_pc"
  sy_wrappers :: "'a wr list"
  sy_clients :: "cl_pc list"
  sy_now :: time
  sy_signal :: bool
  sy_started :: "('a timer \<times> time) list"

fun asleep :: "'a wk_pc \<Rightarrow> bool" where
  "asleep Wk_Idle = True"
| "asleep (Wk_Wait i e) = True"
| "asleep _ = False"

definition sy_update :: "'a tstate \<Rightarrow> bool \<Rightarrow> 'a tsys \<Rightarrow> 'a tsys" where
  "sy_update s wake y =
     y\<lparr>sy_state := s, sy_signal := (sy_signal y \<or> wake \<and> asleep (sy_worker y))\<rparr>"

inductive tm_step :: "'a tsys \<Rightarrow> 'a tsys \<Rightarrow> bool" where
  tms_time: "sy_now y \<le> now \<Longrightarrow> tm_step y (y\<lparr>sy_now := now\<rparr>)"
| tms_start: "tm_start True (sy_state y) = Inr s \<Longrightarrow>
    tm_step y (y\<lparr>sy_state := s, sy_worker := Wk_Start\<rparr>)"
| tms_request_stop: "tm_request_stop (sy_state y) = (s, wake) \<Longrightarrow> tm_step y (sy_update s wake y)"
| tms_join: "i < length (sy_clients y) \<Longrightarrow> sy_clients y ! i = Cl_Idle \<Longrightarrow>
    tm_step y (y\<lparr>sy_clients := (sy_clients y)[i := Cl_Join]\<rparr>)"
| tms_joined: "i < length (sy_clients y) \<Longrightarrow> sy_clients y ! i = Cl_Join \<Longrightarrow>
    sy_worker y \<in> {Wk_None, Wk_Exited} \<Longrightarrow>
    tm_step y (y\<lparr>sy_clients := (sy_clients y)[i := if in_callback then Cl_Idle else Cl_Finish]\<rparr>)"
| tms_finish: "i < length (sy_clients y) \<Longrightarrow> sy_clients y ! i = Cl_Finish \<Longrightarrow>
    tm_in_flight (sy_state y) = 0 \<Longrightarrow>
    tm_step y (y\<lparr>sy_state := tm_finish_stop (sy_state y), sy_clients := (sy_clients y)[i := Cl_Idle]\<rparr>)"
| tms_schedule_after: "tm_schedule_after (sy_now y) delay task (sy_state y) = Inr (i, s, wake) \<Longrightarrow>
    tm_next_id (sy_state y) \<noteq> - 1 \<Longrightarrow> tm_step y (sy_update s wake y)"
| tms_schedule_every: "tm_schedule_every (sy_now y) interval task (sy_state y) = Inr (i, s, wake) \<Longrightarrow>
    tm_next_id (sy_state y) \<noteq> - 1 \<Longrightarrow> tm_step y (sy_update s wake y)"
| tms_cancel: "tm_cancel i (sy_state y) = (b, s, wake) \<Longrightarrow> tm_step y (sy_update s wake y)"
| tms_worker: "tm_worker_step (sy_now y) timed_out answer (sy_state y) (sy_worker y) = Some ((s, pc), ws) \<Longrightarrow>
    tm_step y (y\<lparr>sy_state := s, sy_worker := pc, sy_wrappers := sy_wrappers y @ ws,
                 sy_signal := False\<rparr>)"
| tms_begin: "k < length (sy_wrappers y) \<Longrightarrow> sy_wrappers y ! k = Wr_Queued t \<Longrightarrow>
    tm_wrapper_begin t (sy_state y) = (s, w) \<Longrightarrow>
    tm_step y (y\<lparr>sy_state := s, sy_wrappers := (sy_wrappers y)[k := w],
                 sy_started := (if w = Wr_Done then sy_started y else (t, sy_now y) # sy_started y)\<rparr>)"
| tms_end: "k < length (sy_wrappers y) \<Longrightarrow> sy_wrappers y ! k = Wr_Running t \<Longrightarrow>
    tm_wrapper_end (sy_now y) t (sy_state y) = (s, wake) \<Longrightarrow>
    tm_step y (sy_update s wake (y\<lparr>sy_wrappers := (sy_wrappers y)[k := Wr_Done]\<rparr>))"
| tms_done: "k < length (sy_wrappers y) \<Longrightarrow> sy_wrappers y ! k = Wr_Done \<Longrightarrow>
    tm_step y (y\<lparr>sy_state := tm_finish_in_flight (sy_state y),
                 sy_wrappers := (sy_wrappers y)[k := Wr_Gone]\<rparr>)"

definition tm_init :: "nat \<Rightarrow> time \<Rightarrow> 'a tsys \<Rightarrow> bool" where
  "tm_init clients now y \<longleftrightarrow>
     y = \<lparr>sy_state = tm_new, sy_worker = Wk_None, sy_wrappers = [], sy_clients = replicate clients Cl_Idle,
          sy_now = now, sy_signal = False, sy_started = []\<rparr>"

section \<open>One token per timer\<close>

text \<open>
  The timers in the queue, with the scheduler thread and with the wrappers: each id occurs once,
  its recorded state fits the place where the timer is, and every recorded state has a timer.
\<close>

fun wk_timers :: "'a wk_pc \<Rightarrow> 'a timer list" where
  "wk_timers (Wk_Batch ts) = ts"
| "wk_timers (Wk_Post t ts) = t # ts"
| "wk_timers (Wk_Reject t ts) = t # ts"
| "wk_timers (Wk_Drop ts) = ts"
| "wk_timers _ = []"

fun wr_timers :: "'a wr \<Rightarrow> 'a timer list" where
  "wr_timers (Wr_Queued t) = [t]"
| "wr_timers (Wr_Running t) = [t]"
| "wr_timers _ = []"

definition toks :: "'a timer list \<Rightarrow> 'a wk_pc \<Rightarrow> 'a wr list \<Rightarrow> timer_id multiset" where
  "toks h pc ws = mset (map tt_id h) + mset (map tt_id (wk_timers pc)) +
     sum_list (map (\<lambda>w. mset (map tt_id (wr_timers w))) ws)"

fun wk_ok :: "timer_states \<Rightarrow> 'a wk_pc \<Rightarrow> bool" where
  "wk_ok st (Wk_Post t ts) \<longleftrightarrow> st (tt_id t) \<in> {Some Submitted, Some Cancelled} \<and>
     (\<forall>u \<in> set ts. st (tt_id u) \<in> {None, Some Submitted, Some Cancelled})"
| "wk_ok st (Wk_Reject t ts) \<longleftrightarrow> st (tt_id t) \<in> {Some Submitted, Some Cancelled} \<and>
     (\<forall>u \<in> set ts. st (tt_id u) \<in> {None, Some Submitted, Some Cancelled})"
| "wk_ok st pc \<longleftrightarrow> (\<forall>u \<in> set (wk_timers pc). st (tt_id u) \<in> {None, Some Submitted, Some Cancelled})"

fun wr_ok :: "timer_states \<Rightarrow> 'a wr \<Rightarrow> bool" where
  "wr_ok st (Wr_Queued t) \<longleftrightarrow> st (tt_id t) \<in> {Some Submitted, Some Cancelled}"
| "wr_ok st (Wr_Running t) \<longleftrightarrow> st (tt_id t) \<in> {Some Executing, Some Cancelled}"
| "wr_ok st _ \<longleftrightarrow> True"

definition locs_ok :: "timer_states \<Rightarrow> 'a timer list \<Rightarrow> 'a wk_pc \<Rightarrow> 'a wr list \<Rightarrow> bool" where
  "locs_ok st h pc ws \<longleftrightarrow>
     (\<forall>t \<in> set h. st (tt_id t) \<in> {Some Pending, Some Cancelled}) \<and> wk_ok st pc \<and>
     (\<forall>w \<in> set ws. wr_ok st w)"

definition tok_inv :: "timer_states \<Rightarrow> 'a timer list \<Rightarrow> 'a wk_pc \<Rightarrow> 'a wr list \<Rightarrow> timer_id \<Rightarrow> bool" where
  "tok_inv st h pc ws n \<longleftrightarrow>
     (\<forall>i. count (toks h pc ws) i \<le> 1) \<and> locs_ok st h pc ws \<and>
     (\<forall>i. st i \<noteq> None \<longrightarrow> i \<in># toks h pc ws) \<and> (\<forall>i \<in># toks h pc ws. i < n)"

lemma in_sum_list_mset: "x \<in># sum_list ms \<longleftrightarrow> (\<exists>m \<in> set ms. x \<in># m)"
  by (induction ms) auto

lemma in_toks:
  "i \<in># toks h pc ws \<longleftrightarrow> (\<exists>t \<in> set h. tt_id t = i) \<or> (\<exists>t \<in> set (wk_timers pc). tt_id t = i) \<or>
     (\<exists>w \<in> set ws. \<exists>t \<in> set (wr_timers w). tt_id t = i)"
  by (auto simp: toks_def in_sum_list_mset)

lemma locs_ok_frame:
  assumes "locs_ok st h pc ws" "i \<notin># toks h pc ws"
  shows "locs_ok (st(i := x)) h pc ws"
proof -
  have h: "tt_id t \<noteq> i" if "t \<in> set h" for t
    using assms(2) that by (auto simp: in_toks)
  have p: "tt_id t \<noteq> i" if "t \<in> set (wk_timers pc)" for t
    using assms(2) that by (auto simp: in_toks)
  have w: "tt_id t \<noteq> i" if "w \<in> set ws" "t \<in> set (wr_timers w)" for w t
    using assms(2) that by (auto simp: in_toks)
  have "wk_ok (st(i := x)) pc"
    using assms(1) p unfolding locs_ok_def by (cases pc) auto
  moreover have "wr_ok (st(i := x)) v" if "v \<in> set ws" for v
    using assms(1) that w [OF that] unfolding locs_ok_def by (cases v) auto
  ultimately show ?thesis
    using assms(1) h unfolding locs_ok_def by auto
qed

text \<open>Taking one token out, and putting one in.\<close>

lemma tok_out:
  assumes "tok_inv st h pc ws n" "toks h pc ws = add_mset i (toks h' pc' ws')" "locs_ok st h' pc' ws'"
  shows "i \<notin># toks h' pc' ws'" "tok_inv (st(i := None)) h' pc' ws' n" "i < n"
proof -
  have "count (toks h' pc' ws') i = 0"
    using assms(1,2) unfolding tok_inv_def by (metis One_nat_def Suc_le_mono count_add_mset le_zero_eq)
  then show out: "i \<notin># toks h' pc' ws'"
    by (simp add: not_in_iff)
  have "count (toks h' pc' ws') j \<le> 1" for j
    using assms(1,2) unfolding tok_inv_def by (metis Suc_leD count_add_mset)
  moreover have "\<forall>j. (st(i := None)) j \<noteq> None \<longrightarrow> j \<in># toks h' pc' ws'"
    using assms(1,2) unfolding tok_inv_def by auto
  ultimately show "tok_inv (st(i := None)) h' pc' ws' n"
    using assms(1,2) locs_ok_frame [OF assms(3) out, of None] unfolding tok_inv_def by auto
  show "i < n"
    using assms(1,2) unfolding tok_inv_def by auto
qed

lemma tok_in:
  assumes "tok_inv st h pc ws n" "i \<notin># toks h pc ws" "toks h' pc' ws' = add_mset i (toks h pc ws)"
    and "i < n" "locs_ok (st(i := x)) h' pc' ws'"
  shows "tok_inv (st(i := x)) h' pc' ws' n"
proof -
  have "count (toks h' pc' ws') j \<le> 1" for j
    using assms(1-3) unfolding tok_inv_def by (cases "i = j") (auto simp: not_in_iff)
  then show ?thesis
    using assms unfolding tok_inv_def by auto
qed

lemma fun_upd_absent: "st i = x \<Longrightarrow> (st(i := y))(i := x) = st"
  by auto

lemma tok_inv_pc:
  "tok_inv st h pc ws n \<Longrightarrow> wk_timers pc' = wk_timers pc \<Longrightarrow> wk_ok st pc' \<Longrightarrow> tok_inv st h pc' ws n"
  by (simp add: tok_inv_def toks_def locs_ok_def)

lemma toks_head: "toks (t # ts) pc ws = add_mset (tt_id t) (toks ts pc ws)"
  by (simp add: toks_def)

lemma tok_inv_head:
  assumes "tok_inv st (t # ts) pc ws n"
  shows "st (tt_id t) = Some Pending \<or> st (tt_id t) = Some Cancelled"
    and "tok_inv (st(tt_id t := None)) ts pc ws n" "tt_id t \<notin># toks ts pc ws" "tt_id t < n"
proof -
  have l: "locs_ok st ts pc ws"
    using assms by (simp add: tok_inv_def locs_ok_def)
  show "st (tt_id t) = Some Pending \<or> st (tt_id t) = Some Cancelled"
    using assms by (auto simp: tok_inv_def locs_ok_def)
  show "tok_inv (st(tt_id t := None)) ts pc ws n" "tt_id t \<notin># toks ts pc ws" "tt_id t < n"
    using tok_out [OF assms toks_head l] by auto
qed

text \<open>What the loops do to the recorded states.\<close>

definition drops_cancelled :: "timer_states \<Rightarrow> timer_states \<Rightarrow> bool" where
  "drops_cancelled st st' \<longleftrightarrow> (\<forall>i. st' i = st i \<or> st i = Some Cancelled \<and> st' i = None)"

definition submits_pending :: "timer_states \<Rightarrow> timer_states \<Rightarrow> bool" where
  "submits_pending st st' \<longleftrightarrow>
     (\<forall>i. st' i = st i \<or> st i = Some Cancelled \<and> st' i = None \<or> st i = Some Pending \<and> st' i = Some Submitted)"

lemma drops_cancelled_refl [simp]: "drops_cancelled st st"
  by (simp add: drops_cancelled_def)

lemma drops_cancelled_trans:
  "drops_cancelled st st' \<Longrightarrow> drops_cancelled st' st'' \<Longrightarrow> drops_cancelled st st''"
  unfolding drops_cancelled_def by (metis option.distinct(1))

lemma drops_cancelled_upd: "st i = Some Cancelled \<Longrightarrow> drops_cancelled st (st(i := None))"
  by (simp add: drops_cancelled_def)

lemma submits_pending_refl [simp]: "submits_pending st st"
  by (simp add: submits_pending_def)

lemma submits_pending_cancelled:
  "submits_pending (st(i := None)) st' \<Longrightarrow> st i = Some Cancelled \<Longrightarrow> submits_pending st st'"
  unfolding submits_pending_def by (metis fun_upd_apply option.distinct(1))

lemma submits_pending_submitted:
  "submits_pending (st(i \<mapsto> Submitted)) st' \<Longrightarrow> st i = Some Pending \<Longrightarrow> submits_pending st st'"
  unfolding submits_pending_def
  by (metis fun_upd_apply option.inject timer_state.distinct(1) timer_state.distinct(9) timer_state.distinct(3))

lemma suffix_Cons: "\<exists>pre. ts = pre @ h \<Longrightarrow> \<exists>pre. t # ts = pre @ h"
  by (metis append_Cons)

lemma purge_inv:
  "tok_inv st h pc ws n \<Longrightarrow> purge h st = (h', st') \<Longrightarrow>
   tok_inv st' h' pc ws n \<and> (\<exists>pre. h = pre @ h') \<and> drops_cancelled st st'"
proof (induction h st rule: purge.induct)
  case (2 t ts st)
  show ?case
  proof (cases "st (tt_id t) = Some Cancelled")
    case True
    then have "purge ts (st(tt_id t := None)) = (h', st')"
      using "2.prems"(2) by simp
    from "2.IH" [OF True tok_inv_head(2) [OF "2.prems"(1)] this]
    have "tok_inv st' h' pc ws n" "\<exists>pre. ts = pre @ h'" "drops_cancelled (st(tt_id t := None)) st'"
      by (auto simp del: fun_upd_apply)
    then show ?thesis
      using suffix_Cons drops_cancelled_trans [OF drops_cancelled_upd [of st "tt_id t"], of st'] True
      by (simp del: fun_upd_apply)
  next
    case False
    then show ?thesis using "2.prems" by auto
  qed
qed simp

lemma collect_inv:
  "tok_inv st h (Wk_Batch acc) ws n \<Longrightarrow> collect now h st = (ready, h', st') \<Longrightarrow>
   tok_inv st' h' (Wk_Batch (acc @ ready)) ws n \<and> (\<exists>pre. h = pre @ h') \<and>
   (\<forall>t \<in> set ready. t \<in> set h \<and> tt_expiration t \<le> now) \<and> submits_pending st st'"
proof (induction now h st arbitrary: acc ready rule: collect.induct)
  case (2 now t ts st)
  note head = tok_inv_head [OF "2.prems"(1)]
  show ?case
  proof (cases "tt_expiration t \<le> now")
    case False
    then show ?thesis using "2.prems" by auto
  next
    case due: True
    show ?thesis
    proof (cases "st (tt_id t) = Some Cancelled")
      case True
      then have "collect now ts (st(tt_id t := None)) = (ready, h', st')"
        using "2.prems"(2) due by simp
      from "2.IH"(5) [OF due True refl head(2) this]
      have "tok_inv st' h' (Wk_Batch (acc @ ready)) ws n" "\<exists>pre. ts = pre @ h'"
        "\<forall>u \<in> set ready. u \<in> set ts \<and> tt_expiration u \<le> now"
        "submits_pending (st(tt_id t := None)) st'"
        by (auto simp del: fun_upd_apply)
      then show ?thesis
        using suffix_Cons submits_pending_cancelled [of st "tt_id t" st'] True
        by (auto simp del: fun_upd_apply)
    next
      case False
      then have pend: "st (tt_id t) = Some Pending" using head(1) by simp
      obtain ready' where r: "collect now ts (st(tt_id t \<mapsto> Submitted)) = (ready', h', st')"
        "ready = t # ready'"
        using "2.prems"(2) due pend by (auto split: prod.splits)
      have "toks ts (Wk_Batch (acc @ [t])) ws = add_mset (tt_id t) (toks ts (Wk_Batch acc) ws)"
        by (simp add: toks_def)
      moreover have "locs_ok (st(tt_id t \<mapsto> Submitted)) ts (Wk_Batch (acc @ [t])) ws"
        using locs_ok_frame [of "st(tt_id t := None)" ts "Wk_Batch acc" ws "tt_id t" "Some Submitted"]
          head(2,3) by (auto simp: locs_ok_def tok_inv_def)
      ultimately have "tok_inv (st(tt_id t \<mapsto> Submitted)) ts (Wk_Batch (acc @ [t])) ws n"
        using tok_in [OF head(2,3), of ts "Wk_Batch (acc @ [t])" ws "Some Submitted"] head(4) by simp
      from "2.IH"(2) [OF due pend refl this r(1)]
      have "tok_inv st' h' (Wk_Batch ((acc @ [t]) @ ready')) ws n" "\<exists>pre. ts = pre @ h'"
        "\<forall>u \<in> set ready'. u \<in> set ts \<and> tt_expiration u \<le> now"
        "submits_pending (st(tt_id t \<mapsto> Submitted)) st'"
        by (auto simp del: fun_upd_apply)
      then show ?thesis
        using r(2) due suffix_Cons submits_pending_submitted [of st "tt_id t" st'] pend
        by (auto simp del: fun_upd_apply)
    qed
  qed
qed auto

text \<open>The queue is kept in the order of the comparison.\<close>

definition tq_sorted :: "'a timer list \<Rightarrow> bool" where
  "tq_sorted h \<longleftrightarrow> sorted_wrt (\<lambda>a b. \<not> timer_after a b) h"

lemma timer_after_trans: "\<not> timer_after a b \<Longrightarrow> \<not> timer_after b c \<Longrightarrow> \<not> timer_after a c"
  by (auto simp: timer_after_def split: if_splits)

lemma timer_after_total: "timer_after a b \<Longrightarrow> \<not> timer_after b a"
  by (auto simp: timer_after_def split: if_splits)

lemma set_tq_push [simp]: "set (tq_push t h) = insert t (set h)"
  by (induction h) auto

lemma mset_tq_push: "mset (tq_push t h) = add_mset t (mset h)"
  by (induction h) auto

lemma tq_sorted_push: "tq_sorted h \<Longrightarrow> tq_sorted (tq_push t h)"
proof (induction h)
  case (Cons a h)
  then show ?case
    unfolding tq_sorted_def using timer_after_trans timer_after_total
    by (auto simp del: set_tq_push simp: set_tq_push) blast+
qed (simp add: tq_sorted_def)

lemma tq_sorted_suffix: "tq_sorted (pre @ h) \<Longrightarrow> tq_sorted h"
  by (simp add: tq_sorted_def sorted_wrt_append)

lemma hd_tq_push:
  "h \<noteq> [] \<Longrightarrow> tt_expiration (hd h) \<le> tt_expiration t \<Longrightarrow> tt_expiration (hd (tq_push t h)) = tt_expiration (hd h)"
  by (cases h) (auto simp: timer_after_def)

lemma tq_push_not_Nil [simp]: "tq_push t h \<noteq> []"
  by (cases h) auto

lemma toks_push: "toks (tq_push t h) pc ws = add_mset (tt_id t) (toks h pc ws)"
  by (simp add: toks_def mset_tq_push flip: mset_map)
    (simp add: mset_map mset_tq_push)

lemma tok_push:
  assumes "tok_inv st h pc ws n" "tt_id t \<notin># toks h pc ws" "tt_id t < n"
  shows "tok_inv (st(tt_id t \<mapsto> Pending)) (tq_push t h) pc ws n"
proof -
  have "locs_ok (st(tt_id t \<mapsto> Pending)) (tq_push t h) pc ws"
    using locs_ok_frame [of st h pc ws "tt_id t" "Some Pending"] assms(1,2)
    by (auto simp: locs_ok_def tok_inv_def)
  then show ?thesis
    using tok_in [OF assms(1,2) toks_push assms(3)] by simp
qed

text \<open>Entering the loop of the scheduler thread.\<close>

definition rested :: "'a tstate \<Rightarrow> 'a wk_pc \<Rightarrow> bool" where
  "rested s pc \<longleftrightarrow>
     (case pc of
        Wk_Exited \<Rightarrow> tm_scheduler s \<noteq> Running
      | Wk_Idle \<Rightarrow> tm_scheduler s = Running \<and> tm_tasks s = []
      | Wk_Wait i e \<Rightarrow> tm_scheduler s = Running \<and> tm_tasks s \<noteq> [] \<and> e \<le> tt_expiration (hd (tm_tasks s))
      | _ \<Rightarrow> False)"

definition same_rest :: "'a tstate \<Rightarrow> 'a tstate \<Rightarrow> bool" where
  "same_rest s s' \<longleftrightarrow> tm_scheduler s' = tm_scheduler s \<and> tm_next_id s' = tm_next_id s \<and>
     tm_in_flight s' = tm_in_flight s \<and> (\<exists>pre. tm_tasks s = pre @ tm_tasks s') \<and>
     drops_cancelled (tm_states s) (tm_states s')"

lemma same_rest_refl [simp]: "same_rest s s"
  by (simp add: same_rest_def)

lemma same_rest_trans: "same_rest s s' \<Longrightarrow> same_rest s' s'' \<Longrightarrow> same_rest s s''"
  unfolding same_rest_def by (metis append_assoc drops_cancelled_trans)

lemma enter_inv:
  "tok_inv (tm_states s) (tm_tasks s) (Wk_Batch []) ws n \<Longrightarrow> tm_enter s = (s', pc) \<Longrightarrow>
   tok_inv (tm_states s') (tm_tasks s') pc ws n \<and> rested s' pc \<and> same_rest s s'"
proof (induction s arbitrary: s' pc rule: tm_enter.induct)
  case (1 s)
  show ?case
  proof (cases "tm_scheduler s = Running \<and> tm_tasks s \<noteq> []")
    case False
    with 1 show ?thesis
      by (auto simp: tm_enter.simps [of s] rested_def tok_inv_def toks_def locs_ok_def split: if_splits)
  next
    case True
    then obtain t ts where h: "tm_tasks s = t # ts" by (cases "tm_tasks s") auto
    note head = tok_inv_head [OF "1.prems"(1) [unfolded h]]
    show ?thesis
    proof (cases "tm_states s (tt_id t) = Some Cancelled")
      case False
      then have "tm_states s (tt_id t) = Some Pending" using head(1) by simp
      then have "s' = s" "pc = Wk_Wait (tt_id t) (tt_expiration t)"
        using "1.prems"(2) True h by (auto simp: tm_enter.simps [of s])
      with True h "1.prems"(1) show ?thesis
        by (auto simp: rested_def intro: tok_inv_pc)
    next
      case canc: True
      obtain h' st' where p: "purge (t # ts) (tm_states s) = (h', st')" by fastforce
      let ?s = "s\<lparr>tm_tasks := h', tm_states := st'\<rparr>"
      have inv: "tok_inv st' h' (Wk_Batch []) ws n" and pre: "\<exists>pre. t # ts = pre @ h'"
        and st: "drops_cancelled (tm_states s) st'"
        using purge_inv [OF "1.prems"(1) [unfolded h] p] by auto
      have "tm_enter ?s = (s', pc)"
        using "1.prems"(2) True canc p by (simp add: tm_enter.simps [of s] h)
      moreover have "same_rest s ?s"
        using pre st by (simp add: same_rest_def h)
      ultimately show ?thesis
        using "1.IH" [OF _ h canc refl refl p [symmetric], of s' pc] True inv same_rest_trans [of s ?s s']
        by simp
    qed
  qed
qed

section \<open>The invariant\<close>

fun flight :: "'a wk_pc \<Rightarrow> nat" where
  "flight (Wk_Post t ts) = 1"
| "flight (Wk_Reject t ts) = 1"
| "flight (Wk_Drop ts) = 1"
| "flight _ = 0"

definition flying :: "'a wr list \<Rightarrow> nat" where
  "flying ws = count_pc (\<lambda>w. w \<noteq> Wr_Gone) ws"

lemma flying_append: "flying (ws @ vs) = flying ws + flying vs"
  by (simp add: flying_def count_pc_def)

text \<open>A thread that sleeps without a notification under way does not sleep too long.\<close>

definition timely :: "'a tstate \<Rightarrow> 'a wk_pc \<Rightarrow> bool" where
  "timely s pc \<longleftrightarrow>
     (pc = Wk_Idle \<longrightarrow> tm_tasks s = []) \<and>
     (\<forall>i e. pc = Wk_Wait i e \<longrightarrow> tm_tasks s \<noteq> [] \<and> e \<le> tt_expiration (hd (tm_tasks s)))"

definition quiet :: "'a tstate \<Rightarrow> bool" where
  "quiet s \<longleftrightarrow> tm_tasks s = [] \<and> tm_states s = Map.empty \<and> tm_in_flight s = 0"

definition tm_inv :: "'a tsys \<Rightarrow> bool" where
  "tm_inv y \<longleftrightarrow>
     tok_inv (tm_states (sy_state y)) (tm_tasks (sy_state y)) (sy_worker y) (sy_wrappers y)
       (tm_next_id (sy_state y)) \<and>
     tm_in_flight (sy_state y) = flight (sy_worker y) + flying (sy_wrappers y) \<and>
     sy_worker y \<noteq> Wk_Spin \<and> tq_sorted (tm_tasks (sy_state y)) \<and>
     (tm_scheduler (sy_state y) = Created \<longrightarrow> sy_worker y = Wk_None) \<and>
     (tm_scheduler (sy_state y) \<in> {Created, Stopped} \<longrightarrow> quiet (sy_state y)) \<and>
     (\<forall>t \<in> set (wk_timers (sy_worker y)). tt_expiration t \<le> sy_now y) \<and>
     (\<forall>w \<in> set (sy_wrappers y). \<forall>t \<in> set (wr_timers w). tt_expiration t \<le> sy_now y) \<and>
     (\<forall>(t, n) \<in> set (sy_started y). tt_expiration t \<le> n) \<and>
     (tm_scheduler (sy_state y) = Running \<and> \<not> sy_signal y \<longrightarrow> timely (sy_state y) (sy_worker y))"

lemma tm_invD:
  assumes "tm_inv y"
  shows "tok_inv (tm_states (sy_state y)) (tm_tasks (sy_state y)) (sy_worker y) (sy_wrappers y)
       (tm_next_id (sy_state y))"
    and "tm_in_flight (sy_state y) = flight (sy_worker y) + flying (sy_wrappers y)"
    and "sy_worker y \<noteq> Wk_Spin" "tq_sorted (tm_tasks (sy_state y))"
    and "tm_scheduler (sy_state y) = Created \<Longrightarrow> sy_worker y = Wk_None"
    and "tm_scheduler (sy_state y) \<in> {Created, Stopped} \<Longrightarrow> quiet (sy_state y)"
    and "t \<in> set (wk_timers (sy_worker y)) \<Longrightarrow> tt_expiration t \<le> sy_now y"
    and "w \<in> set (sy_wrappers y) \<Longrightarrow> t \<in> set (wr_timers w) \<Longrightarrow> tt_expiration t \<le> sy_now y"
    and "(t, n) \<in> set (sy_started y) \<Longrightarrow> tt_expiration t \<le> n"
    and "tm_scheduler (sy_state y) = Running \<Longrightarrow> \<not> sy_signal y \<Longrightarrow> timely (sy_state y) (sy_worker y)"
  using assms unfolding tm_inv_def by blast+

text \<open>Cancelling fits every place.\<close>

lemma tok_cancel:
  assumes "tok_inv st h pc ws n" "\<And>i. st' i = st i \<or> st i \<noteq> None \<and> st' i = Some Cancelled"
  shows "tok_inv st' h pc ws n"
proof -
  have keep: "st i \<in> {Some x, Some Cancelled} \<Longrightarrow> st' i \<in> {Some x, Some Cancelled}"
    "st i \<in> {None, Some x, Some Cancelled} \<Longrightarrow> st' i \<in> {None, Some x, Some Cancelled}" for i x
    using assms(2) [of i] by auto
  have "wk_ok st' pc"
    using assms(1) keep unfolding tok_inv_def locs_ok_def by (cases pc) auto
  moreover have "wr_ok st' w" if "w \<in> set ws" for w
  proof -
    have "wr_ok st w"
      using assms(1) that unfolding tok_inv_def locs_ok_def by blast
    then show ?thesis
      using keep(1) [of _ Submitted] keep(1) [of _ Executing] by (cases w) auto
  qed
  moreover have "st' (tt_id t) \<in> {Some Pending, Some Cancelled}" if "t \<in> set h" for t
    using assms(1) keep that unfolding tok_inv_def locs_ok_def by auto
  moreover have "i \<in># toks h pc ws" if "st' i \<noteq> None" for i
    using assms(1) assms(2) [of i] that unfolding tok_inv_def by metis
  ultimately show ?thesis
    using assms(1) unfolding tok_inv_def locs_ok_def by blast
qed

text \<open>One step of the scheduler thread.\<close>

definition worker_effect :: "'a tstate \<Rightarrow> 'a tstate \<Rightarrow> bool" where
  "worker_effect s s' \<longleftrightarrow> tm_scheduler s' = tm_scheduler s \<and> tm_next_id s' = tm_next_id s \<and>
     (\<exists>pre. tm_tasks s = pre @ tm_tasks s') \<and>
     (\<forall>i. tm_states s' i = tm_states s i \<or> tm_states s' i = None \<or>
        tm_states s i = Some Pending \<and> tm_states s' i = Some Submitted)"

lemma worker_effect_refl [simp]: "worker_effect s s"
  by (simp add: worker_effect_def)

lemma same_rest_effect: "same_rest s s' \<Longrightarrow> worker_effect s s'"
  unfolding same_rest_def worker_effect_def drops_cancelled_def by blast

lemma rested_timely: "rested s pc \<Longrightarrow> timely s pc \<and> pc \<noteq> Wk_Spin \<and> wk_timers pc = [] \<and> flight pc = 0"
  by (cases pc) (auto simp: rested_def timely_def)

lemma enter_step:
  assumes "tok_inv (tm_states s) (tm_tasks s) pc ws n" "wk_timers pc = []" "tm_enter s = (s', pc')"
  shows "tok_inv (tm_states s') (tm_tasks s') pc' ws n \<and> worker_effect s s' \<and>
    tm_in_flight s' = tm_in_flight s \<and> timely s' pc' \<and> pc' \<noteq> Wk_Spin \<and> wk_timers pc' = [] \<and> flight pc' = 0"
proof -
  have "tok_inv (tm_states s) (tm_tasks s) (Wk_Batch []) ws n"
    by (rule tok_inv_pc [OF assms(1)]) (simp_all add: assms(2))
  note inv = enter_inv [OF this assms(3)]
  moreover have "tm_in_flight s' = tm_in_flight s"
    using inv by (simp add: same_rest_def)
  ultimately show ?thesis
    using rested_timely [of s' pc'] same_rest_effect [of s s'] by blast
qed


lemma wake_wait_step:
  assumes "tok_inv (tm_states s) (tm_tasks s) (Wk_Wait i e) ws n"
    and "tm_wake_wait now timed_out i e s = (s', pc')"
  shows "tok_inv (tm_states s') (tm_tasks s') pc' ws n \<and> worker_effect s s' \<and>
    tm_in_flight s' = tm_in_flight s \<and> (tm_scheduler s = Running \<longrightarrow> timely s' pc') \<and> pc' \<noteq> Wk_Spin \<and>
    (\<forall>t \<in> set (wk_timers pc'). tt_expiration t \<le> now) \<and> flight pc' = 0"
proof (cases "tm_interrupted i e s")
  case True
  obtain h st where p: "purge (tm_tasks s) (tm_states s) = (h, st)" by fastforce
  let ?s = "s\<lparr>tm_tasks := h, tm_states := st\<rparr>"
  have inv: "tok_inv st h (Wk_Wait i e) ws n" "\<exists>pre. tm_tasks s = pre @ h" "drops_cancelled (tm_states s) st"
    using purge_inv [OF assms(1) p] by auto
  have s': "tm_enter ?s = (s', pc')"
    using assms(2) True p by (simp add: tm_wake_wait_def)
  have "tok_inv st h (Wk_Batch []) ws n"
    by (rule tok_inv_pc [OF inv(1)]) simp_all
  then have e: "tok_inv (tm_states s') (tm_tasks s') pc' ws n" "rested s' pc'" "same_rest ?s s'"
    using enter_inv [of ?s ws n s' pc'] s' by auto
  moreover have "same_rest s ?s"
    using inv(2,3) by (simp add: same_rest_def)
  ultimately have "same_rest s s'"
    by (blast intro: same_rest_trans)
  then show ?thesis
    using e rested_timely [OF e(2)] same_rest_effect [of s s'] by (simp add: same_rest_def)
next
  case False
  then have run: "tm_scheduler s = Running" "tm_tasks s \<noteq> []" "e \<le> tt_expiration (hd (tm_tasks s))"
    by (auto simp: tm_interrupted_def split: if_splits)
  show ?thesis
  proof (cases "timed_out \<and> \<not> (tm_tasks s = [] \<or> tt_expiration (hd (tm_tasks s)) > now)")
    case True
    obtain ready h st where c: "collect now (tm_tasks s) (tm_states s) = (ready, h, st)"
      by (metis prod_cases3)
    have "tok_inv (tm_states s) (tm_tasks s) (Wk_Batch []) ws n"
      by (rule tok_inv_pc [OF assms(1)]) simp_all
    from collect_inv [OF this c] have inv: "tok_inv st h (Wk_Batch ready) ws n"
      "\<exists>pre. tm_tasks s = pre @ h" "\<forall>t \<in> set ready. tt_expiration t \<le> now"
      "submits_pending (tm_states s) st"
      by auto
    have s': "s' = s\<lparr>tm_tasks := h, tm_states := st\<rparr>" "pc' = Wk_Batch ready"
      using assms(2) False True c by (auto simp: tm_wake_wait_def)
    have "worker_effect s s'"
      using inv(2,4) s'(1) unfolding worker_effect_def submits_pending_def by auto
    then show ?thesis
      using inv s' by (simp add: timely_def)
  next
    case idle: False
    show ?thesis
    proof (cases timed_out)
      case True
      then have "tm_enter s = (s', pc')"
        using assms(2) False idle by (auto simp: tm_wake_wait_def)
      from enter_step [OF assms(1) _ this] show ?thesis by simp
    next
      case notime: False
      then have "s' = s" "pc' = Wk_Wait i e"
        using assms(2) False by (auto simp: tm_wake_wait_def)
      with assms(1) run show ?thesis by (simp add: timely_def)
    qed
  qed
qed

lemma tok_inv_drop_ready:
  assumes "tok_inv st h (Wk_Batch (t # rest)) ws n" "st' = st(tt_id t := None)"
  shows "tok_inv st' h (Wk_Batch rest) ws n"
proof -
  have "locs_ok st h (Wk_Batch rest) ws"
    using assms(1) by (simp add: tok_inv_def locs_ok_def)
  then show ?thesis
    using tok_out(2) [OF assms(1), of "tt_id t" h "Wk_Batch rest" ws] assms(2)
    by (simp add: toks_def)
qed

lemma check_ready_step:
  assumes "tok_inv (tm_states s) (tm_tasks s) (Wk_Batch (t # rest)) ws n"
    and "tm_check_ready t rest s = (s', pc')"
  shows "tok_inv (tm_states s') (tm_tasks s') pc' ws n \<and> worker_effect s s' \<and>
    tm_in_flight s' = tm_in_flight s + flight pc' \<and> timely s' pc' \<and> pc' \<noteq> Wk_Spin \<and>
    set (wk_timers pc') \<subseteq> insert t (set rest) \<and> (flight pc' = 1 \<longrightarrow> tm_states s (tt_id t) \<noteq> None)"
proof -
  have st: "tm_states s (tt_id t) \<in> {None, Some Submitted, Some Cancelled}"
    using assms(1) by (simp add: tok_inv_def locs_ok_def)
  show ?thesis
  proof (cases "tm_states s (tt_id t) = None \<or> tm_states s (tt_id t) = Some Cancelled \<or> tm_scheduler s \<noteq> Running")
    case True
    show ?thesis
    proof (cases "tm_states s (tt_id t)")
      case None
      then have "tm_states s = (tm_states s)(tt_id t := None)" by auto
      from tok_inv_drop_ready [OF assms(1) this] None assms(2) show ?thesis
        by (auto simp: tm_check_ready_def timely_def)
    next
      case (Some x)
      then have "s' = tm_erase (tt_id t) s" "pc' = Wk_Batch rest"
        using assms(2) True by (auto simp: tm_check_ready_def)
      then show ?thesis
        using tok_inv_drop_ready [OF assms(1) refl] by (auto simp: tm_erase_def timely_def worker_effect_def)
    qed
  next
    case False
    then have sub: "tm_states s (tt_id t) = Some Submitted" using st by auto
    then have "s' = s\<lparr>tm_in_flight := tm_in_flight s + 1\<rparr>" "pc' = Wk_Post t rest"
      using assms(2) False by (auto simp: tm_check_ready_def)
    moreover have "tok_inv (tm_states s) (tm_tasks s) (Wk_Post t rest) ws n"
      by (rule tok_inv_pc [OF assms(1)]) (use assms(1) sub in \<open>auto simp: tok_inv_def locs_ok_def\<close>)
    ultimately show ?thesis
      using sub by (auto simp: worker_effect_def timely_def)
  qed
qed


definition worker_post :: "time \<Rightarrow> nat \<Rightarrow> timer_id \<Rightarrow> 'a wr list \<Rightarrow> 'a tstate \<Rightarrow> 'a wk_pc \<Rightarrow>
    'a tstate \<Rightarrow> 'a wk_pc \<Rightarrow> 'a wr list \<Rightarrow> bool" where
  "worker_post now f n wrs s pc s' pc' ws \<longleftrightarrow>
     tok_inv (tm_states s') (tm_tasks s') pc' (wrs @ ws) n \<and> worker_effect s s' \<and>
     tm_in_flight s' = flight pc' + f + flying ws \<and> (tm_scheduler s = Running \<longrightarrow> timely s' pc') \<and>
     pc' \<noteq> Wk_Spin \<and> (\<forall>t \<in> set (wk_timers pc'). t \<in> set (wk_timers pc) \<or> tt_expiration t \<le> now) \<and>
     (\<forall>w \<in> set ws. \<forall>t \<in> set (wr_timers w). t \<in> set (wk_timers pc)) \<and>
     (tm_states s = Map.empty \<and> flight pc = 0 \<longrightarrow> flight pc' = 0 \<and> ws = [])"

lemma tok_inv_erase_ready:
  assumes "tok_inv (tm_states s) h (Wk_Reject t rest) ws n"
  shows "tok_inv ((tm_states s)(tt_id t := None)) h (Wk_Drop rest) ws n"
proof -
  have "locs_ok (tm_states s) h (Wk_Drop rest) ws"
    using assms by (simp add: tok_inv_def locs_ok_def)
  then show ?thesis
    using tok_out(2) [OF assms, of "tt_id t" h "Wk_Drop rest" ws] by (simp add: toks_def)
qed

lemma tok_inv_posted:
  assumes "tok_inv st h (Wk_Post t rest) ws n"
  shows "tok_inv st h (Wk_Batch rest) (ws @ [Wr_Queued t]) n"
proof -
  have "toks h (Wk_Batch rest) (ws @ [Wr_Queued t]) = toks h (Wk_Post t rest) ws"
    by (simp add: toks_def)
  then show ?thesis
    using assms by (simp add: tok_inv_def locs_ok_def)
qed

lemma worker_step_ok:
  assumes step: "tm_worker_step now timed_out answer s pc = Some ((s', pc'), ws)"
    and inv: "tok_inv (tm_states s) (tm_tasks s) pc wrs n" "tm_in_flight s = flight pc + f"
  shows "worker_post now f n wrs s pc s' pc' ws"
proof (cases pc)
  case Wk_Start
  with step have "tm_enter s = (s', pc')" "ws = []" by auto
  with enter_step [OF inv(1)] inv(2) Wk_Start show ?thesis
    by (simp add: worker_post_def flying_def)
next
  case Wk_Idle
  with step have w: "tm_wake_idle s = (s', pc')" "ws = []" by auto
  show ?thesis
  proof (cases "tm_scheduler s \<noteq> Running \<or> tm_tasks s \<noteq> []")
    case True
    then have "tm_enter s = (s', pc')" using w(1) by (simp add: tm_wake_idle_def)
    with enter_step [OF inv(1)] inv(2) Wk_Idle w(2) show ?thesis
      by (simp add: worker_post_def flying_def)
  next
    case False
    with w inv Wk_Idle show ?thesis
      by (auto simp: tm_wake_idle_def worker_post_def flying_def timely_def)
  qed
next
  case (Wk_Wait i e)
  with step have w: "tm_wake_wait now timed_out i e s = (s', pc')" "ws = []"
    by (auto split: if_splits)
  with wake_wait_step [OF inv(1) [unfolded Wk_Wait]] inv(2) Wk_Wait show ?thesis
    by (simp add: worker_post_def flying_def)
next
  case (Wk_Batch ts)
  show ?thesis
  proof (cases ts)
    case Nil
    with step Wk_Batch have "tm_enter s = (s', pc')" "ws = []" by auto
    with enter_step [OF inv(1)] inv(2) Wk_Batch Nil show ?thesis
      by (simp add: worker_post_def flying_def)
  next
    case (Cons t rest)
    with step Wk_Batch have w: "tm_check_ready t rest s = (s', pc')" "ws = []" by auto
    have "flight pc' \<le> 1" by (cases pc') simp_all
    with check_ready_step [OF _ w(1)] inv Wk_Batch Cons w(2) show ?thesis
      by (auto simp: worker_post_def flying_def le_Suc_eq)
  qed
next
  case (Wk_Post t rest)
  show ?thesis
  proof (cases "answer = Accepted")
    case True
    with step Wk_Post have "s' = s" "pc' = Wk_Batch rest" "ws = [Wr_Queued t]" by auto
    with tok_inv_posted inv Wk_Post show ?thesis
      by (auto simp: worker_post_def flying_def timely_def)
  next
    case False
    with step Wk_Post have "s' = s" "pc' = Wk_Reject t rest" "ws = []" by auto
    moreover have "tok_inv (tm_states s) (tm_tasks s) (Wk_Reject t rest) wrs n"
      by (rule tok_inv_pc [OF inv(1)]) (use inv(1) Wk_Post in \<open>simp_all add: tok_inv_def locs_ok_def\<close>)
    ultimately show ?thesis
      using inv Wk_Post by (auto simp: worker_post_def flying_def timely_def)
  qed
next
  case (Wk_Reject t rest)
  with step have "s' = tm_erase (tt_id t) s" "pc' = Wk_Drop rest" "ws = []" by auto
  with tok_inv_erase_ready inv Wk_Reject show ?thesis
    by (auto simp: worker_post_def flying_def timely_def tm_erase_def worker_effect_def)
next
  case (Wk_Drop rest)
  with step have "s' = tm_finish_in_flight s" "pc' = Wk_Batch rest" "ws = []" by auto
  moreover have "tok_inv (tm_states s) (tm_tasks s) (Wk_Batch rest) wrs n"
    by (rule tok_inv_pc [OF inv(1)]) (use inv(1) Wk_Drop in \<open>simp_all add: tok_inv_def locs_ok_def\<close>)
  ultimately show ?thesis
    using inv Wk_Drop
    by (auto simp: worker_post_def flying_def timely_def tm_finish_in_flight_def worker_effect_def)
qed (use step in simp_all)

section \<open>The wrappers\<close>

lemma toks_wrapper:
  assumes "k < length ws" "wr_timers (ws ! k) = [t]"
  shows "toks h pc ws = add_mset (tt_id t) (toks h pc (ws[k := Wr_Done]))"
  using sum_list_map_update [OF assms(1), of "\<lambda>w. mset (map tt_id (wr_timers w))" Wr_Done] assms(2)
  by (simp add: toks_def)

lemma locs_ok_wrapper: "locs_ok st h pc ws \<Longrightarrow> wr_ok st w \<Longrightarrow> locs_ok st h pc (ws[k := w])"
  unfolding locs_ok_def using Ball_list_update by metis

lemma toks_wrapper_again:
  assumes "k < length ws" "wr_timers w = [t]" "wr_timers (ws ! k) = [t]"
  shows "toks h pc (ws[k := w]) = toks h pc ws"
  using sum_list_map_update [OF assms(1), of "\<lambda>w. mset (map tt_id (wr_timers w))" w] assms(2,3)
  by (simp add: toks_def)

lemma toks_wrapper_none:
  assumes "k < length ws" "wr_timers w = []" "wr_timers (ws ! k) = []"
  shows "toks h pc (ws[k := w]) = toks h pc ws"
  using sum_list_map_update [OF assms(1), of "\<lambda>w. mset (map tt_id (wr_timers w))" w] assms(2,3)
  by (simp add: toks_def)

lemma flying_update: "k < length ws \<Longrightarrow> (ws ! k = Wr_Gone) = (w = Wr_Gone) \<Longrightarrow> flying (ws[k := w]) = flying ws"
  unfolding flying_def by (rule count_pc_update_same) simp

text \<open>The timer of a wrapper, taken away from it.\<close>

lemma tok_wrapper_out:
  assumes "tok_inv st h pc ws n" "k < length ws" "wr_timers (ws ! k) = [t]"
  shows "tok_inv (st(tt_id t := None)) h pc (ws[k := Wr_Done]) n"
    and "tt_id t \<notin># toks h pc (ws[k := Wr_Done])" "tt_id t < n"
proof -
  have "locs_ok st h pc (ws[k := Wr_Done])"
    using assms(1) locs_ok_wrapper [of st h pc ws Wr_Done k] by (simp add: tok_inv_def)
  from tok_out [OF assms(1) toks_wrapper [OF assms(2,3)] this]
  show "tok_inv (st(tt_id t := None)) h pc (ws[k := Wr_Done]) n"
    and "tt_id t \<notin># toks h pc (ws[k := Wr_Done])" "tt_id t < n"
    by auto
qed

lemma wrapper_begin_ok:
  assumes "tok_inv (tm_states s) (tm_tasks s) pc ws n" "k < length ws" "ws ! k = Wr_Queued t"
    and "tm_wrapper_begin t s = (s', w)"
  shows "tok_inv (tm_states s') (tm_tasks s') pc (ws[k := w]) n \<and> w \<in> {Wr_Done, Wr_Running t} \<and>
    tm_tasks s' = tm_tasks s \<and> tm_scheduler s' = tm_scheduler s \<and> tm_next_id s' = tm_next_id s \<and>
    tm_in_flight s' = tm_in_flight s \<and>
    (w = Wr_Running t \<longrightarrow> tm_states s (tt_id t) = Some Submitted) \<and>
    (\<forall>i. tm_states s' i = tm_states s i \<or> tm_states s' i = None \<or> tm_states s i = Some Submitted)"
proof -
  have "wr_ok (tm_states s) (ws ! k)"
    using assms(1,2) nth_mem unfolding tok_inv_def locs_ok_def by blast
  then consider "tm_states s (tt_id t) = Some Submitted" | "tm_states s (tt_id t) = Some Cancelled"
    using assms(3) by auto
  then show ?thesis
  proof cases
    case 1
    let ?st = "(tm_states s)(tt_id t \<mapsto> Executing)"
    have s': "s' = s\<lparr>tm_states := ?st\<rparr>" "w = Wr_Running t"
      using assms(4) 1 by (auto simp: tm_wrapper_begin_def)
    have tk: "toks (tm_tasks s) pc (ws[k := w]) = add_mset (tt_id t) (toks (tm_tasks s) pc (ws[k := Wr_Done]))"
      using toks_wrapper [OF assms(2), of t] toks_wrapper_again [OF assms(2), of w t] assms(3) s'(2) by simp
    note out = tok_wrapper_out [OF assms(1,2), of t]
    have "locs_ok ?st (tm_tasks s) pc (ws[k := Wr_Done])"
      using locs_ok_frame [of "(tm_states s)(tt_id t := None)" "tm_tasks s" pc "ws[k := Wr_Done]" "tt_id t"
          "Some Executing"] out assms(3) by (simp add: tok_inv_def)
    from locs_ok_wrapper [OF this, of w k] have "locs_ok ?st (tm_tasks s) pc (ws[k := w])"
      using s'(2) by simp
    with tok_in [OF out(1,2) tk out(3), of "Some Executing"] assms(3)
    have "tok_inv ?st (tm_tasks s) pc (ws[k := w]) n" by simp
    with s' 1 show ?thesis by auto
  next
    case 2
    have s': "s' = tm_erase (tt_id t) s" "w = Wr_Done"
      using assms(4) 2 by (auto simp: tm_wrapper_begin_def)
    with tok_wrapper_out(1) [OF assms(1,2), of t] assms(3) show ?thesis
      by (auto simp: tm_erase_def)
  qed
qed

lemma wrapper_end_ok:
  assumes "tok_inv (tm_states s) (tm_tasks s) pc ws n" "k < length ws" "ws ! k = Wr_Running t"
    and "tm_wrapper_end now t s = (s', wake)"
  shows "tok_inv (tm_states s') (tm_tasks s') pc (ws[k := Wr_Done]) n \<and>
    tm_scheduler s' = tm_scheduler s \<and> tm_next_id s' = tm_next_id s \<and>
    tm_in_flight s' = tm_in_flight s \<and>
    (tm_tasks s' = tm_tasks s \<or> tm_scheduler s = Running \<and>
       tm_tasks s' = tq_push (t\<lparr>tt_expiration := now + tt_interval t, tt_repeated := True\<rparr>) (tm_tasks s) \<and>
       (wake \<longleftrightarrow> tm_tasks s = [] \<or> now + tt_interval t < tt_expiration (hd (tm_tasks s)))) \<and>
    (\<forall>i. tm_states s' i = tm_states s i \<or> tm_states s' i = None \<or> tm_states s i = Some Executing)"
proof -
  have "wr_ok (tm_states s) (ws ! k)"
    using assms(1,2) nth_mem unfolding tok_inv_def locs_ok_def by blast
  then consider "tm_states s (tt_id t) = Some Executing" | "tm_states s (tt_id t) = Some Cancelled"
    using assms(3) by auto
  then show ?thesis
  proof cases
    case 1
    show ?thesis
    proof (cases "tt_repeated t \<and> tm_scheduler s = Running")
      case True
      let ?u = "t\<lparr>tt_expiration := now + tt_interval t, tt_repeated := True\<rparr>"
      have "s' = s\<lparr>tm_states := (tm_states s)(tt_id t \<mapsto> Pending), tm_tasks := tq_push ?u (tm_tasks s)\<rparr>"
        "wake = (tm_tasks s = [] \<or> now + tt_interval t < tt_expiration (hd (tm_tasks s)))"
        using assms(4) 1 True by (auto simp: tm_wrapper_end_def Let_def)
      moreover have "tok_inv ((tm_states s)(tt_id t \<mapsto> Pending)) (tq_push ?u (tm_tasks s)) pc (ws[k := Wr_Done]) n"
        using tok_push [OF tok_wrapper_out(1) [OF assms(1,2)], of t ?u] tok_wrapper_out(2,3) [OF assms(1,2), of t]
          assms(3) by simp
      ultimately show ?thesis using True 1 by auto
    next
      case False
      then have "s' = tm_erase (tt_id t) s"
        using assms(4) 1 by (auto simp: tm_wrapper_end_def)
      with tok_wrapper_out(1) [OF assms(1,2), of t] assms(3) show ?thesis
        by (auto simp: tm_erase_def)
    qed
  next
    case 2
    then have "s' = tm_erase (tt_id t) s"
      using assms(4) by (auto simp: tm_wrapper_end_def)
    with tok_wrapper_out(1) [OF assms(1,2), of t] assms(3) show ?thesis
      by (auto simp: tm_erase_def)
  qed
qed


section \<open>Every step keeps the invariant\<close>

lemma tm_invI:
  assumes "sy_state y = s" "sy_worker y = pc" "sy_wrappers y = ws"
    and "tok_inv (tm_states s) (tm_tasks s) pc ws (tm_next_id s)"
    and "tm_in_flight s = flight pc + flying ws"
    and "pc \<noteq> Wk_Spin" "tq_sorted (tm_tasks s)"
    and "tm_scheduler s = Created \<Longrightarrow> pc = Wk_None"
    and "tm_scheduler s \<in> {Created, Stopped} \<Longrightarrow> quiet s"
    and "\<And>t. t \<in> set (wk_timers pc) \<Longrightarrow> tt_expiration t \<le> sy_now y"
    and "\<And>w t. w \<in> set ws \<Longrightarrow> t \<in> set (wr_timers w) \<Longrightarrow> tt_expiration t \<le> sy_now y"
    and "\<And>t n. (t, n) \<in> set (sy_started y) \<Longrightarrow> tt_expiration t \<le> n"
    and "tm_scheduler s = Running \<Longrightarrow> \<not> sy_signal y \<Longrightarrow> timely s pc"
  shows "tm_inv y"
proof -
  have "\<forall>(t, n) \<in> set (sy_started y). tt_expiration t \<le> n"
    using assms(12) by auto
  then show ?thesis
    using assms(4-11,13) unfolding tm_inv_def assms(1-3)
    by (intro conjI; (assumption | blast))
qed

lemma tm_inv_worker:
  assumes inv: "tm_inv y"
    and step: "tm_worker_step (sy_now y) timed_out answer (sy_state y) (sy_worker y) = Some ((s, pc), ws)"
  shows "tm_inv (y\<lparr>sy_state := s, sy_worker := pc, sy_wrappers := sy_wrappers y @ ws, sy_signal := False\<rparr>)"
proof -
  note D = tm_invD [OF inv]
  have post: "worker_post (sy_now y) (flying (sy_wrappers y)) (tm_next_id (sy_state y)) (sy_wrappers y)
      (sy_state y) (sy_worker y) s pc ws"
    by (rule worker_step_ok [OF step D(1,2)])
  then have P: "tok_inv (tm_states s) (tm_tasks s) pc (sy_wrappers y @ ws) (tm_next_id (sy_state y))"
    "worker_effect (sy_state y) s" "tm_in_flight s = flight pc + flying (sy_wrappers y) + flying ws"
    "tm_scheduler (sy_state y) = Running \<Longrightarrow> timely s pc" "pc \<noteq> Wk_Spin"
    "\<And>t. t \<in> set (wk_timers pc) \<Longrightarrow> t \<in> set (wk_timers (sy_worker y)) \<or> tt_expiration t \<le> sy_now y"
    "\<And>w t. w \<in> set ws \<Longrightarrow> t \<in> set (wr_timers w) \<Longrightarrow> t \<in> set (wk_timers (sy_worker y))"
    "tm_states (sy_state y) = Map.empty \<Longrightarrow> flight (sy_worker y) = 0 \<Longrightarrow> flight pc = 0 \<and> ws = []"
    unfolding worker_post_def by blast+
  obtain pre where E: "tm_scheduler s = tm_scheduler (sy_state y)" "tm_next_id s = tm_next_id (sy_state y)"
    "tm_tasks (sy_state y) = pre @ tm_tasks s"
    using P(2) unfolding worker_effect_def by blast
  have created: "tm_scheduler (sy_state y) \<noteq> Created"
  proof
    assume "tm_scheduler (sy_state y) = Created"
    then have "sy_worker y = Wk_None" by (rule D(5))
    with step show False by simp
  qed
  have quiet: "quiet s" if "tm_scheduler (sy_state y) = Stopped"
  proof -
    have q: "tm_tasks (sy_state y) = []" "tm_states (sy_state y) = Map.empty" "tm_in_flight (sy_state y) = 0"
      using D(6) that by (auto simp: quiet_def)
    then have "flight (sy_worker y) = 0" "flying (sy_wrappers y) = 0"
      using D(2) by auto
    then have "tm_in_flight s = 0"
      using P(3) P(8) [OF q(2)] by (simp add: flying_def)
    moreover have "tm_states s i = None" for i
      using P(2) q(2) unfolding worker_effect_def by (metis option.distinct(1))
    ultimately show ?thesis
      using E(3) q(1) by (auto simp: quiet_def)
  qed
  show ?thesis
  proof (rule tm_invI [of _ s pc "sy_wrappers y @ ws"], goal_cases)
    case 4 show ?case using P(1) E(2) by simp
  next
    case 5 show ?case using P(3) by (simp add: flying_append)
  next
    case 7 show ?case using D(4) E(3) tq_sorted_suffix by metis
  next
    case 9 then show ?case using quiet created E(1) by auto
  next
    case (10 t) then show ?case using P(6) D(7) by auto
  next
    case (11 w t) then show ?case using P(7) D(7,8) by auto
  qed (use P(4,5) E(1) created D(9) in auto)
qed

lemma sy_update_simps [simp]:
  "sy_state (sy_update s wake y) = s" "sy_worker (sy_update s wake y) = sy_worker y"
  "sy_wrappers (sy_update s wake y) = sy_wrappers y" "sy_now (sy_update s wake y) = sy_now y"
  "sy_started (sy_update s wake y) = sy_started y" "sy_clients (sy_update s wake y) = sy_clients y"
  "sy_signal (sy_update s wake y) = (sy_signal y \<or> wake \<and> asleep (sy_worker y))"
  by (simp_all add: sy_update_def)

text \<open>Adding a timer wakes the thread whenever it would otherwise sleep past it.\<close>

lemma timely_push:
  assumes "timely s pc" "tm_tasks s' = tq_push t (tm_tasks s)"
    and "\<not> (tm_tasks s = [] \<or> tt_expiration t < tt_expiration (hd (tm_tasks s)))"
  shows "timely s' pc"
  using assms hd_tq_push [of "tm_tasks s" t] by (auto simp: timely_def)

lemma timely_awake: "\<not> asleep pc \<Longrightarrow> timely s pc"
  by (cases pc) (auto simp: timely_def)

text \<open>Operations that leave the queue alone and only cancel.\<close>

lemma tm_inv_cancelling:
  assumes inv: "tm_inv y"
    and st: "\<And>i. tm_states s i = tm_states (sy_state y) i \<or>
      tm_states (sy_state y) i \<noteq> None \<and> tm_states s i = Some Cancelled"
    and same: "tm_tasks s = tm_tasks (sy_state y)" "tm_next_id s = tm_next_id (sy_state y)"
      "tm_in_flight s = tm_in_flight (sy_state y)"
    and sched: "tm_scheduler s = tm_scheduler (sy_state y) \<or>
      tm_scheduler (sy_state y) = Created \<and> tm_scheduler s = Stopped \<or>
      tm_scheduler (sy_state y) = Running \<and> tm_scheduler s = Stopping"
  shows "tm_inv (sy_update s wake y)"
proof -
  note D = tm_invD [OF inv]
  have "quiet s" if "quiet (sy_state y)"
  proof -
    have "tm_states s i = None" for i
      using that st [of i] by (auto simp: quiet_def)
    then show ?thesis
      using that same by (auto simp: quiet_def)
  qed
  then have quiet: "quiet s" if "tm_scheduler s \<in> {Created, Stopped}"
    using that sched D(6) by auto
  have "timely s (sy_worker y)" if "tm_scheduler s = Running" "\<not> sy_signal y"
    using D(10) that sched same by (auto simp: timely_def)
  then show ?thesis
    using tok_cancel [OF D(1) st] D(2-5,7-9) same quiet sched
    by (intro tm_invI [of _ s "sy_worker y" "sy_wrappers y"]) auto
qed

lemma next_id_less: "(n :: timer_id) \<noteq> - 1 \<Longrightarrow> n < n + 1"
  by (simp add: word_less_nat_alt unat_plus_simple) (metis add.commute add_eq_0_iff unatSuc lessI)

lemma tm_inv_schedule:
  assumes add: "tm_add t ((sy_state y)\<lparr>tm_next_id := tm_next_id (sy_state y) + 1\<rparr>) = (s, wake)"
    and inv: "tm_inv y" and run: "tm_scheduler (sy_state y) = Running"
    and fresh: "tm_next_id (sy_state y) \<noteq> - 1" "tt_id t = tm_next_id (sy_state y)"
  shows "tm_inv (sy_update s wake y)"
proof -
  note D = tm_invD [OF inv]
  let ?s = "sy_state y" and ?n = "tm_next_id (sy_state y)"
  have less: "?n < ?n + 1"
    by (rule next_id_less [OF fresh(1)])
  have notin: "?n \<notin># toks (tm_tasks ?s) (sy_worker y) (sy_wrappers y)"
    using D(1) unfolding tok_inv_def by blast
  then have none: "tm_states ?s ?n = None"
    using D(1) unfolding tok_inv_def by (metis option.distinct(1))
  have "tok_inv (tm_states ?s) (tm_tasks ?s) (sy_worker y) (sy_wrappers y) (?n + 1)"
    using D(1) less unfolding tok_inv_def by (meson order.strict_trans)
  from tok_push [OF this, of t] notin less fresh(2)
  have tok: "tok_inv ((tm_states ?s)(?n \<mapsto> Pending)) (tq_push t (tm_tasks ?s)) (sy_worker y) (sy_wrappers y) (?n + 1)"
    by simp
  have s: "s = ?s\<lparr>tm_next_id := ?n + 1, tm_states := (tm_states ?s)(?n \<mapsto> Pending), tm_tasks := tq_push t (tm_tasks ?s)\<rparr>"
    "wake = (tm_tasks ?s = [] \<or> tt_expiration t < tt_expiration (hd (tm_tasks ?s)))"
    using add none fresh(2) by (auto simp: tm_add_def Let_def)
  have "timely s (sy_worker y)" if "\<not> sy_signal (sy_update s wake y)"
  proof (cases "asleep (sy_worker y)")
    case True
    then have "\<not> wake" "\<not> sy_signal y" using that by auto
    with timely_push [of ?s "sy_worker y" s t] D(10) [OF run] s show ?thesis by simp
  qed (rule timely_awake)
  then show ?thesis
    using tok D(2-5,7-9) run s(1)
    by (intro tm_invI [of _ s "sy_worker y" "sy_wrappers y"]) (auto intro: tq_sorted_push)
qed


lemma tm_inv_start:
  assumes inv: "tm_inv y" and start: "tm_start True (sy_state y) = Inr s"
  shows "tm_inv (y\<lparr>sy_state := s, sy_worker := Wk_Start\<rparr>)"
proof -
  note D = tm_invD [OF inv]
  have s: "tm_scheduler (sy_state y) = Created" "s = (sy_state y)\<lparr>tm_scheduler := Running\<rparr>"
    using start by (auto simp: tm_start_def split: if_splits)
  then have w: "sy_worker y = Wk_None" by (auto intro: D(5))
  have "tok_inv (tm_states s) (tm_tasks s) Wk_Start (sy_wrappers y) (tm_next_id s)"
    by (rule tok_inv_pc [of _ _ "sy_worker y"]) (use D(1) s(2) w in auto)
  then show ?thesis
    using D(2,4,8,9) s w
    by (intro tm_invI [of _ s Wk_Start "sy_wrappers y"]) (auto simp: timely_def)
qed

lemma tm_inv_finish:
  assumes inv: "tm_inv y" and free: "tm_in_flight (sy_state y) = 0"
  shows "tm_inv (y\<lparr>sy_state := tm_finish_stop (sy_state y), sy_clients := cs\<rparr>)"
proof -
  note D = tm_invD [OF inv]
  have f: "flight (sy_worker y) = 0" "flying (sy_wrappers y) = 0"
    using D(2) free by auto
  have gone: "w = Wr_Gone" if "w \<in> set (sy_wrappers y)" for w
    using f(2) that unfolding flying_def count_pc_0_iff by blast
  have wr: "wr_ok Map.empty w" if "w \<in> set (sy_wrappers y)" for w
    using gone [OF that] by simp
  have "toks [] (sy_worker y) (sy_wrappers y) \<subseteq># toks (tm_tasks (sy_state y)) (sy_worker y) (sy_wrappers y)"
    by (simp add: toks_def)
  then have c: "count (toks [] (sy_worker y) (sy_wrappers y)) i \<le> 1"
    "\<forall>j \<in># toks [] (sy_worker y) (sy_wrappers y). j < tm_next_id (sy_state y)" for i
    using D(1) unfolding tok_inv_def
    by (meson le_trans mset_subset_eq_count, meson mset_subset_eqD)
  have "wk_ok Map.empty (sy_worker y)"
    using f(1) by (cases "sy_worker y") auto
  then have "tok_inv Map.empty [] (sy_worker y) (sy_wrappers y) (tm_next_id (sy_state y))"
    using c wr unfolding tok_inv_def locs_ok_def by auto
  then show ?thesis
    using D(2,3,7-9) free f
    by (intro tm_invI [of _ "tm_finish_stop (sy_state y)" "sy_worker y" "sy_wrappers y"])
      (auto simp: tm_finish_stop_def quiet_def tq_sorted_def)
qed

lemma wr_timers_begun: "w \<in> {Wr_Done, Wr_Running t} \<Longrightarrow> set (wr_timers w) \<subseteq> {t} \<and> w \<noteq> Wr_Gone"
  by auto

lemma tm_inv_begin:
  assumes inv: "tm_inv y" and k: "k < length (sy_wrappers y)" "sy_wrappers y ! k = Wr_Queued t"
    and step: "tm_wrapper_begin t (sy_state y) = (s, w)"
  shows "tm_inv (y\<lparr>sy_state := s, sy_wrappers := (sy_wrappers y)[k := w],
      sy_started := (if w = Wr_Done then sy_started y else (t, sy_now y) # sy_started y)\<rparr>)"
proof -
  note D = tm_invD [OF inv]
  note B = wrapper_begin_ok [OF D(1) k step]
  have t: "tt_expiration t \<le> sy_now y"
    using D(8) [of "Wr_Queued t" t] k nth_mem [OF k(1)] by simp
  have fl: "flying ((sy_wrappers y)[k := w]) = flying (sy_wrappers y)"
    by (rule flying_update [OF k(1)]) (use k(2) B in auto)
  have "quiet s" if "quiet (sy_state y)"
  proof -
    have "tm_states s i = None" for i
      using B that unfolding quiet_def by (metis option.distinct(1))
    then show ?thesis using B that by (auto simp: quiet_def)
  qed
  moreover have "timely s (sy_worker y)" if "timely (sy_state y) (sy_worker y)"
    using that B by (simp add: timely_def)
  moreover have "tt_expiration u \<le> sy_now y"
    if "v \<in> set ((sy_wrappers y)[k := w])" "u \<in> set (wr_timers v)" for u v
    using that D(8) t B set_update_subset_insert [of "sy_wrappers y" k w] by auto
  ultimately show ?thesis
    using D(2-7,9,10) B fl t
    by (intro tm_invI [of _ s "sy_worker y" "(sy_wrappers y)[k := w]"]) (auto split: if_splits)
qed

lemma tm_inv_end:
  assumes inv: "tm_inv y" and k: "k < length (sy_wrappers y)" "sy_wrappers y ! k = Wr_Running t"
    and step: "tm_wrapper_end (sy_now y) t (sy_state y) = (s, wake)"
  shows "tm_inv (sy_update s wake (y\<lparr>sy_wrappers := (sy_wrappers y)[k := Wr_Done]\<rparr>))"
    (is "tm_inv ?y")
proof -
  note D = tm_invD [OF inv]
  note B = wrapper_end_ok [OF D(1) k step]
  have fl: "flying ((sy_wrappers y)[k := Wr_Done]) = flying (sy_wrappers y)"
    by (rule flying_update [OF k(1)]) (use k(2) in auto)
  have sched: "tm_scheduler s = tm_scheduler (sy_state y)" "tm_in_flight s = tm_in_flight (sy_state y)"
    "tm_next_id s = tm_next_id (sy_state y)"
    using B by auto
  have quiet: "quiet s" if "quiet (sy_state y)" "tm_scheduler (sy_state y) \<noteq> Running"
  proof -
    have "tm_states s i = None" for i
      using B that(1) unfolding quiet_def by (metis option.distinct(1))
    then show ?thesis using B that by (auto simp: quiet_def)
  qed
  have "tq_sorted (tm_tasks s)"
    using B D(4) tq_sorted_push by metis
  moreover have "timely s (sy_worker y)" if "tm_scheduler s = Running" "\<not> sy_signal ?y"
  proof (cases "asleep (sy_worker y)")
    case True
    then have nw: "\<not> wake" "\<not> sy_signal y" using that(2) by auto
    have timely: "timely (sy_state y) (sy_worker y)"
      by (rule D(10)) (use that sched nw in auto)
    show ?thesis
    proof (cases "tm_tasks s = tm_tasks (sy_state y)")
      case True
      with timely show ?thesis by (simp add: timely_def)
    next
      case False
      with B nw have "tm_tasks s = tq_push (t\<lparr>tt_expiration := sy_now y + tt_interval t, tt_repeated := True\<rparr>) (tm_tasks (sy_state y))"
        "\<not> (tm_tasks (sy_state y) = [] \<or> sy_now y + tt_interval t < tt_expiration (hd (tm_tasks (sy_state y))))"
        by auto
      from timely_push [OF timely this(1)] this(2) show ?thesis by simp
    qed
  qed (rule timely_awake)
  moreover have "tt_expiration u \<le> sy_now y"
    if "v \<in> set ((sy_wrappers y)[k := Wr_Done])" "u \<in> set (wr_timers v)" for u v
    using that D(8) set_update_subset_insert [of "sy_wrappers y" k Wr_Done] by auto
  ultimately show ?thesis
    using D(2,3,5-7,9) B sched fl quiet
    by (intro tm_invI [of _ s "sy_worker y" "(sy_wrappers y)[k := Wr_Done]"]) auto
qed

lemma tm_inv_done:
  assumes inv: "tm_inv y" and k: "k < length (sy_wrappers y)" "sy_wrappers y ! k = Wr_Done"
  shows "tm_inv (y\<lparr>sy_state := tm_finish_in_flight (sy_state y), sy_wrappers := (sy_wrappers y)[k := Wr_Gone]\<rparr>)"
proof -
  note D = tm_invD [OF inv]
  let ?ws = "(sy_wrappers y)[k := Wr_Gone]"
  have fl: "Suc (flying ?ws) = flying (sy_wrappers y)"
    unfolding flying_def by (rule count_pc_update_out [OF k(1)]) (use k(2) in auto)
  then have pos: "tm_in_flight (sy_state y) = Suc (flight (sy_worker y) + flying ?ws)"
    using D(2) by simp
  have "toks (tm_tasks (sy_state y)) (sy_worker y) ?ws = toks (tm_tasks (sy_state y)) (sy_worker y) (sy_wrappers y)"
    by (rule toks_wrapper_none [OF k(1)]) (use k(2) in auto)
  moreover have "locs_ok (tm_states (sy_state y)) (tm_tasks (sy_state y)) (sy_worker y) ?ws"
    using D(1) locs_ok_wrapper [of _ _ _ "sy_wrappers y" Wr_Gone k] by (simp add: tok_inv_def)
  ultimately have tok: "tok_inv (tm_states (sy_state y)) (tm_tasks (sy_state y)) (sy_worker y) ?ws (tm_next_id (sy_state y))"
    using D(1) by (simp add: tok_inv_def)
  have noquiet: "\<not> quiet (sy_state y)"
    using pos by (simp add: quiet_def)
  have "tt_expiration u \<le> sy_now y" if "v \<in> set ?ws" "u \<in> set (wr_timers v)" for u v
    using that D(8) set_update_subset_insert [of "sy_wrappers y" k Wr_Gone] by auto
  then show ?thesis
    using tok D(3-7,9,10) pos noquiet
    by (intro tm_invI [of _ "tm_finish_in_flight (sy_state y)" "sy_worker y" ?ws])
      (auto simp: tm_finish_in_flight_def timely_def)
qed

lemma cancel_pending_changed:
  "cancel_pending x \<noteq> x \<Longrightarrow> (\<exists>y. x = Some y) \<and> cancel_pending x = Some Cancelled"
  by (cases x rule: cancel_pending.cases) auto

lemma tm_inv_step: "tm_step y y' \<Longrightarrow> tm_inv y \<Longrightarrow> tm_inv y'"
proof (induction rule: tm_step.induct)
  case (tms_time y now)
  note D = tm_invD [OF tms_time.prems]
  show ?case
    by (rule tm_invI [of _ "sy_state y" "sy_worker y" "sy_wrappers y"])
      (use D tms_time.hyps in \<open>auto intro: order_trans\<close>)
next
  case (tms_request_stop y s wake)
  show ?case
    by (rule tm_inv_cancelling [OF tms_request_stop.prems])
      (use tms_request_stop.hyps in \<open>auto simp: tm_request_stop_def dest: cancel_pending_changed
        split: scheduler_state.splits\<close>)
next
  case (tms_join i y)
  then show ?case by (simp add: tm_inv_def)
next
  case (tms_joined i y in_callback)
  then show ?case by (simp add: tm_inv_def)
next
  case (tms_schedule_after y delay task i s wake)
  then show ?case
    by (auto simp: tm_schedule_after_def Let_def split: if_splits prod.splits intro: tm_inv_schedule)
next
  case (tms_schedule_every y interval task i s wake)
  then show ?case
    by (auto simp: tm_schedule_every_def Let_def split: if_splits prod.splits intro: tm_inv_schedule)
next
  case (tms_cancel i y b s wake)
  show ?case
    by (rule tm_inv_cancelling [OF tms_cancel.prems])
      (use tms_cancel.hyps in \<open>auto simp: tm_cancel_def Let_def split: option.splits timer_state.splits if_splits\<close>)
next
  case (tms_begin k y t s w)
  then show ?case by (intro tm_inv_begin)
qed (auto intro: tm_inv_start tm_inv_finish tm_inv_worker tm_inv_end tm_inv_done)

lemma tm_inv_init: "tm_init clients now y \<Longrightarrow> tm_inv y"
  by (auto simp: tm_init_def tm_inv_def tm_new_def tok_inv_def toks_def locs_ok_def flying_def
      tq_sorted_def quiet_def timely_def)

interpretation tm: invariant_system "tm_init clients now" tm_step tm_inv
  for clients :: nat and now :: time
proof unfold_locales
  show "tm_init clients now y \<Longrightarrow> tm_inv y" for y
    by (rule tm_inv_init)
  show "tm_step y y' \<Longrightarrow> tm_inv y \<Longrightarrow> tm_inv y'" for y y'
    by (rule tm_inv_step)
qed


section \<open>Timers that cannot start any more\<close>

definition spent :: "timer_id \<Rightarrow> 'a tsys \<Rightarrow> bool" where
  "spent i y \<longleftrightarrow> i < tm_next_id (sy_state y) \<and>
     (tm_states (sy_state y) i \<in> {None, Some Cancelled} \<or>
      tm_states (sy_state y) i = Some Executing \<and>
      (\<forall>t. Wr_Running t \<in> set (sy_wrappers y) \<and> tt_id t = i \<longrightarrow> \<not> tt_repeated t))"

definition starts :: "timer_id \<Rightarrow> 'a tsys \<Rightarrow> ('a timer \<times> time) list" where
  "starts i y = filter (\<lambda>(t, n). tt_id t = i) (sy_started y)"

lemma worker_step_wrappers:
  "tm_worker_step now timed_out answer s pc = Some ((s', pc'), ws) \<Longrightarrow> Wr_Running t \<notin> set ws"
  by (cases "(now, timed_out, answer, s, pc)" rule: tm_worker_step.cases) (auto split: if_splits)

lemma spent_update:
  assumes "spent i y" "sy_wrappers y' = sy_wrappers y" "i < tm_next_id (sy_state y')"
    and "tm_states (sy_state y') i = tm_states (sy_state y) i \<or>
      tm_states (sy_state y') i \<in> {None, Some Cancelled}"
  shows "spent i y'"
  using assms unfolding spent_def by auto

lemma schedule_spent:
  assumes add: "tm_add t ((sy_state y)\<lparr>tm_next_id := tm_next_id (sy_state y) + 1\<rparr>) = (s, wake)"
    and "spent i y" "tm_next_id (sy_state y) \<noteq> - 1" "tt_id t = tm_next_id (sy_state y)"
  shows "spent i (sy_update s wake y)"
proof -
  have i: "i < tm_next_id (sy_state y)"
    using assms(2) by (simp add: spent_def)
  moreover have "tm_next_id s = tm_next_id (sy_state y) + 1"
    "tm_states s i = tm_states (sy_state y) i"
    using add assms(4) i by (auto simp: tm_add_def Let_def split: if_splits)
  ultimately show ?thesis
    using next_id_less [OF assms(3)] by (intro spent_update [OF assms(2)]) auto
qed

lemma spent_step:
  "tm_step y y' \<Longrightarrow> tm_inv y \<Longrightarrow> spent i y \<Longrightarrow> spent i y' \<and> starts i y' = starts i y"
proof (induction rule: tm_step.induct)
  case (tms_start y s)
  then show ?case
    by (auto simp: tm_start_def starts_def spent_def split: if_splits)
next
  case (tms_request_stop y s wake)
  then have "tm_next_id s = tm_next_id (sy_state y)"
    "tm_states s i = tm_states (sy_state y) i \<or> tm_states s i \<in> {None, Some Cancelled}"
    by (auto simp: tm_request_stop_def split: scheduler_state.splits dest: cancel_pending_changed)
  then show ?case
    using spent_update [OF tms_request_stop.prems(2), of "sy_update s wake y"] tms_request_stop.prems(2)
    by (simp add: starts_def spent_def)
next
  case (tms_schedule_after y delay task j s wake)
  then show ?case
    by (auto simp: tm_schedule_after_def Let_def starts_def split: if_splits prod.splits
        intro: schedule_spent)
next
  case (tms_schedule_every y interval task j s wake)
  then show ?case
    by (auto simp: tm_schedule_every_def Let_def starts_def split: if_splits prod.splits
        intro: schedule_spent)
next
  case (tms_cancel j y b s wake)
  then have "tm_next_id s = tm_next_id (sy_state y)"
    "tm_states s i = tm_states (sy_state y) i \<or> tm_states s i \<in> {None, Some Cancelled}"
    by (auto simp: tm_cancel_def Let_def split: option.splits timer_state.splits if_splits)
  then show ?case
    using spent_update [OF tms_cancel.prems(2), of "sy_update s wake y"] tms_cancel.prems(2)
    by (simp add: starts_def spent_def)
next
  case (tms_worker y timed_out answer s pc ws)
  note D = tm_invD [OF tms_worker.prems(1)]
  have "worker_effect (sy_state y) s"
    using worker_step_ok [OF tms_worker.hyps D(1,2)] by (simp add: worker_post_def)
  then have "tm_next_id s = tm_next_id (sy_state y)"
    "tm_states s i = tm_states (sy_state y) i \<or> tm_states s i = None \<or> tm_states (sy_state y) i = Some Pending"
    unfolding worker_effect_def by auto
  then show ?case
    using tms_worker.prems(2) worker_step_wrappers [OF tms_worker.hyps]
    by (auto simp: spent_def starts_def)
next
  case (tms_begin k y t s w)
  note B = wrapper_begin_ok [OF tm_invD(1) [OF tms_begin.prems(1)] tms_begin.hyps]
  have ne: "tt_id t \<noteq> i" if "w = Wr_Running t"
    using B that tms_begin.prems(2) by (auto simp: spent_def)
  have "Wr_Running u \<in> set (sy_wrappers y)" if "Wr_Running u \<in> set ((sy_wrappers y)[k := w])" "tt_id u = i" for u
    using that ne B set_update_subset_insert [of "sy_wrappers y" k w] by auto
  moreover have "tm_states s i = tm_states (sy_state y) i \<or> tm_states s i = None"
    using B tms_begin.prems(2) by (auto simp: spent_def)
  ultimately have "spent i (y\<lparr>sy_state := s, sy_wrappers := (sy_wrappers y)[k := w],
      sy_started := (if w = Wr_Done then sy_started y else (t, sy_now y) # sy_started y)\<rparr>)"
    using tms_begin.prems(2) B unfolding spent_def by auto
  with ne B show ?case by (auto simp: starts_def)
next
  case (tms_end k y t s wake)
  note B = wrapper_end_ok [OF tm_invD(1) [OF tms_end.prems(1)] tms_end.hyps]
  have "Wr_Running u \<in> set (sy_wrappers y)" if "Wr_Running u \<in> set ((sy_wrappers y)[k := Wr_Done])" for u
    using that set_update_subset_insert [of "sy_wrappers y" k Wr_Done] by auto
  moreover have "\<not> tt_repeated t" if "tt_id t = i" "tm_states (sy_state y) i = Some Executing"
    using tms_end.prems(2) that tms_end.hyps(1,2) nth_mem [of k "sy_wrappers y"] by (auto simp: spent_def)
  then have "tm_states s i = tm_states (sy_state y) i \<or> tm_states s i = None"
    using tms_end.hyps(3) tms_end.prems(2)
    by (auto simp: tm_wrapper_end_def tm_erase_def Let_def spent_def split: option.splits timer_state.splits if_splits)
  ultimately show ?case
    using tms_end.prems(2) B unfolding spent_def starts_def by auto
qed (auto simp: spent_def starts_def tm_finish_stop_def tm_finish_in_flight_def
    dest!: set_update_subset_insert [THEN subsetD])

lemma spent_steps:
  "steps tm_step y y' \<Longrightarrow> tm_inv y \<Longrightarrow> spent i y \<Longrightarrow> spent i y' \<and> starts i y' = starts i y"
proof (induction rule: steps.induct)
  case (steps_snoc y u v)
  then have "tm_inv u" using tm.steps_inv by blast
  with steps_snoc spent_step show ?case by metis
qed simp


lemma stopped_quiet:
  assumes "tm_inv y" "tm_scheduler (sy_state y) = Stopped"
  shows "tm_tasks (sy_state y) = [] \<and> tm_states (sy_state y) = Map.empty \<and>
    tm_in_flight (sy_state y) = 0 \<and> (\<forall>w \<in> set (sy_wrappers y). w = Wr_Gone)"
proof -
  note D = tm_invD [OF assms(1)]
  have q: "quiet (sy_state y)" using D(6) assms(2) by simp
  then have "flying (sy_wrappers y) = 0"
    using D(2) by (simp add: quiet_def)
  then show ?thesis
    using q unfolding flying_def count_pc_0_iff by (auto simp: quiet_def)
qed

lemma stopped_step:
  assumes "tm_step y y'" "tm_inv y" "tm_scheduler (sy_state y) = Stopped"
  shows "tm_scheduler (sy_state y') = Stopped \<and> sy_started y' = sy_started y"
  using assms(1)
proof cases
  case (tms_worker timed_out answer s pc ws)
  note D = tm_invD [OF assms(2)]
  have "worker_effect (sy_state y) s"
    using worker_step_ok [OF tms_worker(2) D(1,2)] by (simp add: worker_post_def)
  with tms_worker(1) assms(3) show ?thesis by (simp add: worker_effect_def)
next
  case (tms_begin k t s w)
  have "sy_wrappers y ! k = Wr_Gone"
    using stopped_quiet [OF assms(2,3)] nth_mem [OF tms_begin(2)] by blast
  with tms_begin(3) show ?thesis by simp
next
  case (tms_end k t s wake)
  have "sy_wrappers y ! k = Wr_Gone"
    using stopped_quiet [OF assms(2,3)] nth_mem [OF tms_end(2)] by blast
  with tms_end(3) show ?thesis by simp
qed (use assms(3) in \<open>auto simp: tm_start_def tm_request_stop_def tm_finish_stop_def tm_schedule_after_def
    tm_schedule_every_def tm_cancel_def tm_finish_in_flight_def Let_def
    split: if_splits option.splits timer_state.splits\<close>)

lemma stopped_steps:
  "steps tm_step y y' \<Longrightarrow> tm_inv y \<Longrightarrow> tm_scheduler (sy_state y) = Stopped \<Longrightarrow>
   tm_scheduler (sy_state y') = Stopped \<and> sy_started y' = sy_started y"
proof (induction rule: steps.induct)
  case (steps_snoc y u v)
  then have "tm_inv u" using tm.steps_inv by blast
  with steps_snoc stopped_step show ?case by metis
qed simp

section \<open>Properties\<close>

text \<open>All timers the scheduler knows of, wherever they are.\<close>

definition live_timers :: "'a tsys \<Rightarrow> 'a timer list" where
  "live_timers y = tm_tasks (sy_state y) @ wk_timers (sy_worker y) @ concat (map wr_timers (sy_wrappers y))"

lemma toks_live: "toks (tm_tasks (sy_state y)) (sy_worker y) (sy_wrappers y) = mset (map tt_id (live_timers y))"
proof -
  have "sum_list (map (\<lambda>w. mset (map tt_id (wr_timers w))) ws) = mset (map tt_id (concat (map wr_timers ws)))"
    for ws :: "'a wr list" by (induction ws) auto
  then show ?thesis by (simp add: toks_def live_timers_def)
qed

text \<open>A run for the witnesses: one timer, due and being executed.\<close>

lemma reach_worker:
  assumes "reach i tm_step y"
    "tm_worker_step (sy_now y) timed_out answer (sy_state y) (sy_worker y) = Some ((s, pc), ws)"
  shows "reach i tm_step (y\<lparr>sy_state := s, sy_worker := pc, sy_wrappers := sy_wrappers y @ ws, sy_signal := False\<rparr>)"
  by (rule reach_step [OF assms(1) tms_worker [OF assms(2)]])

definition demo_timer :: "bool \<Rightarrow> nat timer" where
  "demo_timer rep = \<lparr>tt_id = 1, tt_expiration = 10, tt_interval = (if rep then 10 else 0),
     tt_repeated = rep, tt_callback = Some 7\<rparr>"

definition demo_sched :: "nat timer list \<Rightarrow> timer_states \<Rightarrow> nat \<Rightarrow> nat wk_pc \<Rightarrow> nat wr list \<Rightarrow> time \<Rightarrow>
    bool \<Rightarrow> (nat timer \<times> time) list \<Rightarrow> nat tsys" where
  "demo_sched h st flights pc ws now sig started = \<lparr>sy_state = \<lparr>tm_tasks = h, tm_states = st,
       tm_scheduler = Running, tm_next_id = 2, tm_in_flight = flights\<rparr>,
     sy_worker = pc, sy_wrappers = ws, sy_clients = [Cl_Idle], sy_now = now, sy_signal = sig,
     sy_started = started\<rparr>"

lemma demo_scheduled:
  "reach (tm_init 1 0) tm_step
     (demo_sched [demo_timer False] [1 \<mapsto> Pending] 0 (Wk_Wait 1 10) [] 0 False [])"
proof -
  let ?R = "reach (tm_init 1 0) tm_step"
  let ?y0 = "\<lparr>sy_state = tm_new, sy_worker = Wk_None, sy_wrappers = [], sy_clients = [Cl_Idle],
      sy_now = 0, sy_signal = False, sy_started = []\<rparr> :: nat tsys"
  have "?R ?y0"
    by (rule reach_init) (simp add: tm_init_def)
  note s1 = reach_step [OF this tms_start [of ?y0 "tm_new\<lparr>tm_scheduler := Running\<rparr>"]]
  let ?y1 = "?y0\<lparr>sy_state := tm_new\<lparr>tm_scheduler := Running\<rparr>, sy_worker := Wk_Start\<rparr>"
  from s1 have "?R ?y1"
    by (simp add: tm_start_def tm_new_def)
  note s2 = reach_step [OF this tms_schedule_after [of ?y1 10 "Some 7" 1 "sy_state (demo_sched [demo_timer False]
      [1 \<mapsto> Pending] 0 Wk_Start [] 0 False [])" True]]
  let ?y2 = "demo_sched [demo_timer False] [1 \<mapsto> Pending] 0 Wk_Start [] 0 False []"
  from s2 have y2: "?R ?y2"
    by (simp add: tm_schedule_after_def tm_new_def tm_add_def demo_sched_def demo_timer_def sy_update_def)
  have "tm_worker_step 0 False Accepted (sy_state ?y2) Wk_Start = Some ((sy_state ?y2, Wk_Wait 1 10), [])"
    by (simp add: demo_sched_def demo_timer_def tm_enter.simps)
  with reach_worker [OF y2] show ?thesis
    by (force simp: demo_sched_def)
qed

lemma demo_queued:
  "reach (tm_init 1 0) tm_step
     (demo_sched [] [1 \<mapsto> Submitted] 1 (Wk_Batch []) [Wr_Queued (demo_timer False)] 12 False [])"
proof -
  let ?R = "reach (tm_init 1 0) tm_step"
  let ?y1 = "demo_sched [demo_timer False] [1 \<mapsto> Pending] 0 (Wk_Wait 1 10) [] 12 False []"
  have 1: "?R ?y1"
    using reach_step [OF demo_scheduled tms_time [of _ 12]] by (simp add: demo_sched_def)
  let ?y2 = "demo_sched [] [1 \<mapsto> Submitted] 0 (Wk_Batch [demo_timer False]) [] 12 False []"
  have "tm_worker_step (sy_now ?y1) True Accepted (sy_state ?y1) (sy_worker ?y1) = Some ((sy_state ?y2, sy_worker ?y2), [])"
    by (simp add: demo_sched_def demo_timer_def tm_wake_wait_def tm_interrupted_def)
  from reach_worker [OF 1 this] have 2: "?R ?y2" by (simp add: demo_sched_def)
  let ?y3 = "demo_sched [] [1 \<mapsto> Submitted] 1 (Wk_Post (demo_timer False) []) [] 12 False []"
  have "tm_worker_step (sy_now ?y2) True Accepted (sy_state ?y2) (sy_worker ?y2) = Some ((sy_state ?y3, sy_worker ?y3), [])"
    by (simp add: demo_sched_def demo_timer_def tm_check_ready_def)
  from reach_worker [OF 2 this] have 3: "?R ?y3" by (simp add: demo_sched_def)
  have "tm_worker_step (sy_now ?y3) True Accepted (sy_state ?y3) (sy_worker ?y3)
      = Some ((sy_state ?y3, Wk_Batch []), [Wr_Queued (demo_timer False)])"
    by (simp add: demo_sched_def)
  from reach_worker [OF 3 this] show ?thesis by (simp add: demo_sched_def)
qed

lemma demo_running:
  "reach (tm_init 1 0) tm_step
     (demo_sched [] [1 \<mapsto> Executing] 1 (Wk_Batch []) [Wr_Running (demo_timer False)] 12 False
       [(demo_timer False, 12)])"
  using reach_step [OF demo_queued tms_begin [of 0 _ "demo_timer False"]]
  by (simp add: demo_sched_def tm_wrapper_begin_def demo_timer_def)

text \<open>
  C18. One token per timer: in every reachable state no timer id occurs twice among the queue, the
  scheduler thread and the wrappers on the pool, so that a repeated timer never runs
  concurrently with itself; every recorded timer state belongs to a live timer, so that no
  record is leaked; and \<open>in_flight\<close> counts the posts under way plus the wrappers that have not
  finished.
\<close>

theorem one_token_per_timer:
  assumes "reach (tm_init clients now) tm_step y"
  shows "distinct (map tt_id (live_timers y)) \<and>
    dom (tm_states (sy_state y)) \<subseteq> set (map tt_id (live_timers y)) \<and>
    tm_in_flight (sy_state y) = flight (sy_worker y) + flying (sy_wrappers y)"
proof -
  note D = tm_invD [OF tm.reach_inv [OF assms]]
  have "count (mset (map tt_id (live_timers y))) i \<le> 1" for i
    using D(1) unfolding tok_inv_def toks_live by blast
  then have "distinct (map tt_id (live_timers y))"
    unfolding distinct_iff_count by blast
  moreover have "dom (tm_states (sy_state y)) \<subseteq> set (map tt_id (live_timers y))"
    using D(1) unfolding tok_inv_def toks_live by (auto simp: dom_def)
  ultimately show ?thesis using D(2) by blast
qed

lemma one_token_per_timer_witness:
  "live_timers (demo_sched [] [1 \<mapsto> Executing] 1 (Wk_Batch []) [Wr_Running (demo_timer False)] 12 False
       [(demo_timer False, 12)]) = [demo_timer False] \<and>
   dom [1 \<mapsto> Executing] \<subseteq> set (map tt_id [demo_timer False])"
  using one_token_per_timer [OF demo_running] by (simp add: live_timers_def demo_sched_def)

text \<open>
  C19. A cancelled timer never starts again: once \<open>cancel\<close> has returned true, in whatever state the
  timer was, no later step starts its callback.
\<close>

theorem cancelled_never_starts:
  assumes "reach (tm_init clients now) tm_step y"
    and "tm_cancel i (sy_state y) = (True, s, wake)" "steps tm_step (sy_update s wake y) y'"
  shows "starts i y' = starts i y"
proof -
  note inv = tm.reach_inv [OF assms(1)]
  have st: "tm_states (sy_state y) i \<noteq> None" "s = (sy_state y)\<lparr>tm_states := (tm_states (sy_state y))(i \<mapsto> Cancelled)\<rparr>"
    using assms(2) by (auto simp: tm_cancel_def Let_def split: option.splits timer_state.splits)
  then have "i < tm_next_id (sy_state y)"
    using tm_invD(1) [OF inv] unfolding tok_inv_def by metis
  then have "spent i (sy_update s wake y)"
    using st(2) by (simp add: spent_def)
  moreover have "tm_inv (sy_update s wake y)"
    by (rule tm_inv_step [OF tms_cancel [OF assms(2)] inv])
  ultimately show ?thesis
    using spent_steps [OF assms(3)] by (simp add: starts_def)
qed

lemma cancelled_never_starts_witness:
  "\<exists>s wake. tm_cancel 1 (sy_state (demo_sched [] [1 \<mapsto> Submitted] 1 (Wk_Batch [])
       [Wr_Queued (demo_timer False)] 12 False [])) = (True, s, wake) \<and>
     starts 1 (sy_update s wake (demo_sched [] [1 \<mapsto> Submitted] 1 (Wk_Batch [])
       [Wr_Queued (demo_timer False)] 12 False [])) = []"
proof -
  let ?y = "demo_sched [] [1 \<mapsto> Submitted] 1 (Wk_Batch []) [Wr_Queued (demo_timer False)] 12 False []"
  have "fst (tm_cancel 1 (sy_state ?y))"
    by (simp add: tm_cancel_def demo_sched_def)
  then obtain s wake where c: "tm_cancel 1 (sy_state ?y) = (True, s, wake)"
    by (cases "tm_cancel 1 (sy_state ?y)") auto
  have "starts 1 (sy_update s wake ?y) = []"
    unfolding cancelled_never_starts [OF demo_queued c steps_refl] by (simp add: starts_def demo_sched_def)
  with c show ?thesis by blast
qed

text \<open>
  A one-shot timer runs at most once: after a step that starts the callback of a timer that
  is not repeated, no later step starts it again.
\<close>

theorem one_shot_runs_once:
  assumes "reach (tm_init clients now) tm_step y" "k < length (sy_wrappers y)"
    and "sy_wrappers y ! k = Wr_Queued t" "\<not> tt_repeated t"
    and "tm_wrapper_begin t (sy_state y) = (s, Wr_Running t)"
    and "steps tm_step (y\<lparr>sy_state := s, sy_wrappers := (sy_wrappers y)[k := Wr_Running t],
           sy_started := (t, sy_now y) # sy_started y\<rparr>) y'"
  shows "starts (tt_id t) y' = (t, sy_now y) # starts (tt_id t) y"
proof -
  let ?y = "y\<lparr>sy_state := s, sy_wrappers := (sy_wrappers y)[k := Wr_Running t],
      sy_started := (t, sy_now y) # sy_started y\<rparr>"
  note inv = tm.reach_inv [OF assms(1)]
  have step: "tm_step y ?y"
    using tms_begin [OF assms(2,3,5)] by simp
  note B = wrapper_begin_ok [OF tm_invD(1) [OF inv] assms(2,3,5)]
  have out: "tt_id t \<notin># toks (tm_tasks (sy_state y)) (sy_worker y) ((sy_wrappers y)[k := Wr_Done])"
    "tt_id t < tm_next_id (sy_state y)"
    using tok_wrapper_out [OF tm_invD(1) [OF inv] assms(2), of t] assms(3) by auto
  have ex: "tm_states s (tt_id t) = Some Executing"
    using assms(5) by (auto simp: tm_wrapper_begin_def split: option.splits timer_state.splits)
  have "\<not> tt_repeated u" if u: "Wr_Running u \<in> set ((sy_wrappers y)[k := Wr_Running t])" "tt_id u = tt_id t" for u
  proof (cases "Wr_Running u = Wr_Running t")
    case False
    then have "Wr_Running u \<in> set ((sy_wrappers y)[k := Wr_Done])"
      using u(1) assms(2) by (auto simp: in_set_conv_nth nth_list_update split: if_splits)
    then have "tt_id t \<in># toks (tm_tasks (sy_state y)) (sy_worker y) ((sy_wrappers y)[k := Wr_Done])"
      using u(2) by (force simp: in_toks)
    with out(1) show ?thesis by contradiction
  qed (use assms(4) in simp)
  then have "spent (tt_id t) ?y"
    using ex out(2) B by (auto simp: spent_def)
  from spent_steps [OF assms(6) tm_inv_step [OF step inv] this] show ?thesis
    by (simp add: starts_def)
qed

lemma one_shot_runs_once_witness:
  "starts 1 (demo_sched [] [1 \<mapsto> Executing] 1 (Wk_Batch []) [Wr_Running (demo_timer False)] 12 False
       [(demo_timer False, 12)]) = [(demo_timer False, 12)]"
proof -
  let ?y = "demo_sched [] [1 \<mapsto> Submitted] 1 (Wk_Batch []) [Wr_Queued (demo_timer False)] 12 False []"
  let ?s = "(sy_state ?y)\<lparr>tm_states := [1 \<mapsto> Executing]\<rparr>"
  have b: "tm_wrapper_begin (demo_timer False) (sy_state ?y) = (?s, Wr_Running (demo_timer False))"
    by (simp add: tm_wrapper_begin_def demo_sched_def demo_timer_def)
  have k: "0 < length (sy_wrappers ?y)" "sy_wrappers ?y ! 0 = Wr_Queued (demo_timer False)"
    "\<not> tt_repeated (demo_timer False)"
    by (simp_all add: demo_sched_def demo_timer_def)
  from one_shot_runs_once [OF demo_queued k b steps_refl] show ?thesis
    by (simp add: demo_sched_def starts_def demo_timer_def)
qed

text \<open>
  C20. Timing: no callback is started before its timer expires; while the scheduler runs, the
  thread asleep without a notification under way sleeps no longer than until the earliest
  expiration (or there is no timer); and the thread never spins with the lock held.
\<close>

theorem timers_on_time:
  assumes "reach (tm_init clients now) tm_step y"
  shows "(\<forall>(t, n) \<in> set (sy_started y). tt_expiration t \<le> n) \<and>
    (tm_scheduler (sy_state y) = Running \<and> \<not> sy_signal y \<longrightarrow>
       (sy_worker y = Wk_Idle \<longrightarrow> tm_tasks (sy_state y) = []) \<and>
       (\<forall>i e. sy_worker y = Wk_Wait i e \<longrightarrow> (\<forall>t \<in> set (tm_tasks (sy_state y)). e \<le> tt_expiration t))) \<and>
    sy_worker y \<noteq> Wk_Spin"
proof -
  note D = tm_invD [OF tm.reach_inv [OF assms]]
  have "e \<le> tt_expiration t"
    if "tm_scheduler (sy_state y) = Running" "\<not> sy_signal y" "sy_worker y = Wk_Wait i e"
      "t \<in> set (tm_tasks (sy_state y))" for i e t
  proof -
    have e: "e \<le> tt_expiration (hd (tm_tasks (sy_state y)))" "tm_tasks (sy_state y) \<noteq> []"
      using D(10) that(1-3) by (auto simp: timely_def)
    then obtain u us where h: "tm_tasks (sy_state y) = u # us" by (cases "tm_tasks (sy_state y)") auto
    have "tt_expiration u \<le> tt_expiration t"
      using D(4) that(4) h by (auto simp: tq_sorted_def timer_after_def split: if_splits)
    with e h show ?thesis by simp
  qed
  then show ?thesis
    using D(3,9,10) by (auto simp: timely_def)
qed

text \<open>The sleeping thread with one timer in the queue; and later, with its callback started.\<close>

lemma timers_on_time_witness:
  "\<exists>y y' t. reach (tm_init 1 0) tm_step y \<and> tm_scheduler (sy_state y) = Running \<and> \<not> sy_signal y \<and>
     sy_worker y = Wk_Wait 1 10 \<and> tm_tasks (sy_state y) = [t] \<and> 10 \<le> tt_expiration t \<and>
     reach (tm_init 1 0) tm_step y' \<and> sy_started y' = [(t :: nat timer, 12)] \<and> tt_expiration t \<le> 12 \<and>
     sy_worker y' \<noteq> Wk_Spin"
proof -
  have "10 \<le> tt_expiration (demo_timer False)"
    using timers_on_time [OF demo_scheduled] by (simp add: demo_sched_def)
  moreover have "tt_expiration (demo_timer False) \<le> 12"
    using timers_on_time [OF demo_running] by (simp add: demo_sched_def)
  ultimately show ?thesis
    using demo_scheduled demo_running
    by (intro exI [of _ "demo_sched [demo_timer False] [1 \<mapsto> Pending] 0 (Wk_Wait 1 10) [] 0 False []"]
        exI [of _ "demo_sched [] [1 \<mapsto> Executing] 1 (Wk_Batch []) [Wr_Running (demo_timer False)] 12 False
          [(demo_timer False, 12)]"] exI [of _ "demo_timer False"])
      (simp add: demo_sched_def)
qed

text \<open>
  Stopping is final: in a stopped scheduler no wrapper is left and nothing is in flight,
  queued or recorded; it stays stopped, and no callback is started any more.
\<close>

theorem stopped_is_final:
  assumes "reach (tm_init clients now) tm_step y" "tm_scheduler (sy_state y) = Stopped"
    and "steps tm_step y y'"
  shows "tm_scheduler (sy_state y') = Stopped \<and> sy_started y' = sy_started y \<and>
    tm_tasks (sy_state y') = [] \<and> tm_states (sy_state y') = Map.empty \<and>
    tm_in_flight (sy_state y') = 0 \<and> (\<forall>w \<in> set (sy_wrappers y'). w = Wr_Gone)"
  using stopped_steps [OF assms(3) tm.reach_inv [OF assms(1)] assms(2)]
    stopped_quiet [OF tm.steps_inv [OF assms(3) tm.reach_inv [OF assms(1)]]]
  by simp

lemma stopped_is_final_witness:
  "\<exists>y :: nat tsys. reach (tm_init 1 0) tm_step y \<and> tm_scheduler (sy_state y) = Stopped \<and> sy_started y = []"
proof -
  let ?y = "\<lparr>sy_state = tm_new, sy_worker = Wk_None, sy_wrappers = [], sy_clients = [Cl_Idle],
      sy_now = 0, sy_signal = False, sy_started = []\<rparr> :: nat tsys"
  let ?y' = "sy_update (tm_new\<lparr>tm_scheduler := Stopped\<rparr>) False ?y"
  have "reach (tm_init 1 0) tm_step ?y"
    by (rule reach_init) (simp add: tm_init_def)
  from reach_step [OF this tms_request_stop [of ?y "tm_new\<lparr>tm_scheduler := Stopped\<rparr>" False]]
  have r: "reach (tm_init 1 0) tm_step ?y'"
    by (simp add: tm_request_stop_def tm_new_def)
  have s: "tm_scheduler (sy_state ?y') = Stopped"
    by (simp add: sy_update_def)
  have "tm_scheduler (sy_state ?y') = Stopped \<and> sy_started ?y' = []"
    using stopped_is_final [OF r s steps_refl] by (simp add: sy_update_def)
  with r show ?thesis by blast
qed

text \<open>
  A race the code does not exclude: \<open>wait\<close> called before \<open>start\<close> joins nothing; when \<open>start\<close>
  comes before its last section, the scheduler is marked stopped with its thread asleep, and
  nothing any other thread does notifies it: the join of the destructor depends on a spurious
  wakeup.
\<close>

theorem wait_strands_worker:
  "\<exists>y :: nat tsys. reach (tm_init 2 0) tm_step y \<and> tm_scheduler (sy_state y) = Stopped \<and>
     sy_worker y = Wk_Idle \<and> \<not> sy_signal y \<and> sy_clients y = [Cl_Idle, Cl_Join] \<and>
     (\<forall>y'. tm_step y y' \<longrightarrow> \<not> sy_signal y')"
proof -
  let ?R = "reach (tm_init 2 0) tm_step :: nat tsys \<Rightarrow> bool"
  let ?y = "\<lambda>st pc cs. \<lparr>sy_state = tm_new\<lparr>tm_scheduler := st\<rparr>, sy_worker = pc, sy_wrappers = [],
      sy_clients = cs, sy_now = 0, sy_signal = False, sy_started = []\<rparr> :: nat tsys"
  let ?z = "?y Stopped Wk_Idle [Cl_Idle, Cl_Join]"
  have 0: "?R (?y Created Wk_None [Cl_Idle, Cl_Idle])"
    by (rule reach_init) (simp add: tm_init_def tm_new_def numeral_2_eq_2)
  have 1: "?R (?y Created Wk_None [Cl_Join, Cl_Idle])"
    using reach_step [OF 0 tms_join [of 0]] by simp
  have 2: "?R (?y Created Wk_None [Cl_Finish, Cl_Idle])"
    using reach_step [OF 1 tms_joined [of 0 _ False]] by simp
  have 3: "?R (?y Running Wk_Start [Cl_Finish, Cl_Idle])"
    using reach_step [OF 2 tms_start [of _ "tm_new\<lparr>tm_scheduler := Running\<rparr>"]]
    by (simp add: tm_start_def)
  have 4: "?R (?y Running Wk_Idle [Cl_Finish, Cl_Idle])"
    using reach_worker [OF 3, of False Accepted "tm_new\<lparr>tm_scheduler := Running\<rparr>" Wk_Idle "[]"]
    by (simp add: tm_enter.simps tm_new_def)
  have 5: "?R (?y Stopped Wk_Idle [Cl_Idle, Cl_Idle])"
    using reach_step [OF 4 tms_finish [of 0]] by (simp add: tm_finish_stop_def tm_new_def)
  have 6: "?R ?z"
    using reach_step [OF 5 tms_join [of 1]] by simp
  have "\<not> sy_signal y'" if "tm_step ?z y'" for y'
    using that
    by cases (auto simp: tm_request_stop_def tm_schedule_after_def tm_schedule_every_def tm_cancel_def
        tm_start_def tm_new_def sy_update_def split: if_splits)
  with 6 show ?thesis by (intro exI [of _ ?z]) simp
qed

end
