(* ===== verification/Net_Buffer.thy ===== *)
theory Net_Buffer
  imports Prelude
begin

text \<open>
  \<open>minireactor::Buffer\<close> (code/MiniReactor/include/net/Buffer.h, src/net/Buffer.cpp): a byte
  vector with a reader and a writer index. The readable bytes lie between the two; the bytes
  before the reader index can be prepended to, and are reclaimed by \<open>makeSpace\<close>. Accesses
  outside the vector are errors of the model. The \<open>string_view\<close> overloads are the same
  operations.
\<close>

section \<open>State and operations\<close>

record nbuf =
  nb_data :: string
  nb_reader :: nat
  nb_writer :: nat

definition cheap_prepend :: nat where
  "cheap_prepend = 8"

definition initial_size :: nat where
  "initial_size = 1024"

definition nb_new :: nbuf where
  "nb_new = \<lparr>nb_data = replicate (cheap_prepend + initial_size) (CHR 0x00),
             nb_reader = cheap_prepend, nb_writer = cheap_prepend\<rparr>"

definition nb_readable :: "nbuf \<Rightarrow> nat" where
  "nb_readable b = nb_writer b - nb_reader b"

definition nb_writable :: "nbuf \<Rightarrow> nat" where
  "nb_writable b = length (nb_data b) - nb_writer b"

definition nb_prependable :: "nbuf \<Rightarrow> nat" where
  "nb_prependable b = nb_reader b"

text \<open>
  A read of \<open>n\<close> bytes of the vector, \<open>memcpy\<close> into it, \<open>vector::resize\<close>, and \<open>std::copy\<close> as its
  forward loop, each access checked.
\<close>

definition mem_read :: "string \<Rightarrow> nat \<Rightarrow> nat \<Rightarrow> string result" where
  "mem_read xs pos n =
     (if pos + n \<le> length xs then ret (take n (drop pos xs)) else throw (UB ''read outside the vector''))"

definition mem_write :: "string \<Rightarrow> nat \<Rightarrow> string \<Rightarrow> string result" where
  "mem_write xs pos ys =
     (if pos + length ys \<le> length xs then ret (take pos xs @ ys @ drop (pos + length ys) xs)
      else throw (UB ''memcpy outside the vector''))"

definition resize :: "nat \<Rightarrow> string \<Rightarrow> string" where
  "resize n xs = take n xs @ replicate (n - length xs) (CHR 0x00)"

primrec copy_forward :: "nat \<Rightarrow> nat \<Rightarrow> nat \<Rightarrow> string \<Rightarrow> string result" where
  "copy_forward 0 src dst xs = ret xs"
| "copy_forward (Suc n) src dst xs =
     (if src < length xs \<and> dst < length xs then copy_forward n (src + 1) (dst + 1) (xs[dst := xs ! src])
      else throw (UB ''std::copy outside the vector''))"

definition nb_make_space :: "nat \<Rightarrow> nbuf \<Rightarrow> nbuf result" where
  "nb_make_space n b =
     (if nb_writable b + nb_prependable b < n + cheap_prepend
      then ret (b\<lparr>nb_data := resize (nb_writer b + n) (nb_data b)\<rparr>)
      else let readable = nb_readable b
           in rbind (copy_forward (nb_writer b - nb_reader b) (nb_reader b) cheap_prepend (nb_data b)) (\<lambda>d.
                ret (b\<lparr>nb_data := d, nb_reader := cheap_prepend, nb_writer := cheap_prepend + readable\<rparr>)))"

definition nb_ensure_writable :: "nat \<Rightarrow> nbuf \<Rightarrow> nbuf result" where
  "nb_ensure_writable n b = (if nb_writable b < n then nb_make_space n b else ret b)"

definition nb_append :: "string \<Rightarrow> nbuf \<Rightarrow> nbuf result" where
  "nb_append s b =
     rbind (nb_ensure_writable (length s) b) (\<lambda>b1.
     rbind (mem_write (nb_data b1) (nb_writer b1) s) (\<lambda>d.
     ret (b1\<lparr>nb_data := d, nb_writer := nb_writer b1 + length s\<rparr>)))"

definition nb_prepend :: "string \<Rightarrow> nbuf \<Rightarrow> nbuf result" where
  "nb_prepend s b =
     (if length s > nb_prependable b
      then throw (Out_Of_Range ''not enough prependable space in the buffer'')
      else let r = nb_reader b - length s
           in case mem_write (nb_data b) r s of
                Inl e \<Rightarrow> throw e
              | Inr d \<Rightarrow> ret (b\<lparr>nb_data := d, nb_reader := r\<rparr>))"

text \<open>
  Reading \<open>n\<close> bytes through \<open>peek()\<close>; and the bytes readable there. On well-formed buffers a read
  of at most the readable bytes stays inside the vector and gives their beginning (\<open>nb_read_ok\<close>).
\<close>

definition nb_read :: "nat \<Rightarrow> nbuf \<Rightarrow> string result" where
  "nb_read n b = mem_read (nb_data b) (nb_reader b) n"

definition nb_peek :: "nbuf \<Rightarrow> string" where
  "nb_peek b = take (nb_readable b) (drop (nb_reader b) (nb_data b))"

definition nb_retrieve_all :: "nbuf \<Rightarrow> nbuf" where
  "nb_retrieve_all b = b\<lparr>nb_reader := cheap_prepend, nb_writer := cheap_prepend\<rparr>"

definition nb_retrieve :: "nat \<Rightarrow> nbuf \<Rightarrow> nbuf result" where
  "nb_retrieve n b =
     (if n > nb_readable b
      then throw (Out_Of_Range ''cannot retrieve more bytes than the buffer contains'')
      else let b1 = b\<lparr>nb_reader := nb_reader b + n\<rparr>
           in if nb_reader b1 = nb_writer b1 then ret (nb_retrieve_all b1) else ret b1)"

definition nb_retrieve_all_as_string :: "nbuf \<Rightarrow> (string \<times> nbuf) result" where
  "nb_retrieve_all_as_string b = rbind (nb_read (nb_readable b) b) (\<lambda>s. ret (s, nb_retrieve_all b))"

section \<open>Invariant and content\<close>

definition nb_ok :: "nbuf \<Rightarrow> bool" where
  "nb_ok b \<longleftrightarrow> nb_reader b \<le> nb_writer b \<and> nb_writer b \<le> length (nb_data b) \<and>
     cheap_prepend \<le> length (nb_data b)"

lemma length_nb_peek [simp]: "nb_ok b \<Longrightarrow> length (nb_peek b) = nb_readable b"
  by (auto simp: nb_peek_def nb_ok_def nb_readable_def)

lemma nb_new_ok: "nb_ok nb_new \<and> nb_peek nb_new = []"
  by (simp add: nb_new_def nb_ok_def nb_peek_def nb_readable_def)

lemma nb_read_ok: "nb_ok b \<Longrightarrow> n \<le> length (nb_peek b) \<Longrightarrow> nb_read n b = Inr (take n (nb_peek b))"
proof -
  assume ok: "nb_ok b" and n: "n \<le> length (nb_peek b)"
  then have "n \<le> nb_readable b" by simp
  with ok show ?thesis by (auto simp: nb_read_def mem_read_def nb_peek_def nb_ok_def nb_readable_def min_def)
qed

lemma nb_retrieve_all_ok: "nb_ok b \<Longrightarrow> nb_ok (nb_retrieve_all b) \<and> nb_peek (nb_retrieve_all b) = []"
  by (simp add: nb_retrieve_all_def nb_ok_def nb_peek_def nb_readable_def)

lemma nb_retrieve_all_as_string_ok: "nb_ok b \<Longrightarrow> nb_retrieve_all_as_string b = Inr (nb_peek b, nb_retrieve_all b)"
  using nb_read_ok [of b "nb_readable b"] by (simp add: nb_retrieve_all_as_string_def)

text \<open>The forward loop is a block move when it moves towards the front.\<close>

lemma copy_forward_ok:
  "d \<le> s \<Longrightarrow> s + n \<le> length xs \<Longrightarrow> \<exists>ys. copy_forward n s d xs = Inr ys \<and> length ys = length xs \<and>
     (\<forall>i < length xs. ys ! i = (if d \<le> i \<and> i < d + n then xs ! (s + (i - d)) else xs ! i))"
proof (induction n arbitrary: s d xs)
  case (Suc n)
  let ?xs = "xs[d := xs ! s]"
  obtain ys where ys: "copy_forward n (s + 1) (d + 1) ?xs = Inr ys" "length ys = length xs"
    "\<forall>i < length xs. ys ! i = (if d + 1 \<le> i \<and> i < d + 1 + n then ?xs ! (s + 1 + (i - (d + 1))) else ?xs ! i)"
    using Suc.IH [of "d + 1" "s + 1" ?xs] Suc.prems by auto
  have "ys ! i = (if d \<le> i \<and> i < d + Suc n then xs ! (s + (i - d)) else xs ! i)" if "i < length xs" for i
    using ys(3) Suc.prems that
    by (cases "i = d") (auto simp: nth_list_update Suc_diff_le intro!: arg_cong [where f = "(!) xs"])
  with ys(1,2) Suc.prems show ?case by simp
qed auto

lemma copy_forward_block:
  assumes "d \<le> s" "s + n \<le> length xs"
  shows "\<exists>ys. copy_forward n s d xs = Inr ys \<and> length ys = length xs \<and> take n (drop d ys) = take n (drop s xs)"
proof -
  obtain ys where ys: "copy_forward n s d xs = Inr ys" "length ys = length xs"
    "\<forall>i < length xs. ys ! i = (if d \<le> i \<and> i < d + n then xs ! (s + (i - d)) else xs ! i)"
    using copy_forward_ok [OF assms] by blast
  have "take n (drop d ys) = take n (drop s xs)"
    using assms ys by (intro nth_equalityI) auto
  with ys(1,2) show ?thesis by blast
qed

lemma nb_ensure_ok:
  assumes "nb_ok b"
  shows "\<exists>b'. nb_ensure_writable n b = Inr b' \<and> nb_ok b' \<and> nb_peek b' = nb_peek b \<and> n \<le> nb_writable b'"
proof (cases "nb_writable b < n")
  case False
  then show ?thesis
    using assms by (simp add: nb_ensure_writable_def)
next
  case True
  show ?thesis
  proof (cases "nb_writable b + nb_prependable b < n + cheap_prepend")
    case grow: True
    then show ?thesis
      using assms True
      by (auto simp: nb_ensure_writable_def nb_make_space_def nb_ok_def nb_peek_def nb_readable_def
          nb_writable_def resize_def)
  next
    case False
    then have front: "cheap_prepend \<le> nb_reader b"
      using True by (simp add: nb_prependable_def)
    have room: "nb_reader b + (nb_writer b - nb_reader b) \<le> length (nb_data b)"
      using assms by (simp add: nb_ok_def)
    obtain d where d: "copy_forward (nb_writer b - nb_reader b) (nb_reader b) cheap_prepend (nb_data b) = Inr d"
      "length d = length (nb_data b)"
      "take (nb_writer b - nb_reader b) (drop cheap_prepend d) = take (nb_writer b - nb_reader b) (drop (nb_reader b) (nb_data b))"
      using copy_forward_block [OF front room] by blast
    then show ?thesis
      using assms True False
      by (auto simp: nb_ensure_writable_def nb_make_space_def nb_ok_def nb_peek_def nb_readable_def
          nb_writable_def nb_prependable_def Let_def)
  qed
qed

lemma write_window:
  "r \<le> w \<Longrightarrow> w \<le> length xs \<Longrightarrow>
   take (w + length s - r) (drop r (take w xs @ s @ ys)) = take (w - r) (drop r xs) @ s"
  by (simp add: drop_take)

lemma nb_append_ok:
  assumes "nb_ok b"
  shows "\<exists>b'. nb_append s b = Inr b' \<and> nb_ok b' \<and> nb_peek b' = nb_peek b @ s"
proof -
  obtain c where c: "nb_ensure_writable (length s) b = Inr c"
    and ok: "nb_ok c" "nb_peek c = nb_peek b" "length s \<le> nb_writable c"
    using nb_ensure_ok [OF assms, of "length s"] by auto
  then have fits: "nb_writer c + length s \<le> length (nb_data c)"
    "nb_reader c \<le> nb_writer c" "nb_writer c \<le> length (nb_data c)" "cheap_prepend \<le> length (nb_data c)"
    unfolding nb_ok_def nb_writable_def by linarith+
  let ?d = "take (nb_writer c) (nb_data c) @ s @ drop (nb_writer c + length s) (nb_data c)"
  have "nb_append s b = Inr (c\<lparr>nb_data := ?d, nb_writer := nb_writer c + length s\<rparr>)"
    using fits(1) by (simp add: nb_append_def mem_write_def c Let_def)
  moreover have "nb_ok (c\<lparr>nb_data := ?d, nb_writer := nb_writer c + length s\<rparr>)"
    using fits by (simp add: nb_ok_def)
  moreover have "nb_peek (c\<lparr>nb_data := ?d, nb_writer := nb_writer c + length s\<rparr>) = nb_peek c @ s"
    using write_window [OF fits(2,3), of s "drop (nb_writer c + length s) (nb_data c)"]
    by (simp add: nb_peek_def nb_readable_def del: take_append drop_append)
  ultimately show ?thesis
    using ok(2) by auto
qed

lemma nb_prepend_ok:
  assumes "nb_ok b" "length s \<le> nb_prependable b"
  shows "\<exists>b'. nb_prepend s b = Inr b' \<and> nb_ok b' \<and> nb_peek b' = s @ nb_peek b"
  using assms
  by (auto simp: nb_prepend_def mem_write_def nb_ok_def nb_peek_def nb_readable_def
      nb_prependable_def Let_def)

lemma nb_retrieve_ok:
  assumes "nb_ok b" "n \<le> length (nb_peek b)"
  shows "\<exists>b'. nb_retrieve n b = Inr b' \<and> nb_ok b' \<and> nb_peek b' = drop n (nb_peek b)"
  using assms
  by (auto simp: nb_retrieve_def nb_retrieve_all_def nb_ok_def nb_peek_def nb_readable_def Let_def
      drop_take add.commute)


section \<open>The interface the protocol code uses\<close>

text \<open>
  A byte stream: bytes appended at the end, read and dropped at the front. The law covers what
  a reader may do; \<open>stream_run\<close> is any interleaving of the two sides, and collects what was
  taken out: \<open>rd\<close> reads from the front, \<open>rem\<close> drops.
\<close>

datatype stream_op = Feed string | Take nat

fun stream_run :: "(string \<Rightarrow> 'b \<Rightarrow> 'b result) \<Rightarrow> (nat \<Rightarrow> 'b \<Rightarrow> 'b result) \<Rightarrow> (nat \<Rightarrow> 'b \<Rightarrow> string result) \<Rightarrow>
    stream_op list \<Rightarrow> 'b \<Rightarrow> (string \<times> 'b) result" where
  "stream_run app rem rd [] b = ret ([], b)"
| "stream_run app rem rd (Feed s # os) b =
     (case app s b of Inl e \<Rightarrow> throw e | Inr b' \<Rightarrow> stream_run app rem rd os b')"
| "stream_run app rem rd (Take n # os) b =
     (case rem n b of
        Inl e \<Rightarrow> stream_run app rem rd os b
      | Inr b' \<Rightarrow>
          rbind (rd n b) (\<lambda>s. rbind (stream_run app rem rd os b') (\<lambda>(out, b''). ret (s @ out, b''))))"

fun stream_fed :: "stream_op list \<Rightarrow> string" where
  "stream_fed [] = []"
| "stream_fed (Feed s # os) = s @ stream_fed os"
| "stream_fed (Take n # os) = stream_fed os"

locale byte_stream =
  fixes app :: "string \<Rightarrow> 'b \<Rightarrow> 'b result"
    and rem :: "nat \<Rightarrow> 'b \<Rightarrow> 'b result"
    and rd :: "nat \<Rightarrow> 'b \<Rightarrow> string result"
    and bytes :: "'b \<Rightarrow> string"
    and ok :: "'b \<Rightarrow> bool"
  assumes app_ok: "ok b \<Longrightarrow> \<exists>b'. app s b = Inr b' \<and> ok b' \<and> bytes b' = bytes b @ s"
    and rem_ok: "ok b \<Longrightarrow> n \<le> length (bytes b) \<Longrightarrow>
      \<exists>b'. rem n b = Inr b' \<and> ok b' \<and> bytes b' = drop n (bytes b)"
    and rd_ok: "ok b \<Longrightarrow> n \<le> length (bytes b) \<Longrightarrow> rd n b = Inr (take n (bytes b))"
    and rem_rejects: "ok b \<Longrightarrow> length (bytes b) < n \<Longrightarrow> \<exists>e. rem n b = Inl e"
begin

lemma stream_order:
  "ok b \<Longrightarrow> \<exists>out b'. stream_run app rem rd os b = Inr (out, b') \<and> ok b' \<and>
     out @ bytes b' = bytes b @ stream_fed os"
proof (induction os arbitrary: b)
  case (Cons c os)
  show ?case
  proof (cases c)
    case (Feed s)
    obtain b1 where b1: "app s b = Inr b1" "ok b1" "bytes b1 = bytes b @ s"
      using app_ok [OF Cons.prems] by blast
    with Cons.IH [OF b1(2)] Feed show ?thesis by auto
  next
    case (Take n)
    show ?thesis
    proof (cases "n \<le> length (bytes b)")
      case True
      obtain b1 where b1: "rem n b = Inr b1" "ok b1" "bytes b1 = drop n (bytes b)"
        using rem_ok [OF Cons.prems True] by blast
      obtain out b' where run: "stream_run app rem rd os b1 = Inr (out, b')" "ok b'"
        "out @ bytes b' = bytes b1 @ stream_fed os"
        using Cons.IH [OF b1(2)] by blast
      have "(take n (bytes b) @ out) @ bytes b' = bytes b @ stream_fed os"
        using run(3) b1(3) by (metis append_assoc append_take_drop_id)
      with run(1,2) b1(1) Take rd_ok [OF Cons.prems True] show ?thesis by auto
    next
      case False
      then obtain e where "rem n b = Inl e"
        using rem_rejects [OF Cons.prems] by force
      with Cons.IH [OF Cons.prems] Take show ?thesis by auto
    qed
  qed
qed simp

end

interpretation nb: byte_stream nb_append nb_retrieve nb_read nb_peek nb_ok
proof unfold_locales
  show "nb_ok b \<Longrightarrow> \<exists>b'. nb_append s b = Inr b' \<and> nb_ok b' \<and> nb_peek b' = nb_peek b @ s" for b s
    by (rule nb_append_ok)
  show "nb_ok b \<Longrightarrow> n \<le> length (nb_peek b) \<Longrightarrow>
      \<exists>b'. nb_retrieve n b = Inr b' \<and> nb_ok b' \<and> nb_peek b' = drop n (nb_peek b)" for b n
    by (rule nb_retrieve_ok)
  show "nb_ok b \<Longrightarrow> n \<le> length (nb_peek b) \<Longrightarrow> nb_read n b = Inr (take n (nb_peek b))" for b n
    by (rule nb_read_ok)
  show "nb_ok b \<Longrightarrow> length (nb_peek b) < n \<Longrightarrow> \<exists>e. nb_retrieve n b = Inl e" for b n
    by (simp add: nb_retrieve_def)
qed

section \<open>Properties\<close>

text \<open>
  C9. The buffer is a byte stream: over any sequence of \<open>append\<close> and \<open>retrieve\<close> calls on a new
  buffer, each \<open>retrieve\<close> after a read of the bytes it drops, no read, \<open>memcpy\<close> or \<open>std::copy\<close> leaves
  the vector, and the bytes read, followed by the readable ones, are the bytes appended, in order;
  calls that ask for too much take nothing. At the end \<open>retrieveAllAsString\<close> reads the readable bytes
  inside the vector and leaves none.
\<close>

theorem buffer_stream:
  "\<exists>out b'. stream_run nb_append nb_retrieve nb_read os nb_new = Inr (out, b') \<and> nb_ok b' \<and>
     out @ nb_peek b' = stream_fed os \<and>
     nb_retrieve_all_as_string b' = Inr (nb_peek b', nb_retrieve_all b') \<and> nb_peek (nb_retrieve_all b') = []"
  using nb.stream_order [of nb_new os] nb_new_ok nb_retrieve_all_as_string_ok nb_retrieve_all_ok by auto

text \<open>
  The other operations on any well-formed buffer: \<open>prepend\<close> puts bytes before the readable
  ones when there is room and throws otherwise, \<open>retrieveAllAsString\<close> returns all readable
  bytes and leaves none, the size observers add up to the vector's size, and after
  \<open>ensureWritableBytes\<close> the room asked for is there without the content changing.
\<close>

theorem buffer_operations:
  assumes "nb_ok b"
  shows "(if length s \<le> nb_prependable b
      then \<exists>b'. nb_prepend s b = Inr b' \<and> nb_ok b' \<and> nb_peek b' = s @ nb_peek b
      else \<exists>msg. nb_prepend s b = Inl (Out_Of_Range msg)) \<and>
    (\<exists>b'. nb_retrieve_all_as_string b = Inr (nb_peek b, b') \<and> nb_ok b' \<and> nb_peek b' = []) \<and>
    nb_prependable b + nb_readable b + nb_writable b = length (nb_data b) \<and>
    (\<exists>b'. nb_ensure_writable n b = Inr b' \<and> n \<le> nb_writable b' \<and> nb_peek b' = nb_peek b)"
proof -
  have "nb_prependable b + nb_readable b + nb_writable b = length (nb_data b)"
    using assms by (simp add: nb_ok_def nb_prependable_def nb_readable_def nb_writable_def)
  moreover have "\<exists>msg. nb_prepend s b = Inl (Out_Of_Range msg)" if "\<not> length s \<le> nb_prependable b"
    using that by (simp add: nb_prepend_def)
  ultimately show ?thesis
    using nb_prepend_ok [OF assms] nb_ensure_ok [OF assms, of n] nb_retrieve_all_as_string_ok [OF assms]
      nb_retrieve_all_ok [OF assms] by auto
qed

lemma buffer_operations_witness:
  "\<exists>b'. nb_prepend ''len:'' nb_new = Inr b' \<and> nb_peek b' = ''len:'' \<and>
     (\<exists>msg. nb_prepend ''too long a header'' nb_new = Inl (Out_Of_Range msg))"
  using buffer_operations [of nb_new "''len:''" 0] buffer_operations [of nb_new "''too long a header''" 0]
    nb_new_ok
  by (auto simp: nb_prependable_def nb_new_def cheap_prepend_def)

end
