(* ===== verification/Rpc_Codec.thy ===== *)
theory Rpc_Codec
  imports Net_Buffer
begin

unbundle bit_operations_syntax

text \<open>
  The wire format of the RPC framework: \<open>RpcCodec\<close> (code/MiniRPC/src/codec.cpp, include/
  mini_rpc/codec.h) over the messages of include/mini_rpc/protocol.h. A frame is a 24 byte
  header, metadata and a body; integers are big endian. Messages and frames are byte strings,
  \<open>std::string_view\<close> arguments the bytes they denote, and a pointer into them an offset.
\<close>

section \<open>Messages\<close>

definition rpc_magic :: u32 where "rpc_magic = 0x4D525043"
definition protocol_version :: u16 where "protocol_version = 1"
definition rpc_header_size :: nat where "rpc_header_size = 24"
definition max_message_size :: nat where "max_message_size = 16 * 1024 * 1024"

datatype message_type = Request | Response

fun message_type_code :: "message_type \<Rightarrow> u16" where
  "message_type_code Request = 1"
| "message_type_code Response = 2"

datatype rpc_error_code =
    Rpc_Ok | Network_Error | Rpc_Protocol_Error | Rpc_Timeout | Cancelled | Client_Stopping
  | Queueing_Timeout | Retry_Exhausted | Service_Not_Found | Method_Not_Found | Server_Error
  | Serialization_Error | Deserialization_Error

fun error_code_value :: "rpc_error_code \<Rightarrow> i32" where
  "error_code_value Rpc_Ok = 0"
| "error_code_value Network_Error = 1001"
| "error_code_value Rpc_Protocol_Error = 1002"
| "error_code_value Rpc_Timeout = 1003"
| "error_code_value Cancelled = 1004"
| "error_code_value Client_Stopping = 1005"
| "error_code_value Queueing_Timeout = 1006"
| "error_code_value Retry_Exhausted = 1007"
| "error_code_value Service_Not_Found = 2001"
| "error_code_value Method_Not_Found = 2002"
| "error_code_value Server_Error = 3001"
| "error_code_value Serialization_Error = 4001"
| "error_code_value Deserialization_Error = 4002"

record rpc_request =
  rq_request_id :: u64
  rq_service_name :: string
  rq_method_name :: string
  rq_payload :: string
  rq_timeout_ms :: u64
  rq_trace_id :: string
  rq_serializer :: string
  rq_attempt :: u32

record rpc_response =
  rs_request_id :: u64
  rs_error_code :: i32
  rs_error_message :: string
  rs_payload :: string
  rs_trace_id :: string
  rs_server_cost_us :: u64
  rs_serializer :: string

definition default_request :: rpc_request where
  "default_request = \<lparr>rq_request_id = 0, rq_service_name = [], rq_method_name = [], rq_payload = [],
     rq_timeout_ms = 0, rq_trace_id = [], rq_serializer = ''raw'', rq_attempt = 0\<rparr>"

definition default_response :: rpc_response where
  "default_response = \<lparr>rs_request_id = 0, rs_error_code = 0, rs_error_message = [], rs_payload = [],
     rs_trace_id = [], rs_server_cost_us = 0, rs_serializer = ''raw''\<rparr>"

section \<open>Integers on the wire\<close>

text \<open>The cast of an unsigned integer to a byte, and of a byte to an unsigned integer.\<close>

definition to_byte :: "'a::len word \<Rightarrow> char" where
  "to_byte w = char_of (unat w)"

definition from_byte :: "char \<Rightarrow> 'a::len word" where
  "from_byte c = of_nat (of_char c)"

definition append_u16 :: "string \<Rightarrow> u16 \<Rightarrow> string" where
  "append_u16 output value = output @ [to_byte (drop_bit 8 value AND 0xff), to_byte (value AND 0xff)]"

definition append_u32 :: "string \<Rightarrow> u32 \<Rightarrow> string" where
  "append_u32 output value =
     output @ [to_byte (drop_bit 24 value AND 0xff), to_byte (drop_bit 16 value AND 0xff),
               to_byte (drop_bit 8 value AND 0xff), to_byte (value AND 0xff)]"

definition append_u64 :: "string \<Rightarrow> u64 \<Rightarrow> string" where
  "append_u64 output value =
     append_u32 (append_u32 output (ucast (drop_bit 32 value))) (ucast (value AND 0xffffffff))"

definition read_u16 :: "string \<Rightarrow> nat \<Rightarrow> u16" where
  "read_u16 data i = push_bit 8 (from_byte (data ! i)) OR from_byte (data ! (i + 1))"

definition read_u32 :: "string \<Rightarrow> nat \<Rightarrow> u32" where
  "read_u32 data i =
     push_bit 24 (from_byte (data ! i)) OR push_bit 16 (from_byte (data ! (i + 1))) OR
     push_bit 8 (from_byte (data ! (i + 2))) OR from_byte (data ! (i + 3))"

definition read_u64 :: "string \<Rightarrow> nat \<Rightarrow> u64" where
  "read_u64 data i = push_bit 32 (ucast (read_u32 data i)) OR ucast (read_u32 data (i + 4))"

text \<open>The reads depend only on the bytes they name.\<close>

definition be16 :: "u16 \<Rightarrow> string" where "be16 w = append_u16 [] w"
definition be32 :: "u32 \<Rightarrow> string" where "be32 w = append_u32 [] w"
definition be64 :: "u64 \<Rightarrow> string" where "be64 w = append_u64 [] w"

lemma append_int: "append_u16 out w = out @ be16 w" "append_u32 out v = out @ be32 v"
  "append_u64 out x = out @ be64 x"
  by (simp_all add: append_u16_def append_u32_def append_u64_def be16_def be32_def be64_def)

lemma length_be [simp]: "length (be16 w) = 2" "length (be32 v) = 4" "length (be64 x) = 8"
  by (simp_all add: append_u16_def append_u32_def append_u64_def be16_def be32_def be64_def)

lemma from_to_byte: "from_byte (to_byte w) = take_bit 8 (w :: 'a::len word)"
proof -
  have "of_char (char_of (unat w)) = take_bit 8 (unat w)"
    by (simp add: take_bit_eq_mod)
  also have "\<dots> = unat (take_bit 8 w)"
    by (simp add: unsigned_take_bit_eq)
  finally show ?thesis
    by (simp add: from_byte_def to_byte_def del: of_char_of)
qed

lemma from_to_masked: "from_byte (to_byte (w AND 0xff)) = take_bit 8 (w :: 'a::len word)"
proof -
  have mask: "(0xff :: 'a word) = mask 8" by (simp add: mask_eq_exp_minus_1)
  show ?thesis
    unfolding from_to_byte unfolding mask by (rule bit_eqI) (auto simp: bit_simps)
qed

lemma join_u16: "push_bit 8 (take_bit 8 (drop_bit 8 w)) OR take_bit 8 w = (w :: u16)"
  by (rule bit_eqI) (auto simp: bit_simps)

lemma join_u32:
  "push_bit 24 (take_bit 8 (drop_bit 24 w)) OR push_bit 16 (take_bit 8 (drop_bit 16 w)) OR
   push_bit 8 (take_bit 8 (drop_bit 8 w)) OR take_bit 8 w = (w :: u32)" (is "?l = w")
proof (rule bit_eqI)
  fix n :: nat
  consider "n < 8" | "8 \<le> n" "n < 16" | "16 \<le> n" "n < 24" | "24 \<le> n" "n < 32" | "32 \<le> n"
    by linarith
  then show "bit ?l n = bit w n"
    using bit_imp_le_length [of w n] by cases (auto simp: bit_simps)
qed

lemma join_u64:
  "push_bit 32 (ucast (ucast (drop_bit 32 w) :: u32)) OR ucast (ucast (w AND 0xffffffff) :: u32)
     = (w :: u64)"
proof -
  have mask: "(0xffffffff :: u64) = mask 32" by (simp add: mask_eq_exp_minus_1)
  show ?thesis
    unfolding mask by (rule bit_eqI) (auto simp: bit_simps)
qed

lemma read_be16: "length xs = i \<Longrightarrow> read_u16 (xs @ be16 w @ ys) i = w"
  by (auto simp: read_u16_def be16_def append_u16_def nth_append from_to_masked join_u16)

lemma read_be32: "length xs = i \<Longrightarrow> read_u32 (xs @ be32 w @ ys) i = w"
  by (auto simp: read_u32_def be32_def append_u32_def nth_append from_to_masked join_u32
      nth_Cons')

lemma read_be64:
  assumes "length xs = i"
  shows "read_u64 (xs @ be64 w @ ys) i = w"
proof -
  have be: "be64 w = be32 (ucast (drop_bit 32 w)) @ be32 (ucast (w AND 0xffffffff))"
    by (simp add: be64_def append_u64_def append_int)
  have "read_u32 (xs @ be64 w @ ys) (i + 4) = ucast (w AND 0xffffffff)"
    using read_be32 [of "xs @ be32 (ucast (drop_bit 32 w))" "i + 4"] assms be by simp
  moreover have "read_u32 (xs @ be64 w @ ys) i = ucast (drop_bit 32 w)"
    using read_be32 [OF assms] be by simp
  ultimately show ?thesis
    by (simp add: read_u64_def join_u64)
qed


section \<open>Encoding\<close>

definition metadata_extension_magic :: u32 where "metadata_extension_magic = 0x4d455441"
definition metadata_extension_version :: u16 where "metadata_extension_version = 1"

definition check_string_length :: "nat \<Rightarrow> string \<Rightarrow> unit result" where
  "check_string_length n field =
     (if n > 2 ^ 32 - 1 then throw (Length_Error (field @ '' is too long'')) else ret ())"

definition append_metadata_string :: "string \<Rightarrow> string \<Rightarrow> string \<Rightarrow> string result" where
  "append_metadata_string output value field =
     rbind (check_string_length (length value) field)
       (\<lambda>_. ret (append_u32 output (of_nat (length value)) @ value))"

definition encode_frame :: "message_type \<Rightarrow> u64 \<Rightarrow> string \<Rightarrow> string \<Rightarrow> string result" where
  "encode_frame type request_id metadata body =
     rbind (check_string_length (length metadata) ''metadata'') (\<lambda>_.
     rbind (check_string_length (length body) ''body'') (\<lambda>_.
     if length metadata > max_message_size \<or> length body > max_message_size - length metadata
     then throw (Length_Error ''RPC message exceeds the size limit'')
     else
       let frame = append_u32 [] rpc_magic;
           frame = append_u16 frame protocol_version;
           frame = append_u16 frame (message_type_code type);
           frame = append_u64 frame request_id;
           frame = append_u32 frame (of_nat (length metadata));
           frame = append_u32 frame (of_nat (length body))
       in ret (frame @ metadata @ body)))"

definition has_request_extension :: "rpc_request \<Rightarrow> bool" where
  "has_request_extension r \<longleftrightarrow> rq_timeout_ms r \<noteq> 0 \<or> rq_trace_id r \<noteq> [] \<or>
     rq_serializer r \<noteq> ''raw'' \<or> rq_attempt r \<noteq> 0"

definition has_response_extension :: "rpc_response \<Rightarrow> bool" where
  "has_response_extension r \<longleftrightarrow> rs_trace_id r \<noteq> [] \<or> rs_server_cost_us r \<noteq> 0 \<or>
     rs_serializer r \<noteq> ''raw''"

definition encode_request :: "rpc_request \<Rightarrow> string result" where
  "encode_request r =
     rbind (check_string_length (length (rq_service_name r)) ''service name'') (\<lambda>_.
     rbind (check_string_length (length (rq_method_name r)) ''method name'') (\<lambda>_.
     rbind (check_string_length (length (rq_trace_id r)) ''trace id'') (\<lambda>_.
     rbind (check_string_length (length (rq_serializer r)) ''serializer'') (\<lambda>_.
     rbind (append_metadata_string [] (rq_service_name r) ''service name'') (\<lambda>m.
     rbind (append_metadata_string m (rq_method_name r) ''method name'') (\<lambda>m.
     rbind
       (if has_request_extension r
        then
          let m = append_u32 m metadata_extension_magic;
              m = append_u16 m metadata_extension_version;
              m = append_u64 m (rq_timeout_ms r);
              m = append_u32 m (rq_attempt r)
          in rbind (append_metadata_string m (rq_trace_id r) ''trace id'') (\<lambda>m.
             append_metadata_string m (rq_serializer r) ''serializer'')
        else ret m) (\<lambda>m.
     encode_frame Request (rq_request_id r) m (rq_payload r))))))))"

definition encode_response :: "rpc_response \<Rightarrow> string result" where
  "encode_response r =
     rbind (check_string_length (length (rs_error_message r)) ''error message'') (\<lambda>_.
     rbind (check_string_length (length (rs_trace_id r)) ''trace id'') (\<lambda>_.
     rbind (check_string_length (length (rs_serializer r)) ''serializer'') (\<lambda>_.
     rbind (append_metadata_string (append_u32 [] (rs_error_code r)) (rs_error_message r)
              ''error message'') (\<lambda>m.
     rbind
       (if has_response_extension r
        then
          let m = append_u32 m metadata_extension_magic;
              m = append_u16 m metadata_extension_version;
              m = append_u64 m (rs_server_cost_us r)
          in rbind (append_metadata_string m (rs_trace_id r) ''trace id'') (\<lambda>m.
             append_metadata_string m (rs_serializer r) ''serializer'')
        else ret m) (\<lambda>m.
     encode_frame Response (rs_request_id r) m (rs_payload r))))))"

section \<open>Decoding\<close>

text \<open>
  A decoder's status together with what it stores in its output parameter when it is
  \<open>Complete\<close>.
\<close>

datatype 'a decoded = Complete 'a | Need_More_Data | Protocol_Error

record parsed_frame =
  pf_request_id :: u64
  pf_metadata :: string
  pf_body :: string
  pf_total_length :: nat

definition parse_frame :: "string \<Rightarrow> message_type \<Rightarrow> parsed_frame decoded" where
  "parse_frame data expected =
     (if length data < rpc_header_size then Need_More_Data
      else
        let magic = read_u32 data 0;
            version = read_u16 data 4;
            type = read_u16 data 6;
            request_id = read_u64 data 8;
            metadata_length = unat (read_u32 data 16);
            body_length = unat (read_u32 data 20)
        in if magic \<noteq> rpc_magic \<or> version \<noteq> protocol_version \<or> type \<noteq> message_type_code expected
           then Protocol_Error
           else if metadata_length > max_message_size \<or>
                   body_length > max_message_size - metadata_length
           then Protocol_Error
           else
             let content_length = metadata_length + body_length;
                 total_length = rpc_header_size + content_length
             in if length data < total_length then Need_More_Data
                else Complete \<lparr>pf_request_id = request_id,
                       pf_metadata = take metadata_length (drop rpc_header_size data),
                       pf_body = take body_length (drop (rpc_header_size + metadata_length) data),
                       pf_total_length = total_length\<rparr>)"

text \<open>The metadata readers: \<open>None\<close> is the return value false, else the value and the new offset.\<close>

definition read_metadata_u32 :: "string \<Rightarrow> nat \<Rightarrow> (u32 \<times> nat) option" where
  "read_metadata_u32 md offset =
     (if offset > length md \<or> length md - offset < 4 then None
      else Some (read_u32 md offset, offset + 4))"

definition read_metadata_u16 :: "string \<Rightarrow> nat \<Rightarrow> (u16 \<times> nat) option" where
  "read_metadata_u16 md offset =
     (if offset > length md \<or> length md - offset < 2 then None
      else Some (read_u16 md offset, offset + 2))"

definition read_metadata_u64 :: "string \<Rightarrow> nat \<Rightarrow> (u64 \<times> nat) option" where
  "read_metadata_u64 md offset =
     (if offset > length md \<or> length md - offset < 8 then None
      else Some (read_u64 md offset, offset + 8))"

definition read_metadata_string :: "string \<Rightarrow> nat \<Rightarrow> u32 \<Rightarrow> (string \<times> nat) option" where
  "read_metadata_string md offset n =
     (if offset > length md \<or> unat n > length md - offset then None
      else Some (take (unat n) (drop offset md), offset + unat n))"

definition read_length_prefixed_string :: "string \<Rightarrow> nat \<Rightarrow> (string \<times> nat) option" where
  "read_length_prefixed_string md offset =
     Option.bind (read_metadata_u32 md offset) (\<lambda>(n, offset). read_metadata_string md offset n)"

definition read_extension_header :: "string \<Rightarrow> nat \<Rightarrow> nat option" where
  "read_extension_header md offset =
     Option.bind (read_metadata_u32 md offset) (\<lambda>(magic, offset).
     Option.bind (read_metadata_u16 md offset) (\<lambda>(version, offset).
     if magic = metadata_extension_magic \<and> version = metadata_extension_version
     then Some offset else None))"

definition decode_request_metadata :: "string \<Rightarrow> rpc_request \<Rightarrow> rpc_request option" where
  "decode_request_metadata md r =
     Option.bind (read_length_prefixed_string md 0) (\<lambda>(service, offset).
     Option.bind (read_length_prefixed_string md offset) (\<lambda>(meth, offset).
     let r = r\<lparr>rq_service_name := service, rq_method_name := meth\<rparr>
     in if offset \<noteq> length md
        then
          Option.bind (read_extension_header md offset) (\<lambda>offset.
          Option.bind (read_metadata_u64 md offset) (\<lambda>(timeout, offset).
          Option.bind (read_metadata_u32 md offset) (\<lambda>(attempt, offset).
          Option.bind (read_length_prefixed_string md offset) (\<lambda>(trace, offset).
          Option.bind (read_length_prefixed_string md offset) (\<lambda>(serializer, offset).
          if offset \<noteq> length md then None
          else Some (r\<lparr>rq_timeout_ms := timeout, rq_attempt := attempt, rq_trace_id := trace,
                 rq_serializer := (if serializer = [] then ''raw'' else serializer)\<rparr>))))))
        else Some r))"

definition decode_response_metadata :: "string \<Rightarrow> rpc_response \<Rightarrow> rpc_response option" where
  "decode_response_metadata md r =
     Option.bind (read_metadata_u32 md 0) (\<lambda>(code, offset).
     Option.bind (read_length_prefixed_string md offset) (\<lambda>(message, offset).
     let r = r\<lparr>rs_error_message := message\<rparr>
     in Option.bind
       (if offset \<noteq> length md
        then
          Option.bind (read_extension_header md offset) (\<lambda>offset.
          Option.bind (read_metadata_u64 md offset) (\<lambda>(cost, offset).
          Option.bind (read_length_prefixed_string md offset) (\<lambda>(trace, offset).
          Option.bind (read_length_prefixed_string md offset) (\<lambda>(serializer, offset).
          if offset \<noteq> length md then None
          else Some (r\<lparr>rs_server_cost_us := cost, rs_trace_id := trace,
                 rs_serializer := (if serializer = [] then ''raw'' else serializer)\<rparr>)))))
        else Some r)
       (\<lambda>r. Some (r\<lparr>rs_error_code := code\<rparr>))))"

text \<open>What is decoded from the readable bytes, and the number of bytes consumed.\<close>

definition decode_request :: "string \<Rightarrow> (rpc_request \<times> nat) decoded" where
  "decode_request data =
     (case parse_frame data Request of
        Need_More_Data \<Rightarrow> Need_More_Data
      | Protocol_Error \<Rightarrow> Protocol_Error
      | Complete f \<Rightarrow>
          (case decode_request_metadata (pf_metadata f)
                  (default_request\<lparr>rq_request_id := pf_request_id f\<rparr>) of
             None \<Rightarrow> Protocol_Error
           | Some r \<Rightarrow> Complete (r\<lparr>rq_payload := pf_body f\<rparr>, pf_total_length f)))"

definition decode_response :: "string \<Rightarrow> (rpc_response \<times> nat) decoded" where
  "decode_response data =
     (case parse_frame data Response of
        Need_More_Data \<Rightarrow> Need_More_Data
      | Protocol_Error \<Rightarrow> Protocol_Error
      | Complete f \<Rightarrow>
          (case decode_response_metadata (pf_metadata f)
                  (default_response\<lparr>rs_request_id := pf_request_id f\<rparr>) of
             None \<Rightarrow> Protocol_Error
           | Some r \<Rightarrow> Complete (r\<lparr>rs_payload := pf_body f\<rparr>, pf_total_length f)))"

definition consume :: "(string \<Rightarrow> ('m \<times> nat) decoded) \<Rightarrow> nbuf \<Rightarrow> ('m decoded \<times> nbuf) result" where
  "consume decode b =
     (case decode (nb_peek b) of
        Need_More_Data \<Rightarrow> ret (Need_More_Data, b)
      | Protocol_Error \<Rightarrow> ret (Protocol_Error, b)
      | Complete (m, n) \<Rightarrow> rbind (nb_retrieve n b) (\<lambda>b'. ret (Complete m, b')))"

definition try_decode_request :: "nbuf \<Rightarrow> (rpc_request decoded \<times> nbuf) result" where
  "try_decode_request b = consume decode_request b"

definition try_decode_response :: "nbuf \<Rightarrow> (rpc_response decoded \<times> nbuf) result" where
  "try_decode_response b = consume decode_response b"

section \<open>Frames\<close>

definition frame_bytes :: "message_type \<Rightarrow> u64 \<Rightarrow> string \<Rightarrow> string \<Rightarrow> string" where
  "frame_bytes type request_id metadata body =
     be32 rpc_magic @ be16 protocol_version @ be16 (message_type_code type) @ be64 request_id @
     be32 (of_nat (length metadata)) @ be32 (of_nat (length body)) @ metadata @ body"

lemma length_frame_bytes [simp]:
  "length (frame_bytes type request_id metadata body) = rpc_header_size + length metadata + length body"
  by (simp add: frame_bytes_def rpc_header_size_def)

lemma encode_frame_Inr:
  "encode_frame type i md body = Inr f \<longleftrightarrow>
   length md + length body \<le> max_message_size \<and> f = frame_bytes type i md body"
  by (auto simp: encode_frame_def check_string_length_def max_message_size_def frame_bytes_def
      append_int rbind_def Let_def)

lemma encode_frame_Inl:
  "encode_frame type i md body = Inl e \<Longrightarrow>
   max_message_size < length md + length body \<and> (\<exists>msg. e = Length_Error msg)"
  by (auto simp: encode_frame_def check_string_length_def max_message_size_def rbind_def Let_def
      split: if_splits)

text \<open>More bytes at the end do not change what is read.\<close>

lemma read_u32_append: "i + 4 \<le> length xs \<Longrightarrow> read_u32 (xs @ ys) i = read_u32 xs i"
  by (simp add: read_u32_def nth_append)

lemma read_u16_append: "i + 2 \<le> length xs \<Longrightarrow> read_u16 (xs @ ys) i = read_u16 xs i"
  by (simp add: read_u16_def nth_append)

lemma read_u64_append: "i + 8 \<le> length xs \<Longrightarrow> read_u64 (xs @ ys) i = read_u64 xs i"
  by (simp add: read_u64_def read_u32_append)

lemmas read_append = read_u16_append read_u32_append read_u64_append

lemma parse_frame_append:
  "parse_frame xs type \<noteq> Need_More_Data \<Longrightarrow> parse_frame (xs @ ys) type = parse_frame xs type"
  by (auto simp: parse_frame_def read_append rpc_header_size_def Let_def split: if_splits)

lemma parse_frame_Complete:
  "parse_frame xs type = Complete f \<Longrightarrow>
   rpc_header_size \<le> pf_total_length f \<and> pf_total_length f \<le> length xs"
  by (auto simp: parse_frame_def Let_def split: if_splits)

lemma unat_of_length: "n \<le> max_message_size \<Longrightarrow> unat (of_nat n :: u32) = n"
  by (simp add: unsigned_of_nat take_bit_nat_eq_self max_message_size_def)

lemma parse_frame_bytes:
  assumes "length md + length body \<le> max_message_size"
  shows "parse_frame (frame_bytes type i md body) type =
    Complete \<lparr>pf_request_id = i, pf_metadata = md, pf_body = body,
      pf_total_length = rpc_header_size + length md + length body\<rparr>"
proof -
  let ?d = "frame_bytes type i md body"
  let ?h = "be32 rpc_magic @ be16 protocol_version"
  have "read_u32 ?d 0 = rpc_magic"
    using read_be32 [of "[]" 0] by (simp add: frame_bytes_def)
  moreover have "read_u16 ?d 4 = protocol_version"
    using read_be16 [of "be32 rpc_magic" 4] by (simp add: frame_bytes_def)
  moreover have "read_u16 ?d 6 = message_type_code type"
    using read_be16 [of ?h 6] by (simp add: frame_bytes_def)
  moreover have "read_u64 ?d 8 = i"
    using read_be64 [of "?h @ be16 (message_type_code type)" 8] by (simp add: frame_bytes_def)
  moreover have "read_u32 ?d 16 = of_nat (length md)"
    using read_be32 [of "?h @ be16 (message_type_code type) @ be64 i" 16]
    by (simp add: frame_bytes_def)
  moreover have "read_u32 ?d 20 = of_nat (length body)"
    using read_be32 [of "?h @ be16 (message_type_code type) @ be64 i @ be32 (of_nat (length md))" 20]
    by (simp add: frame_bytes_def)
  moreover have "drop rpc_header_size ?d = md @ body"
    by (simp add: frame_bytes_def rpc_header_size_def)
  moreover from this have "drop (rpc_header_size + length md) ?d = body"
    by (metis add.commute append_eq_conv_conj drop_drop)
  moreover have "unat (of_nat (length md) :: u32) = length md"
    "unat (of_nat (length body) :: u32) = length body"
    using assms by (simp_all add: unat_of_length)
  ultimately show ?thesis
    using assms by (simp add: parse_frame_def Let_def)
qed

section \<open>Metadata\<close>

text \<open>\<open>at md off rest\<close>: \<open>off\<close> is an offset of \<open>md\<close> with \<open>rest\<close> ahead of it.\<close>

definition at :: "string \<Rightarrow> nat \<Rightarrow> string \<Rightarrow> bool" where
  "at md off rest \<longleftrightarrow> off \<le> length md \<and> drop off md = rest"

lemma at_start: "at md 0 md"
  by (simp add: at_def)

lemma at_end: "at md off [] \<Longrightarrow> off = length md"
  by (simp add: at_def)

lemma at_more: "at md off rest \<Longrightarrow> rest \<noteq> [] \<Longrightarrow> off \<noteq> length md"
  by (auto simp: at_def)

lemma at_split:
  assumes "at md off (s @ rest)"
  obtains pre where "md = pre @ s @ rest" "length pre = off"
  using assms unfolding at_def by (metis append_take_drop_id length_take min.absorb2)

lemma at_skip: "at md off (s @ rest) \<Longrightarrow> at md (off + length s) rest"
  by (erule at_split) (auto simp: at_def)

lemma at_u16:
  assumes "at md off (be16 v @ rest)"
  shows "read_metadata_u16 md off = Some (v, off + 2)" "at md (off + 2) rest"
proof -
  obtain pre where "md = pre @ be16 v @ rest" "length pre = off"
    by (rule at_split [OF assms])
  then show "read_metadata_u16 md off = Some (v, off + 2)"
    by (auto simp: read_metadata_u16_def read_be16)
  show "at md (off + 2) rest"
    using at_skip [OF assms] by simp
qed

lemma at_u32:
  assumes "at md off (be32 v @ rest)"
  shows "read_metadata_u32 md off = Some (v, off + 4)" "at md (off + 4) rest"
proof -
  obtain pre where "md = pre @ be32 v @ rest" "length pre = off"
    by (rule at_split [OF assms])
  then show "read_metadata_u32 md off = Some (v, off + 4)"
    by (auto simp: read_metadata_u32_def read_be32)
  show "at md (off + 4) rest"
    using at_skip [OF assms] by simp
qed

lemma at_u64:
  assumes "at md off (be64 v @ rest)"
  shows "read_metadata_u64 md off = Some (v, off + 8)" "at md (off + 8) rest"
proof -
  obtain pre where "md = pre @ be64 v @ rest" "length pre = off"
    by (rule at_split [OF assms])
  then show "read_metadata_u64 md off = Some (v, off + 8)"
    by (auto simp: read_metadata_u64_def read_be64)
  show "at md (off + 8) rest"
    using at_skip [OF assms] by simp
qed

definition lps :: "string \<Rightarrow> string" where
  "lps s = be32 (of_nat (length s)) @ s"

lemma length_lps [simp]: "length (lps s) = 4 + length s"
  by (simp add: lps_def)

lemma at_lps:
  assumes "at md off (lps s @ rest)" "length s \<le> max_message_size"
  shows "read_length_prefixed_string md off = Some (s, off + 4 + length s)"
    "at md (off + 4 + length s) rest"
proof -
  have 1: "at md off (be32 (of_nat (length s)) @ (s @ rest))"
    using assms(1) by (simp add: lps_def)
  have 2: "at md (off + 4) (s @ rest)"
    by (rule at_u32(2) [OF 1])
  show "at md (off + 4 + length s) rest"
    by (rule at_skip [OF 2])
  obtain pre where "md = pre @ s @ rest" "length pre = off + 4"
    by (rule at_split [OF 2])
  then have "read_metadata_string md (off + 4) (of_nat (length s)) = Some (s, off + 4 + length s)"
    using assms(2) by (auto simp: read_metadata_string_def unat_of_length)
  then show "read_length_prefixed_string md off = Some (s, off + 4 + length s)"
    by (simp add: read_length_prefixed_string_def at_u32(1) [OF 1])
qed

definition extension_bytes :: string where
  "extension_bytes = be32 metadata_extension_magic @ be16 metadata_extension_version"

lemma at_extension:
  assumes "at md off (extension_bytes @ rest)"
  shows "read_extension_header md off = Some (off + 6)" "at md (off + 6) rest"
proof -
  have 1: "at md off (be32 metadata_extension_magic @ be16 metadata_extension_version @ rest)"
    using assms by (simp add: extension_bytes_def)
  note 2 = at_u32(2) [OF 1]
  show "at md (off + 6) rest"
    using at_u16(2) [OF 2] by (simp add: ac_simps)
  show "read_extension_header md off = Some (off + 6)"
    by (simp add: read_extension_header_def at_u32(1) [OF 1] at_u16(1) [OF 2])
qed

definition request_metadata :: "rpc_request \<Rightarrow> string" where
  "request_metadata r = lps (rq_service_name r) @ lps (rq_method_name r) @
     (if has_request_extension r
      then extension_bytes @ be64 (rq_timeout_ms r) @ be32 (rq_attempt r) @
           lps (rq_trace_id r) @ lps (rq_serializer r)
      else [])"

definition response_metadata :: "rpc_response \<Rightarrow> string" where
  "response_metadata r = be32 (rs_error_code r) @ lps (rs_error_message r) @
     (if has_response_extension r
      then extension_bytes @ be64 (rs_server_cost_us r) @ lps (rs_trace_id r) @ lps (rs_serializer r)
      else [])"

lemma append_metadata_string_Inr:
  "append_metadata_string out v f = Inr m \<longleftrightarrow> length v \<le> 2 ^ 32 - 1 \<and> m = out @ lps v"
  by (auto simp: append_metadata_string_def check_string_length_def lps_def append_int rbind_def)

lemma check_string_length_Inr: "check_string_length n f = Inr u \<longleftrightarrow> n \<le> 2 ^ 32 - 1"
  by (auto simp: check_string_length_def)

lemma no_request_extension:
  "\<not> has_request_extension r \<Longrightarrow> rq_trace_id r = [] \<and> rq_serializer r = ''raw''"
  by (simp add: has_request_extension_def)

lemma no_response_extension:
  "\<not> has_response_extension r \<Longrightarrow> rs_trace_id r = [] \<and> rs_serializer r = ''raw''"
  by (simp add: has_response_extension_def)

lemma request_parts_le:
  "length (rq_service_name r) \<le> length (request_metadata r)"
  "length (rq_method_name r) \<le> length (request_metadata r)"
  "length (rq_trace_id r) \<le> length (request_metadata r)"
  "length (rq_serializer r) \<le> length (request_metadata r)"
  using no_request_extension [of r] by (auto simp: request_metadata_def)

lemma response_parts_le:
  "length (rs_error_message r) \<le> length (response_metadata r)"
  "length (rs_trace_id r) \<le> length (response_metadata r)"
  "length (rs_serializer r) \<le> length (response_metadata r)"
  using no_response_extension [of r] by (auto simp: response_metadata_def)

lemma encode_request_Inr:
  "encode_request r = Inr f \<longleftrightarrow>
   length (request_metadata r) + length (rq_payload r) \<le> max_message_size \<and>
   f = frame_bytes Request (rq_request_id r) (request_metadata r) (rq_payload r)"
proof -
  have "length (request_metadata r) + length (rq_payload r) \<le> max_message_size \<Longrightarrow>
      length (rq_service_name r) \<le> 2 ^ 32 - 1 \<and> length (rq_method_name r) \<le> 2 ^ 32 - 1 \<and>
      length (rq_trace_id r) \<le> 2 ^ 32 - 1 \<and> length (rq_serializer r) \<le> 2 ^ 32 - 1"
    using request_parts_le [of r] by (simp add: max_message_size_def)
  then show ?thesis
    by (auto simp: encode_request_def rbind_Inr_iff encode_frame_Inr append_metadata_string_Inr
        check_string_length_Inr request_metadata_def extension_bytes_def append_int Let_def
        split: if_splits)
qed

lemma encode_response_Inr:
  "encode_response r = Inr f \<longleftrightarrow>
   length (response_metadata r) + length (rs_payload r) \<le> max_message_size \<and>
   f = frame_bytes Response (rs_request_id r) (response_metadata r) (rs_payload r)"
proof -
  have "length (response_metadata r) + length (rs_payload r) \<le> max_message_size \<Longrightarrow>
      length (rs_error_message r) \<le> 2 ^ 32 - 1 \<and>
      length (rs_trace_id r) \<le> 2 ^ 32 - 1 \<and> length (rs_serializer r) \<le> 2 ^ 32 - 1"
    using response_parts_le [of r] by (simp add: max_message_size_def)
  then show ?thesis
    by (auto simp: encode_response_def rbind_Inr_iff encode_frame_Inr append_metadata_string_Inr
        check_string_length_Inr response_metadata_def extension_bytes_def append_int Let_def
        split: if_splits)
qed

text \<open>What survives the wire: an empty serializer name comes back as the default one.\<close>

definition norm_request :: "rpc_request \<Rightarrow> rpc_request" where
  "norm_request r = r\<lparr>rq_serializer := (if rq_serializer r = [] then ''raw'' else rq_serializer r)\<rparr>"

definition norm_response :: "rpc_response \<Rightarrow> rpc_response" where
  "norm_response r = r\<lparr>rs_serializer := (if rs_serializer r = [] then ''raw'' else rs_serializer r)\<rparr>"

lemma decode_request_metadata_bytes:
  assumes "length (request_metadata r) \<le> max_message_size"
  shows "decode_request_metadata (request_metadata r) (default_request\<lparr>rq_request_id := rq_request_id r\<rparr>)
    = Some ((norm_request r)\<lparr>rq_payload := []\<rparr>)"
proof -
  let ?md = "request_metadata r"
  have len: "length (rq_service_name r) \<le> max_message_size" "length (rq_method_name r) \<le> max_message_size"
    "length (rq_trace_id r) \<le> max_message_size" "length (rq_serializer r) \<le> max_message_size"
    using assms request_parts_le [of r] by linarith+
  show ?thesis
  proof (cases "has_request_extension r")
    case False
    have "at ?md 0 (lps (rq_service_name r) @ lps (rq_method_name r) @ [])"
      using False at_start [of ?md] by (simp add: request_metadata_def)
    note 1 = at_lps [OF this len(1)]
    note 2 = at_lps [OF 1(2) len(2)]
    have "rq_timeout_ms r = 0" "rq_trace_id r = []" "rq_serializer r = ''raw''" "rq_attempt r = 0"
      using False by (simp_all add: has_request_extension_def)
    then show ?thesis
      using at_end [OF 2(2)] 1(1) 2(1)
      unfolding decode_request_metadata_def norm_request_def default_request_def
      by (cases r) (simp add: Let_def)
  next
    case True
    have "at ?md 0 (lps (rq_service_name r) @ lps (rq_method_name r) @ extension_bytes @
        be64 (rq_timeout_ms r) @ be32 (rq_attempt r) @ lps (rq_trace_id r) @ lps (rq_serializer r) @ [])"
      using True at_start [of ?md] by (simp add: request_metadata_def)
    note 1 = at_lps [OF this len(1)]
    note 2 = at_lps [OF 1(2) len(2)]
    note 3 = at_extension [OF 2(2)]
    note 4 = at_u64 [OF 3(2)]
    note 5 = at_u32 [OF 4(2)]
    note 6 = at_lps [OF 5(2) len(3)]
    note 7 = at_lps [OF 6(2) len(4)]
    have "0 + 4 + length (rq_service_name r) + 4 + length (rq_method_name r) \<noteq> length ?md"
      using at_more [OF 2(2)] by (simp add: extension_bytes_def be32_def append_u32_def)
    then show ?thesis
      using at_end [OF 7(2)] 1(1) 2(1) 3(1) 4(1) 5(1) 6(1) 7(1)
      unfolding decode_request_metadata_def norm_request_def default_request_def
      by (cases r) (simp add: Let_def)
  qed
qed

lemma decode_response_metadata_bytes:
  assumes "length (response_metadata r) \<le> max_message_size"
  shows "decode_response_metadata (response_metadata r) (default_response\<lparr>rs_request_id := rs_request_id r\<rparr>)
    = Some ((norm_response r)\<lparr>rs_payload := []\<rparr>)"
proof -
  let ?md = "response_metadata r"
  have len: "length (rs_error_message r) \<le> max_message_size"
    "length (rs_trace_id r) \<le> max_message_size" "length (rs_serializer r) \<le> max_message_size"
    using assms response_parts_le [of r] by linarith+
  show ?thesis
  proof (cases "has_response_extension r")
    case False
    have "at ?md 0 (be32 (rs_error_code r) @ lps (rs_error_message r) @ [])"
      using False at_start [of ?md] by (simp add: response_metadata_def)
    note 1 = at_u32 [OF this]
    note 2 = at_lps [OF 1(2) len(1)]
    have "rs_trace_id r = []" "rs_server_cost_us r = 0" "rs_serializer r = ''raw''"
      using False by (simp_all add: has_response_extension_def)
    then show ?thesis
      using at_end [OF 2(2)] 1(1) 2(1)
      unfolding decode_response_metadata_def norm_response_def default_response_def
      by (cases r) (simp add: Let_def)
  next
    case True
    have "at ?md 0 (be32 (rs_error_code r) @ lps (rs_error_message r) @ extension_bytes @
        be64 (rs_server_cost_us r) @ lps (rs_trace_id r) @ lps (rs_serializer r) @ [])"
      using True at_start [of ?md] by (simp add: response_metadata_def)
    note 1 = at_u32 [OF this]
    note 2 = at_lps [OF 1(2) len(1)]
    note 3 = at_extension [OF 2(2)]
    note 4 = at_u64 [OF 3(2)]
    note 5 = at_lps [OF 4(2) len(2)]
    note 6 = at_lps [OF 5(2) len(3)]
    have "0 + 4 + 4 + length (rs_error_message r) \<noteq> length ?md"
      using at_more [OF 2(2)] by (simp add: extension_bytes_def be32_def append_u32_def)
    then show ?thesis
      using at_end [OF 6(2)] 1(1) 2(1) 3(1) 4(1) 5(1) 6(1)
      unfolding decode_response_metadata_def norm_response_def default_response_def
      by (cases r) (simp add: Let_def)
  qed
qed

section \<open>What a reader of frames relies on\<close>

text \<open>
  The readers of both directions take messages off the input buffer until there is none or the
  peer broke the protocol. \<open>drain\<close> says what that gives for a byte string: the messages, the
  bytes left, and whether the stream is bad. Arrival in pieces is \<open>feed\<close>.
\<close>

function drain :: "(string \<Rightarrow> ('m \<times> nat) decoded) \<Rightarrow> string \<Rightarrow> 'm list \<times> string \<times> bool" where
  "drain dec xs =
     (case dec xs of
        Need_More_Data \<Rightarrow> ([], xs, False)
      | Protocol_Error \<Rightarrow> ([], xs, True)
      | Complete (m, n) \<Rightarrow>
          if 0 < n \<and> n \<le> length xs
          then (let (ms, r) = drain dec (drop n xs) in (m # ms, r)) else ([], xs, True))"
  by pat_completeness auto
termination
  by (relation "measure (\<lambda>(dec, xs). length xs)") auto

declare drain.simps [simp del]

fun feed :: "(string \<Rightarrow> ('m \<times> nat) decoded) \<Rightarrow> 'm list \<times> string \<times> bool \<Rightarrow> string list \<Rightarrow>
    'm list \<times> string \<times> bool" where
  "feed dec st [] = st"
| "feed dec (ms, xs, bad) (c # cs) =
     (if bad then feed dec (ms, xs @ c, bad) cs
      else (let (ms', r) = drain dec (xs @ c) in feed dec (ms @ ms', r) cs))"

locale frame_codec =
  fixes enc :: "'m \<Rightarrow> string result"
    and dec :: "string \<Rightarrow> ('m \<times> nat) decoded"
    and norm :: "'m \<Rightarrow> 'm"
  assumes dec_enc: "enc m = Inr f \<Longrightarrow> dec f = Complete (norm m, length f)"
    and dec_stable: "dec xs \<noteq> Need_More_Data \<Longrightarrow> dec (xs @ ys) = dec xs"
    and dec_nothing: "dec [] = Need_More_Data"
    and dec_length: "dec xs = Complete (m, n) \<Longrightarrow> 0 < n \<and> n \<le> length xs"
begin

lemma dec_enc_rest: "enc m = Inr f \<Longrightarrow> dec (f @ rest) = Complete (norm m, length f)"
  using dec_enc dec_stable [of f rest] by simp

lemma dec_prefix:
  assumes "enc m = Inr (p @ s)" "s \<noteq> []"
  shows "dec p = Need_More_Data"
proof (rule ccontr)
  assume "dec p \<noteq> Need_More_Data"
  then have "dec p = Complete (norm m, length (p @ s))"
    using dec_stable [of p s] dec_enc [OF assms(1)] by simp
  then show False
    using dec_length [of p] assms(2) by auto
qed

text \<open>On a buffer: exactly the frame is consumed, a prefix leaves the buffer alone.\<close>

lemma consume_frame:
  assumes "nb_ok b" "enc m = Inr f" "nb_peek b = f @ rest"
  shows "\<exists>b'. consume dec b = Inr (Complete (norm m), b') \<and> nb_ok b' \<and> nb_peek b' = rest"
proof -
  have "dec (nb_peek b) = Complete (norm m, length f)"
    using dec_enc_rest [OF assms(2)] assms(3) by simp
  moreover obtain b' where "nb_retrieve (length f) b = Inr b'" "nb_ok b'" "nb_peek b' = rest"
    using nb.rem_ok [OF assms(1), of "length f"] assms(3) by auto
  ultimately show ?thesis by (simp add: consume_def)
qed

lemma consume_prefix:
  "enc m = Inr (nb_peek b @ s) \<Longrightarrow> s \<noteq> [] \<Longrightarrow> consume dec b = Inr (Need_More_Data, b)"
  using dec_prefix by (simp add: consume_def)

lemma consume_total:
  assumes "nb_ok b"
  shows "\<exists>r b'. consume dec b = Inr (r, b') \<and> nb_ok b' \<and>
    (case r of Complete m \<Rightarrow> \<exists>n. dec (nb_peek b) = Complete (m, n) \<and> nb_peek b' = drop n (nb_peek b)
     | Need_More_Data \<Rightarrow> dec (nb_peek b) = Need_More_Data \<and> b' = b
     | Protocol_Error \<Rightarrow> dec (nb_peek b) = Protocol_Error \<and> b' = b)"
proof (cases "dec (nb_peek b)")
  case (Complete mn)
  obtain m n where mn: "mn = (m, n)" by fastforce
  then obtain b' where "nb_retrieve n b = Inr b'" "nb_ok b'" "nb_peek b' = drop n (nb_peek b)"
    using nb.rem_ok [OF assms, of n] dec_length Complete by blast
  with Complete mn show ?thesis by (simp add: consume_def)
qed (use assms in \<open>simp_all add: consume_def\<close>)

lemma drain_append:
  "drain dec (xs @ ys) =
     (let (ms, rest, bad) = drain dec xs
      in if bad then (ms, rest @ ys, True)
         else (let (ms', r) = drain dec (rest @ ys) in (ms @ ms', r)))"
proof (induction xs rule: length_induct)
  case (1 xs)
  show ?case
  proof (cases "dec xs")
    case Need_More_Data
    then show ?thesis by (simp add: drain.simps [of dec xs] split: prod.splits)
  next
    case Protocol_Error
    then show ?thesis
      using dec_stable [of xs ys] by (simp add: drain.simps [of dec])
  next
    case (Complete mn)
    obtain m n where mn: "mn = (m, n)" by fastforce
    then have n: "0 < n" "n \<le> length xs" "dec (xs @ ys) = Complete (m, n)"
      using dec_length [of xs] dec_stable [of xs ys] Complete by auto
    then have "length (drop n xs) < length xs" "drop n (xs @ ys) = drop n xs @ ys" by simp_all
    then show ?thesis
      using n Complete mn 1
      by (simp add: drain.simps [of dec xs] drain.simps [of dec "xs @ ys"] Let_def split: prod.splits)
  qed
qed

text \<open>How the bytes are cut into pieces does not matter.\<close>

lemma feed_concat:
  "feed dec ([], [], False) cs = (let (ms, rest, bad) = drain dec (concat cs) in (ms, rest, bad))"
proof -
  have bad: "feed dec (ms, xs, True) cs = (ms, xs @ concat cs, True)" for ms xs cs
    by (induction cs arbitrary: xs) auto
  have "feed dec (ms, xs, False) cs = (let (ms', r) = drain dec (xs @ concat cs) in (ms @ ms', r))"
    if "drain dec xs = ([], xs, False)" for ms xs
    using that
  proof (induction cs arbitrary: ms xs)
    case (Cons c cs)
    obtain ms1 r1 bad1 where d: "drain dec (xs @ c) = (ms1, r1, bad1)"
      by (metis prod_cases3)
    have split: "drain dec (xs @ concat (c # cs)) =
        (if bad1 then (ms1, r1 @ concat cs, True)
         else (let (ms', r) = drain dec (r1 @ concat cs) in (ms1 @ ms', r)))"
      using drain_append [of "xs @ c" "concat cs"] d by simp
    show ?case
    proof (cases bad1)
      case True
      then show ?thesis using d split bad by simp
    next
      case False
      have "drain dec (xs @ c) = (let (ms', r) = drain dec r1 in (ms1 @ ms', r))"
        using drain_append [of "xs @ c" "[]"] d False by simp
      then have "drain dec r1 = ([], r1, False)"
        using d False by (auto split: prod.splits)
      from Cons.IH [OF this] show ?thesis
        using d split False by (simp split: prod.splits)
    qed
  qed simp
  moreover have "drain dec [] = ([], [], False)"
    by (simp add: drain.simps dec_nothing)
  ultimately show ?thesis by (simp split: prod.splits)
qed

text \<open>A stream of encoded messages is decoded message by message.\<close>

lemma drain_messages:
  "list_all2 (\<lambda>m f. enc m = Inr f) ms fs \<Longrightarrow> dec tail = Need_More_Data \<Longrightarrow>
   drain dec (concat fs @ tail) = (map norm ms, tail, False)"
proof (induction ms fs rule: list_all2_induct)
  case Nil
  then show ?case by (simp add: drain.simps)
next
  case (Cons m ms f fs)
  have "dec (f @ concat fs @ tail) = Complete (norm m, length f)"
    by (rule dec_enc_rest [OF Cons(1)])
  with Cons dec_length [OF dec_enc [OF Cons(1)]] show ?case
    by (simp add: drain.simps [of dec "f @ concat fs @ tail"])
qed

end


lemma decode_request_stable:
  "decode_request xs \<noteq> Need_More_Data \<Longrightarrow> decode_request (xs @ ys) = decode_request xs"
  using parse_frame_append [of xs Request ys]
  by (cases "parse_frame xs Request") (auto simp: decode_request_def)

lemma decode_response_stable:
  "decode_response xs \<noteq> Need_More_Data \<Longrightarrow> decode_response (xs @ ys) = decode_response xs"
  using parse_frame_append [of xs Response ys]
  by (cases "parse_frame xs Response") (auto simp: decode_response_def)

lemma decode_request_length:
  "decode_request xs = Complete (m, n) \<Longrightarrow> 0 < n \<and> n \<le> length xs"
  using parse_frame_Complete [of xs Request]
  by (auto simp: decode_request_def rpc_header_size_def split: decoded.splits option.splits)

lemma decode_response_length:
  "decode_response xs = Complete (m, n) \<Longrightarrow> 0 < n \<and> n \<le> length xs"
  using parse_frame_Complete [of xs Response]
  by (auto simp: decode_response_def rpc_header_size_def split: decoded.splits option.splits)

lemma decode_encode_request:
  assumes "encode_request r = Inr f"
  shows "decode_request f = Complete (norm_request r, length f)"
proof -
  have f: "length (request_metadata r) + length (rq_payload r) \<le> max_message_size"
    "f = frame_bytes Request (rq_request_id r) (request_metadata r) (rq_payload r)"
    using assms by (simp_all add: encode_request_Inr)
  have "(norm_request r)\<lparr>rq_payload := rq_payload r\<rparr> = norm_request r"
    by (simp add: norm_request_def)
  then show ?thesis
    using f decode_request_metadata_bytes [of r]
    by (simp add: decode_request_def parse_frame_bytes)
qed

lemma decode_encode_response:
  assumes "encode_response r = Inr f"
  shows "decode_response f = Complete (norm_response r, length f)"
proof -
  have f: "length (response_metadata r) + length (rs_payload r) \<le> max_message_size"
    "f = frame_bytes Response (rs_request_id r) (response_metadata r) (rs_payload r)"
    using assms by (simp_all add: encode_response_Inr)
  have "(norm_response r)\<lparr>rs_payload := rs_payload r\<rparr> = norm_response r"
    by (simp add: norm_response_def)
  then show ?thesis
    using f decode_response_metadata_bytes [of r]
    by (simp add: decode_response_def parse_frame_bytes)
qed

interpretation rq: frame_codec encode_request decode_request norm_request
proof unfold_locales
  fix m f xs ys n
  show "encode_request m = Inr f \<Longrightarrow> decode_request f = Complete (norm_request m, length f)"
    by (rule decode_encode_request)
  show "decode_request xs \<noteq> Need_More_Data \<Longrightarrow> decode_request (xs @ ys) = decode_request xs"
    by (rule decode_request_stable)
  show "decode_request [] = Need_More_Data"
    by (simp add: decode_request_def parse_frame_def rpc_header_size_def)
  show "decode_request xs = Complete (m, n) \<Longrightarrow> 0 < n \<and> n \<le> length xs"
    by (rule decode_request_length)
qed

interpretation rs: frame_codec encode_response decode_response norm_response
proof unfold_locales
  fix m f xs ys n
  show "encode_response m = Inr f \<Longrightarrow> decode_response f = Complete (norm_response m, length f)"
    by (rule decode_encode_response)
  show "decode_response xs \<noteq> Need_More_Data \<Longrightarrow> decode_response (xs @ ys) = decode_response xs"
    by (rule decode_response_stable)
  show "decode_response [] = Need_More_Data"
    by (simp add: decode_response_def parse_frame_def rpc_header_size_def)
  show "decode_response xs = Complete (m, n) \<Longrightarrow> 0 < n \<and> n \<le> length xs"
    by (rule decode_response_length)
qed

section \<open>Properties\<close>

lemma check_string_length_Inl: "check_string_length n f = Inl e \<Longrightarrow> \<exists>msg. e = Length_Error msg"
  by (auto simp: check_string_length_def split: if_splits)

lemma append_metadata_string_Inl:
  "append_metadata_string out v f = Inl e \<Longrightarrow> \<exists>msg. e = Length_Error msg"
  by (auto simp: append_metadata_string_def rbind_Inl_iff dest: check_string_length_Inl)

lemma encode_Inl:
  "encode_request q = Inl e \<Longrightarrow> \<exists>msg. e = Length_Error msg"
  "encode_response p = Inl e \<Longrightarrow> \<exists>msg. e = Length_Error msg"
  by (auto simp: encode_request_def encode_response_def rbind_Inl_iff Let_def
      dest!: check_string_length_Inl append_metadata_string_Inl encode_frame_Inl split: if_splits)

text \<open>
  C10. Requests survive the wire: if the readable bytes start with an encoded request, with or
  without the extension and whatever follows, \<open>tryDecodeRequest\<close> returns that request (an empty
  serializer name read as "raw"), and consumes exactly its frame.
\<close>

theorem request_roundtrip:
  assumes "encode_request r = Inr f" "nb_ok b" "nb_peek b = f @ rest"
  shows "\<exists>b'. try_decode_request b = Inr (Complete (norm_request r), b') \<and> nb_ok b' \<and> nb_peek b' = rest"
  unfolding try_decode_request_def by (rule rq.consume_frame [OF assms(2,1,3)])

definition demo_request :: rpc_request where
  "demo_request = default_request\<lparr>rq_request_id := 0x0102030405060708, rq_service_name := ''Calc'',
     rq_method_name := ''Add'', rq_payload := ''1,2'', rq_timeout_ms := 3000, rq_serializer := []\<rparr>"

lemma demo_request_frame: "\<exists>f. encode_request demo_request = Inr f"
  by (simp add: encode_request_Inr request_metadata_def has_request_extension_def demo_request_def
      default_request_def extension_bytes_def max_message_size_def)

lemma request_roundtrip_witness:
  "\<exists>f b b'. encode_request demo_request = Inr f \<and> nb_append (f @ ''xyz'') nb_new = Inr b \<and>
     try_decode_request b = Inr (Complete (demo_request\<lparr>rq_serializer := ''raw''\<rparr>), b') \<and>
     nb_peek b' = ''xyz''"
proof -
  obtain f where f: "encode_request demo_request = Inr f"
    using demo_request_frame by blast
  obtain b where b: "nb_append (f @ ''xyz'') nb_new = Inr b" "nb_ok b" "nb_peek b = f @ ''xyz''"
    using nb.app_ok [of nb_new "f @ ''xyz''"] nb_new_ok by auto
  have "norm_request demo_request = demo_request\<lparr>rq_serializer := ''raw''\<rparr>"
    by (simp add: norm_request_def demo_request_def default_request_def)
  with request_roundtrip [OF f b(2,3)] f b(1) show ?thesis by auto
qed

text \<open>
  Responses survive the wire in the same way; the error code keeps its 32 bits.
\<close>

theorem response_roundtrip:
  assumes "encode_response r = Inr f" "nb_ok b" "nb_peek b = f @ rest"
  shows "\<exists>b'. try_decode_response b = Inr (Complete (norm_response r), b') \<and> nb_ok b' \<and> nb_peek b' = rest"
  unfolding try_decode_response_def by (rule rs.consume_frame [OF assms(2,1,3)])

lemma response_roundtrip_witness:
  "\<exists>f b b'. encode_response (default_response\<lparr>rs_error_code := - 7, rs_payload := ''3''\<rparr>) = Inr f \<and>
     nb_append f nb_new = Inr b \<and>
     try_decode_response b
       = Inr (Complete (default_response\<lparr>rs_error_code := - 7, rs_payload := ''3''\<rparr>), b') \<and>
     nb_peek b' = []"
proof -
  let ?r = "default_response\<lparr>rs_error_code := - 7, rs_payload := ''3''\<rparr>"
  obtain f where f: "encode_response ?r = Inr f"
    by (simp add: encode_response_Inr response_metadata_def has_response_extension_def
        default_response_def max_message_size_def)
  obtain b where b: "nb_append f nb_new = Inr b" "nb_ok b" "nb_peek b = f @ []"
    using nb.app_ok [of nb_new f] nb_new_ok by auto
  have "norm_response ?r = ?r"
    by (simp add: norm_response_def default_response_def)
  with response_roundtrip [OF f b(2,3)] f b(1) show ?thesis by auto
qed

text \<open>
  C12. Size limits: a request or response is encoded exactly when metadata and payload together
  fit in 16 MiB; otherwise the encoder throws \<open>std::length_error\<close> and nothing else. A frame is
  24 bytes longer than its content.
\<close>

theorem encode_limits:
  "((\<exists>f. encode_request q = Inr f) \<longleftrightarrow>
      length (request_metadata q) + length (rq_payload q) \<le> max_message_size) \<and>
   ((\<exists>f. encode_response p = Inr f) \<longleftrightarrow>
      length (response_metadata p) + length (rs_payload p) \<le> max_message_size) \<and>
   (case encode_request q of
      Inl e \<Rightarrow> (\<exists>msg. e = Length_Error msg)
    | Inr f \<Rightarrow> length f = rpc_header_size + length (request_metadata q) + length (rq_payload q)) \<and>
   (case encode_response p of
      Inl e \<Rightarrow> (\<exists>msg. e = Length_Error msg)
    | Inr f \<Rightarrow> length f = rpc_header_size + length (response_metadata p) + length (rs_payload p))"
  by (auto simp: encode_request_Inr encode_response_Inr dest: encode_Inl split: sum.splits)

text \<open>
  C13. The decoders never read outside the bytes received and never throw: on any well-formed
  buffer they return, a proper prefix of a frame is \<open>NeedMoreData\<close> with the buffer untouched,
  and an answer other than \<open>NeedMoreData\<close> is not changed by bytes that arrive later.
\<close>

theorem decode_partial_frames:
  assumes "nb_ok b"
  shows "(\<exists>r b'. try_decode_request b = Inr (r, b') \<and> nb_ok b') \<and>
    (\<exists>r b'. try_decode_response b = Inr (r, b') \<and> nb_ok b') \<and>
    (\<forall>q s. encode_request q = Inr (nb_peek b @ s) \<and> s \<noteq> [] \<longrightarrow>
       try_decode_request b = Inr (Need_More_Data, b)) \<and>
    (\<forall>p s. encode_response p = Inr (nb_peek b @ s) \<and> s \<noteq> [] \<longrightarrow>
       try_decode_response b = Inr (Need_More_Data, b)) \<and>
    (decode_request (nb_peek b) \<noteq> Need_More_Data \<longrightarrow>
       decode_request (nb_peek b @ later) = decode_request (nb_peek b)) \<and>
    (decode_response (nb_peek b) \<noteq> Need_More_Data \<longrightarrow>
       decode_response (nb_peek b @ later) = decode_response (nb_peek b))"
  using rq.consume_total [OF assms] rs.consume_total [OF assms] rq.consume_prefix rs.consume_prefix
    decode_request_stable decode_response_stable
  unfolding try_decode_request_def try_decode_response_def by blast

lemma decode_partial_frames_witness:
  "\<exists>f b. encode_request demo_request = Inr f \<and> nb_append (take 30 f) nb_new = Inr b \<and>
     try_decode_request b = Inr (Need_More_Data, b)"
proof -
  obtain f where f: "encode_request demo_request = Inr f"
    using demo_request_frame by blast
  have "30 < length f"
    using f by (auto simp: encode_request_Inr request_metadata_def demo_request_def default_request_def
        rpc_header_size_def)
  then have s: "f = take 30 f @ drop 30 f" "drop 30 f \<noteq> []"
    by simp_all
  obtain b where b: "nb_append (take 30 f) nb_new = Inr b" "nb_ok b" "nb_peek b = take 30 f"
    using nb.app_ok [of nb_new "take 30 f"] nb_new_ok by auto
  have "encode_request demo_request = Inr (nb_peek b @ drop 30 f)"
    using f s(1) b(3) by simp
  then have "try_decode_request b = Inr (Need_More_Data, b)"
    using decode_partial_frames [OF b(2)] s(2) by blast
  with f b(1) show ?thesis by blast
qed

text \<open>
  C14. Framing is independent of how the bytes arrive: a peer's encoded messages, cut into
  arbitrary pieces, are decoded to exactly these messages, in order, without a protocol error,
  and an incomplete frame at the end stays pending. The same holds in both directions.
\<close>

theorem framing_independent_of_chunks:
  assumes "list_all2 (\<lambda>q f. encode_request q = Inr f) qs fs" "concat cs = concat fs @ tail"
    and "decode_request tail = Need_More_Data"
    and "list_all2 (\<lambda>p g. encode_response p = Inr g) ps gs" "concat ds = concat gs @ tail'"
    and "decode_response tail' = Need_More_Data"
  shows "feed decode_request ([], [], False) cs = (map norm_request qs, tail, False) \<and>
    feed decode_response ([], [], False) ds = (map norm_response ps, tail', False)"
  by (simp add: rq.feed_concat rs.feed_concat assms(2,5) rq.drain_messages [OF assms(1,3)]
      rs.drain_messages [OF assms(4,6)])

lemma framing_independent_of_chunks_witness:
  "\<exists>f. encode_request demo_request = Inr f \<and>
     feed decode_request ([], [], False) [take 5 f, drop 5 f @ take 11 f, drop 11 f @ take 7 f]
       = ([norm_request demo_request, norm_request demo_request], take 7 f, False)"
proof -
  obtain f where f: "encode_request demo_request = Inr f"
    using demo_request_frame by blast
  have "length f \<ge> 24"
    using f by (auto simp: encode_request_Inr rpc_header_size_def)
  then have d: "decode_request (take 7 f) = Need_More_Data"
    by (simp add: decode_request_def parse_frame_def rpc_header_size_def)
  have c: "concat [take 5 f, drop 5 f @ take 11 f, drop 11 f @ take 7 f] = concat [f, f] @ take 7 f"
    by simp
  have "list_all2 (\<lambda>q f. encode_request q = Inr f) [demo_request, demo_request] [f, f]"
    using f by simp
  from framing_independent_of_chunks [OF this c d, of "[]" "[]" "[]" "[]"] f show ?thesis
    by (simp add: decode_response_def parse_frame_def rpc_header_size_def)
qed

end
