(* ===== verification/Rpc_Messages.thy ===== *)
theory Rpc_Messages
  imports Rpc_Codec
begin

text \<open>
  What the decoders of code/MiniRPC/src/codec.cpp give for bytes nobody has checked: a message
  that has the shape of the ones the encoders accept.
\<close>

section \<open>How far the readers get\<close>

lemma u32_reads: "read_metadata_u32 md off = Some (v, off') \<Longrightarrow> off' = off + 4 \<and> off' \<le> length md"
  by (auto simp: read_metadata_u32_def split: if_splits)

lemma u16_reads: "read_metadata_u16 md off = Some (v, off') \<Longrightarrow> off' = off + 2 \<and> off' \<le> length md"
  by (auto simp: read_metadata_u16_def split: if_splits)

lemma u64_reads: "read_metadata_u64 md off = Some (v, off') \<Longrightarrow> off' = off + 8 \<and> off' \<le> length md"
  by (auto simp: read_metadata_u64_def split: if_splits)

lemma string_reads:
  "read_length_prefixed_string md off = Some (s, off') \<Longrightarrow> off' = off + 4 + length s \<and> off' \<le> length md"
  by (auto simp: read_length_prefixed_string_def read_metadata_string_def Option.bind_eq_Some_conv dest!: u32_reads
      split: if_splits)

lemma header_reads: "read_extension_header md off = Some off' \<Longrightarrow> off' = off + 6 \<and> off' \<le> length md"
  by (auto simp: read_extension_header_def Option.bind_eq_Some_conv dest!: u32_reads u16_reads split: if_splits)

lemmas reads = u32_reads u64_reads string_reads header_reads

lemma length_extension [simp]: "length extension_bytes = 6"
  by (simp add: extension_bytes_def)

lemma request_metadata_length:
  "length (request_metadata r) \<le> 8 + length (rq_service_name r) + length (rq_method_name r) +
     (if has_request_extension r then 26 + length (rq_trace_id r) + length (rq_serializer r) else 0)"
  by (simp add: request_metadata_def)

lemma response_metadata_length:
  "length (response_metadata r) \<le> 8 + length (rs_error_message r) +
     (if has_response_extension r then 22 + length (rs_trace_id r) + length (rs_serializer r) else 0)"
  by (simp add: response_metadata_def)

text \<open>A serializer that is empty on the wire is filled in: three bytes more.\<close>

lemma request_metadata_fits:
  assumes "decode_request_metadata md (default_request\<lparr>rq_request_id := i\<rparr>) = Some r"
  shows "length (request_metadata r) \<le> length md + 3 \<and> rq_serializer r \<noteq> []"
proof -
  obtain service o1 meth o2 where names: "read_length_prefixed_string md 0 = Some (service, o1)"
    "read_length_prefixed_string md o1 = Some (meth, o2)"
    using assms by (auto simp: decode_request_metadata_def Option.bind_eq_Some_conv)
  note n = string_reads [OF names(1)] string_reads [OF names(2)]
  let ?r = "default_request\<lparr>rq_request_id := i, rq_service_name := service, rq_method_name := meth\<rparr>"
  show ?thesis
  proof (cases "o2 = length md")
    case True
    then have "r = ?r" using assms names by (simp add: decode_request_metadata_def)
    then show ?thesis
      using n by (simp add: request_metadata_def has_request_extension_def default_request_def)
  next
    case False
    then obtain o3 timeout o4 attempt o5 trace o6 serializer where e:
      "read_extension_header md o2 = Some o3" "read_metadata_u64 md o3 = Some (timeout, o4)"
      "read_metadata_u32 md o4 = Some (attempt, o5)" "read_length_prefixed_string md o5 = Some (trace, o6)"
      "read_length_prefixed_string md o6 = Some (serializer, length md)"
      "r = ?r\<lparr>rq_timeout_ms := timeout, rq_attempt := attempt, rq_trace_id := trace,
         rq_serializer := (if serializer = [] then ''raw'' else serializer)\<rparr>"
      using assms names by (auto simp: decode_request_metadata_def Option.bind_eq_Some_conv split: if_splits)
    have "length md = 34 + length service + length meth + length trace + length serializer"
      using n header_reads [OF e(1)] u64_reads [OF e(2)] u32_reads [OF e(3)] string_reads [OF e(4)] string_reads [OF e(5)]
      by linarith
    then show ?thesis
      using request_metadata_length [of r] e(6) by (auto split: if_splits)
  qed
qed

lemma response_metadata_fits:
  assumes "decode_response_metadata md (default_response\<lparr>rs_request_id := i\<rparr>) = Some r"
  shows "length (response_metadata r) \<le> length md + 3 \<and> rs_serializer r \<noteq> []"
proof -
  obtain code o1 message o2 where names: "read_metadata_u32 md 0 = Some (code, o1)"
    "read_length_prefixed_string md o1 = Some (message, o2)"
    using assms by (auto simp: decode_response_metadata_def Option.bind_eq_Some_conv)
  note n = u32_reads [OF names(1)] string_reads [OF names(2)]
  let ?r = "default_response\<lparr>rs_request_id := i, rs_error_message := message\<rparr>"
  show ?thesis
  proof (cases "o2 = length md")
    case True
    then have "r = ?r\<lparr>rs_error_code := code\<rparr>" using assms names by (simp add: decode_response_metadata_def)
    then show ?thesis
      using n by (simp add: response_metadata_def has_response_extension_def default_response_def)
  next
    case False
    then obtain o3 cost o4 trace o5 serializer where e:
      "read_extension_header md o2 = Some o3" "read_metadata_u64 md o3 = Some (cost, o4)"
      "read_length_prefixed_string md o4 = Some (trace, o5)"
      "read_length_prefixed_string md o5 = Some (serializer, length md)"
      "r = ?r\<lparr>rs_server_cost_us := cost, rs_trace_id := trace,
         rs_serializer := (if serializer = [] then ''raw'' else serializer), rs_error_code := code\<rparr>"
      using assms names by (auto simp: decode_response_metadata_def Option.bind_eq_Some_conv split: if_splits)
    have "length md = 30 + length message + length trace + length serializer"
      using n header_reads [OF e(1)] u64_reads [OF e(2)] string_reads [OF e(3)] string_reads [OF e(4)]
      by linarith
    then show ?thesis
      using response_metadata_length [of r] e(5) by (auto split: if_splits)
  qed
qed

lemma parse_frame_parts:
  "parse_frame xs type = Complete f \<Longrightarrow>
   pf_total_length f = rpc_header_size + length (pf_metadata f) + length (pf_body f) \<and>
   length (pf_metadata f) + length (pf_body f) \<le> max_message_size"
  by (auto simp: parse_frame_def Let_def split: if_splits)

lemma metadata_payload [simp]: "request_metadata (r\<lparr>rq_payload := p\<rparr>) = request_metadata r"
  "response_metadata (q\<lparr>rs_payload := p\<rparr>) = response_metadata q"
  by (simp_all add: request_metadata_def response_metadata_def has_request_extension_def has_response_extension_def)

lemma decoded_request:
  assumes "decode_request data = Complete (r, n)"
  shows "rq_serializer r \<noteq> []" "n \<le> rpc_header_size + max_message_size"
    "rpc_header_size + length (request_metadata r) + length (rq_payload r) \<le> n + 3"
proof -
  obtain f q where f: "parse_frame data Request = Complete f"
    "decode_request_metadata (pf_metadata f) (default_request\<lparr>rq_request_id := pf_request_id f\<rparr>) = Some q"
    "r = q\<lparr>rq_payload := pf_body f\<rparr>" "n = pf_total_length f"
    using assms by (auto simp: decode_request_def split: decoded.splits option.splits)
  from request_metadata_fits [OF f(2)] parse_frame_parts [OF f(1)] f(3,4)
  show "rq_serializer r \<noteq> []" "n \<le> rpc_header_size + max_message_size"
    "rpc_header_size + length (request_metadata r) + length (rq_payload r) \<le> n + 3"
    by simp_all
qed

lemma decoded_response:
  assumes "decode_response data = Complete (p, n)"
  shows "rs_serializer p \<noteq> []" "n \<le> rpc_header_size + max_message_size"
    "rpc_header_size + length (response_metadata p) + length (rs_payload p) \<le> n + 3"
proof -
  obtain f q where f: "parse_frame data Response = Complete f"
    "decode_response_metadata (pf_metadata f) (default_response\<lparr>rs_request_id := pf_request_id f\<rparr>) = Some q"
    "p = q\<lparr>rs_payload := pf_body f\<rparr>" "n = pf_total_length f"
    using assms by (auto simp: decode_response_def split: decoded.splits option.splits)
  from response_metadata_fits [OF f(2)] parse_frame_parts [OF f(1)] f(3,4)
  show "rs_serializer p \<noteq> []" "n \<le> rpc_header_size + max_message_size"
    "rpc_header_size + length (response_metadata p) + length (rs_payload p) \<le> n + 3"
    by simp_all
qed

section \<open>Properties\<close>

text \<open>
  C11. The decoders give well-formed messages, whatever bytes they are given: the serializer is not
  empty, the frame is within the size limit, and unless the frame is within three bytes of that limit
  the message can be encoded again and decodes to itself.
\<close>

theorem decoders_well_typed:
  "(decode_request data = Complete (r, n) \<longrightarrow>
      rq_serializer r \<noteq> [] \<and> n \<le> rpc_header_size + max_message_size \<and>
      (n + 3 \<le> rpc_header_size + max_message_size \<longrightarrow>
         (\<exists>f. encode_request r = Inr f \<and> decode_request f = Complete (r, length f)))) \<and>
   (decode_response data' = Complete (p, n') \<longrightarrow>
      rs_serializer p \<noteq> [] \<and> n' \<le> rpc_header_size + max_message_size \<and>
      (n' + 3 \<le> rpc_header_size + max_message_size \<longrightarrow>
         (\<exists>f. encode_response p = Inr f \<and> decode_response f = Complete (p, length f))))"
proof (intro conjI impI)
  assume d: "decode_request data = Complete (r, n)"
  note D = decoded_request [OF d]
  show "rq_serializer r \<noteq> []" "n \<le> rpc_header_size + max_message_size" by (fact D)+
  assume "n + 3 \<le> rpc_header_size + max_message_size"
  with D(3) obtain f where "encode_request r = Inr f" by (simp add: encode_request_Inr)
  with D(1) decode_encode_request [of r f] show "\<exists>f. encode_request r = Inr f \<and> decode_request f = Complete (r, length f)"
    by (simp add: norm_request_def)
next
  assume d: "decode_response data' = Complete (p, n')"
  note D = decoded_response [OF d]
  show "rs_serializer p \<noteq> []" "n' \<le> rpc_header_size + max_message_size" by (fact D)+
  assume "n' + 3 \<le> rpc_header_size + max_message_size"
  with D(3) obtain f where "encode_response p = Inr f" by (simp add: encode_response_Inr)
  with D(1) decode_encode_response [of p f] show "\<exists>f. encode_response p = Inr f \<and> decode_response f = Complete (p, length f)"
    by (simp add: norm_response_def)
qed

text \<open>A frame that leaves the serializer empty.\<close>

lemma decoders_well_typed_witness:
  "\<exists>data n f. decode_request data = Complete (demo_request\<lparr>rq_serializer := ''raw''\<rparr>, n) \<and>
     encode_request (demo_request\<lparr>rq_serializer := ''raw''\<rparr>) = Inr f \<and>
     decode_request f = Complete (demo_request\<lparr>rq_serializer := ''raw''\<rparr>, length f)"
proof -
  obtain f where f: "encode_request demo_request = Inr f"
    using demo_request_frame by blast
  have "norm_request demo_request = demo_request\<lparr>rq_serializer := ''raw''\<rparr>"
    by (simp add: norm_request_def demo_request_def default_request_def)
  with decode_encode_request [OF f]
  have d: "decode_request f = Complete (demo_request\<lparr>rq_serializer := ''raw''\<rparr>, length f)" by simp
  have "length f + 3 \<le> rpc_header_size + max_message_size"
    using f by (simp add: encode_request_Inr request_metadata_def has_request_extension_def demo_request_def
        default_request_def max_message_size_def)
  with decoders_well_typed [of f "demo_request\<lparr>rq_serializer := ''raw''\<rparr>" "length f"] d show ?thesis by blast
qed

end
