(* ===== verification/Rpc_Client.thy ===== *)
theory Rpc_Client
  imports Rpc_Codec
begin

text \<open>
  \<open>RpcClient\<close>, \<open>RpcFuture\<close>, \<open>RpcChannel\<close> and \<open>RpcController\<close> (code/MiniRPC/src/rpc_client.cpp,
  rpc_future.cpp, rpc_channel.cpp, rpc_controller.cpp). Every critical section of the client is
  one operation of the type \<open>cl_op\<close>; a thread is the list of the operations it still has to run,
  and the threads of the application and the event loop interleave freely. The reactor's
  timers are a map, its TCP client a log of calls.
\<close>

section \<open>Futures, controllers, channels\<close>

text \<open>\<open>fu_cancel\<close> says that a cancel function is set: it cancels the call of the future.\<close>

record rpc_future =
  fu_completed :: bool
  fu_response :: rpc_response
  fu_cancel :: bool

definition fu_new :: rpc_future where
  "fu_new = \<lparr>fu_completed = False, fu_response = default_response, fu_cancel = False\<rparr>"

definition fu_get :: "rpc_future \<Rightarrow> rpc_response option" where
  "fu_get f = (if fu_completed f then Some (fu_response f) else None)"

definition fu_cancels :: "rpc_future \<Rightarrow> bool" where
  "fu_cancels f = (if fu_completed f then False else fu_cancel f)"

definition fu_complete :: "rpc_response \<Rightarrow> rpc_future \<Rightarrow> rpc_future" where
  "fu_complete r f =
     (if fu_completed f then f else f\<lparr>fu_response := r, fu_completed := True, fu_cancel := False\<rparr>)"

definition fu_set_cancel :: "rpc_future \<Rightarrow> rpc_future" where
  "fu_set_cancel f = (if \<not> fu_completed f then f\<lparr>fu_cancel := True\<rparr> else f)"

record controller =
  ct_failed :: bool
  ct_error_code :: i32
  ct_error_message :: string
  ct_timeout :: int

definition ct_reset :: "controller \<Rightarrow> controller" where
  "ct_reset c = c\<lparr>ct_failed := False, ct_error_code := 0, ct_error_message := []\<rparr>"

definition ct_set_failed :: "i32 \<Rightarrow> string \<Rightarrow> controller \<Rightarrow> controller" where
  "ct_set_failed code message c = c\<lparr>ct_failed := True, ct_error_code := code, ct_error_message := message\<rparr>"

definition ct_set_timeout :: "int \<Rightarrow> controller \<Rightarrow> controller result" where
  "ct_set_timeout ms c =
     (if ms \<le> 0 then throw (Invalid_Argument ''RPC timeout must be greater than zero'')
      else ret (c\<lparr>ct_timeout := ms\<rparr>))"

definition channel_request :: "string \<Rightarrow> string \<Rightarrow> string \<Rightarrow> rpc_request" where
  "channel_request service method payload =
     default_request\<lparr>rq_service_name := service, rq_method_name := method, rq_payload := payload\<rparr>"

text \<open>
  \<open>callMethod\<close>: \<open>call\<close> is the client's blocking call. The result is what is returned, the
  response payload and the controller.
\<close>

definition call_method :: "(rpc_request \<Rightarrow> int \<Rightarrow> rpc_response) \<Rightarrow> string \<Rightarrow> string \<Rightarrow> string \<Rightarrow> controller \<Rightarrow>
    bool \<times> string \<times> controller" where
  "call_method call service method payload c =
     (let c = ct_reset c;
          p = call (channel_request service method payload) (ct_timeout c)
      in if rs_error_code p \<noteq> 0
         then (False, [], ct_set_failed (rs_error_code p) (rs_error_message p) c)
         else (True, rs_payload p, c))"

section \<open>State of the client\<close>

datatype conn_state = Disconnected | Connecting | Connected | Reconnecting | Cl_Stopping

datatype pending_state = Waiting_To_Send | Sent | Completed | Timed_Out | Ps_Cancelled | Failed

record call_options =
  co_timeout :: int
  co_retry_enabled :: bool
  co_max_retries :: u64
  co_fail_fast :: bool
  co_trace_id :: string

definition default_options :: call_options where
  "default_options = \<lparr>co_timeout = 3000, co_retry_enabled = False, co_max_retries = 0,
     co_fail_fast = True, co_trace_id = []\<rparr>"

text \<open>A callback is a number here: what it does when called is the application's.\<close>

type_synonym callback = nat

text \<open>The future of a pending call is the entry of its id in the table of futures.\<close>

record pending_call =
  pc_request_id :: u64
  pc_request :: rpc_request
  pc_options :: call_options
  pc_state :: pending_state
  pc_deadline :: time
  pc_callback :: "callback option"
  pc_timer :: u64
  pc_frame :: string

record cl_metrics =
  cm_total :: u64
  cm_success :: u64
  cm_failed :: u64
  cm_timeout :: u64
  cm_cancelled :: u64
  cm_reconnect :: u64

definition cl_metrics_zero :: cl_metrics where
  "cl_metrics_zero = \<lparr>cm_total = 0, cm_success = 0, cm_failed = 0, cm_timeout = 0, cm_cancelled = 0,
     cm_reconnect = 0\<rparr>"

datatype loop_timer = Deadline_Timer u64 | Reconnect_Timer

datatype tcp_call = Tcp_Connected | Tcp_Stopped

text \<open>
  Times are nanoseconds, timeouts and the reconnect delay milliseconds. The table of pending
  calls is a list in the container's iteration order. After it come the loop's timers, the
  futures handed out, the connection's input buffer, and the histories: calls of the TCP
  client, frames passed to \<open>send\<close>, ids given out, responses the calls ended with, callbacks
  made, the callbacks the calls were made with, and the ids of the calls that failed fast.
\<close>

record client =
  cl_next_request :: u64
  cl_conn :: conn_state
  cl_desired :: bool
  cl_stopping :: bool
  cl_error :: int
  cl_delay :: int
  cl_reconnect_timer :: u64
  cl_metrics :: cl_metrics
  cl_pending :: "pending_call list"
  cl_timers :: "u64 \<rightharpoonup> loop_timer"
  cl_next_timer :: u64
  cl_futures :: "u64 \<rightharpoonup> rpc_future"
  cl_input :: nbuf
  cl_now :: time
  cl_tcp :: "tcp_call list"
  cl_sent :: "(u64 \<times> string) list"
  cl_issued :: "u64 list"
  cl_done :: "(u64 \<times> rpc_response) list"
  cl_callbacks :: "(u64 \<times> callback \<times> rpc_response) list"
  cl_wanted :: "u64 \<rightharpoonup> callback"
  cl_refused :: "u64 list"

definition initial_reconnect_delay :: int where "initial_reconnect_delay = 100"
definition max_reconnect_delay :: int where "max_reconnect_delay = 3000"

definition cl_new :: client where
  "cl_new = \<lparr>cl_next_request = 1, cl_conn = Disconnected, cl_desired = False, cl_stopping = False,
     cl_error = 0, cl_delay = initial_reconnect_delay, cl_reconnect_timer = 0,
     cl_metrics = cl_metrics_zero, cl_pending = [], cl_timers = Map.empty, cl_next_timer = 1,
     cl_futures = Map.empty, cl_input = nb_new, cl_now = 0, cl_tcp = [], cl_sent = [],
     cl_issued = [], cl_done = [], cl_callbacks = [], cl_wanted = Map.empty, cl_refused = []\<rparr>"

section \<open>Pieces of the operations\<close>

definition next_request_id :: "client \<Rightarrow> u64 \<times> client" where
  "next_request_id c =
     (let i = cl_next_request c;
          c = c\<lparr>cl_next_request := i + 1\<rparr>
      in if i = 0 then (cl_next_request c, c\<lparr>cl_next_request := cl_next_request c + 1\<rparr>) else (i, c))"

text \<open>Arming a timer of the event loop and giving its id.\<close>

definition run_after :: "loop_timer \<Rightarrow> client \<Rightarrow> u64 \<times> client" where
  "run_after t c =
     (cl_next_timer c, c\<lparr>cl_timers := (cl_timers c)(cl_next_timer c \<mapsto> t),
                          cl_next_timer := cl_next_timer c + 1\<rparr>)"

definition client_error :: "u64 \<Rightarrow> rpc_error_code \<Rightarrow> string \<Rightarrow> rpc_response" where
  "client_error i code message =
     default_response\<lparr>rs_request_id := i, rs_error_code := error_code_value code, rs_error_message := message\<rparr>"

definition record_client_response :: "rpc_response \<Rightarrow> cl_metrics \<Rightarrow> cl_metrics" where
  "record_client_response r m =
     (if rs_error_code r = 0 then m\<lparr>cm_success := cm_success m + 1\<rparr>
      else
        let m = m\<lparr>cm_failed := cm_failed m + 1\<rparr>
        in if rs_error_code r = error_code_value Rpc_Timeout \<or>
              rs_error_code r = error_code_value Queueing_Timeout
           then m\<lparr>cm_timeout := cm_timeout m + 1\<rparr>
           else if rs_error_code r = error_code_value Cancelled
           then m\<lparr>cm_cancelled := cm_cancelled m + 1\<rparr>
           else m)"

text \<open>Counting the response of a call and completing its future.\<close>

definition finish_future :: "u64 \<Rightarrow> rpc_response \<Rightarrow> client \<Rightarrow> client" where
  "finish_future i r c =
     c\<lparr>cl_metrics := record_client_response r (cl_metrics c),
       cl_futures := (cl_futures c)(i := map_option (fu_complete r) (cl_futures c i)),
       cl_done := cl_done c @ [(i, r)]\<rparr>"

definition run_callback :: "u64 \<Rightarrow> callback option \<Rightarrow> rpc_response \<Rightarrow> client \<Rightarrow> client" where
  "run_callback i cb r c =
     (case cb of None \<Rightarrow> c | Some k \<Rightarrow> c\<lparr>cl_callbacks := cl_callbacks c @ [(i, k, r)]\<rparr>)"

text \<open>What moving a \<open>std::function\<close> leaves behind: the implementations leave it empty.\<close>

definition moved_callback :: "callback option \<Rightarrow> callback option" where
  "moved_callback cb = None"

definition prepare_request :: "u64 \<Rightarrow> call_options \<Rightarrow> rpc_request \<Rightarrow> rpc_request" where
  "prepare_request i options r =
     r\<lparr>rq_request_id := i, rq_timeout_ms := of_int (co_timeout options),
       rq_trace_id := (if co_trace_id options = [] then ''rpc-'' @ decimal (unat i) else co_trace_id options),
       rq_serializer := (if rq_serializer r = [] then ''raw'' else rq_serializer r),
       rq_attempt := (if rq_attempt r = 0 then 1 else rq_attempt r)\<rparr>"

section \<open>The operations a thread goes through\<close>

datatype cl_op =
    Decide pending_call
  | Fail_Fast pending_call bool
  | Emplace pending_call bool
  | Set_State conn_state
  | Tcp_Connect
  | Tcp_Stop
  | Connect_Begin
  | Connect_Wait
  | Send_All
  | Collect
  | Send_One pending_call
  | Mark pending_call
  | Tcp_Send u64 string
  | On_Message
  | Complete_Response rpc_response
  | Complete_Pending pending_call rpc_response
  | Fail_One u64 rpc_error_code string
  | Fail_All rpc_error_code string
  | Fail_Sent rpc_error_code string
  | On_Up
  | On_Down
  | On_Error int string
  | Expire_Retries string
  | Schedule_Reconnect
  | Arm_Reconnect int
  | Store_Reconnect u64
  | Reconnect_Fires
  | Cancel_Reconnect
  | Cancel_Timer u64
  | Disconnect_Begin
  | Stop_Begin

text \<open>
  The start of \<open>callAsyncInternal\<close>, up to arming the deadline timer: nobody else sees the call
  before. The calls that fail here run their callback at once.
\<close>

definition cl_call :: "call_options \<Rightarrow> callback option \<Rightarrow> rpc_request \<Rightarrow> client \<Rightarrow> client \<times> cl_op list" where
  "cl_call options cb r c =
     (let (i, c) = next_request_id c;
          c = c\<lparr>cl_metrics := (cl_metrics c)\<lparr>cm_total := cm_total (cl_metrics c) + 1\<rparr>,
                cl_futures := (cl_futures c)(i \<mapsto> fu_new), cl_issued := cl_issued c @ [i],
                cl_wanted := (cl_wanted c)(i := cb)\<rparr>;
          r = prepare_request i options r
      in if co_timeout options \<le> 0
         then
           let p = client_error i Rpc_Timeout ''RPC call timed out before it was sent''
           in (run_callback i cb p (finish_future i p c), [])
         else case encode_request r of
           Inl e \<Rightarrow>
             let p = client_error i Rpc_Protocol_Error (exn_what e)
             in (run_callback i cb p (finish_future i p c), [])
         | Inr f \<Rightarrow>
             let c = c\<lparr>cl_futures := (cl_futures c)(i := map_option fu_set_cancel (cl_futures c i))\<rparr>;
                 (t, c') = run_after (Deadline_Timer i) c
             in (c', [Decide \<lparr>pc_request_id = i, pc_request = r, pc_options = options,
                       pc_state = Waiting_To_Send, pc_deadline = cl_now c + co_timeout options * 1000000,
                       pc_callback = cb, pc_timer = t, pc_frame = f\<rparr>]))"

text \<open>The table of pending calls: \<open>find\<close>, \<open>erase\<close>, \<open>emplace\<close>.\<close>

definition find_pending :: "u64 \<Rightarrow> pending_call list \<Rightarrow> pending_call option" where
  "find_pending i ps = List.find (\<lambda>p. pc_request_id p = i) ps"

definition erase_pending :: "u64 \<Rightarrow> pending_call list \<Rightarrow> pending_call list" where
  "erase_pending i ps = filter (\<lambda>p. pc_request_id p \<noteq> i) ps"

definition emplace_pending :: "pending_call \<Rightarrow> pending_call list \<Rightarrow> pending_call list" where
  "emplace_pending p ps = (if find_pending (pc_request_id p) ps = None then p # ps else ps)"

fun failed_state :: "rpc_error_code \<Rightarrow> pending_state" where
  "failed_state Rpc_Timeout = Timed_Out"
| "failed_state Queueing_Timeout = Timed_Out"
| "failed_state Cancelled = Ps_Cancelled"
| "failed_state _ = Failed"

text \<open>
  The loop of \<open>expireRetryExhaustedPending\<close>: the exhausted calls, the table that stays, and
  whether a call still waits.
\<close>

fun expire_retries :: "pending_call list \<Rightarrow> pending_call list \<times> pending_call list \<times> bool" where
  "expire_retries [] = ([], [], False)"
| "expire_retries (p # ps) =
     (let (gone, kept, waiting) = expire_retries ps
      in if pc_state p \<noteq> Waiting_To_Send then (gone, p # kept, waiting)
         else if co_retry_enabled (pc_options p)
         then
           let attempt = rq_attempt (pc_request p);
               retries = (if attempt = 0 then 0 else attempt - 1)
           in if ucast retries \<ge> co_max_retries (pc_options p)
              then (p\<lparr>pc_state := Failed\<rparr> # gone, kept, waiting)
              else (gone, p\<lparr>pc_request := (pc_request p)\<lparr>rq_attempt := attempt + 1\<rparr>\<rparr> # kept, True)
         else (gone, p # kept, True))"

text \<open>
  Running one operation: the new state, the operations the same thread goes on with, and the
  threads it starts (a timer is cancelled by the event loop, later). \<open>up\<close> says whether the TCP
  client has a connection, \<open>timed_out\<close> whether a wait has run out of time. \<open>None\<close>: the thread
  stays blocked.
\<close>

type_synonym cl_effect = "(client \<times> cl_op list \<times> cl_op list list) option"

definition go :: "client \<Rightarrow> cl_op list \<Rightarrow> cl_effect" where
  "go c ops = Some (c, ops, [])"

definition complete_pending :: "pending_call \<Rightarrow> rpc_response \<Rightarrow> client \<Rightarrow> cl_effect" where
  "complete_pending p r c =
     (let i = pc_request_id p;
          c = finish_future i r c;
          answer = (case cl_futures c i of Some f \<Rightarrow> fu_response f | None \<Rightarrow> default_response)
      in Some (run_callback i (pc_callback p) answer c, [],
               if pc_timer p \<noteq> 0 then [[Cancel_Timer (pc_timer p)]] else []))"

text \<open>
  Failing calls taken out of the table. Their new state, \<open>TimedOut\<close>, \<open>Cancelled\<close> or
  \<open>Failed\<close>, is not read any more.
\<close>

definition fail_calls :: "rpc_error_code \<Rightarrow> string \<Rightarrow> pending_call list \<Rightarrow> cl_op list" where
  "fail_calls code message ps =
     map (\<lambda>p. Complete_Pending (p\<lparr>pc_state := failed_state code\<rparr>)
                (client_error (pc_request_id p) code message)) ps"

definition sent_or_fail_fast :: "pending_call \<Rightarrow> bool" where
  "sent_or_fail_fast p \<longleftrightarrow> pc_state p = Sent \<or> co_fail_fast (pc_options p)"

text \<open>The decision of \<open>callAsyncInternal\<close> under the state mutex.\<close>

definition decide_call :: "pending_call \<Rightarrow> client \<Rightarrow> client \<times> cl_op list" where
  "decide_call p c =
     (if cl_stopping c then (c, [Fail_Fast p True])
      else if cl_conn c = Connected then (c, [Emplace p False])
      else if co_fail_fast (pc_options p) then (c, [Fail_Fast p False])
      else
        let start = (cl_conn c = Disconnected);
            c = c\<lparr>cl_desired := True\<rparr>
        in (if start then c\<lparr>cl_conn := Connecting\<rparr> else c, [Emplace p start]))"

definition fail_fast :: "pending_call \<Rightarrow> bool \<Rightarrow> client \<Rightarrow> cl_effect" where
  "fail_fast p stopping c =
     (let i = pc_request_id p;
          r = client_error i (if stopping then Client_Stopping else Network_Error)
                (if stopping then ''RPC client is stopping'' else ''RPC client is not connected'')
      in Some ((run_callback i (moved_callback (pc_callback p)) r (finish_future i r c))\<lparr>cl_refused := cl_refused c @ [i]\<rparr>, [],
               [[Cancel_Timer (pc_timer p)]]))"

definition mark_sent :: "pending_call \<Rightarrow> client \<Rightarrow> cl_effect" where
  "mark_sent p c =
     (case find_pending (pc_request_id p) (cl_pending c) of
        None \<Rightarrow> go c []
      | Some q \<Rightarrow>
          if pc_state q \<noteq> Waiting_To_Send then go c []
          else go (c\<lparr>cl_pending := map (\<lambda>q. if pc_request_id q = pc_request_id p
                                             then q\<lparr>pc_state := Sent\<rparr> else q) (cl_pending c)\<rparr>)
                  [Tcp_Send (pc_request_id p) (pc_frame p)])"

definition read_response :: "client \<Rightarrow> cl_effect" where
  "read_response c =
     (case try_decode_response (cl_input c) of
        Inl e \<Rightarrow> None
      | Inr (Need_More_Data, b) \<Rightarrow> go (c\<lparr>cl_input := b\<rparr>) []
      | Inr (Protocol_Error, b) \<Rightarrow>
          go (c\<lparr>cl_input := b\<rparr>)
             [Fail_All Rpc_Protocol_Error ''server returned an invalid RPC response'', Tcp_Stop]
      | Inr (Complete r, b) \<Rightarrow> go (c\<lparr>cl_input := b\<rparr>) [Complete_Response r, On_Message])"

definition complete_response :: "rpc_response \<Rightarrow> client \<Rightarrow> cl_effect" where
  "complete_response r c =
     (case find_pending (rs_request_id r) (cl_pending c) of
        None \<Rightarrow> go c []
      | Some p \<Rightarrow> go (c\<lparr>cl_pending := erase_pending (rs_request_id r) (cl_pending c)\<rparr>)
                    [Complete_Pending (p\<lparr>pc_state := Completed\<rparr>) r])"

definition fail_one :: "u64 \<Rightarrow> rpc_error_code \<Rightarrow> string \<Rightarrow> client \<Rightarrow> cl_effect" where
  "fail_one i code message c =
     (case find_pending i (cl_pending c) of
        None \<Rightarrow> go c []
      | Some p \<Rightarrow> go (c\<lparr>cl_pending := erase_pending i (cl_pending c)\<rparr>) (fail_calls code message [p]))"

definition fail_sent :: "rpc_error_code \<Rightarrow> string \<Rightarrow> client \<Rightarrow> cl_effect" where
  "fail_sent code message c =
     go (c\<lparr>cl_pending := filter (\<lambda>p. \<not> sent_or_fail_fast p) (cl_pending c)\<rparr>)
        (fail_calls code message (filter sent_or_fail_fast (cl_pending c)))"

definition expire_step :: "string \<Rightarrow> client \<Rightarrow> cl_effect" where
  "expire_step message c =
     (let (gone, kept, waiting) = expire_retries (cl_pending c)
      in go (c\<lparr>cl_pending := kept\<rparr>)
            (map (\<lambda>p. Complete_Pending p (client_error (pc_request_id p) Retry_Exhausted
                        ''RPC retry attempts exhausted'')) gone @
             (if waiting then [Set_State Reconnecting, Schedule_Reconnect]
              else [Set_State Disconnected, Fail_All Network_Error message])))"

definition start_connect :: "conn_state \<Rightarrow> cl_op list" where
  "start_connect st = [Set_State st, Tcp_Connect]"

definition connect_begin :: "client \<Rightarrow> cl_effect" where
  "connect_begin c =
     (if cl_stopping c then go c []
      else
        let c = c\<lparr>cl_desired := True, cl_error := 0\<rparr>
        in if cl_conn c = Connected then go c []
           else if cl_conn c = Disconnected
           then go (c\<lparr>cl_conn := Connecting\<rparr>) (start_connect Connecting @ [Connect_Wait])
           else go c [Connect_Wait])"

definition connect_wait :: "bool \<Rightarrow> client \<Rightarrow> cl_effect" where
  "connect_wait timed_out c =
     (let observed = (cl_conn c = Connected \<or> cl_conn c = Disconnected \<or> cl_stopping c)
      in if \<not> observed \<and> \<not> timed_out then None
         else if \<not> observed \<or> cl_conn c \<noteq> Connected
         then go (c\<lparr>cl_desired := False, cl_conn := Disconnected\<rparr>) [Cancel_Reconnect, Tcp_Stop]
         else go c [])"

definition schedule_reconnect :: "client \<Rightarrow> cl_effect" where
  "schedule_reconnect c =
     (if \<not> cl_desired c \<or> cl_stopping c \<or> cl_reconnect_timer c \<noteq> 0 then go c []
      else go (c\<lparr>cl_delay := min max_reconnect_delay (cl_delay c * 2)\<rparr>) [Arm_Reconnect (cl_delay c)])"

definition set_state :: "conn_state \<Rightarrow> client \<Rightarrow> client" where
  "set_state st c =
     (let c = c\<lparr>cl_conn := st\<rparr>
      in if st = Reconnecting
         then c\<lparr>cl_metrics := (cl_metrics c)\<lparr>cm_reconnect := cm_reconnect (cl_metrics c) + 1\<rparr>\<rparr>
         else c)"

definition send_pending_calls :: "client \<Rightarrow> cl_effect" where
  "send_pending_calls c = go c (if cl_conn c \<noteq> Connected then [] else [Collect])"

definition collect_waiting :: "client \<Rightarrow> cl_effect" where
  "collect_waiting c = go c (map Send_One (filter (\<lambda>p. pc_state p = Waiting_To_Send) (cl_pending c)))"

definition send_pending_call :: "bool \<Rightarrow> pending_call \<Rightarrow> client \<Rightarrow> cl_effect" where
  "send_pending_call up p c =
     go c (if cl_now c \<ge> pc_deadline p
           then [Fail_One (pc_request_id p) Queueing_Timeout ''RPC call timed out before it was sent'']
           else if \<not> up then [] else [Mark p])"

definition on_connected :: "client \<Rightarrow> cl_effect" where
  "on_connected c = go (c\<lparr>cl_delay := initial_reconnect_delay\<rparr>) [Set_State Connected, Send_All]"

definition on_disconnected :: "client \<Rightarrow> cl_effect" where
  "on_disconnected c =
     go c (Fail_Sent Network_Error ''RPC connection closed'' #
           (if cl_desired c \<and> \<not> cl_stopping c then [Set_State Reconnecting, Schedule_Reconnect]
            else [Set_State Disconnected, Fail_All Network_Error ''RPC connection closed'']))"

definition on_connection_error :: "int \<Rightarrow> string \<Rightarrow> client \<Rightarrow> cl_effect" where
  "on_connection_error e message c =
     go (c\<lparr>cl_error := e\<rparr>)
        (if cl_desired c \<and> \<not> cl_stopping c then [Expire_Retries message]
         else [Set_State Disconnected, Fail_All Network_Error message])"

definition reconnect_fires :: "client \<Rightarrow> cl_effect" where
  "reconnect_fires c =
     go (c\<lparr>cl_reconnect_timer := 0\<rparr>)
        (if \<not> cl_desired c \<or> cl_stopping c then [] else start_connect Reconnecting)"

definition cancel_reconnect :: "client \<Rightarrow> cl_effect" where
  "cancel_reconnect c =
     Some (c\<lparr>cl_reconnect_timer := 0\<rparr>, [],
           if cl_reconnect_timer c \<noteq> 0 then [[Cancel_Timer (cl_reconnect_timer c)]] else [])"

definition disconnect_begin :: "client \<Rightarrow> cl_effect" where
  "disconnect_begin c =
     go (c\<lparr>cl_desired := False, cl_conn := Disconnected\<rparr>)
        [Cancel_Reconnect, Fail_All Network_Error ''RPC connection closed'', Tcp_Stop, Set_State Disconnected]"

definition stop_begin :: "client \<Rightarrow> cl_effect" where
  "stop_begin c =
     go (c\<lparr>cl_stopping := True, cl_desired := False, cl_conn := Cl_Stopping\<rparr>)
        [Cancel_Reconnect, Fail_All Client_Stopping ''RPC client is stopping'', Tcp_Stop]"

fun cl_exec :: "bool \<Rightarrow> bool \<Rightarrow> cl_op \<Rightarrow> client \<Rightarrow> cl_effect" where
  "cl_exec up timed_out (Decide p) c = (let (c, ops) = decide_call p c in go c ops)"
| "cl_exec up timed_out (Fail_Fast p stopping) c = fail_fast p stopping c"
| "cl_exec up timed_out (Emplace p start) c =
     go (c\<lparr>cl_pending := emplace_pending p (cl_pending c)\<rparr>)
        ((if start then start_connect Connecting else []) @ [Send_All])"
| "cl_exec up timed_out (Set_State st) c = go (set_state st c) []"
| "cl_exec up timed_out Tcp_Connect c = go (c\<lparr>cl_tcp := cl_tcp c @ [Tcp_Connected]\<rparr>) []"
| "cl_exec up timed_out Tcp_Stop c = go (c\<lparr>cl_tcp := cl_tcp c @ [Tcp_Stopped]\<rparr>) []"
| "cl_exec up timed_out Connect_Begin c = connect_begin c"
| "cl_exec up timed_out Connect_Wait c = connect_wait timed_out c"
| "cl_exec up timed_out Send_All c = send_pending_calls c"
| "cl_exec up timed_out Collect c = collect_waiting c"
| "cl_exec up timed_out (Send_One p) c = send_pending_call up p c"
| "cl_exec up timed_out (Mark p) c = mark_sent p c"
| "cl_exec up timed_out (Tcp_Send i f) c = go (c\<lparr>cl_sent := cl_sent c @ [(i, f)]\<rparr>) []"
| "cl_exec up timed_out On_Message c = read_response c"
| "cl_exec up timed_out (Complete_Response r) c = complete_response r c"
| "cl_exec up timed_out (Complete_Pending p r) c = complete_pending p r c"
| "cl_exec up timed_out (Fail_One i code message) c = fail_one i code message c"
| "cl_exec up timed_out (Fail_All code message) c =
     go (c\<lparr>cl_pending := []\<rparr>) (fail_calls code message (cl_pending c))"
| "cl_exec up timed_out (Fail_Sent code message) c = fail_sent code message c"
| "cl_exec up timed_out On_Up c = on_connected c"
| "cl_exec up timed_out On_Down c = on_disconnected c"
| "cl_exec up timed_out (On_Error e message) c = on_connection_error e message c"
| "cl_exec up timed_out (Expire_Retries message) c = expire_step message c"
| "cl_exec up timed_out Schedule_Reconnect c = schedule_reconnect c"
| "cl_exec up timed_out (Arm_Reconnect delay) c =
     (let (t, c) = run_after Reconnect_Timer c in go c [Store_Reconnect t])"
| "cl_exec up timed_out (Store_Reconnect t) c = go (c\<lparr>cl_reconnect_timer := t\<rparr>) []"
| "cl_exec up timed_out Reconnect_Fires c = reconnect_fires c"
| "cl_exec up timed_out Cancel_Reconnect c = cancel_reconnect c"
| "cl_exec up timed_out (Cancel_Timer t) c = go (c\<lparr>cl_timers := (cl_timers c)(t := None)\<rparr>) []"
| "cl_exec up timed_out Disconnect_Begin c = disconnect_begin c"
| "cl_exec up timed_out Stop_Begin c = stop_begin c"

section \<open>All threads together\<close>

record csys =
  cs_client :: client
  cs_threads :: "cl_op list list"

text \<open>What starts a thread: an application's call of the public interface, an event of the loop.\<close>

fun timer_ops :: "loop_timer \<Rightarrow> cl_op list" where
  "timer_ops (Deadline_Timer i) = [Fail_One i Rpc_Timeout ''RPC call timed out'']"
| "timer_ops Reconnect_Timer = [Reconnect_Fires]"

inductive cl_entry :: "client \<Rightarrow> client \<Rightarrow> cl_op list \<Rightarrow> bool" where
  ce_call: "cl_next_request c \<noteq> 0 \<Longrightarrow> cl_call options cb r c = (c', ops) \<Longrightarrow> cl_entry c c' ops"
| ce_cancel: "cl_futures c i = Some f \<Longrightarrow> fu_cancels f \<Longrightarrow>
    cl_entry c c [Fail_One i Cancelled ''RPC call cancelled'']"
| ce_connect: "cl_entry c c [Connect_Begin]"
| ce_disconnect: "cl_entry c c [Disconnect_Begin]"
| ce_stop: "cl_entry c c [Stop_Begin]"
| ce_up: "cl_entry c (c\<lparr>cl_input := nb_new\<rparr>) [On_Up]"
| ce_down: "cl_entry c c [On_Down]"
| ce_error: "cl_entry c c [On_Error e message]"
| ce_bytes: "nb_append data (cl_input c) = Inr b \<Longrightarrow> cl_entry c (c\<lparr>cl_input := b\<rparr>) [On_Message]"
| ce_timer: "cl_timers c t = Some x \<Longrightarrow>
    cl_entry c (c\<lparr>cl_timers := (cl_timers c)(t := None)\<rparr>) (timer_ops x)"

inductive cl_step :: "csys \<Rightarrow> csys \<Rightarrow> bool" where
  cls_entry: "cl_entry (cs_client y) c ops \<Longrightarrow>
    cl_step y (y\<lparr>cs_client := c, cs_threads := cs_threads y @ [ops]\<rparr>)"
| cls_exec: "k < length (cs_threads y) \<Longrightarrow> cs_threads y ! k = o1 # rest \<Longrightarrow>
    cl_exec up timed_out o1 (cs_client y) = Some (c, ops, started) \<Longrightarrow>
    cl_step y (y\<lparr>cs_client := c, cs_threads := (cs_threads y)[k := ops @ rest] @ started\<rparr>)"
| cls_time: "cl_now (cs_client y) \<le> now \<Longrightarrow>
    cl_step y (y\<lparr>cs_client := (cs_client y)\<lparr>cl_now := now\<rparr>\<rparr>)"
| cls_rehash: "mset ps = mset (cl_pending (cs_client y)) \<Longrightarrow>
    cl_step y (y\<lparr>cs_client := (cs_client y)\<lparr>cl_pending := ps\<rparr>\<rparr>)"

definition cl_init :: "csys \<Rightarrow> bool" where
  "cl_init y \<longleftrightarrow> y = \<lparr>cs_client = cl_new, cs_threads = []\<rparr>"

section \<open>Every call is in one place\<close>

text \<open>The calls an operation has to bring to an end.\<close>

fun op_toks :: "cl_op \<Rightarrow> u64 multiset" where
  "op_toks (Decide p) = {#pc_request_id p#}"
| "op_toks (Fail_Fast p stopping) = {#pc_request_id p#}"
| "op_toks (Emplace p start) = {#pc_request_id p#}"
| "op_toks (Complete_Pending p r) = {#pc_request_id p#}"
| "op_toks _ = {#}"

text \<open>The frames an operation may still hand to the connection.\<close>

fun op_sends :: "cl_op \<Rightarrow> u64 multiset" where
  "op_sends (Decide p) = {#pc_request_id p#}"
| "op_sends (Fail_Fast p stopping) = {#pc_request_id p#}"
| "op_sends (Emplace p start) = {#pc_request_id p#}"
| "op_sends (Tcp_Send i f) = {#i#}"
| "op_sends _ = {#}"

definition over :: "('o \<Rightarrow> 'b multiset) \<Rightarrow> 'o list \<Rightarrow> 'b multiset" where
  "over f ops = sum_list (map f ops)"

lemma over_simps [simp]:
  "over f [] = {#}" "over f (x # xs) = f x + over f xs" "over f (xs @ ys) = over f xs + over f ys"
  by (simp_all add: over_def)

lemma over_update:
  "k < length ts \<Longrightarrow> ts ! k = o1 # rest \<Longrightarrow>
   over (over f) (ts[k := ops @ rest]) + f o1 = over (over f) ts + over f ops"
  using sum_list_map_update [of k ts "over f" "ops @ rest"]
  by (simp add: over_def ac_simps)

lemma over_empty: "(\<And>x. x \<in> set xs \<Longrightarrow> f x = {#}) \<Longrightarrow> over f xs = {#}"
  by (induction xs) auto

definition ids :: "pending_call list \<Rightarrow> u64 multiset" where
  "ids ps = mset (map pc_request_id ps)"

definition waiting_ids :: "pending_call list \<Rightarrow> u64 multiset" where
  "waiting_ids ps = ids (filter (\<lambda>p. pc_state p = Waiting_To_Send) ps)"

definition done_ids :: "client \<Rightarrow> u64 multiset" where
  "done_ids c = mset (map fst (cl_done c))"

lemma ids_simps [simp]: "ids [] = {#}" "ids (p # ps) = {#pc_request_id p#} + ids ps"
  by (simp_all add: ids_def)

lemma waiting_ids_simps [simp]: "waiting_ids [] = {#}"
  "waiting_ids (p # ps) = (if pc_state p = Waiting_To_Send then {#pc_request_id p#} else {#}) + waiting_ids ps"
  by (simp_all add: waiting_ids_def)

lemma find_pending_Some: "find_pending i ps = Some p \<Longrightarrow> p \<in> set ps \<and> pc_request_id p = i"
  by (auto simp: find_pending_def find_Some_iff)

lemma find_pending_None: "find_pending i ps = None \<longleftrightarrow> i \<notin># ids ps"
  by (auto simp: find_pending_def find_None_iff ids_def)

lemma ids_filter: "ids ps = ids (filter P ps) + ids (filter (\<lambda>p. \<not> P p) ps)"
  by (induction ps) auto

lemma waiting_ids_filter: "waiting_ids (filter P ps) \<subseteq># waiting_ids ps"
proof (induction ps)
  case (Cons p ps)
  then show ?case
    using subset_mset.add_increasing [of "{#pc_request_id p#}"] by auto
qed simp

lemma ids_erase:
  assumes "i \<in># ids ps" "count (ids ps) i \<le> 1"
  shows "ids ps = {#i#} + ids (erase_pending i ps)"
proof -
  have "ids (filter (\<lambda>p. pc_request_id p = i) ps) = replicate_mset (count (ids ps) i) i"
    by (induction ps) auto
  moreover have "count (ids ps) i = 1"
    using assms count_greater_zero_iff [of "ids ps" i] by linarith
  ultimately show ?thesis
    using ids_filter [of ps "\<lambda>p. pc_request_id p = i"] by (simp add: erase_pending_def)
qed

lemma toks_fail_calls [simp]: "over op_toks (fail_calls code message ps) = ids ps"
  by (induction ps) (auto simp: fail_calls_def)

lemma sends_fail_calls [simp]: "over op_sends (fail_calls code message ps) = {#}"
  by (induction ps) (auto simp: fail_calls_def)

lemma over_send_one [simp]: "over op_toks (map Send_One ps) = {#}" "over op_sends (map Send_One ps) = {#}"
  by (induction ps) auto

lemma over_complete [simp]:
  "over op_toks (map (\<lambda>p. Complete_Pending p (g p)) ps) = ids ps"
  "over op_sends (map (\<lambda>p. Complete_Pending p (g p)) ps) = {#}"
  by (induction ps) auto

lemma expire_retries_ids:
  "expire_retries ps = (gone, kept, w) \<Longrightarrow> ids ps = ids gone + ids kept \<and> waiting_ids kept \<subseteq># waiting_ids ps"
  by (induction ps arbitrary: gone kept w)
    (auto simp: Let_def split: prod.splits if_splits intro: subset_mset.order_trans)

lemma mark_waiting:
  assumes "q \<in> set ps" "pc_state q = Waiting_To_Send" "pc_request_id q = i"
  shows "add_mset i (waiting_ids (map (\<lambda>q. if pc_request_id q = i then q\<lparr>pc_state := Sent\<rparr> else q) ps))
    \<subseteq># waiting_ids ps"
proof -
  have le: "waiting_ids (map (\<lambda>q. if pc_request_id q = i then q\<lparr>pc_state := Sent\<rparr> else q) ps)
    \<subseteq># waiting_ids ps" for ps
    by (induction ps) (auto intro: subset_mset.order_trans)
  show ?thesis
    using assms(1)
  proof (induction ps)
    case (Cons p ps)
    show ?case
    proof (cases "p = q")
      case True
      then show ?thesis using le [of ps] assms(2,3) by simp
    next
      case False
      with Cons have "add_mset i (waiting_ids (map (\<lambda>q. if pc_request_id q = i then q\<lparr>pc_state := Sent\<rparr> else q) ps))
        \<subseteq># waiting_ids ps" by simp
      then show ?thesis
        using le [of ps] by (auto simp: add_mset_commute)
    qed
  qed simp
qed

lemmas loop_ops_defs = send_pending_calls_def collect_waiting_def send_pending_call_def on_connected_def
  on_disconnected_def on_connection_error_def reconnect_fires_def cancel_reconnect_def disconnect_begin_def
  stop_begin_def start_connect_def

lemmas cl_ops_defs = loop_ops_defs go_def decide_call_def fail_fast_def mark_sent_def read_response_def
  complete_response_def complete_pending_def fail_one_def fail_sent_def expire_step_def connect_begin_def
  connect_wait_def schedule_reconnect_def set_state_def run_after_def finish_future_def run_callback_def
  moved_callback_def

lemma exec_toks:
  assumes "cl_exec up timed_out o1 c = Some (c', ops, started)"
    "\<forall>i. count (op_toks o1 + ids (cl_pending c)) i \<le> 1"
  shows "over op_toks ops + over (over op_toks) started + ids (cl_pending c') + done_ids c'
    = op_toks o1 + ids (cl_pending c) + done_ids c"
proof (cases o1)
  case (Emplace p start)
  with assms(2) have "count (ids (cl_pending c)) (pc_request_id p) = 0"
    by (auto dest: spec [of _ "pc_request_id p"])
  then show ?thesis
    using assms(1) Emplace by (auto simp: go_def start_connect_def emplace_pending_def find_pending_None count_eq_zero_iff
        done_ids_def split: if_splits)
next
  case (Complete_Response r)
  show ?thesis
  proof (cases "find_pending (rs_request_id r) (cl_pending c)")
    case (Some p)
    then have "ids (cl_pending c) = {#rs_request_id r#} + ids (erase_pending (rs_request_id r) (cl_pending c))"
      using assms(2) Complete_Response find_pending_None [of "rs_request_id r" "cl_pending c"]
      by (intro ids_erase) auto
    then show ?thesis
      using assms(1) Some find_pending_Some [OF Some] Complete_Response
      by (auto simp: complete_response_def go_def done_ids_def)
  qed (use assms(1) Complete_Response in \<open>auto simp: complete_response_def go_def\<close>)
next
  case (Fail_One i code message)
  show ?thesis
  proof (cases "find_pending i (cl_pending c)")
    case (Some p)
    then have "ids (cl_pending c) = {#i#} + ids (erase_pending i (cl_pending c))"
      using assms(2) Fail_One find_pending_None [of i "cl_pending c"]
      by (intro ids_erase) auto
    then show ?thesis
      using assms(1) Some find_pending_Some [OF Some] Fail_One
      by (auto simp: fail_one_def go_def done_ids_def)
  qed (use assms(1) Fail_One in \<open>auto simp: fail_one_def go_def\<close>)
next
  case (Mark p)
  have "ids (map (\<lambda>q. if pc_request_id q = i then q\<lparr>pc_state := Sent\<rparr> else q) ps) = ids ps" for i ps
    by (induction ps) auto
  then show ?thesis
    using assms(1) Mark by (auto simp: mark_sent_def go_def done_ids_def split: option.splits if_splits)
next
  case (Fail_Sent code message)
  then show ?thesis
    using assms(1) ids_filter [of "cl_pending c" sent_or_fail_fast]
    by (auto simp: fail_sent_def go_def done_ids_def)
next
  case (Expire_Retries message)
  then show ?thesis
    using assms(1) by (auto simp: expire_step_def go_def done_ids_def dest: expire_retries_ids split: prod.splits)
qed (use assms(1) in \<open>auto simp: cl_ops_defs done_ids_def Let_def
      split: if_splits option.splits sum.splits decoded.splits prod.splits\<close>)

lemma exec_sends:
  assumes "cl_exec up timed_out o1 c = Some (c', ops, started)"
  shows "over op_sends ops + over (over op_sends) started + waiting_ids (cl_pending c') + mset (map fst (cl_sent c'))
    \<subseteq># op_sends o1 + waiting_ids (cl_pending c) + mset (map fst (cl_sent c))"
proof (cases o1)
  case (Mark p)
  show ?thesis
  proof (cases "find_pending (pc_request_id p) (cl_pending c)")
    case (Some q)
    with find_pending_Some [OF Some] assms Mark show ?thesis
      using mark_waiting [of q "cl_pending c" "pc_request_id p"]
      by (auto simp: mark_sent_def go_def split: if_splits)
  qed (use assms Mark in \<open>auto simp: mark_sent_def go_def\<close>)
next
  case (Emplace p start)
  then show ?thesis
    using assms by (auto simp: go_def start_connect_def emplace_pending_def split: if_splits)
next
  case (Complete_Response r)
  then show ?thesis
    using assms by (auto simp: complete_response_def go_def erase_pending_def waiting_ids_filter split: option.splits)
next
  case (Fail_One i code message)
  then show ?thesis
    using assms by (auto simp: fail_one_def go_def erase_pending_def waiting_ids_filter split: option.splits)
next
  case (Fail_Sent code message)
  then show ?thesis
    using assms by (auto simp: fail_sent_def go_def waiting_ids_filter)
next
  case (Expire_Retries message)
  then show ?thesis
    using assms by (auto simp: expire_step_def go_def dest: expire_retries_ids split: prod.splits)
qed (use assms in \<open>auto simp: cl_ops_defs Let_def
      split: if_splits option.splits sum.splits decoded.splits prod.splits\<close>)

lemma exec_frame:
  assumes "cl_exec up timed_out o1 c = Some (c', ops, started)"
  shows "cl_issued c' = cl_issued c" "cl_next_request c' = cl_next_request c" "cl_wanted c' = cl_wanted c"
  using assms
  by (cases o1; auto simp: cl_ops_defs Let_def
      split: if_splits option.splits sum.splits decoded.splits prod.splits)+

text \<open>
  The calls issued are those in the threads, those in the table and those that have ended; a
  frame is sent only for a call that has not been sent.
\<close>

definition place_inv :: "csys \<Rightarrow> bool" where
  "place_inv y \<longleftrightarrow>
     (let c = cs_client y; ts = cs_threads y
      in distinct (cl_issued c) \<and>
         (cl_next_request c \<noteq> 0 \<longrightarrow> (\<forall>i \<in> set (cl_issued c). i < cl_next_request c)) \<and>
         over (over op_toks) ts + ids (cl_pending c) + done_ids c = mset (cl_issued c) \<and>
         over (over op_sends) ts + waiting_ids (cl_pending c) + mset (map fst (cl_sent c)) \<subseteq># mset (cl_issued c))"

lemma call_cases:
  assumes "cl_next_request c \<noteq> 0" "cl_call options cb r c = (c', ops)"
  obtains
    (ended) p code message where "ops = []" "rs_request_id p = cl_next_request c" "c' = run_callback (cl_next_request c) cb p
      (finish_future (cl_next_request c) p (c\<lparr>cl_next_request := cl_next_request c + 1,
         cl_metrics := (cl_metrics c)\<lparr>cm_total := cm_total (cl_metrics c) + 1\<rparr>,
         cl_futures := (cl_futures c)(cl_next_request c \<mapsto> fu_new),
         cl_issued := cl_issued c @ [cl_next_request c], cl_wanted := (cl_wanted c)(cl_next_request c := cb)\<rparr>))"
      "p = client_error (cl_next_request c) code message"
  | (started) f where "encode_request (prepare_request (cl_next_request c) options r) = Inr f"
      "ops = [Decide \<lparr>pc_request_id = cl_next_request c,
          pc_request = prepare_request (cl_next_request c) options r, pc_options = options,
          pc_state = Waiting_To_Send, pc_deadline = cl_now c + co_timeout options * 1000000,
          pc_callback = cb, pc_timer = cl_next_timer c, pc_frame = f\<rparr>]"
      "0 < co_timeout options"
      "c' = c\<lparr>cl_next_request := cl_next_request c + 1,
         cl_metrics := (cl_metrics c)\<lparr>cm_total := cm_total (cl_metrics c) + 1\<rparr>,
         cl_issued := cl_issued c @ [cl_next_request c], cl_wanted := (cl_wanted c)(cl_next_request c := cb),
         cl_futures := (cl_futures c)(cl_next_request c \<mapsto> fu_set_cancel fu_new),
         cl_timers := (cl_timers c)(cl_next_timer c \<mapsto> Deadline_Timer (cl_next_request c)),
         cl_next_timer := cl_next_timer c + 1\<rparr>"
proof (cases "co_timeout options \<le> 0")
  case True
  then show ?thesis
    using assms ended [OF _ _ _ refl, of Rpc_Timeout "''RPC call timed out before it was sent''"]
    by (simp add: cl_call_def next_request_id_def client_error_def default_response_def Let_def)
next
  case False
  show ?thesis
  proof (cases "encode_request (prepare_request (cl_next_request c) options r)")
    case (Inl e)
    then show ?thesis
      using assms False ended [OF _ _ _ refl, of Rpc_Protocol_Error "exn_what e"]
      by (simp add: cl_call_def next_request_id_def client_error_def default_response_def Let_def)
  next
    case (Inr f)
    then show ?thesis
      using assms False started by (simp add: cl_call_def next_request_id_def run_after_def Let_def)
  qed
qed

lemma place_once:
  assumes "place_inv y"
  shows "count (over (over op_toks) (cs_threads y) + ids (cl_pending (cs_client y)) + done_ids (cs_client y)) i \<le> 1"
proof -
  have "distinct (cl_issued (cs_client y))"
    using assms by (simp add: place_inv_def Let_def)
  moreover have "over (over op_toks) (cs_threads y) + ids (cl_pending (cs_client y)) + done_ids (cs_client y)
      = mset (cl_issued (cs_client y))"
    using assms by (simp only: place_inv_def Let_def)
  ultimately show ?thesis
    by (simp only: distinct_count_atmost_1) simp
qed

lemma over_nth:
  assumes "k < length ts" "ts ! k = o1 # rest"
  shows "f o1 \<subseteq># over (over f) ts"
proof -
  have "over f (ts ! k) \<subseteq># over (over f) ts"
    using assms(1)
  proof (induction ts arbitrary: k)
    case (Cons t ts)
    then show ?case
      by (cases k) (auto intro: subset_mset.order_trans [OF _ mset_subset_eq_add_right])
  qed simp
  then show ?thesis using assms(2) by (auto intro: subset_mset.order_trans [OF mset_subset_eq_add_left])
qed

lemma exec_once:
  assumes "place_inv y" "k < length (cs_threads y)" "cs_threads y ! k = o1 # rest"
  shows "count (op_toks o1 + ids (cl_pending (cs_client y)) + done_ids (cs_client y)) i \<le> 1"
proof -
  have "count (op_toks o1) i \<le> count (over (over op_toks) (cs_threads y)) i"
    using over_nth [OF assms(2,3), of op_toks] by (simp add: mset_subset_eq_count)
  then show ?thesis using place_once [OF assms(1), of i] by simp
qed

text \<open>An operation turns its share \<open>r\<close> into the share \<open>n\<close> of what it goes on with.\<close>

lemma share_eq:
  fixes A :: "'b multiset"
  assumes "A' + r = A + n" "n + R' = r + R"
  shows "A' + R' = A + R"
proof -
  have "(A' + R') + (n + r) = (A + R) + (n + r)"
    using assms by (metis add.assoc add.commute add.left_commute)
  then show ?thesis by simp
qed

lemma share_le:
  fixes A :: "'b multiset"
  assumes "A' + r = A + n" "n + R' \<subseteq># r + R"
  shows "A' + R' \<subseteq># A + R"
proof -
  obtain D where "r + R = (n + R') + D"
    using assms(2) by (metis subset_mset.le_iff_add)
  then have "A' + (R' + D) = A + R"
    using share_eq [OF assms(1), of "R' + D" R] by (simp add: add.assoc)
  then show ?thesis by (metis add.assoc mset_subset_eq_add_left)
qed

lemma place_exec:
  assumes "place_inv y" "k < length (cs_threads y)" "cs_threads y ! k = o1 # rest"
    "cl_exec up timed_out o1 (cs_client y) = Some (c, ops, started)"
  shows "place_inv (y\<lparr>cs_client := c, cs_threads := (cs_threads y)[k := ops @ rest] @ started\<rparr>)"
proof -
  let ?T = "over (over op_toks)" and ?S = "over (over op_sends)"
  let ?ts = "(cs_threads y)[k := ops @ rest]"
  let ?P = "\<lambda>c. ids (cl_pending c) + done_ids c"
  let ?W = "\<lambda>c. waiting_ids (cl_pending c) + mset (map fst (cl_sent c))"
  have "count (op_toks o1 + ids (cl_pending (cs_client y))) i \<le> 1" for i
    using exec_once [OF assms(1-3), of i] by simp
  then have "over op_toks ops + (?T started + ?P c) = op_toks o1 + ?P (cs_client y)"
    using exec_toks [OF assms(4)] by (simp add: add.assoc)
  then have 1: "?T ?ts + (?T started + ?P c) = ?T (cs_threads y) + ?P (cs_client y)"
    by (rule share_eq [OF over_update [OF assms(2,3)]])
  have "over op_sends ops + (?S started + ?W c) \<subseteq># op_sends o1 + ?W (cs_client y)"
    using exec_sends [OF assms(4)] by (simp add: add.assoc)
  then have 2: "?S ?ts + (?S started + ?W c) \<subseteq># ?S (cs_threads y) + ?W (cs_client y)"
    by (rule share_le [OF over_update [OF assms(2,3)]])
  show ?thesis
    using assms(1) 1 subset_mset.order_trans [OF 2] exec_frame [OF assms(4)]
    by (simp add: place_inv_def Let_def add.assoc)
qed

lemma word_Suc_less:
  fixes n :: u64
  assumes "i \<le> n" "n + 1 \<noteq> 0"
  shows "i < n + 1"
  using assms unatSuc [of n] by (simp add: word_less_nat_alt word_le_nat_alt add.commute)

lemma place_call:
  assumes "place_inv y" "cl_next_request (cs_client y) \<noteq> 0"
    "cl_call options cb r (cs_client y) = (c, ops)"
  shows "place_inv (y\<lparr>cs_client := c, cs_threads := cs_threads y @ [ops]\<rparr>)"
proof -
  let ?n = "cl_next_request (cs_client y)"
  have d: "distinct (cl_issued (cs_client y) @ [?n])"
    using assms(1,2) by (auto simp: place_inv_def Let_def)
  have o: "?n + 1 \<noteq> 0 \<longrightarrow> (\<forall>i \<in> set (cl_issued (cs_client y) @ [?n]). i < ?n + 1)"
    using assms(1,2) by (auto simp: place_inv_def Let_def intro!: word_Suc_less)
  from assms(2,3) show ?thesis
  proof (cases rule: call_cases)
    case (ended p)
    have "over (over op_sends) (cs_threads y) + waiting_ids (cl_pending (cs_client y)) +
        mset (map fst (cl_sent (cs_client y))) \<subseteq># add_mset ?n (mset (cl_issued (cs_client y)))"
      using assms(1) by (auto simp: place_inv_def Let_def intro: subset_mset.order_trans)
    with ended assms(1) d o show ?thesis
      by (auto simp: place_inv_def Let_def finish_future_def run_callback_def done_ids_def split: option.splits)
  next
    case (started f)
    with assms(1) d o show ?thesis
      by (auto simp: place_inv_def Let_def done_ids_def add.assoc)
  qed
qed

lemma place_entry:
  assumes "place_inv y" "cl_entry (cs_client y) c ops"
  shows "place_inv (y\<lparr>cs_client := c, cs_threads := cs_threads y @ [ops]\<rparr>)"
  using assms(2)
proof cases
  case ce_call
  then show ?thesis using place_call [OF assms(1)] by blast
next
  case (ce_timer t x)
  then show ?thesis using assms(1) by (cases x) (auto simp: place_inv_def done_ids_def Let_def)
qed (use assms(1) in \<open>auto simp: place_inv_def done_ids_def Let_def\<close>)

lemma place_step: "cl_step y y' \<Longrightarrow> place_inv y \<Longrightarrow> place_inv y'"
proof (induction rule: cl_step.induct)
  case (cls_rehash ps y)
  then have "ids ps = ids (cl_pending (cs_client y))" "waiting_ids ps = waiting_ids (cl_pending (cs_client y))"
    by (simp_all add: ids_def waiting_ids_def)
  with cls_rehash show ?case by (simp add: place_inv_def done_ids_def Let_def)
next
  case cls_entry
  then show ?case using place_entry by blast
next
  case cls_exec
  then show ?case using place_exec by blast
qed (simp add: place_inv_def done_ids_def Let_def)

section \<open>How calls end\<close>

definition coded :: "(i32 \<Rightarrow> bool) \<Rightarrow> (u64 \<times> rpc_response) list \<Rightarrow> u64" where
  "coded P ds = of_nat (length (filter (\<lambda>(i, r). P (rs_error_code r)) ds))"

definition is_timeout :: "i32 \<Rightarrow> bool" where
  "is_timeout e \<longleftrightarrow> e = error_code_value Rpc_Timeout \<or> e = error_code_value Queueing_Timeout"

definition metrics_ok :: "client \<Rightarrow> bool" where
  "metrics_ok c \<longleftrightarrow>
     cm_total (cl_metrics c) = of_nat (length (cl_issued c)) \<and>
     cm_success (cl_metrics c) = coded (\<lambda>e. e = 0) (cl_done c) \<and>
     cm_failed (cl_metrics c) = coded (\<lambda>e. e \<noteq> 0) (cl_done c) \<and>
     cm_timeout (cl_metrics c) = coded is_timeout (cl_done c) \<and>
     cm_cancelled (cl_metrics c) = coded (\<lambda>e. e = error_code_value Cancelled) (cl_done c)"

definition futures_ok :: "client \<Rightarrow> bool" where
  "futures_ok c \<longleftrightarrow>
     (\<forall>i \<in> set (cl_issued c). \<exists>f. cl_futures c i = Some f \<and>
        (fu_completed f \<longleftrightarrow> i \<in># done_ids c) \<and> (fu_completed f \<longrightarrow> (i, fu_response f) \<in> set (cl_done c)))"

definition ans_ok :: "client \<Rightarrow> bool" where
  "ans_ok c \<longleftrightarrow> metrics_ok c \<and> futures_ok c \<and> (\<forall>(i, r) \<in> set (cl_done c). rs_request_id r = i) \<and>
     mset (map (\<lambda>(i, k, r). (i, r)) (cl_callbacks c)) \<subseteq># mset (cl_done c)"

lemma metrics_finish:
  "metrics_ok c \<Longrightarrow> metrics_ok (run_callback i cb r (finish_future i r c))"
  by (auto simp: metrics_ok_def coded_def finish_future_def run_callback_def record_client_response_def
      is_timeout_def Let_def split: option.splits)

lemma futures_finish:
  assumes "futures_ok c" "i \<notin># done_ids c"
  shows "futures_ok (run_callback i cb r (finish_future i r c))"
proof -
  have "\<exists>f. cl_futures c j = Some f \<and> (fu_completed f \<longleftrightarrow> j \<in># done_ids c) \<and>
      (fu_completed f \<longrightarrow> (j, fu_response f) \<in> set (cl_done c))" if "j \<in> set (cl_issued c)" for j
    using assms(1) that by (simp add: futures_ok_def)
  then show ?thesis
    using assms(2)
    by (fastforce simp: futures_ok_def finish_future_def run_callback_def fu_complete_def done_ids_def
        split: option.splits)
qed

lemma finish_response:
  assumes "futures_ok c" "i \<in> set (cl_issued c)" "i \<notin># done_ids c"
  shows "(case cl_futures (finish_future i r c) i of Some f \<Rightarrow> fu_response f | None \<Rightarrow> default_response) = r"
  using assms by (force simp: futures_ok_def finish_future_def fu_complete_def)

lemma ans_finish:
  assumes "ans_ok c" "i \<notin># done_ids c" "rs_request_id r = i"
  shows "ans_ok (run_callback i cb r (finish_future i r c))"
proof -
  have "mset (map (\<lambda>(i, k, r). (i, r)) (cl_callbacks c)) \<subseteq># mset (cl_done c)"
    using assms(1) by (simp add: ans_ok_def)
  then have "mset (map (\<lambda>(i, k, r). (i, r)) (cl_callbacks (run_callback i cb r (finish_future i r c))))
      \<subseteq># mset (cl_done (run_callback i cb r (finish_future i r c)))"
    by (auto simp: run_callback_def finish_future_def split: option.splits
        intro: subset_mset.order_trans)
  moreover have "\<forall>(j, p) \<in> set (cl_done (run_callback i cb r (finish_future i r c))). rs_request_id p = j"
    using assms(1,3) by (auto simp: ans_ok_def run_callback_def finish_future_def split: option.splits)
  ultimately show ?thesis
    using assms metrics_finish [of c i cb r] futures_finish [of c i cb r] by (simp add: ans_ok_def)
qed

lemma exec_answers_frame:
  assumes "cl_exec up timed_out o1 c = Some (c', ops, started)"
    "\<And>p r. o1 \<noteq> Complete_Pending p r" "\<And>p b. o1 \<noteq> Fail_Fast p b"
  shows "cl_done c' = cl_done c \<and> cl_futures c' = cl_futures c \<and> cl_callbacks c' = cl_callbacks c \<and>
    cl_refused c' = cl_refused c \<and>
    cm_total (cl_metrics c') = cm_total (cl_metrics c) \<and>
    cm_success (cl_metrics c') = cm_success (cl_metrics c) \<and>
    cm_failed (cl_metrics c') = cm_failed (cl_metrics c) \<and>
    cm_timeout (cl_metrics c') = cm_timeout (cl_metrics c) \<and>
    cm_cancelled (cl_metrics c') = cm_cancelled (cl_metrics c)"
  using assms
  by (cases o1; simp add: cl_ops_defs Let_def
      split: if_splits option.splits sum.splits decoded.splits prod.splits; force)

lemma ans_frame:
  assumes "ans_ok c" "cl_done c' = cl_done c" "cl_futures c' = cl_futures c" "cl_callbacks c' = cl_callbacks c"
    "cm_total (cl_metrics c') = cm_total (cl_metrics c)" "cm_success (cl_metrics c') = cm_success (cl_metrics c)"
    "cm_failed (cl_metrics c') = cm_failed (cl_metrics c)" "cm_timeout (cl_metrics c') = cm_timeout (cl_metrics c)"
    "cm_cancelled (cl_metrics c') = cm_cancelled (cl_metrics c)" "cl_issued c' = cl_issued c"
  shows "ans_ok c'"
  using assms by (simp add: ans_ok_def metrics_ok_def futures_ok_def done_ids_def)

section \<open>What is sent, and the reconnect delay\<close>

definition frame_of :: "u64 \<Rightarrow> string \<Rightarrow> bool" where
  "frame_of i f \<longleftrightarrow> (\<exists>r. rq_request_id r = i \<and> encode_request r = Inr f)"

abbreviation pend_ok :: "pending_call \<Rightarrow> bool" where
  "pend_ok p \<equiv> frame_of (pc_request_id p) (pc_frame p)"

fun op_ok :: "cl_op \<Rightarrow> bool" where
  "op_ok (Decide p) = pend_ok p"
| "op_ok (Fail_Fast p stopping) = pend_ok p"
| "op_ok (Emplace p start) = pend_ok p"
| "op_ok (Send_One p) = pend_ok p"
| "op_ok (Mark p) = pend_ok p"
| "op_ok (Tcp_Send i f) = frame_of i f"
| "op_ok (Complete_Pending p r) = (rs_request_id r = pc_request_id p)"
| "op_ok _ = True"

definition backoff_delays :: "int set" where
  "backoff_delays = {100, 200, 400, 800, 1600, 3000}"

definition data_ok :: "client \<Rightarrow> bool" where
  "data_ok c \<longleftrightarrow> (\<forall>p \<in> set (cl_pending c). pend_ok p) \<and> (\<forall>(i, f) \<in> set (cl_sent c). frame_of i f) \<and>
     cl_delay c \<in> backoff_delays"

lemma expire_retries_ok:
  "expire_retries ps = (gone, kept, w) \<Longrightarrow> \<forall>p \<in> set ps. pend_ok p \<Longrightarrow> \<forall>p \<in> set kept. pend_ok p"
  by (induction ps arbitrary: gone kept w) (auto simp: Let_def split: prod.splits if_splits)

lemma fail_calls_ok: "o1 \<in> set (fail_calls code message ps) \<Longrightarrow> op_ok o1"
  by (auto simp: fail_calls_def client_error_def)

lemma backoff_double: "d \<in> backoff_delays \<Longrightarrow> min max_reconnect_delay (d * 2) \<in> backoff_delays"
  by (auto simp: backoff_delays_def max_reconnect_delay_def)

lemma backoff_initial: "initial_reconnect_delay \<in> backoff_delays"
  by (simp add: backoff_delays_def initial_reconnect_delay_def)

lemma exec_data:
  assumes "cl_exec up timed_out o1 c = Some (c', ops, started)" "op_ok o1" "data_ok c"
  shows "data_ok c' \<and> (\<forall>o2 \<in> set ops. op_ok o2) \<and> (\<forall>t \<in> set started. \<forall>o2 \<in> set t. op_ok o2)"
proof (cases o1)
  case (Expire_Retries message)
  then show ?thesis
    using assms by (auto simp: expire_step_def go_def data_ok_def client_error_def
        dest: expire_retries_ok split: prod.splits if_splits)
next
  case (Mark p)
  have "\<forall>q \<in> set (map (\<lambda>q. if pc_request_id q = i then q\<lparr>pc_state := Sent\<rparr> else q) (cl_pending c)). pend_ok q" for i
    using assms(3) by (auto simp: data_ok_def)
  with Mark show ?thesis
    using assms by (auto simp: mark_sent_def go_def data_ok_def simp del: set_map split: option.splits if_splits)
next
  case (Complete_Response r)
  then show ?thesis
    using assms by (auto simp: complete_response_def go_def data_ok_def erase_pending_def
        dest: find_pending_Some split: option.splits)
next
  case (Fail_One i code message)
  then show ?thesis
    using assms by (auto simp: fail_one_def go_def data_ok_def erase_pending_def
        dest: fail_calls_ok split: option.splits)
next
  case Schedule_Reconnect
  then show ?thesis
    using assms by (auto simp: schedule_reconnect_def go_def data_ok_def backoff_double split: if_splits)
next
  case (Emplace p start)
  then show ?thesis
    using assms by (auto simp: go_def start_connect_def data_ok_def emplace_pending_def split: if_splits)
qed (use assms in \<open>auto simp: cl_ops_defs data_ok_def Let_def backoff_initial
      dest: fail_calls_ok split: if_splits option.splits sum.splits decoded.splits prod.splits\<close>)

section \<open>Which callbacks run\<close>

text \<open>
  The response of a call that failed fast, and the callbacks of the calls that have ended: those
  of the refused calls were moved away before and are lost.
\<close>

definition refusal :: "u64 \<Rightarrow> bool \<Rightarrow> rpc_response" where
  "refusal i stopping = client_error i (if stopping then Client_Stopping else Network_Error)
     (if stopping then ''RPC client is stopping'' else ''RPC client is not connected'')"

definition due :: "(u64 \<rightharpoonup> callback) \<Rightarrow> u64 list \<Rightarrow> (u64 \<times> rpc_response) list \<Rightarrow> (u64 \<times> callback \<times> rpc_response) list" where
  "due wanted refused ds = concat (map (\<lambda>(i, r).
     case wanted i of Some k \<Rightarrow> if i \<in> set refused then [] else [(i, k, r)] | None \<Rightarrow> []) ds)"

definition wanted_by :: "(u64 \<rightharpoonup> callback) \<Rightarrow> pending_call \<Rightarrow> bool" where
  "wanted_by wanted p \<longleftrightarrow> wanted (pc_request_id p) = pc_callback p"

fun op_wanted :: "(u64 \<rightharpoonup> callback) \<Rightarrow> cl_op \<Rightarrow> bool" where
  "op_wanted W (Decide p) = wanted_by W p"
| "op_wanted W (Fail_Fast p stopping) = wanted_by W p"
| "op_wanted W (Emplace p start) = wanted_by W p"
| "op_wanted W (Complete_Pending p r) = wanted_by W p"
| "op_wanted W _ = True"

definition cb_ok :: "csys \<Rightarrow> bool" where
  "cb_ok y \<longleftrightarrow>
     (let c = cs_client y
      in cl_callbacks c = due (cl_wanted c) (cl_refused c) (cl_done c) \<and>
         (\<forall>i \<in> set (cl_refused c). \<exists>stopping. (i, refusal i stopping) \<in> set (cl_done c)) \<and>
         (\<forall>p \<in> set (cl_pending c). wanted_by (cl_wanted c) p) \<and>
         (\<forall>t \<in> set (cs_threads y). \<forall>o1 \<in> set t. op_wanted (cl_wanted c) o1))"

lemma refused_done: "cb_ok y \<Longrightarrow> set (cl_refused (cs_client y)) \<subseteq> set_mset (done_ids (cs_client y))"
  by (force simp: cb_ok_def Let_def done_ids_def)

lemma wanted_by_simps [simp]: "wanted_by W (p\<lparr>pc_state := st\<rparr>) = wanted_by W p" "wanted_by W (p\<lparr>pc_request := q\<rparr>) = wanted_by W p"
  by (simp_all add: wanted_by_def)

lemma due_cong:
  assumes "\<And>i r. (i, r) \<in> set ds \<Longrightarrow> W i = W' i \<and> (i \<in> set F \<longleftrightarrow> i \<in> set F')"
  shows "due W F ds = due W' F' ds"
  unfolding due_def using assms by (intro arg_cong [where f = concat] map_cong) (auto split: option.splits)

lemma due_snoc: "due W F (ds @ [(i, r)]) = due W F ds @
    (case W i of Some k \<Rightarrow> if i \<in> set F then [] else [(i, k, r)] | None \<Rightarrow> [])"
  by (simp add: due_def)

lemma run_finish_simps [simp]:
  "cl_wanted (run_callback i cb r c) = cl_wanted c" "cl_refused (run_callback i cb r c) = cl_refused c"
  "cl_done (run_callback i cb r c) = cl_done c" "cl_pending (run_callback i cb r c) = cl_pending c"
  "cl_callbacks (run_callback i cb r c) = cl_callbacks c @ (case cb of Some k \<Rightarrow> [(i, k, r)] | None \<Rightarrow> [])"
  "cl_wanted (finish_future i r c) = cl_wanted c" "cl_refused (finish_future i r c) = cl_refused c"
  "cl_done (finish_future i r c) = cl_done c @ [(i, r)]" "cl_callbacks (finish_future i r c) = cl_callbacks c"
  "cl_pending (finish_future i r c) = cl_pending c"
  by (auto simp: run_callback_def finish_future_def split: option.splits)

lemma expire_retries_wanted:
  "expire_retries ps = (gone, kept, w) \<Longrightarrow> \<forall>p \<in> set ps. wanted_by W p \<Longrightarrow>
   (\<forall>p \<in> set gone. wanted_by W p) \<and> (\<forall>p \<in> set kept. wanted_by W p)"
  by (induction ps arbitrary: gone kept w) (auto simp: Let_def split: prod.splits if_splits)

lemma fail_calls_wanted: "o1 \<in> set (fail_calls code message ps) \<Longrightarrow> \<forall>p \<in> set ps. wanted_by W p \<Longrightarrow> op_wanted W o1"
  by (auto simp: fail_calls_def)

lemma exec_wanted:
  assumes "cl_exec up timed_out o1 c = Some (c', ops, started)" "op_wanted W o1" "\<forall>p \<in> set (cl_pending c). wanted_by W p"
  shows "(\<forall>p \<in> set (cl_pending c'). wanted_by W p) \<and> (\<forall>o2 \<in> set ops. op_wanted W o2) \<and>
    (\<forall>t \<in> set started. \<forall>o2 \<in> set t. op_wanted W o2)"
proof (cases o1)
  case (Expire_Retries message)
  obtain gone kept waits where e: "expire_retries (cl_pending c) = (gone, kept, waits)" by (metis prod_cases3)
  show ?thesis
    using assms Expire_Retries expire_retries_wanted [OF e assms(3)] by (auto simp: expire_step_def go_def e split: if_splits)
next
  case (Mark p)
  have "\<forall>q \<in> set (map (\<lambda>q. if pc_request_id q = i then q\<lparr>pc_state := Sent\<rparr> else q) (cl_pending c)). wanted_by W q" for i
    using assms(3) by auto
  with Mark show ?thesis
    using assms by (auto simp: mark_sent_def go_def simp del: set_map split: option.splits if_splits)
next
  case (Complete_Response r)
  then show ?thesis
    using assms by (auto simp: complete_response_def go_def erase_pending_def
        dest: find_pending_Some split: option.splits)
next
  case (Fail_One i code message)
  have "\<forall>o2 \<in> set (fail_calls code message [p]). op_wanted W o2" if "find_pending i (cl_pending c) = Some p" for p
    using fail_calls_wanted [of _ code message "[p]" W] find_pending_Some [OF that] assms(3) by auto
  with Fail_One show ?thesis
    using assms by (auto simp: fail_one_def go_def erase_pending_def split: option.splits)
next
  case (Emplace p start)
  then show ?thesis
    using assms by (auto simp: go_def start_connect_def emplace_pending_def split: if_splits)
next
  case (Fail_All code message)
  then show ?thesis using assms by (auto simp: go_def dest: fail_calls_wanted [where W = W])
next
  case (Fail_Sent code message)
  then show ?thesis
    using assms fail_calls_wanted [of _ code message "filter sent_or_fail_fast (cl_pending c)" W]
    by (auto simp: fail_sent_def go_def)
qed (use assms in \<open>auto simp: cl_ops_defs Let_def
      split: if_splits option.splits sum.splits decoded.splits prod.splits\<close>)

lemma over_mem: "x \<in># over f xs \<longleftrightarrow> (\<exists>y \<in> set xs. x \<in># f y)"
  by (induction xs) auto

lemma op_wanted_new: "n \<notin># op_toks o1 \<Longrightarrow> op_wanted (W(n := cb)) o1 = op_wanted W o1"
  by (cases o1) (auto simp: wanted_by_def)

section \<open>The invariant of the client\<close>

definition cl_inv :: "csys \<Rightarrow> bool" where
  "cl_inv y \<longleftrightarrow> place_inv y \<and> ans_ok (cs_client y) \<and> data_ok (cs_client y) \<and> cb_ok y \<and>
     (\<forall>t \<in> set (cs_threads y). \<forall>o1 \<in> set t. op_ok o1)"

lemma place_tok_fresh:
  assumes "place_inv y" "k < length (cs_threads y)" "cs_threads y ! k = o1 # rest" "op_toks o1 = {#i#}"
  shows "i \<in> set (cl_issued (cs_client y)) \<and> i \<notin># done_ids (cs_client y)"
proof -
  have "i \<in># over (over op_toks) (cs_threads y)"
    using over_nth [OF assms(2,3), of op_toks] assms(4) by simp
  moreover have "over (over op_toks) (cs_threads y) + ids (cl_pending (cs_client y)) + done_ids (cs_client y)
      = mset (cl_issued (cs_client y))"
    using assms(1) by (simp only: place_inv_def Let_def)
  ultimately have "i \<in># mset (cl_issued (cs_client y))"
    by (metis union_iff)
  moreover have "count (done_ids (cs_client y)) i = 0"
    using exec_once [OF assms(1-3), of i] assms(4) by simp
  ultimately show ?thesis
    by (simp add: count_eq_zero_iff)
qed

lemma ans_exec:
  assumes "cl_inv y" "k < length (cs_threads y)" "cs_threads y ! k = o1 # rest"
    "cl_exec up timed_out o1 (cs_client y) = Some (c, ops, started)"
  shows "ans_ok c"
proof -
  have inv: "place_inv y" "ans_ok (cs_client y)" "op_ok o1"
    using assms(1,3) nth_mem [OF assms(2)] by (auto simp: cl_inv_def)
  show ?thesis
  proof (cases o1)
    case (Complete_Pending p r)
    note i = place_tok_fresh [OF inv(1) assms(2,3), of "pc_request_id p"]
    have "c = run_callback (pc_request_id p) (pc_callback p) r (finish_future (pc_request_id p) r (cs_client y))"
      using assms(4) Complete_Pending i finish_response [of "cs_client y" "pc_request_id p" r] inv(2)
      by (auto simp: complete_pending_def Let_def ans_ok_def)
    then show ?thesis
      using ans_finish [OF inv(2), of "pc_request_id p" r "pc_callback p"] i Complete_Pending inv(3) by simp
  next
    case (Fail_Fast p stopping)
    let ?r = "client_error (pc_request_id p) (if stopping then Client_Stopping else Network_Error)
        (if stopping then ''RPC client is stopping'' else ''RPC client is not connected'')"
    have "ans_ok (run_callback (pc_request_id p) None ?r (finish_future (pc_request_id p) ?r (cs_client y)))"
      by (rule ans_finish [OF inv(2)])
        (use place_tok_fresh [OF inv(1) assms(2,3), of "pc_request_id p"] Fail_Fast in \<open>simp_all add: client_error_def\<close>)
    then show ?thesis
      using assms(4) Fail_Fast by (auto simp: fail_fast_def moved_callback_def Let_def intro: ans_frame)
  qed (use exec_answers_frame [OF assms(4)] exec_frame [OF assms(4)] in \<open>auto intro!: ans_frame [OF inv(2)]\<close>)
qed

lemma cb_exec:
  assumes "cl_inv y" "k < length (cs_threads y)" "cs_threads y ! k = o1 # rest"
    "cl_exec up timed_out o1 (cs_client y) = Some (c, ops, started)"
  shows "cb_ok (y\<lparr>cs_client := c, cs_threads := (cs_threads y)[k := ops @ rest] @ started\<rparr>)"
proof -
  let ?c = "cs_client y"
  let ?W = "cl_wanted ?c"
  have inv: "place_inv y" "ans_ok ?c" "cb_ok y"
    using assms(1) by (auto simp: cl_inv_def)
  have W: "cl_wanted c = ?W" by (rule exec_frame(3) [OF assms(4)])
  have old: "op_wanted ?W o1" "\<forall>o2 \<in> set rest. op_wanted ?W o2" "\<forall>p \<in> set (cl_pending ?c). wanted_by ?W p"
    "\<forall>t \<in> set (cs_threads y). \<forall>o1 \<in> set t. op_wanted ?W o1"
    "cl_callbacks ?c = due ?W (cl_refused ?c) (cl_done ?c)"
    "\<forall>i \<in> set (cl_refused ?c). \<exists>stopping. (i, refusal i stopping) \<in> set (cl_done ?c)"
    using inv(3) assms(3) nth_mem [OF assms(2)] by (auto simp: cb_ok_def Let_def)
  have new: "cl_callbacks c = due ?W (cl_refused c) (cl_done c) \<and>
      (\<forall>i \<in> set (cl_refused c). \<exists>stopping. (i, refusal i stopping) \<in> set (cl_done c))"
  proof (cases o1)
    case (Complete_Pending p r)
    note i = place_tok_fresh [OF inv(1) assms(2,3), of "pc_request_id p"]
    have "c = run_callback (pc_request_id p) (pc_callback p) r (finish_future (pc_request_id p) r ?c)"
      using assms(4) Complete_Pending i finish_response [of ?c "pc_request_id p" r] inv(2)
      by (auto simp: complete_pending_def Let_def ans_ok_def)
    moreover have "pc_request_id p \<notin> set (cl_refused ?c)" using i refused_done [OF inv(3)] Complete_Pending by auto
    ultimately show ?thesis
      using old(1,5,6) Complete_Pending by (auto simp: due_snoc wanted_by_def done_ids_def split: option.splits)
  next
    case (Fail_Fast p stopping)
    let ?i = "pc_request_id p"
    have "?i \<notin># done_ids ?c" using place_tok_fresh [OF inv(1) assms(2,3), of ?i] Fail_Fast by simp
    then have same: "due ?W (cl_refused ?c @ [?i]) (cl_done ?c) = due ?W (cl_refused ?c) (cl_done ?c)"
      by (intro due_cong) (force simp: done_ids_def)
    have c: "cl_callbacks c = cl_callbacks ?c" "cl_refused c = cl_refused ?c @ [?i]"
      "cl_done c = cl_done ?c @ [(?i, refusal ?i stopping)]"
      using assms(4) Fail_Fast by (auto simp: fail_fast_def refusal_def moved_callback_def Let_def)
    have "\<forall>j \<in> set (cl_refused c). \<exists>st. (j, refusal j st) \<in> set (cl_done c)"
      using old(6) unfolding c by fastforce
    moreover have "cl_callbacks c = due ?W (cl_refused c) (cl_done c)"
      using old(5) by (simp add: c due_snoc same split: option.split)
    ultimately show ?thesis by blast
  qed (use exec_answers_frame [OF assms(4)] old(5,6) in \<open>auto simp: done_ids_def\<close>)
  have "\<forall>t \<in> set ((cs_threads y)[k := ops @ rest] @ started). \<forall>o1 \<in> set t. op_wanted ?W o1"
    using exec_wanted [OF assms(4) old(1,3)] old(2,4) by (auto dest!: set_update_subset_insert [THEN subsetD])
  with new exec_wanted [OF assms(4) old(1,3)] W show ?thesis by (simp add: cb_ok_def Let_def)
qed

lemma cb_call:
  assumes "place_inv y" "cb_ok y" "cl_next_request (cs_client y) \<noteq> 0" "cl_call options cb r (cs_client y) = (c, ops)"
  shows "cb_ok (y\<lparr>cs_client := c, cs_threads := cs_threads y @ [ops]\<rparr>)"
proof -
  let ?c = "cs_client y" and ?n = "cl_next_request (cs_client y)"
  let ?W = "cl_wanted ?c"
  let ?V = "?W(?n := cb)"
  have n: "?n \<notin> set (cl_issued ?c)"
    using assms(1,3) by (auto simp: place_inv_def Let_def)
  have all: "over (over op_toks) (cs_threads y) + ids (cl_pending ?c) + done_ids ?c = mset (cl_issued ?c)"
    using assms(1) by (simp only: place_inv_def Let_def)
  have fresh: "?n \<notin># over (over op_toks) (cs_threads y)" "?n \<notin># ids (cl_pending ?c)" "?n \<notin># done_ids ?c"
    using n all by (metis set_mset_mset union_iff)+
  have old: "\<forall>p \<in> set (cl_pending ?c). wanted_by ?W p" "\<forall>t \<in> set (cs_threads y). \<forall>o1 \<in> set t. op_wanted ?W o1"
    "cl_callbacks ?c = due ?W (cl_refused ?c) (cl_done ?c)"
    "\<forall>i \<in> set (cl_refused ?c). \<exists>stopping. (i, refusal i stopping) \<in> set (cl_done ?c)"
    using assms(2) by (simp_all add: cb_ok_def Let_def)
  have pend: "\<forall>p \<in> set (cl_pending ?c). wanted_by ?V p"
  proof
    fix p
    assume p: "p \<in> set (cl_pending ?c)"
    moreover have "?n \<notin> pc_request_id ` set (cl_pending ?c)" using fresh(2) by (simp add: ids_def)
    ultimately have "pc_request_id p \<noteq> ?n" by (metis imageI)
    then show "wanted_by ?V p" using old(1) p by (simp add: wanted_by_def)
  qed
  have threads: "\<forall>t \<in> set (cs_threads y). \<forall>o1 \<in> set t. op_wanted ?V o1"
    using old(2) fresh(1) op_wanted_new by (auto simp: over_mem)
  have same: "due ?V (cl_refused ?c) (cl_done ?c) = due ?W (cl_refused ?c) (cl_done ?c)"
    by (rule due_cong) (use fresh(3) in \<open>force simp: done_ids_def\<close>)
  have "?n \<notin> set (cl_refused ?c)" using refused_done [OF assms(2)] fresh(3) by blast
  note facts = this pend threads same old(3,4)
  from assms(3,4) show ?thesis
  proof (cases rule: call_cases)
    case (ended p)
    show ?thesis
      using facts by (auto simp: ended(1,3) cb_ok_def Let_def due_snoc done_ids_def split: option.splits)
  next
    case (started f)
    show ?thesis
      using facts by (auto simp: started(2,4) cb_ok_def Let_def done_ids_def wanted_by_def)
  qed
qed

lemma cb_entry:
  assumes "place_inv y" "cb_ok y" "cl_entry (cs_client y) c ops"
  shows "cb_ok (y\<lparr>cs_client := c, cs_threads := cs_threads y @ [ops]\<rparr>)"
  using assms(3)
proof cases
  case ce_call
  then show ?thesis using cb_call [OF assms(1,2)] by blast
next
  case (ce_timer t x)
  then show ?thesis using assms(2) by (cases x) (auto simp: cb_ok_def done_ids_def Let_def)
qed (use assms(2) in \<open>auto simp: cb_ok_def done_ids_def Let_def\<close>)

lemma ans_call:
  assumes "place_inv y" "ans_ok (cs_client y)" "cl_next_request (cs_client y) \<noteq> 0"
    "cl_call options cb r (cs_client y) = (c, ops)"
  shows "ans_ok c"
proof -
  let ?c = "cs_client y" and ?n = "cl_next_request (cs_client y)"
  have n: "?n \<notin> set (cl_issued ?c)"
    using assms(1,3) by (auto simp: place_inv_def Let_def)
  have "done_ids ?c \<subseteq># mset (cl_issued ?c)"
    using assms(1) by (simp only: place_inv_def Let_def) (metis mset_subset_eq_add_right)
  then have d: "?n \<notin># done_ids ?c"
    using n mset_subset_eqD by fastforce
  have new: "ans_ok c1" if "cl_done c1 = cl_done ?c" "cl_callbacks c1 = cl_callbacks ?c"
    "cl_issued c1 = cl_issued ?c @ [?n]" "cl_futures c1 = (cl_futures ?c)(?n \<mapsto> f)" "\<not> fu_completed f"
    "cl_metrics c1 = (cl_metrics ?c)\<lparr>cm_total := cm_total (cl_metrics ?c) + 1\<rparr>" for c1 f
    using assms(2) n d that by (auto simp: ans_ok_def metrics_ok_def futures_ok_def done_ids_def)
  from assms(3,4) show ?thesis
  proof (cases rule: call_cases)
    case (ended p)
    show ?thesis unfolding ended(3)
      by (rule ans_finish [OF new]) (use d ended(2) in \<open>auto simp: fu_new_def done_ids_def\<close>)
  next
    case (started f)
    show ?thesis unfolding started(4)
      by (rule new) (auto simp: fu_new_def fu_set_cancel_def)
  qed
qed

lemma data_call:
  assumes "cl_next_request c \<noteq> 0" "cl_call options cb r c = (c', ops)" "data_ok c"
  shows "data_ok c' \<and> (\<forall>o1 \<in> set ops. op_ok o1)"
  using assms(1,2)
proof (cases rule: call_cases)
  case (started f)
  then have "frame_of (cl_next_request c) f"
    by (auto simp: frame_of_def prepare_request_def intro!: exI)
  with started assms(3) show ?thesis by (simp add: data_ok_def)
qed (use assms(3) in \<open>auto simp: data_ok_def run_callback_def finish_future_def split: option.splits\<close>)

lemma ans_entry:
  assumes "place_inv y" "ans_ok (cs_client y)" "cl_entry (cs_client y) c ops"
  shows "ans_ok c"
  using assms(3) by cases (auto intro: ans_call [OF assms(1,2)] ans_frame [OF assms(2)] simp: assms(2))

lemma data_entry:
  assumes "data_ok c" "cl_entry c c' ops"
  shows "data_ok c' \<and> (\<forall>o1 \<in> set ops. op_ok o1)"
  using assms(2)
proof cases
  case (ce_call options cb r)
  then show ?thesis using data_call [OF _ _ assms(1)] by blast
next
  case (ce_timer t x)
  then show ?thesis using assms(1) by (cases x) (auto simp: data_ok_def)
qed (use assms(1) in \<open>auto simp: data_ok_def\<close>)

lemma cl_inv_step: "cl_step y y' \<Longrightarrow> cl_inv y \<Longrightarrow> cl_inv y'"
proof -
  assume s: "cl_step y y'" and i: "cl_inv y"
  have p: "place_inv y'" using place_step [OF s] i by (simp add: cl_inv_def)
  from s show "cl_inv y'"
  proof cases
    case (cls_entry c ops)
    have "ans_ok c" "data_ok c \<and> (\<forall>o1 \<in> set ops. op_ok o1)"
      using ans_entry [OF _ _ cls_entry(2)] data_entry [OF _ cls_entry(2)] i by (auto simp: cl_inv_def)
    moreover have "cb_ok y'" using cb_entry [OF _ _ cls_entry(2)] i cls_entry(1) by (simp add: cl_inv_def)
    ultimately show ?thesis using p i cls_entry(1) by (auto simp: cl_inv_def)
  next
    case (cls_exec k o1 rest up timed_out c ops started)
    have ok: "op_ok o1" "data_ok (cs_client y)" "\<forall>o2 \<in> set rest. op_ok o2"
      using i cls_exec(3) nth_mem [OF cls_exec(2)] by (auto simp: cl_inv_def)
    have "ans_ok c" by (rule ans_exec [OF i cls_exec(2-4)])
    moreover have "cb_ok y'" using cb_exec [OF i cls_exec(2-4)] cls_exec(1) by simp
    ultimately show ?thesis
      using p ok(3) exec_data [OF cls_exec(4) ok(1,2)] i cls_exec(1)
      by (auto simp: cl_inv_def dest!: set_update_subset_insert [THEN subsetD])
  next
    case (cls_rehash ps)
    then have "set ps = set (cl_pending (cs_client y))" by (metis set_mset_mset)
    with p i cls_rehash(1) show ?thesis
      by (auto simp: cl_inv_def data_ok_def cb_ok_def done_ids_def Let_def intro: ans_frame)
  next
    case (cls_time now)
    with p i show ?thesis by (auto simp: cl_inv_def data_ok_def cb_ok_def done_ids_def Let_def intro: ans_frame)
  qed
qed

lemma cl_inv_init: "cl_init y \<Longrightarrow> cl_inv y"
  by (auto simp: cl_init_def cl_inv_def cl_new_def place_inv_def ans_ok_def data_ok_def metrics_ok_def
      futures_ok_def coded_def cl_metrics_zero_def done_ids_def backoff_initial cb_ok_def due_def)

interpretation rc: invariant_system cl_init cl_step cl_inv
  by unfold_locales (auto intro: cl_inv_init cl_inv_step)

section \<open>Properties\<close>

text \<open>Runs for the witnesses: one thread executes its operations one after the other.\<close>

lemma reach_entry:
  assumes "reach cl_init cl_step y" "cl_entry (cs_client y) c ops"
  shows "reach cl_init cl_step (y\<lparr>cs_client := c, cs_threads := cs_threads y @ [ops]\<rparr>)"
  by (rule reach_step [OF assms(1) cls_entry [OF assms(2)]])

lemma reach_exec:
  assumes "reach cl_init cl_step \<lparr>cs_client = c, cs_threads = ts\<rparr>" "k < length ts" "ts ! k = o1 # rest"
    "cl_exec up timed_out o1 c = Some (c', ops, started)"
  shows "reach cl_init cl_step \<lparr>cs_client = c', cs_threads = ts[k := ops @ rest] @ started\<rparr>"
  using reach_step [OF assms(1) cls_exec [of k _ o1 rest up timed_out c' ops started]] assms(2-4) by simp

fun cl_run :: "nat \<Rightarrow> bool \<Rightarrow> client \<Rightarrow> cl_op list \<Rightarrow> cl_op list list \<Rightarrow> client \<times> cl_op list \<times> cl_op list list" where
  "cl_run 0 up c ops started = (c, ops, started)"
| "cl_run (Suc n) up c [] started = (c, [], started)"
| "cl_run (Suc n) up c (o1 # rest) started =
     (case cl_exec up True o1 c of
        None \<Rightarrow> (c, o1 # rest, started)
      | Some (c', ops, ts) \<Rightarrow> cl_run n up c' (ops @ rest) (started @ ts))"

lemma reach_run:
  "cl_run n up c ops started = (c', ops', started') \<Longrightarrow>
   reach cl_init cl_step \<lparr>cs_client = c, cs_threads = ts[k := ops] @ started\<rparr> \<Longrightarrow> k < length ts \<Longrightarrow>
   reach cl_init cl_step \<lparr>cs_client = c', cs_threads = ts[k := ops'] @ started'\<rparr>"
proof (induction n up c ops started rule: cl_run.induct)
  case (3 n up c o1 rest started)
  show ?case
  proof (cases "cl_exec up True o1 c")
    case (Some x)
    obtain c1 ops1 ts1 where x: "x = (c1, ops1, ts1)" by (cases x)
    from reach_exec [OF 3(3), of k o1 rest up True c1 ops1 ts1] 3(4) Some x
    have "reach cl_init cl_step \<lparr>cs_client = c1, cs_threads = ts[k := ops1 @ rest] @ (started @ ts1)\<rparr>"
      by (simp add: list_update_append nth_append)
    moreover have "cl_run n up c1 (ops1 @ rest) (started @ ts1) = (c', ops', started')"
      using 3(2) Some x by simp
    ultimately show ?thesis
      using 3(1) [OF Some, of c1 "(ops1, ts1)" ops1 ts1] 3(4) x by simp
  qed (use 3 in simp)
qed auto

lemma reach_thread:
  assumes "reach cl_init cl_step \<lparr>cs_client = c, cs_threads = ts\<rparr>" "cl_entry c c1 ops"
    "cl_run n up c1 ops [] = (c', ops', started)"
  shows "reach cl_init cl_step \<lparr>cs_client = c', cs_threads = ts @ [ops'] @ started\<rparr>"
proof -
  have "reach cl_init cl_step \<lparr>cs_client = c1, cs_threads = (ts @ [ops])[length ts := ops] @ []\<rparr>"
    using reach_entry [OF assms(1), of c1 ops] assms(2) by simp
  from reach_run [OF assms(3) this] show ?thesis by simp
qed

lemma reach_start: "reach cl_init cl_step \<lparr>cs_client = cl_new, cs_threads = []\<rparr>"
  by (rule reach_init) (simp add: cl_init_def)

definition demo_error :: "rpc_error_code \<Rightarrow> string \<Rightarrow> rpc_response" where
  "demo_error code message = client_error 1 code message"

text \<open>A call with a callback and a timeout of 0.\<close>

definition demo_timed_out :: csys where
  "demo_timed_out = \<lparr>cs_client = fst (cl_call (default_options\<lparr>co_timeout := 0\<rparr>) (Some 7) default_request cl_new),
     cs_threads = [[]]\<rparr>"

lemma demo_timed_out_client:
  "cl_call (default_options\<lparr>co_timeout := 0\<rparr>) (Some 7) default_request cl_new = (cs_client demo_timed_out, [])"
  "cl_done (cs_client demo_timed_out) = [(1, demo_error Rpc_Timeout ''RPC call timed out before it was sent'')]"
  "cl_callbacks (cs_client demo_timed_out) = [(1, 7, demo_error Rpc_Timeout ''RPC call timed out before it was sent'')]"
  "cl_issued (cs_client demo_timed_out) = [1]" "cl_pending (cs_client demo_timed_out) = []"
  "cl_sent (cs_client demo_timed_out) = []" "cs_threads demo_timed_out = [[]]"
  by (simp_all add: demo_timed_out_def cl_call_def next_request_id_def cl_new_def default_options_def
      finish_future_def run_callback_def Let_def demo_error_def)

lemma demo_timed_out_wanted:
  "cl_wanted (cs_client demo_timed_out) 1 = Some 7" "cl_refused (cs_client demo_timed_out) = []"
  by (simp_all add: demo_timed_out_def cl_call_def next_request_id_def cl_new_def default_options_def
      finish_future_def run_callback_def Let_def demo_error_def)

lemma demo_timed_out_reach: "reach cl_init cl_step demo_timed_out"
proof -
  have "cl_entry cl_new (cs_client demo_timed_out) []"
    by (rule ce_call [OF _ demo_timed_out_client(1)]) (simp add: cl_new_def)
  with reach_entry [OF reach_start, of "cs_client demo_timed_out" "[]"]
  show ?thesis by (simp add: demo_timed_out_def)
qed

text \<open>
  C21. Every call ends at most once, whatever the interleaving of application threads, timers and
  connection events: no id has two responses; the response carries the call's id and is what its
  future holds; a call that has not ended has an unfinished future; and when no thread is inside
  the client, the calls issued are exactly those that ended and those in the table. The callbacks
  that have run are exactly those of the ended calls that were made with one, once each, in the
  order the calls ended and on the call's response, except for the calls that failed fast because
  the client was stopping or not connected: their callbacks never run (\<open>fail_fast_drops_callback\<close>).
\<close>

theorem calls_end_once:
  assumes "reach cl_init cl_step y"
  shows "distinct (map fst (cl_done (cs_client y))) \<and>
    cl_callbacks (cs_client y) = due (cl_wanted (cs_client y)) (cl_refused (cs_client y)) (cl_done (cs_client y)) \<and>
    (\<forall>i \<in> set (cl_refused (cs_client y)). \<exists>stopping. (i, refusal i stopping) \<in> set (cl_done (cs_client y))) \<and>
    (\<forall>(i, r) \<in> set (cl_done (cs_client y)). rs_request_id r = i \<and>
       (\<exists>f. cl_futures (cs_client y) i = Some f \<and> fu_get f = Some r)) \<and>
    distinct (map fst (cl_callbacks (cs_client y))) \<and>
    (\<forall>(i, k, r) \<in> set (cl_callbacks (cs_client y)). (i, r) \<in> set (cl_done (cs_client y))) \<and>
    (\<forall>i \<in> set (cl_issued (cs_client y)) - fst ` set (cl_done (cs_client y)).
       \<exists>f. cl_futures (cs_client y) i = Some f \<and> fu_get f = None) \<and>
    ((\<forall>t \<in> set (cs_threads y). t = []) \<longrightarrow>
       mset (cl_issued (cs_client y)) = ids (cl_pending (cs_client y)) + done_ids (cs_client y))"
proof -
  let ?c = "cs_client y"
  have inv: "place_inv y" "ans_ok ?c"
    "cl_callbacks ?c = due (cl_wanted ?c) (cl_refused ?c) (cl_done ?c)"
    "\<forall>i \<in> set (cl_refused ?c). \<exists>stopping. (i, refusal i stopping) \<in> set (cl_done ?c)"
    using rc.reach_inv [OF assms] by (simp_all add: cl_inv_def cb_ok_def Let_def)
  have all: "over (over op_toks) (cs_threads y) + ids (cl_pending ?c) + done_ids ?c = mset (cl_issued ?c)"
    using inv(1) by (simp only: place_inv_def Let_def)
  have "count (done_ids ?c) i \<le> 1" for i
    using place_once [OF inv(1), of i] by simp
  then have once: "distinct (map fst (cl_done ?c))"
    unfolding done_ids_def distinct_iff_count by blast
  have sub: "mset (map (\<lambda>(i, k, r). (i, r)) (cl_callbacks ?c)) \<subseteq># mset (cl_done ?c)"
    using inv(2) by (simp add: ans_ok_def)
  have "mset (map fst (cl_callbacks ?c)) \<subseteq># mset (map fst (cl_done ?c))"
    using image_mset_subseteq_mono [OF sub, of fst] by (simp add: image_mset.compositionality comp_def case_prod_unfold)
  then have cb: "distinct (map fst (cl_callbacks ?c))"
    using once by (rule distinct_mset_le)
  have cbs: "\<forall>(i, k, r) \<in> set (cl_callbacks ?c). (i, r) \<in> set (cl_done ?c)"
    using set_mset_mono [OF sub] by force
  have fut: "\<exists>f. cl_futures ?c i = Some f \<and> fu_get f = Some r \<and> rs_request_id r = i" if "(i, r) \<in> set (cl_done ?c)" for i r
  proof -
    have d: "i \<in># done_ids ?c" using that by (force simp: done_ids_def)
    then have "i \<in> set (cl_issued ?c)" using all by (metis set_mset_mset union_iff)
    then obtain f where f: "cl_futures ?c i = Some f" "fu_completed f" "(i, fu_response f) \<in> set (cl_done ?c)"
      using inv(2) d by (auto simp: ans_ok_def futures_ok_def)
    have "fu_response f = r"
      using once f(3) that by (rule eq_key_imp_eq_value)
    then show ?thesis using f that inv(2) by (auto simp: fu_get_def ans_ok_def)
  qed
  have "\<exists>f. cl_futures ?c i = Some f \<and> fu_get f = None" if "i \<in> set (cl_issued ?c) - fst ` set (cl_done ?c)" for i
    using inv(2) that by (force simp: ans_ok_def futures_ok_def done_ids_def fu_get_def)
  moreover have "mset (cl_issued ?c) = ids (cl_pending ?c) + done_ids ?c" if "\<forall>t \<in> set (cs_threads y). t = []"
  proof -
    have "over (over op_toks) (cs_threads y) = {#}"
      by (rule over_empty) (use that in auto)
    with all show ?thesis by simp
  qed
  ultimately show ?thesis
    using inv(3,4) once cb cbs fut by (intro conjI) blast+
qed

lemma calls_end_once_witness:
  "distinct (map fst (cl_done (cs_client demo_timed_out))) \<and>
   (\<exists>f. cl_futures (cs_client demo_timed_out) 1 = Some f \<and>
      fu_get f = Some (demo_error Rpc_Timeout ''RPC call timed out before it was sent'')) \<and>
   cl_wanted (cs_client demo_timed_out) 1 = Some 7 \<and>
   cl_callbacks (cs_client demo_timed_out) =
     due (cl_wanted (cs_client demo_timed_out)) [] (cl_done (cs_client demo_timed_out))"
  using calls_end_once [OF demo_timed_out_reach] demo_timed_out_wanted by (simp add: demo_timed_out_client(2))

text \<open>
  The client's counters: at any time, modulo \<open>2 ^ 64\<close>, calls = successes + failures + calls
  in the table + calls some thread is still to bring to an end; the timeout and cancellation
  counters count the responses with those codes.
\<close>

theorem client_metrics_balance:
  assumes "reach cl_init cl_step y"
  shows "cm_total (cl_metrics (cs_client y)) =
      cm_success (cl_metrics (cs_client y)) + cm_failed (cl_metrics (cs_client y)) +
      of_nat (length (cl_pending (cs_client y))) + of_nat (size (over (over op_toks) (cs_threads y))) \<and>
    cm_timeout (cl_metrics (cs_client y)) = coded is_timeout (cl_done (cs_client y)) \<and>
    cm_cancelled (cl_metrics (cs_client y)) =
      coded (\<lambda>e. e = error_code_value Cancelled) (cl_done (cs_client y))"
proof -
  let ?c = "cs_client y"
  have inv: "place_inv y" "metrics_ok ?c"
    using rc.reach_inv [OF assms] by (simp_all add: cl_inv_def ans_ok_def)
  have "over (over op_toks) (cs_threads y) + ids (cl_pending ?c) + done_ids ?c = mset (cl_issued ?c)"
    using inv(1) by (simp only: place_inv_def Let_def)
  from arg_cong [OF this, of size]
  have n: "length (cl_issued ?c) = size (over (over op_toks) (cs_threads y)) + length (cl_pending ?c) + length (cl_done ?c)"
    by (simp add: ids_def done_ids_def)
  have "length (cl_done ?c) = length (filter (\<lambda>(i, r). rs_error_code r = 0) (cl_done ?c)) +
      length (filter (\<lambda>(i, r). rs_error_code r \<noteq> 0) (cl_done ?c))"
    using sum_length_filter_compl [of "\<lambda>(i, r). rs_error_code r = 0" "cl_done ?c"]
    by (simp add: case_prod_unfold)
  with inv(2) n show ?thesis
    by (simp add: metrics_ok_def coded_def)
qed

lemma client_metrics_balance_witness:
  "cm_total (cl_metrics (cs_client demo_timed_out)) =
     cm_success (cl_metrics (cs_client demo_timed_out)) + cm_failed (cl_metrics (cs_client demo_timed_out)) \<and>
   cm_timeout (cl_metrics (cs_client demo_timed_out)) = 1"
  using client_metrics_balance [OF demo_timed_out_reach]
  by (simp add: demo_timed_out_client coded_def is_timeout_def demo_error_def client_error_def)

text \<open>
  C22. A call's frame is handed to the connection at most once, retries included, and it is the
  encoding of a request with the call's id; ids are given out once and are never 0. The delay
  before a reconnect is one of 100, 200, 400, 800, 1600 and 3000 milliseconds.
\<close>

theorem frames_sent_once:
  assumes "reach cl_init cl_step y"
  shows "distinct (map fst (cl_sent (cs_client y))) \<and> distinct (cl_issued (cs_client y)) \<and>
    (\<forall>(i, f) \<in> set (cl_sent (cs_client y)). i \<in> set (cl_issued (cs_client y)) \<and>
       (\<exists>r. rq_request_id r = i \<and> encode_request r = Inr f)) \<and>
    cl_delay (cs_client y) \<in> {100, 200, 400, 800, 1600, 3000}"
proof -
  let ?c = "cs_client y"
  have inv: "place_inv y" "data_ok ?c"
    using rc.reach_inv [OF assms] by (simp_all add: cl_inv_def)
  have d: "distinct (cl_issued ?c)"
    using inv(1) by (simp add: place_inv_def Let_def)
  have "over (over op_sends) (cs_threads y) + waiting_ids (cl_pending ?c) + mset (map fst (cl_sent ?c))
      \<subseteq># mset (cl_issued ?c)"
    using inv(1) by (simp only: place_inv_def Let_def)
  then have s: "mset (map fst (cl_sent ?c)) \<subseteq># mset (cl_issued ?c)"
    by (rule subset_mset.order_trans [OF mset_subset_eq_add_right])
  have "i \<in> set (cl_issued ?c)" if "(i, f) \<in> set (cl_sent ?c)" for i f
    using set_mset_mono [OF s] that by force
  with d distinct_mset_le [OF s d] inv(2) show ?thesis
    by (auto simp: data_ok_def frame_of_def backoff_delays_def)
qed

text \<open>A call made while connected, run until its frame is with the connection.\<close>

definition demo_options :: call_options where
  "demo_options = default_options\<lparr>co_fail_fast := False\<rparr>"

lemma demo_frame: "\<exists>f. encode_request (prepare_request 1 demo_options default_request) = Inr f"
  by (simp add: encode_request_Inr request_metadata_def has_request_extension_def prepare_request_def
      default_request_def demo_options_def default_options_def extension_bytes_def max_message_size_def
      decimal.simps)

lemma demo_connected:
  "reach cl_init cl_step \<lparr>cs_client = cl_new\<lparr>cl_conn := Connected\<rparr>, cs_threads = [[]]\<rparr>"
  using reach_thread [OF reach_start ce_up, of 5 True "cl_new\<lparr>cl_conn := Connected\<rparr>" "[]" "[]"]
  by (simp add: numeral_eq_Suc loop_ops_defs go_def set_state_def cl_new_def)

lemma demo_sent:
  assumes "encode_request (prepare_request 1 demo_options default_request) = Inr f"
  shows "\<exists>y. reach cl_init cl_step y \<and> cl_sent (cs_client y) = [(1, f)] \<and> cs_threads y = [[], []] \<and>
    map pc_request_id (cl_pending (cs_client y)) = [1]"
proof -
  let ?c = "cl_new\<lparr>cl_conn := Connected\<rparr>"
  obtain c1 ops where c1: "cl_call demo_options None default_request ?c = (c1, ops)" by fastforce
  obtain c' ops' st where r: "cl_run 9 True c1 ops [] = (c', ops', st)" by (rule prod_cases3)
  have call: "cl_entry ?c c1 ops"
    by (rule ce_call [OF _ c1]) (simp add: cl_new_def)
  have "ops' = [] \<and> st = [] \<and> cl_sent c' = [(1, f)] \<and> map pc_request_id (cl_pending c') = [1]"
    using c1 r assms
    by (auto simp: cl_call_def next_request_id_def cl_new_def demo_options_def default_options_def run_after_def
        numeral_eq_Suc loop_ops_defs go_def decide_call_def emplace_pending_def mark_sent_def find_pending_def Let_def)
  with reach_thread [OF demo_connected call r] show ?thesis
    by (intro exI [of _ "\<lparr>cs_client = c', cs_threads = [[], []]\<rparr>"]) simp
qed

lemma frames_sent_once_witness:
  "\<exists>y f r. reach cl_init cl_step y \<and> cl_sent (cs_client y) = [(1, f)] \<and> rq_request_id r = 1 \<and>
     encode_request r = Inr f"
proof -
  obtain f where "encode_request (prepare_request 1 demo_options default_request) = Inr f"
    using demo_frame by blast
  from demo_sent [OF this] obtain y where y: "reach cl_init cl_step y" "cl_sent (cs_client y) = [(1, f)]"
    by blast
  have "\<exists>r. rq_request_id r = 1 \<and> encode_request r = Inr f"
    using frames_sent_once [OF y(1)] y(2) by simp
  with y show ?thesis by blast
qed

section \<open>Two defects\<close>

text \<open>
  The fail-fast path tests the callback it has already moved into the pending call: a call made
  without a connection ends and its future is completed, but its callback never runs.
\<close>

theorem fail_fast_drops_callback:
  "\<exists>y c ops. reach cl_init cl_step y \<and> cl_call default_options (Some 7) default_request cl_new = (c, ops) \<and>
     cl_run 2 True c ops [] = (cs_client y, [], [[Cancel_Timer 1]]) \<and>
     cs_threads y = [[], [Cancel_Timer 1]] \<and>
     cl_done (cs_client y) = [(1, client_error 1 Network_Error ''RPC client is not connected'')] \<and>
     cl_pending (cs_client y) = [] \<and> cl_callbacks (cs_client y) = []"
proof -
  obtain c ops where c: "cl_call default_options (Some 7) default_request cl_new = (c, ops)" by fastforce
  obtain f where f: "encode_request (prepare_request 1 default_options default_request) = Inr f"
    using demo_frame by (auto simp: prepare_request_def demo_options_def default_options_def)
  obtain c' ops' st where r: "cl_run 2 True c ops [] = (c', ops', st)" by (rule prod_cases3)
  have call: "cl_entry cl_new c ops"
    by (rule ce_call [OF _ c]) (simp add: cl_new_def)
  have "ops' = [] \<and> st = [[Cancel_Timer 1]] \<and> cl_pending c' = [] \<and> cl_callbacks c' = [] \<and>
      cl_done c' = [(1, client_error 1 Network_Error ''RPC client is not connected'')]"
    using c r f
    by (auto simp: cl_call_def next_request_id_def cl_new_def default_options_def run_after_def fail_fast_def
        finish_future_def run_callback_def moved_callback_def numeral_eq_Suc loop_ops_defs go_def decide_call_def Let_def)
  with reach_thread [OF reach_start call r] c r show ?thesis
    by (intro exI [of _ "\<lparr>cs_client = c', cs_threads = [[], [Cancel_Timer 1]]\<rparr>"] exI [of _ c] exI [of _ ops]) simp
qed

text \<open>
  The deadline timer is armed before the call is in the table: when it fires in between, it
  finds nothing, and the call is then put into the table with no timer left to end it.
\<close>

theorem deadline_timer_lost:
  "\<exists>y p f. reach cl_init cl_step y \<and> (\<forall>t \<in> set (cs_threads y). t = []) \<and>
     cl_pending (cs_client y) = [p] \<and> pc_deadline p < cl_now (cs_client y) \<and>
     cl_timers (cs_client y) = Map.empty \<and>
     cl_futures (cs_client y) (pc_request_id p) = Some f \<and> fu_get f = None"
proof -
  let ?o = "demo_options"
  obtain f where f: "encode_request (prepare_request 1 ?o default_request) = Inr f"
    using demo_frame by blast
  let ?p = "\<lparr>pc_request_id = 1, pc_request = prepare_request 1 ?o default_request, pc_options = ?o,
      pc_state = Waiting_To_Send, pc_deadline = 3000000000, pc_callback = None, pc_timer = 1, pc_frame = f\<rparr>"
  obtain c ops where c: "cl_call ?o None default_request cl_new = (c, ops)" by fastforce
  have st: "ops = [Decide ?p]" "cl_timers c = [1 \<mapsto> Deadline_Timer 1]" "cl_pending c = []"
    "cl_conn c = Disconnected" "cl_stopping c = False" "cl_now c = 0"
    "cl_futures c 1 = Some (fu_set_cancel fu_new)"
    using c f by (auto simp: cl_call_def next_request_id_def cl_new_def demo_options_def default_options_def
        run_after_def Let_def)
  have "cl_entry cl_new c ops" by (rule ce_call [OF _ c]) (simp add: cl_new_def)
  from reach_entry [OF reach_start, of c ops] this st(1)
  have 1: "reach cl_init cl_step \<lparr>cs_client = c, cs_threads = [[Decide ?p]]\<rparr>" by simp
  let ?c2 = "c\<lparr>cl_now := 4000000000\<rparr>"
  have 2: "reach cl_init cl_step \<lparr>cs_client = ?c2, cs_threads = [[Decide ?p]]\<rparr>"
    using reach_step [OF 1 cls_time [of _ 4000000000]] st(6) by simp
  let ?c3 = "?c2\<lparr>cl_timers := Map.empty\<rparr>"
  have t: "cl_entry ?c2 ?c3 [Fail_One 1 Rpc_Timeout ''RPC call timed out'']"
    using ce_timer [of ?c2 1 "Deadline_Timer 1"] st(2) by simp
  have 3: "reach cl_init cl_step \<lparr>cs_client = ?c3, cs_threads = [[Decide ?p], []]\<rparr>"
    using reach_thread [OF 2 t, of 1 True ?c3 "[]" "[]"] st(3)
    by (simp add: fail_one_def find_pending_def go_def)
  obtain c' ops' ts where r: "cl_run 9 True ?c3 [Decide ?p] [] = (c', ops', ts)" by (rule prod_cases3)
  have e: "ops' = [] \<and> ts = [] \<and> cl_pending c' = [?p] \<and> cl_now c' = 4000000000 \<and> cl_timers c' = Map.empty \<and>
      cl_futures c' 1 = Some (fu_set_cancel fu_new)"
    using r st by (auto simp: numeral_eq_Suc loop_ops_defs go_def decide_call_def emplace_pending_def find_pending_def
        set_state_def demo_options_def default_options_def Let_def)
  have "reach cl_init cl_step \<lparr>cs_client = c', cs_threads = [[], []]\<rparr>"
    using reach_run [OF r, of "[[Decide ?p], []]" 0] 3 e by simp
  with e show ?thesis
    by (intro exI [of _ "\<lparr>cs_client = c', cs_threads = [[], []]\<rparr>"] exI [of _ ?p] exI [of _ "fu_set_cancel fu_new"])
      (simp add: fu_get_def fu_set_cancel_def fu_new_def)
qed

end
