(* ===== verification/Service_Registry.thy ===== *)
theory Service_Registry
  imports Rpc_Codec
begin

text \<open>
  \<open>ServiceRegistry\<close> (code/MiniRPC/src/service_registry.cpp, include/mini_rpc/
  service_registry.h): the handlers of an RPC server by service and method name. Both operations
  hold the mutex from start to end. A handler is a parameter of the model (type \<open>'h\<close>); an empty
  \<open>std::function\<close> is \<open>None\<close>.
\<close>

section \<open>The registry\<close>

type_synonym 'h method_map = "string \<rightharpoonup> 'h"

type_synonym 'h registry = "string \<rightharpoonup> 'h method_map"

datatype 'h lookup_result = Found 'h | Lookup_No_Service | Lookup_No_Method

text \<open>The subscript operator of \<open>services_\<close> creates the method map of a new service.\<close>

definition register_method :: "string \<Rightarrow> string \<Rightarrow> 'h option \<Rightarrow> 'h registry \<Rightarrow> bool \<times> 'h registry" where
  "register_method service meth handler reg =
     (if service = [] \<or> meth = [] then (False, reg)
      else case handler of
        None \<Rightarrow> (False, reg)
      | Some h \<Rightarrow>
          let methods = (case reg service of None \<Rightarrow> Map.empty | Some m \<Rightarrow> m)
          in case methods meth of
               None \<Rightarrow> (True, reg(service \<mapsto> methods(meth \<mapsto> h)))
             | Some _ \<Rightarrow> (False, reg(service \<mapsto> methods)))"

definition find_method :: "string \<Rightarrow> string \<Rightarrow> 'h registry \<Rightarrow> 'h lookup_result" where
  "find_method service meth reg =
     (case reg service of
        None \<Rightarrow> Lookup_No_Service
      | Some methods \<Rightarrow> (case methods meth of None \<Rightarrow> Lookup_No_Method | Some h \<Rightarrow> Found h))"

section \<open>The contract of a method table\<close>

text \<open>The first callable handler listed for a name.\<close>

fun first_handler :: "string \<Rightarrow> string \<Rightarrow> (string \<times> string \<times> 'h option) list \<Rightarrow> 'h option" where
  "first_handler s m [] = None"
| "first_handler s m ((s', m', h) # rs) =
     (if s' = s \<and> m' = m \<and> h \<noteq> None then h else first_handler s m rs)"

locale method_table =
  fixes empty_table :: "'t"
    and register :: "string \<Rightarrow> string \<Rightarrow> 'h option \<Rightarrow> 't \<Rightarrow> bool \<times> 't"
    and find :: "string \<Rightarrow> string \<Rightarrow> 't \<Rightarrow> 'h lookup_result"
  assumes find_empty: "find s m empty_table = Lookup_No_Service"
    and accepts: "fst (register s m h t) \<longleftrightarrow>
      s \<noteq> [] \<and> m \<noteq> [] \<and> h \<noteq> None \<and> (\<nexists>h'. find s m t = Found h')"
    and find_registered: "register s m (Some g) t = (True, t') \<Longrightarrow> find s m t' = Found g"
    and find_rejected: "register s m h t = (False, t') \<Longrightarrow> find s' m' t' = find s' m' t"
    and find_service: "register s m h t = (True, t') \<Longrightarrow> m' \<noteq> m \<Longrightarrow>
      find s m' t' = (if find s m' t = Lookup_No_Service then Lookup_No_Method else find s m' t)"
    and find_other: "register s m h t = (True, t') \<Longrightarrow> s' \<noteq> s \<Longrightarrow> find s' m' t' = find s' m' t"
begin

text \<open>A start-up sequence of registrations, and the first one that counts for a name.\<close>

fun register_all :: "(string \<times> string \<times> 'h option) list \<Rightarrow> 't \<Rightarrow> 't" where
  "register_all [] t = t"
| "register_all ((s, m, h) # rs) t = register_all rs (snd (register s m h t))"

lemma find_keeps:
  "find s m t = Found h \<Longrightarrow> find s m (register_all rs t) = Found h"
proof (induction rs arbitrary: t)
  case (Cons r rs)
  obtain s' m' h' where r: "r = (s', m', h')" by (metis prod_cases3)
  obtain ok t' where t': "register s' m' h' t = (ok, t')" by fastforce
  have "find s m t' = Found h"
  proof (cases ok)
    case True
    then have "\<not> (s' = s \<and> m' = m)"
      using accepts [of s' m' h' t] t' Cons.prems by auto
    with True t' show ?thesis
      using find_service [of s' m' h' t t' m] find_other [of s' m' h' t t' s m] Cons.prems
      by (cases "s' = s") auto
  next
    case False
    with t' show ?thesis
      using find_rejected [of s' m' h' t t' s m] Cons.prems by simp
  qed
  with Cons.IH [of t'] r t' show ?case by simp
qed simp

lemma first_wins:
  "s \<noteq> [] \<Longrightarrow> m \<noteq> [] \<Longrightarrow> (\<nexists>h. find s m t = Found h) \<Longrightarrow>
   find s m (register_all rs t) = Found h \<longleftrightarrow> first_handler s m rs = Some h"
proof (induction rs arbitrary: t)
  case (Cons r rs)
  obtain s' m' h' where r: "r = (s', m', h')" by (metis prod_cases3)
  obtain ok t' where t': "register s' m' h' t = (ok, t')" by fastforce
  show ?case
  proof (cases "s' = s \<and> m' = m \<and> h' \<noteq> None")
    case True
    then obtain g where g: "h' = Some g" by auto
    have ok
      using accepts [of s' m' h' t] t' True Cons.prems by auto
    then have "find s m t' = Found g"
      using find_registered [of s' m' g t t'] t' g True by simp
    from find_keeps [OF this, of rs] show ?thesis
      using r t' True g by auto
  next
    case False
    have "\<nexists>h. find s m t' = Found h"
    proof (cases ok)
      case True
      then have "h' \<noteq> None"
        using accepts [of s' m' h' t] t' by auto
      with True t' False show ?thesis
        using find_service [of s' m' h' t t' m] find_other [of s' m' h' t t' s m] Cons.prems
        by (cases "s' = s") (auto split: if_splits)
    next
      case notok: False
      with t' show ?thesis
        using find_rejected [of s' m' h' t t' s m] Cons.prems by simp
    qed
    from Cons.IH [OF Cons.prems(1,2) this] show ?thesis
      using r t' False by auto
  qed
qed simp

end

interpretation registry: method_table "Map.empty :: 'h registry" register_method find_method
proof unfold_locales
  fix s m :: string and s' m' :: string and h :: "'h option" and g :: 'h and t t' :: "'h registry"
  show "find_method s m (Map.empty :: 'h registry) = Lookup_No_Service"
    by (simp add: find_method_def)
  show "fst (register_method s m h t) \<longleftrightarrow>
      s \<noteq> [] \<and> m \<noteq> [] \<and> h \<noteq> None \<and> (\<nexists>h'. find_method s m t = Found h')"
    by (auto simp: register_method_def find_method_def Let_def split: option.splits)
  show "register_method s m (Some g) t = (True, t') \<Longrightarrow> find_method s m t' = Found g"
    by (auto simp: register_method_def find_method_def Let_def split: option.splits if_splits)
  show "register_method s m h t = (False, t') \<Longrightarrow> find_method s' m' t' = find_method s' m' t"
    by (auto simp: register_method_def find_method_def Let_def fun_upd_idem
        split: option.splits if_splits)
  show "register_method s m h t = (True, t') \<Longrightarrow> m' \<noteq> m \<Longrightarrow> find_method s m' t' =
      (if find_method s m' t = Lookup_No_Service then Lookup_No_Method else find_method s m' t)"
    by (auto simp: register_method_def find_method_def Let_def split: option.splits if_splits)
  show "register_method s m h t = (True, t') \<Longrightarrow> s' \<noteq> s \<Longrightarrow> find_method s' m' t' = find_method s' m' t"
    by (auto simp: register_method_def find_method_def Let_def split: option.splits if_splits)
qed

section \<open>Properties\<close>

text \<open>The registry after a list of registrations, in order.\<close>

fun register_list :: "(string \<times> string \<times> 'h option) list \<Rightarrow> 'h registry \<Rightarrow> 'h registry" where
  "register_list [] reg = reg"
| "register_list ((s, m, h) # rs) reg = register_list rs (snd (register_method s m h reg))"

lemma register_list_eq: "register_list rs reg = registry.register_all rs reg"
  by (induction rs reg rule: register_list.induct) auto

text \<open>
  The first valid registration of a name wins: after any list of registrations on an empty
  registry, \<open>findMethod\<close> on non-empty names returns the handler of the first entry with these
  names and a callable handler, and finds nothing if there is no such entry.
\<close>

theorem first_registration_wins:
  assumes "service \<noteq> []" "meth \<noteq> []"
  shows "find_method service meth (register_list rs Map.empty) = Found h \<longleftrightarrow>
    first_handler service meth rs = Some h"
  using registry.first_wins [OF assms, of Map.empty rs h]
  by (simp add: register_list_eq registry.find_empty)

lemma first_registration_wins_witness:
  "find_method ''Calc'' ''Add'' (register_list [(''Calc'', ''Sub'', Some (1::nat)), (''Calc'', ''Add'', None),
     (''Calc'', ''Add'', Some 2), (''Calc'', ''Add'', Some 3)] Map.empty) = Found 2"
  using first_registration_wins [of "''Calc''" "''Add''" "[(''Calc'', ''Sub'', Some (1::nat)),
     (''Calc'', ''Add'', None), (''Calc'', ''Add'', Some 2), (''Calc'', ''Add'', Some 3)]" 2] by simp

end
