(* ===== verification/Rpc_Server.thy ===== *)
theory Rpc_Server
  imports Service_Registry Thread_Pool
begin

text \<open>
  \<open>RpcServer\<close> (code/MiniRPC/src/rpc_server.cpp, include/mini_rpc/rpc_server.h): the read loop of
  a connection, the dispatch of one request, the task run on the business pool, and the
  counters. Parameters: \<open>post\<close>, the pool's answer to \<open>try_post\<close>; \<open>elapsed\<close>, nanoseconds since the
  request came in; \<open>left\<close>, what moving a string leaves behind. Log lines are left out.
\<close>

section \<open>State\<close>

text \<open>
  A handler gets the request and a response to fill in; it returns, throws a
  \<open>std::exception\<close> with a message, or throws something else.
\<close>

datatype handler_exit = Normal | Threw string | Threw_Unknown

type_synonym handler = "rpc_request \<Rightarrow> rpc_response \<Rightarrow> rpc_response \<times> handler_exit"

record srv_metrics =
  sm_total :: u64
  sm_success :: u64
  sm_failed :: u64
  sm_timeout :: u64
  sm_service_not_found :: u64
  sm_method_not_found :: u64
  sm_server_error :: u64
  sm_queue_rejected :: u64
  sm_queue_size :: u64

definition metrics_zero :: srv_metrics where
  "metrics_zero = \<lparr>sm_total = 0, sm_success = 0, sm_failed = 0, sm_timeout = 0,
     sm_service_not_found = 0, sm_method_not_found = 0, sm_server_error = 0, sm_queue_rejected = 0,
     sm_queue_size = 0\<rparr>"

text \<open>
  The server, the tasks it has given to the pool and that have not finished, and the frames
  passed to \<open>send\<close> so far.
\<close>

record server =
  sv_registry :: "handler registry"
  sv_metrics :: srv_metrics
  sv_tasks :: "(handler \<times> rpc_request) list"
  sv_sent :: "string list"

definition server_new :: "handler registry \<Rightarrow> server" where
  "server_new reg = \<lparr>sv_registry = reg, sv_metrics = metrics_zero, sv_tasks = [], sv_sent = []\<rparr>"

section \<open>Counters\<close>

definition record_response :: "rpc_response \<Rightarrow> srv_metrics \<Rightarrow> srv_metrics" where
  "record_response r m =
     (if rs_error_code r = 0 then m\<lparr>sm_success := sm_success m + 1\<rparr>
      else
        let m = m\<lparr>sm_failed := sm_failed m + 1\<rparr>
        in if rs_error_code r = error_code_value Rpc_Timeout
           then m\<lparr>sm_timeout := sm_timeout m + 1\<rparr>
           else if rs_error_code r = error_code_value Service_Not_Found
           then m\<lparr>sm_service_not_found := sm_service_not_found m + 1\<rparr>
           else if rs_error_code r = error_code_value Method_Not_Found
           then m\<lparr>sm_method_not_found := sm_method_not_found m + 1\<rparr>
           else if rs_error_code r = error_code_value Server_Error
           then m\<lparr>sm_server_error := sm_server_error m + 1\<rparr>
           else m)"

definition elapsed_micros :: "time \<Rightarrow> u64" where
  "elapsed_micros nanos = (let micros = nanos div 1000 in if micros \<le> 0 then 1 else of_int micros)"

definition reply_serializer :: "rpc_request \<Rightarrow> string" where
  "reply_serializer r = (if rq_serializer r = [] then ''raw'' else rq_serializer r)"

section \<open>Error replies\<close>

definition error_response :: "rpc_request \<Rightarrow> rpc_error_code \<Rightarrow> string \<Rightarrow> time \<Rightarrow> rpc_response" where
  "error_response r code message nanos =
     default_response\<lparr>rs_request_id := rq_request_id r, rs_error_code := error_code_value code,
       rs_error_message := message, rs_trace_id := rq_trace_id r, rs_serializer := reply_serializer r,
       rs_server_cost_us := elapsed_micros nanos\<rparr>"

text \<open>\<open>sendError\<close>: the counters have been updated when the encoder throws.\<close>

definition send_error :: "rpc_request \<Rightarrow> rpc_error_code \<Rightarrow> string \<Rightarrow> time \<Rightarrow> server \<Rightarrow> server result" where
  "send_error r code message nanos s =
     (let response = error_response r code message nanos;
          s = s\<lparr>sv_metrics := record_response response (sv_metrics s)\<rparr>
      in rbind (encode_response response) (\<lambda>f. ret (s\<lparr>sv_sent := sv_sent s @ [f]\<rparr>)))"

section \<open>One request\<close>

text \<open>The request after \<open>std::move\<close> into the task: strings are left unspecified, integers kept.\<close>

definition moved_request :: "(string \<Rightarrow> string) \<Rightarrow> rpc_request \<Rightarrow> rpc_request" where
  "moved_request left r =
     r\<lparr>rq_service_name := left (rq_service_name r), rq_method_name := left (rq_method_name r),
       rq_payload := left (rq_payload r), rq_trace_id := left (rq_trace_id r),
       rq_serializer := left (rq_serializer r)\<rparr>"

definition count_request :: "server \<Rightarrow> server" where
  "count_request s = s\<lparr>sv_metrics := (sv_metrics s)\<lparr>sm_total := sm_total (sv_metrics s) + 1\<rparr>\<rparr>"

text \<open>
  The end of \<open>handleRequest\<close>: the queue counter goes up before the task is posted and down
  again when the pool refuses it.
\<close>

definition post_request :: "(string \<Rightarrow> string) \<Rightarrow> submit_result \<Rightarrow> time \<Rightarrow> handler \<Rightarrow> rpc_request \<Rightarrow>
    server \<Rightarrow> server result" where
  "post_request left answer nanos h r s =
     (let s = s\<lparr>sv_metrics := (sv_metrics s)\<lparr>sm_queue_size := sm_queue_size (sv_metrics s) + 1\<rparr>\<rparr>
      in if answer = Accepted then ret (s\<lparr>sv_tasks := sv_tasks s @ [(h, r)]\<rparr>)
         else
           let m = sv_metrics s;
               s = s\<lparr>sv_metrics := m\<lparr>sm_queue_size := sm_queue_size m - 1,
                                      sm_queue_rejected := sm_queue_rejected m + 1\<rparr>\<rparr>
           in send_error (moved_request left r) Server_Error ''server business queue is full'' nanos s)"

definition handle_request :: "(string \<Rightarrow> string) \<Rightarrow> (server \<Rightarrow> submit_result) \<Rightarrow> (server \<Rightarrow> time) \<Rightarrow>
    rpc_request \<Rightarrow> server \<Rightarrow> server result" where
  "handle_request left post elapsed r s =
     (let s = count_request s
      in if rq_serializer r \<noteq> [] \<and> rq_serializer r \<noteq> ''raw''
         then send_error r Deserialization_Error
                (''unsupported request serializer: '' @ rq_serializer r) (elapsed s) s
         else case find_method (rq_service_name r) (rq_method_name r) (sv_registry s) of
           Lookup_No_Service \<Rightarrow>
             send_error r Service_Not_Found (''service not found: '' @ rq_service_name r) (elapsed s) s
         | Lookup_No_Method \<Rightarrow>
             send_error r Method_Not_Found
               (''method not found: '' @ rq_service_name r @ ''.'' @ rq_method_name r) (elapsed s) s
         | Found h \<Rightarrow> post_request left (post s) (elapsed s) h r s)"

section \<open>The task on the business pool\<close>

text \<open>What the handler made of the response, exceptions caught.\<close>

definition run_handler :: "handler \<Rightarrow> rpc_request \<Rightarrow> rpc_response" where
  "run_handler h r =
     (case h r (default_response\<lparr>rs_request_id := rq_request_id r, rs_trace_id := rq_trace_id r,
                  rs_serializer := reply_serializer r\<rparr>) of
        (p, Normal) \<Rightarrow> p\<lparr>rs_request_id := rq_request_id r\<rparr>
      | (p, Threw what) \<Rightarrow> p\<lparr>rs_error_code := error_code_value Server_Error,
                              rs_error_message := what, rs_payload := []\<rparr>
      | (p, Threw_Unknown) \<Rightarrow> p\<lparr>rs_error_code := error_code_value Server_Error,
                                 rs_error_message := ''unknown server error'', rs_payload := []\<rparr>)"

text \<open>The server's own deadline check, on the measured cost in milliseconds.\<close>

definition apply_deadline :: "rpc_request \<Rightarrow> rpc_response \<Rightarrow> rpc_response" where
  "apply_deadline r p =
     (if rs_error_code p = 0 \<and> rq_timeout_ms r \<noteq> 0 \<and> rs_server_cost_us p div 1000 > rq_timeout_ms r
      then p\<lparr>rs_error_code := error_code_value Rpc_Timeout,
             rs_error_message := ''RPC request exceeded server deadline'', rs_payload := []\<rparr>
      else p)"

definition task_response :: "handler \<Rightarrow> rpc_request \<Rightarrow> time \<Rightarrow> rpc_response" where
  "task_response h r nanos =
     apply_deadline r ((run_handler h r)\<lparr>rs_trace_id := rq_trace_id r,
       rs_serializer := reply_serializer r, rs_server_cost_us := elapsed_micros nanos\<rparr>)"

text \<open>
  The reply sent instead of one that cannot be encoded.
\<close>

definition encode_failure :: "cpp_exn \<Rightarrow> time \<Rightarrow> rpc_response \<Rightarrow> rpc_response" where
  "encode_failure e nanos p =
     p\<lparr>rs_error_code := error_code_value Server_Error,
       rs_error_message := ''failed to encode RPC response: '' @ exn_what e, rs_payload := [],
       rs_server_cost_us := elapsed_micros nanos\<rparr>"

text \<open>
  Running the task at position \<open>k\<close> to its end: \<open>active\<close> says whether the connection still
  exists. An exception of the second \<open>encodeResponse\<close> leaves the task.
\<close>

definition run_task :: "time \<Rightarrow> time \<Rightarrow> bool \<Rightarrow> nat \<Rightarrow> server \<Rightarrow> server result" where
  "run_task nanos nanos' active k s =
     (let (h, r) = sv_tasks s ! k;
          p = task_response h r nanos;
          m = sv_metrics s;
          s = s\<lparr>sv_tasks := take k (sv_tasks s) @ drop (k + 1) (sv_tasks s),
                sv_metrics := m\<lparr>sm_queue_size := sm_queue_size m - 1\<rparr>\<rparr>
      in rbind
        (case encode_response p of
           Inr f \<Rightarrow> ret (p, f)
         | Inl e \<Rightarrow>
             let p = encode_failure e nanos' p
             in rbind (encode_response p) (\<lambda>f. ret (p, f)))
        (\<lambda>(p, f).
           let s = s\<lparr>sv_metrics := record_response p (sv_metrics s)\<rparr>
           in ret (if active then s\<lparr>sv_sent := sv_sent s @ [f]\<rparr> else s)))"

section \<open>The read loop of a connection\<close>

text \<open>The Boolean says that the peer broke the protocol and the connection is force-closed.\<close>

function on_message :: "(string \<Rightarrow> string) \<Rightarrow> (server \<Rightarrow> submit_result) \<Rightarrow> (server \<Rightarrow> time) \<Rightarrow> nbuf \<Rightarrow>
    server \<Rightarrow> (nbuf \<times> server \<times> bool) result" where
  "on_message left post elapsed b s =
     (case try_decode_request b of
        Inl e \<Rightarrow> throw e
      | Inr (Need_More_Data, b') \<Rightarrow> ret (b', s, False)
      | Inr (Protocol_Error, b') \<Rightarrow> ret (b', s, True)
      | Inr (Complete r, b') \<Rightarrow>
          (case handle_request left post elapsed r s of
             Inl e \<Rightarrow> throw e
           | Inr s' \<Rightarrow> on_message left post elapsed b' s'))"
  by pat_completeness auto

lemma try_decode_request_shrinks:
  "try_decode_request b = Inr (Complete r, b') \<Longrightarrow> nb_readable b' < nb_readable b"
proof -
  assume "try_decode_request b = Inr (Complete r, b')"
  then obtain n where n: "decode_request (nb_peek b) = Complete (r, n)" "nb_retrieve n b = Inr b'"
    by (auto simp: try_decode_request_def consume_def rbind_Inr_iff split: decoded.splits)
  have "0 < n" "n \<le> length (nb_peek b)"
    using decode_request_length [OF n(1)] by auto
  then show ?thesis
    using n(2) by (auto simp: nb_retrieve_def nb_retrieve_all_def nb_readable_def nb_peek_def Let_def
        split: if_splits)
qed

termination on_message
  by (relation "measure (\<lambda>(_, _, _, b, _). nb_readable b)")
    (auto intro: try_decode_request_shrinks)

declare on_message.simps [simp del]

section \<open>Error replies are well formed\<close>

lemma norm_error_response [simp]: "norm_response (error_response r code message nanos) = error_response r code message nanos"
  by (simp add: norm_response_def error_response_def reply_serializer_def default_response_def)

lemma norm_task_response [simp]: "norm_response (task_response h r nanos) = task_response h r nanos"
  by (auto simp: norm_response_def task_response_def apply_deadline_def reply_serializer_def
      intro: rpc_response.equality)

lemma send_error_Inr:
  "send_error r code message nanos s = Inr s' \<longleftrightarrow>
   (\<exists>f. encode_response (error_response r code message nanos) = Inr f \<and>
     s' = s\<lparr>sv_metrics := record_response (error_response r code message nanos) (sv_metrics s),
            sv_sent := sv_sent s @ [f]\<rparr>)"
  by (auto simp: send_error_def Let_def rbind_Inr_iff)

text \<open>The error a request is answered with at once; \<open>None\<close> when it goes to the pool.\<close>

definition dispatch_error :: "(server \<Rightarrow> submit_result) \<Rightarrow> rpc_request \<Rightarrow> server \<Rightarrow> rpc_error_code option" where
  "dispatch_error post r s =
     (if rq_serializer r \<noteq> [] \<and> rq_serializer r \<noteq> ''raw'' then Some Deserialization_Error
      else case find_method (rq_service_name r) (rq_method_name r) (sv_registry s) of
        Lookup_No_Service \<Rightarrow> Some Service_Not_Found
      | Lookup_No_Method \<Rightarrow> Some Method_Not_Found
      | Found h \<Rightarrow> if post (count_request s) = Accepted then None else Some Server_Error)"

text \<open>The message of that answer, and the answer; when the pool refused, the request has been moved from.\<close>

definition dispatch_message :: "rpc_error_code \<Rightarrow> rpc_request \<Rightarrow> string" where
  "dispatch_message code r =
     (if code = Deserialization_Error then ''unsupported request serializer: '' @ rq_serializer r
      else if code = Service_Not_Found then ''service not found: '' @ rq_service_name r
      else if code = Method_Not_Found then ''method not found: '' @ rq_service_name r @ ''.'' @ rq_method_name r
      else ''server business queue is full'')"

definition dispatch_answer :: "(string \<Rightarrow> string) \<Rightarrow> rpc_error_code \<Rightarrow> rpc_request \<Rightarrow> time \<Rightarrow> rpc_response" where
  "dispatch_answer left code r nanos =
     error_response (if code = Server_Error then moved_request left r else r) code (dispatch_message code r) nanos"

lemma dispatch_cases:
  "handle_request left post elapsed r s =
     (case dispatch_error post r s of
        None \<Rightarrow> (case find_method (rq_service_name r) (rq_method_name r) (sv_registry s) of
           Found h \<Rightarrow> post_request left Accepted (elapsed (count_request s)) h r (count_request s)
         | _ \<Rightarrow> throw (UB []))
      | Some code \<Rightarrow>
          rbind (encode_response (dispatch_answer left code r (elapsed (count_request s)))) (\<lambda>f.
            ret ((count_request s)\<lparr>
              sv_metrics := record_response (dispatch_answer left code r (elapsed (count_request s)))
                (let m = sv_metrics (count_request s)
                 in if code = Server_Error then m\<lparr>sm_queue_rejected := sm_queue_rejected m + 1\<rparr> else m),
              sv_sent := sv_sent s @ [f]\<rparr>)))"
  by (auto simp: handle_request_def dispatch_error_def post_request_def send_error_def dispatch_answer_def
      dispatch_message_def Let_def count_request_def split: lookup_result.splits)

lemma response_metadata_le:
  "length (response_metadata p) \<le> 30 + length (rs_error_message p) + length (rs_trace_id p) + length (rs_serializer p)"
  by (simp add: response_metadata_def extension_bytes_def)

text \<open>Answers without a payload whose parts are small fit in a frame.\<close>

lemma small_response_fits:
  assumes "rs_payload p = []"
    "length (rs_error_message p) + length (rs_trace_id p) + length (rs_serializer p) + 30 \<le> max_message_size"
  shows "\<exists>f. encode_response p = Inr f"
  using response_metadata_le [of p] assms by (simp add: encode_response_Inr)

lemma encode_response_what: "encode_response p = Inl e \<Longrightarrow> length (exn_what e) \<le> 40"
  by (auto simp: encode_response_def encode_frame_def check_string_length_def append_metadata_string_def
      rbind_Inl_iff Let_def split: if_splits)

lemma count_request_simps [simp]:
  "sv_registry (count_request s) = sv_registry s" "sv_tasks (count_request s) = sv_tasks s"
  "sv_sent (count_request s) = sv_sent s"
  by (simp_all add: count_request_def)

lemma error_response_sent:
  assumes "encode_response (error_response r code message nanos) = Inr f"
  shows "\<exists>p. decode_response f = Complete (p, length f) \<and> rs_request_id p = rq_request_id r \<and>
    rs_error_code p = error_code_value code \<and> rs_payload p = []"
proof -
  have "decode_response f = Complete (error_response r code message nanos, length f)"
    using decode_encode_response [OF assms] by simp
  then show ?thesis
    by (simp add: error_response_def default_response_def)
qed

section \<open>Steps of the server\<close>

inductive srv_step :: "server \<Rightarrow> server \<Rightarrow> bool" where
  srv_request: "handle_request left post elapsed r s = Inr s' \<Longrightarrow> srv_step s s'"
| srv_task: "k < length (sv_tasks s) \<Longrightarrow> run_task nanos nanos' active k s = Inr s' \<Longrightarrow> srv_step s s'"

text \<open>Every request counted is answered or still with the pool.\<close>

definition srv_inv :: "server \<Rightarrow> bool" where
  "srv_inv s \<longleftrightarrow>
     sm_total (sv_metrics s) = sm_success (sv_metrics s) + sm_failed (sv_metrics s)
       + of_nat (length (sv_tasks s)) \<and>
     sm_queue_size (sv_metrics s) = of_nat (length (sv_tasks s))"

lemma record_response_simps [simp]:
  "sm_total (record_response p m) = sm_total m"
  "sm_queue_size (record_response p m) = sm_queue_size m"
  "sm_success (record_response p m) + sm_failed (record_response p m) = sm_success m + sm_failed m + 1"
  by (simp_all add: record_response_def Let_def)

lemma srv_inv_answered:
  assumes "sm_total m = sm_success m + sm_failed m + of_nat n + 1" "sm_queue_size m = of_nat n"
  shows "sm_total (record_response p m) =
      sm_success (record_response p m) + sm_failed (record_response p m) + of_nat n"
    and "sm_queue_size (record_response p m) = of_nat n"
proof -
  show "sm_total (record_response p m) =
      sm_success (record_response p m) + sm_failed (record_response p m) + of_nat n"
    unfolding record_response_simps using assms(1) by (simp add: ac_simps)
qed (simp add: assms(2))

lemma srv_inv_request:
  assumes "handle_request left post elapsed r s = Inr s'" "srv_inv s"
  shows "srv_inv s'"
proof -
  let ?c = "count_request s"
  have m: "sm_total (sv_metrics ?c) = sm_success (sv_metrics ?c) + sm_failed (sv_metrics ?c)
      + of_nat (length (sv_tasks s)) + 1" "sm_queue_size (sv_metrics ?c) = of_nat (length (sv_tasks s))"
    using assms(2) by (simp_all add: srv_inv_def count_request_def)
  have err: "srv_inv s'" if "send_error r' code msg nanos t = Inr s'" "sv_tasks t = sv_tasks s"
      "sm_total (sv_metrics t) = sm_total (sv_metrics ?c)"
      "sm_success (sv_metrics t) = sm_success (sv_metrics ?c)"
      "sm_failed (sv_metrics t) = sm_failed (sv_metrics ?c)"
      "sm_queue_size (sv_metrics t) = sm_queue_size (sv_metrics ?c)" for r' code msg nanos t
    using that srv_inv_answered [of "sv_metrics t" "length (sv_tasks s)"] m
    by (auto simp: send_error_Inr srv_inv_def)
  show ?thesis
  proof (cases "dispatch_error post r s")
    case None
    then obtain h where "find_method (rq_service_name r) (rq_method_name r) (sv_registry s) = Found h"
      "post ?c = Accepted" "\<not> (rq_serializer r \<noteq> [] \<and> rq_serializer r \<noteq> ''raw'')"
      by (auto simp: dispatch_error_def split: lookup_result.splits if_splits)
    then show ?thesis
      using assms(1) m by (auto simp: handle_request_def post_request_def Let_def srv_inv_def)
  next
    case (Some code)
    then show ?thesis
      using assms(1)
      by (auto simp: handle_request_def post_request_def Let_def dispatch_error_def
          split: lookup_result.splits if_splits intro: err)
  qed
qed

lemma srv_inv_task:
  assumes "k < length (sv_tasks s)" "run_task nanos nanos' active k s = Inr s'" "srv_inv s"
  shows "srv_inv s'"
proof -
  let ?n = "length (sv_tasks s) - 1"
  let ?m = "(sv_metrics s)\<lparr>sm_queue_size := sm_queue_size (sv_metrics s) - 1\<rparr>"
  obtain h r where hr: "sv_tasks s ! k = (h, r)" by fastforce
  have n: "length (sv_tasks s) = Suc ?n" using assms(1) by simp
  then have "of_nat (length (sv_tasks s)) = (of_nat ?n + 1 :: u64)"
    by (metis add.commute of_nat_Suc)
  then have m: "sm_total ?m = sm_success ?m + sm_failed ?m + of_nat ?n + 1"
    "sm_queue_size ?m = of_nat ?n"
    using assms(3) by (simp_all add: srv_inv_def)
  obtain p where p: "sv_metrics s' = record_response p ?m"
    "sv_tasks s' = take k (sv_tasks s) @ drop (k + 1) (sv_tasks s)"
    using assms(2) hr by (auto simp: run_task_def Let_def rbind_Inr_iff split: if_splits sum.splits)
  have "length (sv_tasks s') = ?n"
    using p(2) assms(1) by simp
  then show ?thesis
    using srv_inv_answered [OF m, of p] p(1) by (simp add: srv_inv_def)
qed

interpretation srv: invariant_system "\<lambda>s. \<exists>reg. s = server_new reg" srv_step srv_inv
proof unfold_locales
  show "\<exists>reg. s = server_new reg \<Longrightarrow> srv_inv s" for s
    by (auto simp: server_new_def srv_inv_def metrics_zero_def)
  show "srv_step s s' \<Longrightarrow> srv_inv s \<Longrightarrow> srv_inv s'" for s s'
    by (induction rule: srv_step.induct) (auto intro: srv_inv_request srv_inv_task)
qed

section \<open>The read loop is the fold of the dispatcher\<close>

fun handle_all :: "(string \<Rightarrow> string) \<Rightarrow> (server \<Rightarrow> submit_result) \<Rightarrow> (server \<Rightarrow> time) \<Rightarrow>
    rpc_request list \<Rightarrow> server \<Rightarrow> server result" where
  "handle_all left post elapsed [] s = ret s"
| "handle_all left post elapsed (r # rs) s =
     rbind (handle_request left post elapsed r s) (handle_all left post elapsed rs)"

lemma on_message_drain:
  "nb_ok b \<Longrightarrow>
   (case drain decode_request (nb_peek b) of (rs, rest, bad) \<Rightarrow>
      case handle_all left post elapsed rs s of
        Inl e \<Rightarrow> on_message left post elapsed b s = Inl e
      | Inr s' \<Rightarrow> \<exists>b'. on_message left post elapsed b s = Inr (b', s', bad) \<and> nb_ok b' \<and> nb_peek b' = rest)"
proof (induction "nb_readable b" arbitrary: b s rule: less_induct)
  case less
  obtain r b' where rb: "try_decode_request b = Inr (r, b')" "nb_ok b'"
    "case r of Complete m \<Rightarrow> \<exists>n. decode_request (nb_peek b) = Complete (m, n) \<and> nb_peek b' = drop n (nb_peek b)
     | Need_More_Data \<Rightarrow> decode_request (nb_peek b) = Need_More_Data \<and> b' = b
     | Protocol_Error \<Rightarrow> decode_request (nb_peek b) = Protocol_Error \<and> b' = b"
    using rq.consume_total [OF less.prems] unfolding try_decode_request_def by blast
  show ?case
  proof (cases r)
    case (Complete q)
    then obtain n where n: "decode_request (nb_peek b) = Complete (q, n)" "nb_peek b' = drop n (nb_peek b)"
      using rb(3) by auto
    have smaller: "nb_readable b' < nb_readable b"
      using try_decode_request_shrinks rb(1) Complete by blast
    obtain rs rest bad where d: "drain decode_request (nb_peek b') = (rs, rest, bad)"
      by (metis prod_cases3)
    have drain_b: "drain decode_request (nb_peek b) = (q # rs, rest, bad)"
      using decode_request_length [OF n(1)] n d by (simp add: drain.simps [of decode_request "nb_peek b"])
    show ?thesis
    proof (cases "handle_request left post elapsed q s")
      case (Inl e)
      then show ?thesis
        using drain_b rb(1) Complete by (simp add: on_message.simps [of left post elapsed b])
    next
      case (Inr s1)
      with less.hyps [OF smaller rb(2), of s1] show ?thesis
        using drain_b d rb(1) Complete
        by (simp add: on_message.simps [of left post elapsed b] split: sum.splits)
    qed
  next
    case Need_More_Data
    then show ?thesis
      using rb less.prems by (simp add: drain.simps [of decode_request "nb_peek b"]
          on_message.simps [of left post elapsed b])
  next
    case Protocol_Error
    then show ?thesis
      using rb less.prems by (simp add: drain.simps [of decode_request "nb_peek b"]
          on_message.simps [of left post elapsed b])
  qed
qed

lemma task_response_fields:
  "rs_trace_id (task_response h r nanos) = rq_trace_id r" "rs_serializer (task_response h r nanos) = reply_serializer r"
  "rs_request_id (task_response h r nanos) =
      (case h r (default_response\<lparr>rs_request_id := rq_request_id r, rs_trace_id := rq_trace_id r,
          rs_serializer := reply_serializer r\<rparr>) of
         (q, Normal) \<Rightarrow> rq_request_id r
       | (q, _) \<Rightarrow> rs_request_id q)"
  by (simp_all add: task_response_def apply_deadline_def run_handler_def split: prod.splits handler_exit.splits)

lemma task_response_deadline:
  "rs_error_code (run_handler h r) = 0 \<and> rs_error_code (task_response h r nanos) = 0 \<longrightarrow>
     rq_timeout_ms r = 0 \<or> elapsed_micros nanos div 1000 \<le> rq_timeout_ms r"
  "rs_error_code (run_handler h r) = 0 \<and> rs_error_code (task_response h r nanos) = error_code_value Rpc_Timeout \<longrightarrow>
     rq_timeout_ms r \<noteq> 0 \<and> rq_timeout_ms r < elapsed_micros nanos div 1000 \<and> rs_payload (task_response h r nanos) = []"
  by (auto simp: task_response_def apply_deadline_def not_le)

section \<open>Properties\<close>

text \<open>
  C15. Every request gets exactly one treatment: it is handed to the pool with the registered
  handler, or answered at once with one frame that decodes to an error response with the
  request's id and the code and message for the case: unsupported serializer, unknown service,
  unknown method, or refused by the pool. The one exception is an answer that does not fit in a
  frame: then \<open>length_error\<close> is thrown and nothing is sent; it cannot happen when the message, the
  trace id and the serializer of the answer are at most 30 bytes shorter than the limit.
\<close>

theorem request_dispatch:
  "case dispatch_error post r s of
      None \<Rightarrow> \<exists>h s'. find_method (rq_service_name r) (rq_method_name r) (sv_registry s) = Found h \<and>
        handle_request left post elapsed r s = Inr s' \<and>
        sv_tasks s' = sv_tasks s @ [(h, r)] \<and> sv_sent s' = sv_sent s
    | Some code \<Rightarrow> let p = dispatch_answer left code r (elapsed (count_request s)) in
        rs_request_id p = rq_request_id r \<and> rs_error_code p = error_code_value code \<and>
        rs_payload p = [] \<and> rs_error_message p = dispatch_message code r \<and>
        (case encode_response p of
           Inr f \<Rightarrow> \<exists>s'. handle_request left post elapsed r s = Inr s' \<and> sv_tasks s' = sv_tasks s \<and>
             sv_sent s' = sv_sent s @ [f] \<and> decode_response f = Complete (p, length f)
         | Inl e \<Rightarrow> handle_request left post elapsed r s = Inl e \<and> (\<exists>message. e = Length_Error message) \<and>
             max_message_size < length (dispatch_message code r) + length (rs_trace_id p) +
               length (rs_serializer p) + 30)"
proof (cases "dispatch_error post r s")
  case None
  then obtain h where h: "find_method (rq_service_name r) (rq_method_name r) (sv_registry s) = Found h"
    by (auto simp: dispatch_error_def split: lookup_result.splits if_splits)
  with None show ?thesis
    by (auto simp: dispatch_cases post_request_def Let_def)
next
  case (Some code)
  let ?p = "dispatch_answer left code r (elapsed (count_request s))"
  have fields: "rs_request_id ?p = rq_request_id r" "rs_error_code ?p = error_code_value code" "rs_payload ?p = []"
    "rs_error_message ?p = dispatch_message code r" "norm_response ?p = ?p"
    unfolding dispatch_answer_def
    by (simp_all add: error_response_def default_response_def moved_request_def norm_response_def reply_serializer_def)
  show ?thesis
  proof (cases "encode_response ?p")
    case (Inr f)
    then have "decode_response f = Complete (?p, length f)"
      using decode_encode_response [OF Inr] fields(5) by simp
    then show ?thesis
      using Some fields Inr by (auto simp: dispatch_cases Let_def)
  next
    case (Inl e)
    then have "handle_request left post elapsed r s = Inl e" using Some by (simp add: dispatch_cases)
    then show ?thesis
      using Some fields Inl encode_Inl(2) [OF Inl] small_response_fits [of ?p] unfolding Let_def by fastforce
  qed
qed

definition demo_server :: server where
  "demo_server = server_new [''Calc'' \<mapsto> [''Add'' \<mapsto>
     (\<lambda>q p. (p\<lparr>rs_payload := rq_payload q\<rparr>, Normal))]]"

definition demo_call :: "string \<Rightarrow> rpc_request" where
  "demo_call service = default_request\<lparr>rq_request_id := 9, rq_service_name := service,
     rq_method_name := ''Add''\<rparr>"

lemma demo_not_found:
  "\<exists>s'. handle_request id (\<lambda>_. Accepted) (\<lambda>_. 5000) (demo_call ''Mail'') demo_server = Inr s'"
  by (simp add: handle_request_def demo_call_def demo_server_def server_new_def default_request_def
      find_method_def count_request_def send_error_Inr encode_response_Inr response_metadata_def
      has_response_extension_def error_response_def default_response_def extension_bytes_def
      reply_serializer_def max_message_size_def Let_def)

lemma request_dispatch_witness:
  "\<exists>s' f p. handle_request id (\<lambda>_. Accepted) (\<lambda>_. 5000) (demo_call ''Mail'') demo_server = Inr s' \<and>
     sv_sent s' = [f] \<and> decode_response f = Complete (p, length f) \<and> rs_request_id p = 9 \<and>
     rs_error_code p = 2001 \<and> rs_error_message p = ''service not found: Mail''"
proof -
  obtain s' where s': "handle_request id (\<lambda>_. Accepted) (\<lambda>_. 5000) (demo_call ''Mail'') demo_server = Inr s'"
    using demo_not_found by blast
  let ?p = "dispatch_answer id Service_Not_Found (demo_call ''Mail'') 5000"
  have "dispatch_error (\<lambda>_. Accepted) (demo_call ''Mail'') demo_server = Some Service_Not_Found"
    by (simp add: dispatch_error_def demo_call_def demo_server_def server_new_def find_method_def
        default_request_def)
  note d = request_dispatch [where left = id and post = "\<lambda>_. Accepted" and elapsed = "\<lambda>_. 5000" and
      r = "demo_call ''Mail''" and s = demo_server, unfolded this option.case Let_def]
  obtain f where f: "encode_response ?p = Inr f"
    using d s' by (cases "encode_response ?p") simp_all
  have sent: "sv_sent s' = [f] \<and> decode_response f = Complete (?p, length f)"
    using d s' f by (simp add: demo_server_def server_new_def)
  have "rs_request_id ?p = 9 \<and> rs_error_code ?p = 2001 \<and> rs_error_message ?p = ''service not found: Mail''"
    using d by (simp add: demo_call_def default_request_def dispatch_message_def)
  with sent s' show ?thesis by blast
qed

text \<open>
  C16. A task ends with one reply, sent if the connection is still there: the response, or, when it
  does not fit in a frame, the fallback with \<open>ServerError\<close> and no payload; the frame decodes to it.
  Only if the fallback does not fit either, \<open>length_error\<close> leaves the task; it fits when the trace id
  and the serializer are 128 bytes shorter than the limit. The reply echoes the trace id; its id is
  the request's, except that a handler which changed it and then threw has its own value sent. A
  successful response past the request's deadline becomes \<open>Timeout\<close> with an empty payload; a request
  without a deadline never does.
\<close>

theorem task_reply:
  assumes "k < length (sv_tasks s)" "sv_tasks s ! k = (h, r)"
  shows "\<exists>p. (case encode_response (task_response h r nanos) of
        Inr f \<Rightarrow> p = task_response h r nanos
      | Inl e \<Rightarrow> p = encode_failure e nanos' (task_response h r nanos) \<and>
          rs_error_code p = error_code_value Server_Error \<and> rs_payload p = []) \<and>
    (case encode_response p of
       Inr f \<Rightarrow> \<exists>s'. run_task nanos nanos' active k s = Inr s' \<and>
         sv_tasks s' = take k (sv_tasks s) @ drop (k + 1) (sv_tasks s) \<and>
         sv_sent s' = sv_sent s @ (if active then [f] else []) \<and> decode_response f = Complete (p, length f)
     | Inl e \<Rightarrow> run_task nanos nanos' active k s = Inl e \<and> (\<exists>message. e = Length_Error message) \<and>
         max_message_size < length (rq_trace_id r) + length (reply_serializer r) + 128) \<and>
    rs_trace_id p = rq_trace_id r \<and>
    rs_request_id p =
      (case h r (default_response\<lparr>rs_request_id := rq_request_id r, rs_trace_id := rq_trace_id r,
          rs_serializer := reply_serializer r\<rparr>) of
         (q, Normal) \<Rightarrow> rq_request_id r
       | (q, _) \<Rightarrow> rs_request_id q) \<and>
    (rs_error_code (run_handler h r) = 0 \<and> rs_error_code p = 0 \<longrightarrow>
       rq_timeout_ms r = 0 \<or> elapsed_micros nanos div 1000 \<le> rq_timeout_ms r) \<and>
    (rs_error_code (run_handler h r) = 0 \<and> rs_error_code p = error_code_value Rpc_Timeout \<longrightarrow>
       rq_timeout_ms r \<noteq> 0 \<and> rq_timeout_ms r < elapsed_micros nanos div 1000 \<and> rs_payload p = [])"
proof (cases "encode_response (task_response h r nanos)")
  case (Inr f)
  then have "decode_response f = Complete (task_response h r nanos, length f)"
    using decode_encode_response [OF Inr] by simp
  then show ?thesis
    using Inr assms(2) task_response_fields task_response_deadline
    by (intro exI [of _ "task_response h r nanos"]) (auto simp: run_task_def Let_def)
next
  case (Inl e)
  let ?q = "encode_failure e nanos' (task_response h r nanos)"
  have q: "norm_response ?q = ?q" "rs_trace_id ?q = rq_trace_id r" "rs_serializer ?q = reply_serializer r"
    "rs_payload ?q = []" "rs_error_code ?q = error_code_value Server_Error"
    "rs_request_id ?q = rs_request_id (task_response h r nanos)" "length (rs_error_message ?q) \<le> 80"
    using task_response_fields [of h r nanos] encode_response_what [OF Inl]
    by (simp_all add: encode_failure_def norm_response_def reply_serializer_def)
  have "encode_response ?q = Inl e' \<Longrightarrow> max_message_size < length (rq_trace_id r) + length (reply_serializer r) + 128" for e'
    using small_response_fits [of ?q] q by fastforce
  moreover have "encode_response ?q = Inr f \<Longrightarrow> decode_response f = Complete (?q, length f)" for f
    using decode_encode_response [of ?q f] q(1) by simp
  ultimately show ?thesis
    using Inl assms(2) q task_response_fields encode_Inl(2)
    by (intro exI [of _ ?q]) (auto simp: run_task_def Let_def split: sum.splits)
qed

definition demo_busy :: server where
  "demo_busy = demo_server\<lparr>sv_tasks := [(\<lambda>q p. (p\<lparr>rs_payload := ''3''\<rparr>, Normal),
     (demo_call ''Calc'')\<lparr>rq_timeout_ms := 2\<rparr>)]\<rparr>"

lemma task_reply_witness:
  "\<exists>s' f p. run_task 5000000 0 True 0 demo_busy = Inr s' \<and> sv_sent s' = [f] \<and>
     decode_response f = Complete (p, length f) \<and> rs_error_code p = 1003 \<and> rs_payload p = []"
proof -
  let ?h = "\<lambda>q p. (p\<lparr>rs_payload := ''3''\<rparr>, Normal)" and ?r = "(demo_call ''Calc'')\<lparr>rq_timeout_ms := 2\<rparr>"
  have t: "sv_tasks demo_busy ! 0 = (?h, ?r)" "0 < length (sv_tasks demo_busy)"
    by (simp_all add: demo_busy_def)
  have p: "task_response ?h ?r 5000000 = default_response\<lparr>rs_request_id := 9, rs_error_code := 1003,
      rs_error_message := ''RPC request exceeded server deadline'', rs_server_cost_us := 5000\<rparr>"
    by (simp add: task_response_def run_handler_def apply_deadline_def demo_call_def
        default_request_def default_response_def reply_serializer_def elapsed_micros_def)
  obtain f where f: "encode_response (task_response ?h ?r 5000000) = Inr f"
    unfolding p by (simp add: encode_response_Inr response_metadata_def has_response_extension_def
        default_response_def extension_bytes_def max_message_size_def)
  let ?q = "task_response ?h ?r 5000000"
  obtain s' where "run_task 5000000 0 True 0 demo_busy = Inr s'" "sv_sent s' = sv_sent demo_busy @ [f]"
    "decode_response f = Complete (?q, length f)"
    using task_reply [OF t(2,1), where nanos = 5000000 and nanos' = 0 and active = True, unfolded f sum.case]
    by (elim exE conjE) (simp only: f sum.case if_True; blast)
  then show ?thesis
    unfolding p by (intro exI [of _ s'] exI [of _ f]) (simp add: demo_busy_def demo_server_def server_new_def default_response_def)
qed

text \<open>
  The counters account for every request: at any time the requests counted are the
  successes, the failures and the ones still with the pool, and the queue counter is the number
  of those, all modulo the 64 bits of the counters.
\<close>

theorem server_metrics_balance:
  assumes "reach (\<lambda>s. \<exists>reg. s = server_new reg) srv_step s"
  shows "sm_total (sv_metrics s) = sm_success (sv_metrics s) + sm_failed (sv_metrics s)
      + of_nat (length (sv_tasks s)) \<and>
    sm_queue_size (sv_metrics s) = of_nat (length (sv_tasks s))"
  using srv.reach_inv [OF assms] by (simp add: srv_inv_def)

lemma server_metrics_balance_witness:
  "\<exists>s. reach (\<lambda>s. \<exists>reg. s = server_new reg) srv_step s \<and> sm_total (sv_metrics s) = 1 \<and>
     sm_failed (sv_metrics s) = 1 \<and> sm_queue_size (sv_metrics s) = 0"
proof -
  obtain s where s: "handle_request id (\<lambda>_. Accepted) (\<lambda>_. 5000) (demo_call ''Mail'') demo_server = Inr s"
    using demo_not_found by blast
  have "reach (\<lambda>s. \<exists>reg. s = server_new reg) srv_step demo_server"
    by (rule reach_init) (auto simp: demo_server_def)
  then have r: "reach (\<lambda>s. \<exists>reg. s = server_new reg) srv_step s"
    using srv_request [OF s] by (rule reach_step)
  have "sv_tasks s = [] \<and> sm_total (sv_metrics s) = 1 \<and> sm_failed (sv_metrics s) = 1"
    using s by (auto simp: handle_request_def demo_call_def demo_server_def server_new_def
        default_request_def find_method_def count_request_def send_error_Inr metrics_zero_def
        record_response_def error_response_def Let_def)
  with r server_metrics_balance [OF r] show ?thesis by auto
qed

text \<open>
  C17. The read loop hands the requests of the buffer to the dispatcher one by one, in order, and
  stops at the first incomplete frame, which stays in the buffer, or at a protocol error, which
  closes the connection; an exception of the dispatcher leaves the loop. It always returns.
\<close>

theorem read_loop_dispatches:
  assumes "nb_ok b"
  shows "(case drain decode_request (nb_peek b) of (rs, rest, bad) \<Rightarrow>
      case handle_all left post elapsed rs s of
        Inl e \<Rightarrow> on_message left post elapsed b s = Inl e
      | Inr s' \<Rightarrow> \<exists>b'. on_message left post elapsed b s = Inr (b', s', bad) \<and> nb_ok b' \<and>
          nb_peek b' = rest)"
  by (rule on_message_drain [OF assms])

lemma read_loop_dispatches_witness:
  "on_message id (\<lambda>_. Accepted) (\<lambda>_. 5000) nb_new demo_server = Inr (nb_new, demo_server, False)"
proof -
  have d: "drain decode_request (nb_peek nb_new) = ([], [], False)"
    using nb_new_ok by (simp add: drain.simps rq.dec_nothing)
  have "decode_request (nb_peek nb_new) = Need_More_Data"
    using nb_new_ok by (simp add: rq.dec_nothing)
  then show ?thesis
    using read_loop_dispatches [of nb_new id "\<lambda>_. Accepted" "\<lambda>_. 5000" demo_server] d nb_new_ok
    by (simp add: on_message.simps try_decode_request_def consume_def)
qed

text \<open>
  A well-formed request can make the server throw out of its read loop: the reply to an
  unsupported serializer contains the serializer's name twice, so that a name that fits in a
  request need not fit in the reply, and \<open>sendError\<close> does not catch the encoder's exception.
\<close>

theorem oversized_error_reply:
  "\<exists>r f b. encode_request r = Inr f \<and> nb_append f nb_new = Inr b \<and>
     (\<exists>msg. on_message left post elapsed b s = Inl (Length_Error msg))"
proof -
  let ?r = "default_request\<lparr>rq_serializer := replicate 9000000 (CHR ''x'')\<rparr>"
  have len: "length (rq_serializer ?r) = 9000000" by simp
  have bad: "rq_serializer ?r \<noteq> []" "rq_serializer ?r \<noteq> ''raw''"
  proof -
    show "rq_serializer ?r \<noteq> []" by simp
    show "rq_serializer ?r \<noteq> ''raw''"
    proof
      assume "rq_serializer ?r = ''raw''"
      then have "length (rq_serializer ?r) = length ''raw''" by (rule arg_cong)
      then show False by (simp only: len) simp
    qed
  qed
  obtain f where f: "encode_request ?r = Inr f"
    using bad by (simp add: encode_request_Inr request_metadata_def has_request_extension_def
        default_request_def extension_bytes_def max_message_size_def)
  obtain b where b: "nb_append f nb_new = Inr b" "nb_ok b" "nb_peek b = f @ []"
    using nb.app_ok [of nb_new f] nb_new_ok by auto
  have norm: "norm_request ?r = ?r"
    using bad by (simp add: norm_request_def)
  then obtain b' where b': "try_decode_request b = Inr (Complete ?r, b')"
    using rq.consume_frame [OF b(2) f b(3)] by (auto simp: try_decode_request_def)
  have "\<nexists>g. encode_response (error_response ?r code (''unsupported request serializer: '' @ rq_serializer ?r)
      nanos) = Inr g" for code nanos
  proof -
    have "max_message_size < length (response_metadata (error_response ?r code
        (''unsupported request serializer: '' @ rq_serializer ?r) nanos))"
      using bad by (simp add: response_metadata_def has_response_extension_def error_response_def
          reply_serializer_def extension_bytes_def max_message_size_def)
    then show ?thesis by (simp add: encode_response_Inr)
  qed
  then have "\<exists>msg. encode_response (error_response ?r code
      (''unsupported request serializer: '' @ rq_serializer ?r) nanos) = Inl (Length_Error msg)"
    for code nanos
    using encode_Inl(2) by (metis sum.exhaust)
  then obtain msg where "encode_response (error_response ?r Deserialization_Error
      (''unsupported request serializer: '' @ rq_serializer ?r) (elapsed (count_request s)))
      = Inl (Length_Error msg)" by blast
  then have "handle_request left post elapsed ?r s = Inl (Length_Error msg)"
    using bad by (simp add: handle_request_def send_error_def Let_def)
  then have "on_message left post elapsed b s = Inl (Length_Error msg)"
    using b' by (simp add: on_message.simps [of left post elapsed b])
  with f b(1) show ?thesis by blast
qed

end
