(* ===== verification/Rpc_System.thy ===== *)
theory Rpc_System
  imports Rpc_Client Rpc_Server
begin

text \<open>
  An \<open>RpcClient\<close> and an \<open>RpcServer\<close> on the two ends of a TCP connection (code/MiniRPC/src/rpc_client.cpp,
  rpc_server.cpp). The client is the system of threads of \<open>Rpc_Client\<close>, the server that of
  \<open>Rpc_Server\<close>: its read loop takes one request at a time, its tasks run in any order. Each
  direction of the connection is the bytes under way, which arrive in pieces of any size. The
  connection may break and come back at any time: the bytes under way are lost, and so are
  frames given to a broken connection.
\<close>

section \<open>The system\<close>

text \<open>\<open>rx_calls\<close> is the history of the calls made: the id and the request as it was prepared.\<close>

record rpc_system =
  rx_client :: csys
  rx_calls :: "(u64 \<times> rpc_request) list"
  rx_up :: string
  rx_in :: nbuf
  rx_server :: server
  rx_down :: string

definition rx_init :: "handler registry \<Rightarrow> rpc_system \<Rightarrow> bool" where
  "rx_init reg s \<longleftrightarrow> s = \<lparr>rx_client = \<lparr>cs_client = cl_new, cs_threads = []\<rparr>, rx_calls = [], rx_up = [],
     rx_in = nb_new, rx_server = server_new reg, rx_down = []\<rparr>"

text \<open>The frames an operation has added, if the connection takes them.\<close>

definition sent_since :: "bool \<Rightarrow> 'f list \<Rightarrow> 'f list \<Rightarrow> 'f list" where
  "sent_since taken old new = (if taken then drop (length old) new else [])"

inductive rx_step :: "rpc_system \<Rightarrow> rpc_system \<Rightarrow> bool" where
  rxs_call: "rx_client s = y \<Longrightarrow> cl_next_request (cs_client y) \<noteq> 0 \<Longrightarrow>
    cl_call options cb r (cs_client y) = (c, ops) \<Longrightarrow>
    rx_step s (s\<lparr>rx_client := y\<lparr>cs_client := c, cs_threads := cs_threads y @ [ops]\<rparr>,
                 rx_calls := rx_calls s @ [(cl_next_request (cs_client y),
                               prepare_request (cl_next_request (cs_client y)) options r)]\<rparr>)"
| rxs_entry: "rx_client s = y \<Longrightarrow> cl_entry (cs_client y) c ops \<Longrightarrow>
    cl_issued c = cl_issued (cs_client y) \<Longrightarrow> cl_input c = cl_input (cs_client y) \<Longrightarrow>
    rx_step s (s\<lparr>rx_client := y\<lparr>cs_client := c, cs_threads := cs_threads y @ [ops]\<rparr>\<rparr>)"
| rxs_exec: "rx_client s = y \<Longrightarrow> k < length (cs_threads y) \<Longrightarrow> cs_threads y ! k = o1 # rest \<Longrightarrow>
    cl_exec up timed_out o1 (cs_client y) = Some (c, ops, started) \<Longrightarrow>
    rx_step s (s\<lparr>rx_client := y\<lparr>cs_client := c, cs_threads := (cs_threads y)[k := ops @ rest] @ started\<rparr>,
                 rx_up := rx_up s @ concat (map snd (sent_since taken (cl_sent (cs_client y)) (cl_sent c)))\<rparr>)"
| rxs_time: "rx_client s = y \<Longrightarrow> cl_now (cs_client y) \<le> now \<Longrightarrow>
    rx_step s (s\<lparr>rx_client := y\<lparr>cs_client := (cs_client y)\<lparr>cl_now := now\<rparr>\<rparr>\<rparr>)"
| rxs_rehash: "rx_client s = y \<Longrightarrow> mset ps = mset (cl_pending (cs_client y)) \<Longrightarrow>
    rx_step s (s\<lparr>rx_client := y\<lparr>cs_client := (cs_client y)\<lparr>cl_pending := ps\<rparr>\<rparr>\<rparr>)"
| rxs_connect: "rx_client s = y \<Longrightarrow>
    rx_step s (s\<lparr>rx_client := y\<lparr>cs_client := (cs_client y)\<lparr>cl_input := nb_new\<rparr>,
                                cs_threads := cs_threads y @ [[On_Up]]\<rparr>,
                 rx_up := [], rx_in := nb_new, rx_down := []\<rparr>)"
| rxs_arrive_server: "rx_up s = data @ rest \<Longrightarrow> nb_append data (rx_in s) = Inr b \<Longrightarrow>
    rx_step s (s\<lparr>rx_up := rest, rx_in := b\<rparr>)"
| rxs_read: "try_decode_request (rx_in s) = Inr (Complete r, b) \<Longrightarrow>
    handle_request left post elapsed r (rx_server s) = Inr v \<Longrightarrow>
    rx_step s (s\<lparr>rx_in := b, rx_server := v,
                 rx_down := rx_down s @ concat (sent_since taken (sv_sent (rx_server s)) (sv_sent v))\<rparr>)"
| rxs_task: "k < length (sv_tasks (rx_server s)) \<Longrightarrow> run_task nanos nanos' active k (rx_server s) = Inr v \<Longrightarrow>
    rx_step s (s\<lparr>rx_server := v,
                 rx_down := rx_down s @ concat (sent_since taken (sv_sent (rx_server s)) (sv_sent v))\<rparr>)"
| rxs_arrive_client: "rx_client s = y \<Longrightarrow> rx_down s = data @ rest \<Longrightarrow>
    nb_append data (cl_input (cs_client y)) = Inr b \<Longrightarrow>
    rx_step s (s\<lparr>rx_client := y\<lparr>cs_client := (cs_client y)\<lparr>cl_input := b\<rparr>,
                                cs_threads := cs_threads y @ [[On_Message]]\<rparr>, rx_down := rest\<rparr>)"

text \<open>What the client does here are steps of the client.\<close>

lemma rx_client_step: "rx_step s s' \<Longrightarrow> rx_client s' = rx_client s \<or> cl_step (rx_client s) (rx_client s')"
proof (induction rule: rx_step.induct)
  case (rxs_call s y options cb r c ops)
  then show ?case using cls_entry [OF ce_call] by simp
next
  case (rxs_entry s y c ops)
  then show ?case using cls_entry by simp
next
  case (rxs_exec s y k o1 rest up timed_out c ops started taken)
  then show ?case using cls_exec by simp
next
  case (rxs_time s y now)
  then show ?case using cls_time by simp
next
  case (rxs_rehash s y ps)
  then show ?case using cls_rehash by simp
next
  case (rxs_connect s y)
  then show ?case using cls_entry [OF ce_up, of y] by simp
next
  case (rxs_arrive_client s y data rest b)
  then show ?case using cls_entry [OF ce_bytes, of data y b] by simp
qed simp_all

section \<open>Replies\<close>

text \<open>
  The replies a server with the registry \<open>reg\<close> may give to a request: an error for a reason that
  holds, or the outcome of the method's handler.
\<close>

definition refused :: "handler registry \<Rightarrow> rpc_request \<Rightarrow> rpc_error_code \<Rightarrow> bool" where
  "refused reg q code \<longleftrightarrow>
     (let found = find_method (rq_service_name q) (rq_method_name q) reg
      in code = Deserialization_Error \<and> rq_serializer q \<noteq> ''raw'' \<or>
         code = Service_Not_Found \<and> found = Lookup_No_Service \<or>
         code = Method_Not_Found \<and> found = Lookup_No_Method \<or>
         code = Server_Error \<and> (\<exists>h. found = Found h))"

definition reply_to :: "handler registry \<Rightarrow> rpc_request \<Rightarrow> rpc_response \<Rightarrow> bool" where
  "reply_to reg q p \<longleftrightarrow>
     (\<exists>code left message nanos. refused reg q code \<and>
        (p = error_response q code message nanos \<or> p = error_response (moved_request left q) code message nanos)) \<or>
     (\<exists>h nanos. find_method (rq_service_name q) (rq_method_name q) reg = Found h \<and>
        (p = task_response h q nanos \<or> (\<exists>e nanos'. p = encode_failure e nanos' (task_response h q nanos))))"

text \<open>A handler that throws may leave any id in the response; the others' is put right.\<close>

definition keeps_id :: "handler registry \<Rightarrow> bool" where
  "keeps_id reg \<longleftrightarrow> (\<forall>service meth h. find_method service meth reg = Found h \<longrightarrow>
     (\<forall>q p. snd (h q p) \<noteq> Normal \<longrightarrow> rs_request_id (fst (h q p)) = rs_request_id p))"

lemma run_handler_id:
  assumes "keeps_id reg" "find_method service meth reg = Found h"
  shows "rs_request_id (run_handler h q) = rq_request_id q"
proof -
  let ?p = "default_response\<lparr>rs_request_id := rq_request_id q, rs_trace_id := rq_trace_id q,
      rs_serializer := reply_serializer q\<rparr>"
  obtain p e where h: "h q ?p = (p, e)" by fastforce
  have "rs_request_id p = rs_request_id ?p" if "e \<noteq> Normal"
    using assms h that unfolding keeps_id_def by (metis fst_conv snd_conv)
  then have "rs_request_id p = rq_request_id q" if "e \<noteq> Normal" using that by simp
  with h show ?thesis
    by (cases e) (simp_all add: run_handler_def)
qed

lemma reply_id:
  assumes "keeps_id reg" "reply_to reg q p"
  shows "rs_request_id p = rq_request_id q"
  using assms(2) run_handler_id [OF assms(1)]
  by (auto simp: reply_to_def error_response_def moved_request_def task_response_def apply_deadline_def
      encode_failure_def)

lemma reply_norm: "reply_to reg q p \<Longrightarrow> norm_response p = p"
proof -
  have "rs_serializer (task_response h q nanos) \<noteq> []" for h nanos
    by (simp add: task_response_def apply_deadline_def reply_serializer_def)
  then have "norm_response (encode_failure e nanos' (task_response h q nanos)) = encode_failure e nanos' (task_response h q nanos)"
    for e nanos' h nanos by (simp add: norm_response_def encode_failure_def)
  then show "reply_to reg q p \<Longrightarrow> ?thesis"
    by (auto simp: reply_to_def)
qed

lemma handle_reply:
  assumes "handle_request left post elapsed q v = Inr v'" "rq_serializer q \<noteq> []"
  shows "sv_registry v' = sv_registry v \<and>
    ((\<exists>h. find_method (rq_service_name q) (rq_method_name q) (sv_registry v) = Found h \<and>
        sv_tasks v' = sv_tasks v @ [(h, q)] \<and> sv_sent v' = sv_sent v) \<or>
     (\<exists>p f. reply_to (sv_registry v) q p \<and> encode_response p = Inr f \<and> sv_tasks v' = sv_tasks v \<and>
        sv_sent v' = sv_sent v @ [f]))"
proof -
  let ?found = "find_method (rq_service_name q) (rq_method_name q) (sv_registry v)"
  have err: "sv_registry v' = sv_registry v \<and> (\<exists>p f. reply_to (sv_registry v) q p \<and> encode_response p = Inr f \<and>
      sv_tasks v' = sv_tasks v \<and> sv_sent v' = sv_sent v @ [f])"
    if S: "send_error r code message nanos u = Inr v'" "r = q \<or> r = moved_request left q" "refused (sv_registry v) q code"
      "sv_registry u = sv_registry v" "sv_tasks u = sv_tasks v" "sv_sent u = sv_sent v" for r code message nanos u
  proof -
    obtain f where f: "encode_response (error_response r code message nanos) = Inr f"
      "v' = u\<lparr>sv_metrics := record_response (error_response r code message nanos) (sv_metrics u), sv_sent := sv_sent u @ [f]\<rparr>"
      using S(1) unfolding send_error_Inr by blast
    moreover have "reply_to (sv_registry v) q (error_response r code message nanos)"
      using S(2,3) unfolding reply_to_def by blast
    ultimately show ?thesis using S(4-6) by auto
  qed
  consider (ser) "rq_serializer q \<noteq> ''raw''" | (service) "rq_serializer q = ''raw''" "?found = Lookup_No_Service"
    | (meth) "rq_serializer q = ''raw''" "?found = Lookup_No_Method"
    | (found) h where "rq_serializer q = ''raw''" "?found = Found h"
    by (cases ?found) auto
  then show ?thesis
  proof cases
    case ser
    with assms have "send_error q Deserialization_Error (''unsupported request serializer: '' @ rq_serializer q)
        (elapsed (count_request v)) (count_request v) = Inr v'"
      by (simp add: handle_request_def Let_def)
    from err [OF this] ser show ?thesis by (simp add: refused_def)
  next
    case service
    with assms have "send_error q Service_Not_Found (''service not found: '' @ rq_service_name q)
        (elapsed (count_request v)) (count_request v) = Inr v'"
      by (simp add: handle_request_def Let_def)
    from err [OF this] service show ?thesis by (simp add: refused_def)
  next
    case meth
    with assms have "send_error q Method_Not_Found (''method not found: '' @ rq_service_name q @ ''.'' @ rq_method_name q)
        (elapsed (count_request v)) (count_request v) = Inr v'"
      by (simp add: handle_request_def Let_def)
    from err [OF this] meth show ?thesis by (simp add: refused_def)
  next
    case (found h)
    then have post: "post_request left (post (count_request v)) (elapsed (count_request v)) h q (count_request v) = Inr v'"
      using assms(1) by (simp add: handle_request_def Let_def)
    show ?thesis
    proof (cases "post (count_request v) = Accepted")
      case True
      with post found show ?thesis by (auto simp: post_request_def)
    next
      case False
      then obtain u where "send_error (moved_request left q) Server_Error ''server business queue is full''
          (elapsed (count_request v)) u = Inr v'" "sv_registry u = sv_registry v" "sv_tasks u = sv_tasks v" "sv_sent u = sv_sent v"
        using post by (auto simp: post_request_def Let_def)
      from err [OF this(1) _ _ this(2-4)] found show ?thesis by (auto simp: refused_def)
    qed
  qed
qed

lemma task_reply_to:
  assumes "run_task nanos nanos' active k v = Inr v'" "k < length (sv_tasks v)" "sv_tasks v ! k = (h, q)"
    "find_method (rq_service_name q) (rq_method_name q) (sv_registry v) = Found h"
  shows "sv_registry v' = sv_registry v \<and> set (sv_tasks v') \<subseteq> set (sv_tasks v) \<and>
    (\<exists>p f. reply_to (sv_registry v) q p \<and> encode_response p = Inr f \<and>
       (sv_sent v' = sv_sent v \<or> sv_sent v' = sv_sent v @ [f]))"
proof -
  let ?p = "task_response h q nanos"
  obtain p f where p: "p = ?p \<or> (\<exists>e. p = encode_failure e nanos' ?p)" "encode_response p = Inr f"
    "sv_registry v' = sv_registry v" "sv_tasks v' = take k (sv_tasks v) @ drop (k + 1) (sv_tasks v)"
    "sv_sent v' = sv_sent v \<or> sv_sent v' = sv_sent v @ [f]"
  proof (cases "encode_response ?p")
    case (Inr f)
    show thesis
      by (rule that [of ?p f]) (use assms(1,3) Inr in \<open>auto simp: run_task_def Let_def split: if_splits\<close>)
  next
    case (Inl e)
    then obtain f where f: "encode_response (encode_failure e nanos' ?p) = Inr f"
      using assms(1,3) by (auto simp: run_task_def Let_def rbind_Inr_iff)
    show thesis
      by (rule that [of "encode_failure e nanos' ?p" f])
        (use assms(1,3) Inl f in \<open>auto simp: run_task_def Let_def split: if_splits\<close>)
  qed
  have "reply_to (sv_registry v) q p"
    using p(1) assms(4) unfolding reply_to_def by blast
  moreover have "set (sv_tasks v') \<subseteq> set (sv_tasks v)"
    using p(4) set_take_subset [of k "sv_tasks v"] set_drop_subset [of "k + 1" "sv_tasks v"] by auto
  ultimately show ?thesis using p(2,3,5) by blast
qed

section \<open>What the client's operations carry\<close>

fun op_frames :: "cl_op \<Rightarrow> (u64 \<times> string) set" where
  "op_frames (Decide p) = {(pc_request_id p, pc_frame p)}"
| "op_frames (Emplace p start) = {(pc_request_id p, pc_frame p)}"
| "op_frames (Send_One p) = {(pc_request_id p, pc_frame p)}"
| "op_frames (Mark p) = {(pc_request_id p, pc_frame p)}"
| "op_frames (Tcp_Send i f) = {(i, f)}"
| "op_frames _ = {}"

definition table_frames :: "pending_call list \<Rightarrow> (u64 \<times> string) set" where
  "table_frames ps = (\<lambda>p. (pc_request_id p, pc_frame p)) ` set ps"

definition ops_frames :: "cl_op list \<Rightarrow> (u64 \<times> string) set" where
  "ops_frames ops = \<Union> (op_frames ` set ops)"

lemma ops_frames_simps [simp]:
  "ops_frames [] = {}" "ops_frames (o1 # ops) = op_frames o1 \<union> ops_frames ops"
  "ops_frames (ops @ ops') = ops_frames ops \<union> ops_frames ops'"
  by (auto simp: ops_frames_def)

lemma ops_frames_fail [simp]: "ops_frames (fail_calls code message ps) = {}"
  by (auto simp: ops_frames_def fail_calls_def)

lemma table_frames_map:
  "(\<And>p. pc_request_id (g p) = pc_request_id p \<and> pc_frame (g p) = pc_frame p) \<Longrightarrow> table_frames (map g ps) = table_frames ps"
  by (simp add: table_frames_def image_image)

lemma table_frames_simps [simp]:
  "table_frames [] = {}" "table_frames (p # ps) = insert (pc_request_id p, pc_frame p) (table_frames ps)"
  by (simp_all add: table_frames_def)

lemma expire_frames: "expire_retries ps = (gone, kept, w) \<Longrightarrow> table_frames kept \<subseteq> table_frames ps"
proof (induction ps arbitrary: gone kept w)
  case (Cons p ps)
  obtain gone1 kept1 w1 where rec: "expire_retries ps = (gone1, kept1, w1)" by (rule prod_cases3)
  from Cons.IH [OF rec] Cons.prems rec show ?case
    by (auto simp: Let_def split: if_splits)
qed simp

text \<open>No operation makes up a frame.\<close>

lemma exec_frames:
  assumes "cl_exec up timed_out o1 c = Some (c', ops, started)"
  shows "table_frames (cl_pending c') \<union> set (cl_sent c') \<union> ops_frames ops \<union> \<Union> (ops_frames ` set started)
    \<subseteq> op_frames o1 \<union> table_frames (cl_pending c) \<union> set (cl_sent c)"
proof (cases o1)
  case (Expire_Retries message)
  have "ops_frames (map (\<lambda>p. Complete_Pending p (f p)) gone) = {}" for f gone
    by (auto simp: ops_frames_def)
  with Expire_Retries show ?thesis
    using assms by (auto simp: expire_step_def go_def dest!: expire_frames split: prod.splits if_splits)
next
  case Collect
  then show ?thesis
    using assms by (auto simp: collect_waiting_def go_def ops_frames_def table_frames_def)
next
  case (Mark p)
  have "table_frames (map (\<lambda>q. if pc_request_id q = i then q\<lparr>pc_state := Sent\<rparr> else q) ps) = table_frames ps" for i ps
    by (rule table_frames_map) simp
  with Mark show ?thesis
    using assms by (auto simp: mark_sent_def go_def split: option.splits if_splits)
qed (use assms in \<open>auto simp: cl_ops_defs table_frames_def erase_pending_def emplace_pending_def Let_def
      split: if_splits option.splits sum.splits decoded.splits prod.splits\<close>)

text \<open>
  The responses operations carry from the wire have the property \<open>A\<close>; the others are made up by
  the client itself.
\<close>

fun op_answer :: "(rpc_response \<Rightarrow> bool) \<Rightarrow> cl_op \<Rightarrow> bool" where
  "op_answer A (Complete_Response r) = A r"
| "op_answer A (Complete_Pending p r) \<longleftrightarrow> A r \<or> (\<exists>code message. r = client_error (pc_request_id p) code message)"
| "op_answer A _ = True"

definition done_ok :: "(rpc_response \<Rightarrow> bool) \<Rightarrow> client \<Rightarrow> bool" where
  "done_ok A c \<longleftrightarrow> (\<forall>(i, r) \<in> set (cl_done c). A r \<or> (\<exists>code message. r = client_error i code message))"

lemma op_answer_error [simp]: "op_answer A (Complete_Pending p (client_error (pc_request_id p) code message))"
  by auto

declare op_answer.simps(2) [simp del]

lemma done_ok_same [simp]: "done_ok A (c\<lparr>cl_pending := ps\<rparr>) = done_ok A c" "done_ok A (c\<lparr>cl_sent := fs\<rparr>) = done_ok A c"
  by (simp_all add: done_ok_def)

lemma done_ok_snoc:
  "done_ok A c \<Longrightarrow> cl_done c' = cl_done c @ [(i, r)] \<Longrightarrow> A r \<or> (\<exists>code message. r = client_error i code message) \<Longrightarrow>
   done_ok A c'"
  by (simp add: done_ok_def)

lemma op_answer_fail [simp]: "o1 \<in> set (fail_calls code message ps) \<Longrightarrow> op_answer A o1"
  unfolding fail_calls_def by clarsimp (metis op_answer_error pending_call.select_convs(1) pending_call.surjective pending_call.update_convs(4))

lemma exec_input:
  assumes "cl_exec up timed_out o1 c = Some (c', ops, started)" "o1 \<noteq> On_Message"
  shows "cl_input c' = cl_input c"
  using assms
  by (cases o1; simp add: cl_ops_defs Let_def
      split: if_splits option.splits sum.splits decoded.splits prod.splits; force)

lemma exec_ops_answer:
  assumes "cl_exec up timed_out o1 c = Some (c', ops, started)" "o1 \<noteq> On_Message" "op_answer A o1"
  shows "\<forall>o2 \<in> set ops \<union> \<Union> (set ` set started). op_answer A o2"
proof (cases o1)
  case (Fail_All code message)
  then show ?thesis using assms(1) by (auto simp: go_def)
next
  case (Complete_Response r)
  then show ?thesis
    using assms by (auto simp: complete_response_def go_def op_answer.simps(2) split: option.splits)
next
  case (Expire_Retries message)
  then show ?thesis
    using assms(1) by (auto simp: expire_step_def go_def split: prod.splits if_splits)
next
  case (Fail_One i code message)
  then show ?thesis
    using assms(1) by (cases "find_pending i (cl_pending c)") (auto simp: fail_one_def go_def)
next
  case (Fail_Sent code message)
  then show ?thesis
    using assms(1) by (auto simp: fail_sent_def go_def)
qed (use assms(1,2) in \<open>auto simp: loop_ops_defs go_def decide_call_def mark_sent_def fail_fast_def complete_pending_def
      connect_begin_def connect_wait_def schedule_reconnect_def run_after_def Let_def
      split: if_splits option.splits prod.splits\<close>)

lemma exec_done:
  assumes "cl_exec up timed_out o1 c = Some (c', ops, started)" "op_answer A o1" "done_ok A c"
  shows "done_ok A c'"
proof (cases o1)
  case (Complete_Pending p r)
  then have "cl_done c' = cl_done c @ [(pc_request_id p, r)]"
    using assms(1) by (auto simp: complete_pending_def finish_future_def run_callback_def Let_def split: option.splits)
  with done_ok_snoc [OF assms(3) this] Complete_Pending assms(2) show ?thesis by (simp add: op_answer.simps(2))
next
  case (Fail_Fast p stopping)
  then have d: "cl_done c' = cl_done c @ [(pc_request_id p, client_error (pc_request_id p)
        (if stopping then Client_Stopping else Network_Error)
        (if stopping then ''RPC client is stopping'' else ''RPC client is not connected''))]"
    using assms(1) by (auto simp: fail_fast_def finish_future_def run_callback_def moved_callback_def Let_def)
  show ?thesis using done_ok_snoc [OF assms(3) d] by blast
qed (use assms(3) exec_answers_frame [OF assms(1)] in \<open>simp_all add: done_ok_def\<close>)

section \<open>Invariant\<close>

definition rx_requests :: "rpc_system \<Rightarrow> rpc_request set" where
  "rx_requests s = snd ` set (rx_calls s)"

definition rx_answer :: "handler registry \<Rightarrow> rpc_request set \<Rightarrow> rpc_response \<Rightarrow> bool" where
  "rx_answer reg Q p \<longleftrightarrow> (\<exists>q \<in> Q. reply_to reg q p)"

definition rx_call_frames :: "(u64 \<times> rpc_request) list \<Rightarrow> (u64 \<times> string) set" where
  "rx_call_frames calls = {(i, f). \<exists>q. (i, q) \<in> set calls \<and> encode_request q = Inr f}"

definition rx_frames :: "csys \<Rightarrow> (u64 \<times> string) set" where
  "rx_frames y = table_frames (cl_pending (cs_client y)) \<union> set (cl_sent (cs_client y)) \<union>
     \<Union> (ops_frames ` set (cs_threads y))"

text \<open>A direction of the connection: what is buffered and under way are whole frames of messages in \<open>M\<close>.\<close>

definition stream_of :: "('m \<Rightarrow> string result) \<Rightarrow> 'm set \<Rightarrow> string \<Rightarrow> bool" where
  "stream_of enc M bytes \<longleftrightarrow> (\<exists>fs. concat fs = bytes \<and> (\<forall>f \<in> set fs. \<exists>m \<in> M. enc m = Inr f))"

definition client_part :: "handler registry \<Rightarrow> (u64 \<times> rpc_request) list \<Rightarrow> csys \<Rightarrow> bool" where
  "client_part reg calls y \<longleftrightarrow>
     cl_inv y \<and> map fst calls = cl_issued (cs_client y) \<and>
     (\<forall>(i, q) \<in> set calls. rq_request_id q = i \<and> rq_serializer q \<noteq> []) \<and>
     rx_frames y \<subseteq> rx_call_frames calls \<and>
     (\<forall>t \<in> set (cs_threads y). \<forall>o1 \<in> set t. op_answer (rx_answer reg (snd ` set calls)) o1) \<and>
     done_ok (rx_answer reg (snd ` set calls)) (cs_client y)"

definition up_part :: "rpc_request set \<Rightarrow> nbuf \<Rightarrow> string \<Rightarrow> bool" where
  "up_part Q b bytes \<longleftrightarrow> nb_ok b \<and> stream_of encode_request Q (nb_peek b @ bytes)"

definition server_part :: "handler registry \<Rightarrow> rpc_request set \<Rightarrow> server \<Rightarrow> bool" where
  "server_part reg Q v \<longleftrightarrow> sv_registry v = reg \<and>
     (\<forall>(h, q) \<in> set (sv_tasks v). q \<in> Q \<and> find_method (rq_service_name q) (rq_method_name q) reg = Found h)"

definition down_part :: "handler registry \<Rightarrow> rpc_request set \<Rightarrow> nbuf \<Rightarrow> string \<Rightarrow> bool" where
  "down_part reg Q b bytes \<longleftrightarrow>
     nb_ok b \<and> stream_of encode_response {p. rx_answer reg Q p} (nb_peek b @ bytes)"

definition rx_inv :: "handler registry \<Rightarrow> rpc_system \<Rightarrow> bool" where
  "rx_inv reg s \<longleftrightarrow>
     client_part reg (rx_calls s) (rx_client s) \<and> up_part (rx_requests s) (rx_in s) (rx_up s) \<and>
     server_part reg (rx_requests s) (rx_server s) \<and>
     down_part reg (rx_requests s) (cl_input (cs_client (rx_client s))) (rx_down s)"

lemma stream_of_mono: "stream_of enc M bs \<Longrightarrow> M \<subseteq> M' \<Longrightarrow> stream_of enc M' bs"
  unfolding stream_of_def by blast

lemma stream_of_Nil [simp]: "stream_of enc M []"
  unfolding stream_of_def by (rule exI [of _ "[]"]) simp

lemma stream_of_append: "stream_of enc M bs \<Longrightarrow> \<forall>f \<in> set fs. \<exists>m \<in> M. enc m = Inr f \<Longrightarrow> stream_of enc M (bs @ concat fs)"
  unfolding stream_of_def by (metis Un_iff concat_append set_append)

context frame_codec begin

text \<open>Reading a message off such a stream gives one of \<open>M\<close>, and the stream is never bad.\<close>

lemma stream_read:
  assumes "nb_ok b" "stream_of enc M (nb_peek b @ rest)" "consume dec b = Inr (r, b')"
  shows "r \<noteq> Protocol_Error \<and> nb_ok b' \<and> stream_of enc M (nb_peek b' @ rest) \<and>
    (\<forall>x. r = Complete x \<longrightarrow> x \<in> norm ` M)"
proof -
  obtain fs where fs: "concat fs = nb_peek b @ rest" "\<forall>f \<in> set fs. \<exists>m \<in> M. enc m = Inr f"
    using assms(2) unfolding stream_of_def by blast
  have first: "fs \<noteq> [] \<and> (\<exists>m \<in> M. x = Complete (norm m, length (hd fs)))"
    if "dec (nb_peek b) = x" "x \<noteq> Need_More_Data" for x
  proof -
    have x: "dec (concat fs) = x" using dec_stable [of "nb_peek b" rest] that fs(1) by simp
    then have "fs \<noteq> []" using dec_nothing that(2) by auto
    then obtain m where "m \<in> M" "enc m = Inr (hd fs)" "concat fs = hd fs @ concat (tl fs)"
      using fs(2) by (cases fs) auto
    then show ?thesis using dec_enc_rest [of m "hd fs" "concat (tl fs)"] x \<open>fs \<noteq> []\<close> by metis
  qed
  obtain r0 b0 where c: "consume dec b = Inr (r0, b0)" "nb_ok b0"
    "case r0 of Complete m \<Rightarrow> \<exists>n. dec (nb_peek b) = Complete (m, n) \<and> nb_peek b0 = drop n (nb_peek b)
     | Need_More_Data \<Rightarrow> dec (nb_peek b) = Need_More_Data \<and> b0 = b
     | Protocol_Error \<Rightarrow> dec (nb_peek b) = Protocol_Error \<and> b0 = b"
    using consume_total [OF assms(1)] by blast
  then have eq: "r0 = r" "b0 = b'" using assms(3) by simp_all
  show ?thesis
  proof (cases r)
    case (Complete x)
    then obtain n where n: "dec (nb_peek b) = Complete (x, n)" "nb_peek b' = drop n (nb_peek b)"
      using c(3) eq by auto
    obtain m where m: "fs \<noteq> []" "m \<in> M" "x = norm m" "n = length (hd fs)"
      using first [OF n(1)] by auto
    have "nb_peek b' @ rest = drop n (nb_peek b @ rest)"
      using n dec_length [OF n(1)] by simp
    also have "\<dots> = concat (tl fs)"
      using m(1,4) unfolding fs(1) [symmetric] by (cases fs) auto
    finally have "stream_of enc M (nb_peek b' @ rest)"
      using fs(2) m(1) unfolding stream_of_def by (metis list.set_sel(2))
    then show ?thesis using Complete m c(2) eq by auto
  next
    case Need_More_Data
    then show ?thesis using assms c eq by simp
  next
    case Protocol_Error
    then show ?thesis using first c(3) eq by auto
  qed
qed

end

lemma op_answer_mono: "op_answer A o1 \<Longrightarrow> (\<And>r. A r \<Longrightarrow> B r) \<Longrightarrow> op_answer B o1"
  by (cases o1) (auto simp: op_answer.simps(2))

lemma done_ok_mono: "done_ok A c \<Longrightarrow> (\<And>r. A r \<Longrightarrow> B r) \<Longrightarrow> done_ok B c"
  unfolding done_ok_def by blast

lemma rx_answer_mono: "rx_answer reg Q r \<Longrightarrow> Q \<subseteq> Q' \<Longrightarrow> rx_answer reg Q' r"
  unfolding rx_answer_def by blast

text \<open>A step of the client that makes no call.\<close>

lemma client_part_step:
  assumes "client_part reg calls y" "cl_step y y'" "cl_issued (cs_client y') = cl_issued (cs_client y)"
    "rx_frames y' \<subseteq> rx_frames y"
    "\<forall>t \<in> set (cs_threads y'). \<forall>o1 \<in> set t. op_answer (rx_answer reg (snd ` set calls)) o1"
    "done_ok (rx_answer reg (snd ` set calls)) (cs_client y')"
  shows "client_part reg calls y'"
  using assms(1,3-6) cl_inv_step [OF assms(2)] by (auto simp: client_part_def)

lemma client_part_entry:
  assumes inv: "client_part reg calls y" and step: "cl_step y (y\<lparr>cs_client := c, cs_threads := cs_threads y @ [ops]\<rparr>)"
    and same: "cl_issued c = cl_issued (cs_client y)" "cl_pending c = cl_pending (cs_client y)"
      "cl_sent c = cl_sent (cs_client y)" "cl_done c = cl_done (cs_client y)"
    and ops: "ops_frames ops = {}" "\<forall>o1 \<in> set ops. op_answer (rx_answer reg (snd ` set calls)) o1"
  shows "client_part reg calls (y\<lparr>cs_client := c, cs_threads := cs_threads y @ [ops]\<rparr>)"
proof (rule client_part_step [OF inv step])
  show "rx_frames (y\<lparr>cs_client := c, cs_threads := cs_threads y @ [ops]\<rparr>) \<subseteq> rx_frames y"
    using same ops by (auto simp: rx_frames_def)
qed (use inv same ops in \<open>auto simp: client_part_def done_ok_def\<close>)

text \<open>An operation of a thread: what it hands to the connection are frames of calls.\<close>

lemma client_part_exec:
  assumes inv: "client_part reg calls y" and k: "k < length (cs_threads y)" "cs_threads y ! k = o1 # rest"
    and ex: "cl_exec up timed_out o1 (cs_client y) = Some (c, ops, started)"
    and ans: "\<forall>o2 \<in> set ops \<union> \<Union> (set ` set started). op_answer (rx_answer reg (snd ` set calls)) o2"
  defines "y' \<equiv> y\<lparr>cs_client := c, cs_threads := (cs_threads y)[k := ops @ rest] @ started\<rparr>"
  shows "client_part reg calls y'"
proof (rule client_part_step [OF inv])
  have thread: "o1 # rest \<in> set (cs_threads y)" using k by (metis nth_mem)
  show "cl_step y y'" unfolding y'_def by (rule cls_exec [OF k ex])
  show "cl_issued (cs_client y') = cl_issued (cs_client y)"
    using exec_frame [OF ex] by (simp add: y'_def)
  have sub: "set ((cs_threads y)[k := ops @ rest]) \<subseteq> insert (ops @ rest) (set (cs_threads y))"
    by (rule set_update_subset_insert)
  have mem: "ops_frames (o1 # rest) \<subseteq> \<Union> (ops_frames ` set (cs_threads y))" using thread by blast
  have "rx_frames y' \<subseteq> table_frames (cl_pending c) \<union> set (cl_sent c) \<union> ops_frames ops \<union> \<Union> (ops_frames ` set started)
      \<union> ops_frames rest \<union> \<Union> (ops_frames ` set (cs_threads y))"
    using sub by (auto simp: rx_frames_def y'_def)
  also have "\<dots> \<subseteq> rx_frames y"
    using exec_frames [OF ex] mem unfolding rx_frames_def by auto
  finally show "rx_frames y' \<subseteq> rx_frames y" .
  have answers: "\<forall>t \<in> set (cs_threads y). \<forall>o2 \<in> set t. op_answer (rx_answer reg (snd ` set calls)) o2"
    "done_ok (rx_answer reg (snd ` set calls)) (cs_client y)"
    using inv by (simp_all add: client_part_def)
  show "\<forall>t \<in> set (cs_threads y'). \<forall>o2 \<in> set t. op_answer (rx_answer reg (snd ` set calls)) o2"
  proof (intro ballI)
    fix t o2 assume t: "t \<in> set (cs_threads y')" "o2 \<in> set t"
    then consider "t = ops @ rest" | "t \<in> set (cs_threads y)" | "t \<in> set started"
      using sub by (auto simp: y'_def)
    then show "op_answer (rx_answer reg (snd ` set calls)) o2"
      using t(2) ans answers(1) thread by cases auto
  qed
  show "done_ok (rx_answer reg (snd ` set calls)) (cs_client y')"
    using exec_done [OF ex _ answers(2)] answers(1) thread by (simp add: y'_def)
qed

lemma sent_since_snoc: "new = old \<or> new = old @ [f] \<Longrightarrow> sent_since taken old new = [] \<or> sent_since taken old new = [f]"
  by (auto simp: sent_since_def)

lemma call_frames_enc: "(i, f) \<in> rx_call_frames calls \<Longrightarrow> \<exists>q \<in> snd ` set calls. encode_request q = Inr f"
  by (force simp: rx_call_frames_def)

lemma sent_frames:
  assumes "client_part reg calls y" "set fs \<subseteq> set (cl_sent (cs_client y))"
  shows "\<forall>f \<in> set (map snd fs). \<exists>q \<in> snd ` set calls. encode_request q = Inr f"
proof -
  have "set (cl_sent (cs_client y)) \<subseteq> rx_call_frames calls"
    using assms(1) by (auto simp: client_part_def rx_frames_def)
  with assms(2) call_frames_enc show ?thesis by fastforce
qed

lemma sent_since_subset: "set (sent_since taken old new) \<subseteq> set new"
  by (auto simp: sent_since_def dest: in_set_dropD)

lemma client_part_call:
  assumes inv: "client_part reg calls y" and call: "cl_next_request (cs_client y) \<noteq> 0"
    "cl_call options cb r (cs_client y) = (c, ops)"
  defines "n \<equiv> cl_next_request (cs_client y)"
  shows "client_part reg (calls @ [(n, prepare_request n options r)])
    (y\<lparr>cs_client := c, cs_threads := cs_threads y @ [ops]\<rparr>)"
proof -
  let ?calls = "calls @ [(n, prepare_request n options r)]" and ?y = "y\<lparr>cs_client := c, cs_threads := cs_threads y @ [ops]\<rparr>"
  let ?A = "rx_answer reg (snd ` set calls)" and ?B = "rx_answer reg (snd ` set ?calls)"
  have D: "cl_inv y" "map fst calls = cl_issued (cs_client y)"
    "\<forall>(i, q) \<in> set calls. rq_request_id q = i \<and> rq_serializer q \<noteq> []" "rx_frames y \<subseteq> rx_call_frames calls"
    "\<forall>t \<in> set (cs_threads y). \<forall>o1 \<in> set t. op_answer ?A o1" "done_ok ?A (cs_client y)"
    using inv by (simp_all add: client_part_def)
  have inv': "cl_inv ?y" by (rule cl_inv_step [OF cls_entry [OF ce_call [OF call]] D(1)])
  have mono: "?A p \<Longrightarrow> ?B p" for p by (erule rx_answer_mono) auto
  have prepared: "rq_request_id (prepare_request n options r) = n" "rq_serializer (prepare_request n options r) \<noteq> []"
    by (simp_all add: prepare_request_def)
  have old: "rx_call_frames calls \<subseteq> rx_call_frames ?calls" by (auto simp: rx_call_frames_def)
  have threads: "\<forall>t \<in> set (cs_threads y). \<forall>o1 \<in> set t. op_answer ?B o1"
  proof (intro ballI)
    fix t o1 assume "t \<in> set (cs_threads y)" "o1 \<in> set t"
    with D(5) have "op_answer ?A o1" by blast
    then show "op_answer ?B o1" by (rule op_answer_mono) (rule mono)
  qed
  have ended: "done_ok ?B (cs_client y)" using done_ok_mono [OF D(6) mono] .
  have "cl_issued c = cl_issued (cs_client y) @ [n] \<and> cl_pending c = cl_pending (cs_client y) \<and>
      cl_sent c = cl_sent (cs_client y) \<and> ops_frames ops \<subseteq> rx_call_frames ?calls \<and>
      (\<forall>o1 \<in> set ops. op_answer ?B o1) \<and> done_ok ?B c"
    using call
  proof (cases rule: call_cases)
    case (ended p code message)
    have "done_ok ?B c"
      by (rule done_ok_snoc [OF \<open>done_ok ?B (cs_client y)\<close>, of _ n p])
        (use ended in \<open>auto simp: run_callback_def finish_future_def n_def split: option.splits\<close>)
    with ended show ?thesis
      by (auto simp: run_callback_def finish_future_def n_def split: option.splits)
  next
    case (started f)
    then have "(n, f) \<in> rx_call_frames ?calls" by (auto simp: rx_call_frames_def n_def)
    with started \<open>done_ok ?B (cs_client y)\<close> show ?thesis by (simp add: n_def done_ok_def)
  qed
  then have c: "cl_issued c = cl_issued (cs_client y) @ [n]" "cl_pending c = cl_pending (cs_client y)"
    "cl_sent c = cl_sent (cs_client y)" "ops_frames ops \<subseteq> rx_call_frames ?calls"
    "\<forall>o1 \<in> set ops. op_answer ?B o1" "done_ok ?B c" by simp_all
  have "rx_frames ?y \<subseteq> rx_call_frames ?calls"
    using D(4) old c(2-4) unfolding rx_frames_def by auto
  with inv' c D(2,3) prepared threads show ?thesis
    unfolding client_part_def by auto
qed

lemma exec_message:
  assumes inv: "down_part reg Q (cl_input c) bytes" and ex: "cl_exec up timed_out On_Message c = Some (c', ops, started)"
  shows "down_part reg Q (cl_input c') bytes \<and> started = [] \<and> cl_sent c' = cl_sent c \<and>
    (\<forall>o1 \<in> set ops. op_answer (rx_answer reg Q) o1)"
proof -
  have D: "nb_ok (cl_input c)" "stream_of encode_response {p. rx_answer reg Q p} (nb_peek (cl_input c) @ bytes)"
    using inv by (simp_all add: down_part_def)
  obtain r b where r: "try_decode_response (cl_input c) = Inr (r, b)"
    using ex by (cases "try_decode_response (cl_input c)") (auto simp: read_response_def)
  have R: "r \<noteq> Protocol_Error" "nb_ok b" "stream_of encode_response {p. rx_answer reg Q p} (nb_peek b @ bytes)"
    "\<forall>x. r = Complete x \<longrightarrow> x \<in> norm_response ` {p. rx_answer reg Q p}"
    using rs.stream_read [OF D, of r b] r by (simp_all add: try_decode_response_def)
  have "rx_answer reg Q x" if "r = Complete x" for x
    using R(4) that reply_norm unfolding rx_answer_def by auto
  with ex r R(1-3) show ?thesis
    by (cases r) (auto simp: read_response_def go_def down_part_def)
qed

lemma server_part_read:
  assumes v: "server_part reg Q v" and up: "up_part Q b bytes" and ser: "\<forall>q \<in> Q. rq_serializer q \<noteq> []"
    and read: "try_decode_request b = Inr (Complete r, b')" "handle_request left post elapsed r v = Inr v'"
  shows "server_part reg Q v' \<and> up_part Q b' bytes \<and>
    (\<forall>f \<in> set (sent_since taken (sv_sent v) (sv_sent v')). \<exists>p \<in> {p. rx_answer reg Q p}. encode_response p = Inr f)"
proof -
  have U: "nb_ok b'" "stream_of encode_request Q (nb_peek b' @ bytes)" "r \<in> norm_request ` Q"
    using rq.stream_read [of b Q bytes "Complete r" b'] up read(1) by (simp_all add: up_part_def try_decode_request_def)
  have "norm_request q = q" if "q \<in> Q" for q using ser that by (simp add: norm_request_def)
  then have r: "r \<in> Q" using U(3) by auto
  have reg: "sv_registry v = reg" using v by (simp add: server_part_def)
  from handle_reply [OF read(2)] ser r have h: "sv_registry v' = reg"
    "(\<exists>h. find_method (rq_service_name r) (rq_method_name r) reg = Found h \<and>
        sv_tasks v' = sv_tasks v @ [(h, r)] \<and> sv_sent v' = sv_sent v) \<or>
     (\<exists>p f. reply_to reg r p \<and> encode_response p = Inr f \<and> sv_tasks v' = sv_tasks v \<and> sv_sent v' = sv_sent v @ [f])"
    by (simp_all add: reg)
  then have "server_part reg Q v'"
    using v r by (auto simp: server_part_def)
  moreover have "\<exists>p. rx_answer reg Q p \<and> encode_response p = Inr f"
    if "f \<in> set (sent_since taken (sv_sent v) (sv_sent v'))" for f
    using h(2) that r by (auto simp: sent_since_def rx_answer_def split: if_splits)
  ultimately show ?thesis using U by (auto simp: up_part_def)
qed

lemma server_part_task:
  assumes v: "server_part reg Q v" and k: "k < length (sv_tasks v)"
    and task: "run_task nanos nanos' active k v = Inr v'"
  shows "server_part reg Q v' \<and>
    (\<forall>f \<in> set (sent_since taken (sv_sent v) (sv_sent v')). \<exists>p \<in> {p. rx_answer reg Q p}. encode_response p = Inr f)"
proof -
  obtain h q where hq: "sv_tasks v ! k = (h, q)" by fastforce
  then have q: "sv_registry v = reg" "q \<in> Q" "find_method (rq_service_name q) (rq_method_name q) reg = Found h"
    using v nth_mem [OF k] by (auto simp: server_part_def)
  then obtain p f where "sv_registry v' = reg" "set (sv_tasks v') \<subseteq> set (sv_tasks v)" "reply_to reg q p"
    "encode_response p = Inr f" "sv_sent v' = sv_sent v \<or> sv_sent v' = sv_sent v @ [f]"
    using task_reply_to [OF task k hq] by auto
  with q(2) v show ?thesis
    by (auto simp: server_part_def sent_since_def rx_answer_def split: if_splits)
qed

lemma parts_mono:
  "up_part Q b bytes \<Longrightarrow> Q \<subseteq> Q' \<Longrightarrow> up_part Q' b bytes"
  "server_part reg Q v \<Longrightarrow> Q \<subseteq> Q' \<Longrightarrow> server_part reg Q' v"
  "down_part reg Q b bytes \<Longrightarrow> Q \<subseteq> Q' \<Longrightarrow> down_part reg Q' b bytes"
  using stream_of_mono [of encode_response "{p. rx_answer reg Q p}" _ "{p. rx_answer reg Q' p}"] rx_answer_mono [of reg Q _ Q']
  by (auto simp: up_part_def server_part_def down_part_def intro: stream_of_mono)

lemma down_part_send:
  "down_part reg Q b bytes \<Longrightarrow> \<forall>f \<in> set fs. \<exists>p \<in> {p. rx_answer reg Q p}. encode_response p = Inr f \<Longrightarrow>
   down_part reg Q b (bytes @ concat fs)"
  unfolding down_part_def append_assoc [symmetric] by (blast intro: stream_of_append)

lemma call_input:
  assumes "cl_next_request c \<noteq> 0" "cl_call options cb r c = (c', ops)"
  shows "cl_input c' = cl_input c"
  using assms
  by (cases rule: call_cases) (auto simp: run_callback_def finish_future_def split: option.splits)

lemma entry_facts:
  assumes "cl_entry c c' ops" "cl_issued c' = cl_issued c"
  shows "cl_pending c' = cl_pending c \<and> cl_sent c' = cl_sent c \<and> cl_done c' = cl_done c \<and>
    ops_frames ops = {} \<and> (\<forall>o1 \<in> set ops. op_answer A o1)"
  using assms(1)
proof cases
  case (ce_call options cb r)
  from ce_call have "cl_issued c' = cl_issued c @ [cl_next_request c]"
    by (cases rule: call_cases) (auto simp: run_callback_def finish_future_def split: option.splits)
  with assms(2) show ?thesis by simp
next
  case (ce_timer t x)
  then show ?thesis by (cases x) auto
qed auto

lemma rx_inv_step: "rx_step s s' \<Longrightarrow> rx_inv reg s \<Longrightarrow> rx_inv reg s'"
proof (induction rule: rx_step.induct)
  case (rxs_call s y options cb r c ops)
  let ?q = "prepare_request (cl_next_request (cs_client y)) options r"
  have I: "client_part reg (rx_calls s) y" "up_part (rx_requests s) (rx_in s) (rx_up s)"
    "server_part reg (rx_requests s) (rx_server s)" "down_part reg (rx_requests s) (cl_input (cs_client y)) (rx_down s)"
    using rxs_call by (simp_all add: rx_inv_def)
  have Q: "rx_requests s \<subseteq> insert ?q (rx_requests s)" by blast
  show ?case
    using client_part_call [OF I(1) rxs_call(2,3)] parts_mono(1) [OF I(2) Q] parts_mono(2) [OF I(3) Q]
      parts_mono(3) [OF I(4) Q] call_input [OF rxs_call(2,3)]
    by (simp add: rx_inv_def rx_requests_def)
next
  case (rxs_entry s y c ops)
  have I: "client_part reg (rx_calls s) y" using rxs_entry by (simp add: rx_inv_def)
  note f = entry_facts [OF rxs_entry(2,3)]
  have "client_part reg (rx_calls s) (y\<lparr>cs_client := c, cs_threads := cs_threads y @ [ops]\<rparr>)"
    by (rule client_part_entry [OF I cls_entry [OF rxs_entry(2)] rxs_entry(3)]) (use f in blast)+
  with rxs_entry show ?case by (simp add: rx_inv_def rx_requests_def)
next
  case (rxs_exec s y k o1 rest up timed_out c ops started taken)
  let ?y = "y\<lparr>cs_client := c, cs_threads := (cs_threads y)[k := ops @ rest] @ started\<rparr>"
  have I: "client_part reg (rx_calls s) y" "up_part (rx_requests s) (rx_in s) (rx_up s)"
    "server_part reg (rx_requests s) (rx_server s)" "down_part reg (rx_requests s) (cl_input (cs_client y)) (rx_down s)"
    using rxs_exec by (simp_all add: rx_inv_def)
  have thread: "op_answer (rx_answer reg (rx_requests s)) o1"
    using I(1) rxs_exec(3) nth_mem [OF rxs_exec(2)] by (auto simp: client_part_def rx_requests_def)
  have step: "(\<forall>o2 \<in> set ops \<union> \<Union> (set ` set started). op_answer (rx_answer reg (rx_requests s)) o2) \<and>
      down_part reg (rx_requests s) (cl_input c) (rx_down s)"
  proof (cases "o1 = On_Message")
    case True
    show ?thesis using exec_message [OF I(4)] rxs_exec(4) True by auto
  next
    case False
    show ?thesis using exec_ops_answer [OF rxs_exec(4) False thread] exec_input [OF rxs_exec(4) False] I(4) by simp
  qed
  have part: "client_part reg (rx_calls s) ?y"
    by (rule client_part_exec [OF I(1) rxs_exec(2-4)]) (use step in \<open>simp add: rx_requests_def\<close>)
  have "\<forall>f \<in> set (map snd (sent_since taken (cl_sent (cs_client y)) (cl_sent c))). \<exists>q \<in> rx_requests s. encode_request q = Inr f"
    unfolding rx_requests_def
    by (rule sent_frames [OF part]) (use sent_since_subset [of taken "cl_sent (cs_client y)" "cl_sent c"] in simp)
  then have "up_part (rx_requests s) (rx_in s) (rx_up s @ concat (map snd (sent_since taken (cl_sent (cs_client y)) (cl_sent c))))"
    using I(2) stream_of_append [of encode_request "rx_requests s" "nb_peek (rx_in s) @ rx_up s"]
    by (simp add: up_part_def)
  with part I(3) step show ?case by (simp add: rx_inv_def rx_requests_def)
next
  case (rxs_time s y now)
  then have "client_part reg (rx_calls s) (y\<lparr>cs_client := (cs_client y)\<lparr>cl_now := now\<rparr>\<rparr>)"
    by (intro client_part_step [OF _ cls_time [OF rxs_time(2)]])
      (auto simp: rx_inv_def client_part_def rx_frames_def done_ok_def)
  with rxs_time show ?case by (simp add: rx_inv_def rx_requests_def)
next
  case (rxs_rehash s y ps)
  have "set ps = set (cl_pending (cs_client y))" using rxs_rehash(2) by (metis set_mset_mset)
  then have "client_part reg (rx_calls s) (y\<lparr>cs_client := (cs_client y)\<lparr>cl_pending := ps\<rparr>\<rparr>)"
    using rxs_rehash by (intro client_part_step [OF _ cls_rehash [OF rxs_rehash(2)]])
      (auto simp: rx_inv_def client_part_def rx_frames_def table_frames_def)
  with rxs_rehash show ?case by (simp add: rx_inv_def rx_requests_def)
next
  case (rxs_connect s y)
  have I: "client_part reg (rx_calls s) y" using rxs_connect by (simp add: rx_inv_def)
  have "client_part reg (rx_calls s) (y\<lparr>cs_client := (cs_client y)\<lparr>cl_input := nb_new\<rparr>, cs_threads := cs_threads y @ [[On_Up]]\<rparr>)"
    by (rule client_part_entry [OF I cls_entry [OF ce_up]]) simp_all
  with rxs_connect nb_new_ok show ?case
    by (simp add: rx_inv_def rx_requests_def up_part_def down_part_def)
next
  case (rxs_arrive_server s data rest b)
  have ok: "nb_ok (rx_in s)" using rxs_arrive_server(3) by (simp add: rx_inv_def up_part_def)
  then have "nb_ok b \<and> nb_peek b = nb_peek (rx_in s) @ data"
    using nb.app_ok [OF ok, of data] rxs_arrive_server(2) by auto
  with rxs_arrive_server show ?case by (simp add: rx_inv_def rx_requests_def up_part_def)
next
  case (rxs_read s r b left post elapsed v taken)
  have I: "server_part reg (rx_requests s) (rx_server s)" "up_part (rx_requests s) (rx_in s) (rx_up s)"
    "\<forall>q \<in> rx_requests s. rq_serializer q \<noteq> []"
    using rxs_read(3) by (auto simp: rx_inv_def client_part_def rx_requests_def)
  from server_part_read [OF I rxs_read(1,2), of taken] down_part_send rxs_read(3) show ?case
    by (simp add: rx_inv_def rx_requests_def)
next
  case (rxs_task k s nanos nanos' active v taken)
  have I: "server_part reg (rx_requests s) (rx_server s)" using rxs_task(3) by (simp add: rx_inv_def)
  from server_part_task [OF I rxs_task(1,2), of taken] down_part_send rxs_task(3) show ?case
    by (simp add: rx_inv_def rx_requests_def)
next
  case (rxs_arrive_client s y data rest b)
  have I: "client_part reg (rx_calls s) y" "nb_ok (cl_input (cs_client y))"
    using rxs_arrive_client by (simp_all add: rx_inv_def down_part_def)
  have part: "client_part reg (rx_calls s) (y\<lparr>cs_client := (cs_client y)\<lparr>cl_input := b\<rparr>, cs_threads := cs_threads y @ [[On_Message]]\<rparr>)"
    by (rule client_part_entry [OF I(1) cls_entry [OF ce_bytes [OF rxs_arrive_client(3)]]]) simp_all
  have "nb_ok b \<and> nb_peek b = nb_peek (cl_input (cs_client y)) @ data"
    using nb.app_ok [OF I(2), of data] rxs_arrive_client(3) by auto
  with part rxs_arrive_client show ?case
    by (simp add: rx_inv_def rx_requests_def down_part_def)
qed

lemma rx_inv_init: "rx_init reg s \<Longrightarrow> rx_inv reg s"
  using cl_inv_init [of "rx_client s"] nb_new_ok
  by (auto simp: rx_init_def rx_inv_def client_part_def up_part_def server_part_def down_part_def cl_init_def
      cl_new_def server_new_def rx_requests_def rx_frames_def done_ok_def)

interpretation rx: invariant_system "rx_init reg" rx_step "rx_inv reg"
  by unfold_locales (auto intro: rx_inv_init rx_inv_step)

section \<open>A call from end to end\<close>

lemma exec_sent:
  "cl_exec up timed_out o1 c = Some (c', ops, started) \<Longrightarrow> \<exists>fs. cl_sent c' = cl_sent c @ fs"
  by (cases o1; simp add: cl_ops_defs Let_def
      split: if_splits option.splits sum.splits decoded.splits prod.splits; force)

text \<open>One thread runs its operations one after the other, the connection taking what it sends.\<close>

definition rx_with :: "rpc_system \<Rightarrow> client \<Rightarrow> cl_op list list \<Rightarrow> string \<Rightarrow> rpc_system" where
  "rx_with s c ts up = s\<lparr>rx_client := \<lparr>cs_client = c, cs_threads = ts\<rparr>, rx_up := up\<rparr>"

lemma rx_with_same:
  "rx_up s = up \<Longrightarrow> rx_with s c ts up = s\<lparr>rx_client := (rx_client s)\<lparr>cs_client := c, cs_threads := ts\<rparr>\<rparr>"
  by (cases s; cases "rx_client s") (simp add: rx_with_def)

lemma steps_run:
  "cl_run n up c ops started = (c', ops', started') \<Longrightarrow> k < length ts \<Longrightarrow> cl_sent c = sent0 @ fs \<Longrightarrow>
   steps rx_step (rx_with s c (ts[k := ops] @ started) (u @ concat (map snd fs)))
     (rx_with s c' (ts[k := ops'] @ started') (u @ concat (map snd (drop (length sent0) (cl_sent c')))))"
proof (induction n up c ops started arbitrary: fs rule: cl_run.induct)
  case (3 n up c o1 rest started)
  show ?case
  proof (cases "cl_exec up True o1 c")
    case None
    then show ?thesis using 3(2,4) by (auto intro: steps_refl)
  next
    case (Some x)
    obtain c1 ops1 ts1 where x: "x = (c1, ops1, ts1)" by (cases x)
    with Some obtain gs where gs: "cl_sent c1 = cl_sent c @ gs" using exec_sent by blast
    let ?s = "rx_with s c (ts[k := o1 # rest] @ started) (u @ concat (map snd fs))"
    have "rx_step ?s (?s\<lparr>rx_client := (rx_client ?s)\<lparr>cs_client := c1,
        cs_threads := (cs_threads (rx_client ?s))[k := ops1 @ rest] @ ts1\<rparr>,
        rx_up := rx_up ?s @ concat (map snd (sent_since True (cl_sent c) (cl_sent c1)))\<rparr>)"
      using rxs_exec [of ?s "rx_client ?s" k o1 rest up True c1 ops1 ts1 True] Some x 3(3)
      by (simp add: rx_with_def nth_append)
    then have "rx_step ?s (rx_with s c1 (ts[k := ops1 @ rest] @ (started @ ts1)) (u @ concat (map snd (fs @ gs))))"
      using 3(3) by (simp add: rx_with_def list_update_append sent_since_def gs)
    moreover have "cl_run n up c1 (ops1 @ rest) (started @ ts1) = (c', ops', started')"
      using 3(2) Some x by simp
    ultimately show ?thesis
      using 3(1) [OF Some, of c1 "(ops1, ts1)" ops1 ts1 "fs @ gs"] 3(3,4) x gs
      by (auto intro: steps_trans [OF _ steps_single])
  qed
qed (auto intro: steps_refl)

text \<open>A client that is connected and idle, with nothing under way.\<close>

definition rx_idle :: "rpc_system \<Rightarrow> bool" where
  "rx_idle s \<longleftrightarrow>
     (let c = cs_client (rx_client s)
      in cl_conn c = Connected \<and> \<not> cl_stopping c \<and> cl_next_request c \<noteq> 0 \<and> cl_pending c = [] \<and>
         nb_ok (cl_input c) \<and> nb_peek (cl_input c) = [] \<and> nb_ok (rx_in s) \<and> nb_peek (rx_in s) = [] \<and>
         rx_up s = [] \<and> rx_down s = [] \<and> sv_tasks (rx_server s) = [])"

text \<open>The first half: until the frame is with the connection.\<close>

lemma call_sends:
  assumes idle: "rx_idle s" and fits: "0 < co_timeout options"
    "encode_request (prepare_request (cl_next_request (cs_client (rx_client s))) options r) = Inr f"
  defines "n \<equiv> cl_next_request (cs_client (rx_client s))"
  shows "\<exists>c p ts. steps rx_step s (rx_with (s\<lparr>rx_calls := rx_calls s @ [(n, prepare_request n options r)]\<rparr>) c ts f) \<and>
     cl_pending c = [p] \<and> pc_request_id p = n \<and> cl_input c = cl_input (cs_client (rx_client s)) \<and>
     cl_done c = cl_done (cs_client (rx_client s))"
proof -
  let ?c = "cs_client (rx_client s)" and ?s = "s\<lparr>rx_calls := rx_calls s @ [(n, prepare_request n options r)]\<rparr>"
  have I: "cl_conn ?c = Connected" "\<not> cl_stopping ?c" "cl_next_request ?c \<noteq> 0" "cl_pending ?c = []" "rx_up s = []"
    using idle by (simp_all add: rx_idle_def Let_def)
  obtain c1 ops where c1: "cl_call options None r ?c = (c1, ops)" by fastforce
  obtain c' ops' st where run: "cl_run 9 True c1 ops [] = (c', ops', st)" by (rule prod_cases3)
  let ?ts = "cs_threads (rx_client s) @ [ops]"
  have 1: "rx_step s (rx_with ?s c1 ?ts [])"
  proof -
    have "rx_with ?s c1 ?ts [] = s\<lparr>rx_client := (rx_client s)\<lparr>cs_client := c1, cs_threads := ?ts\<rparr>,
        rx_calls := rx_calls s @ [(n, prepare_request n options r)]\<rparr>"
      unfolding rx_with_same [of ?s "[]", simplified, OF I(5)] by (rule rpc_system.equality) simp_all
    with rxs_call [OF refl I(3) c1] show ?thesis by (simp add: n_def)
  qed
  have sent: "cl_sent c1 = cl_sent ?c"
    using I(3) c1 by (cases rule: call_cases) (auto simp: run_callback_def finish_future_def split: option.splits)
  have 2: "steps rx_step (rx_with ?s c1 ?ts [])
      (rx_with ?s c' (?ts[length (cs_threads (rx_client s)) := ops'] @ st)
         (concat (map snd (drop (length (cl_sent ?c)) (cl_sent c')))))"
    using steps_run [OF run, of "length (cs_threads (rx_client s))" ?ts "cl_sent ?c" "[]" ?s "[]"] sent by simp
  have "steps rx_step s (rx_with ?s c' (?ts[length (cs_threads (rx_client s)) := ops'] @ st)
      (concat (map snd (drop (length (cl_sent ?c)) (cl_sent c')))))"
    by (rule steps_trans [OF 2 steps_single [of rx_step, OF 1]])
  moreover have "cl_sent c' = cl_sent ?c @ [(n, f)] \<and> (\<exists>p. cl_pending c' = [p] \<and> pc_request_id p = n) \<and>
      cl_input c' = cl_input ?c \<and> cl_done c' = cl_done ?c"
    using c1 run I fits
    by (auto simp: cl_call_def next_request_id_def run_after_def n_def
        numeral_eq_Suc loop_ops_defs go_def decide_call_def emplace_pending_def mark_sent_def find_pending_def Let_def)
  ultimately show ?thesis by auto
qed

text \<open>The second half: the server takes the request, its task runs, the reply goes back.\<close>

lemma server_answers:
  assumes s: "nb_ok (rx_in s)" "nb_peek (rx_in s) = []" "rx_up s = f" "rx_down s = []" "sv_tasks (rx_server s) = []"
    and q: "encode_request q = Inr f" "rq_serializer q = ''raw''"
      "find_method (rq_service_name q) (rq_method_name q) (sv_registry (rx_server s)) = Found h"
    and reply: "encode_response (task_response h q nanos) = Inr g"
  shows "\<exists>b v. steps rx_step s (s\<lparr>rx_up := [], rx_in := b, rx_server := v, rx_down := g\<rparr>)"
proof -
  obtain b where b: "nb_append f (rx_in s) = Inr b" "nb_ok b" "nb_peek b = f"
    using nb.app_ok [OF s(1), of f] s(2) by auto
  let ?s1 = "s\<lparr>rx_up := [], rx_in := b\<rparr>"
  have 1: "rx_step s ?s1" using rxs_arrive_server [of s f "[]" b] s(3) b(1) by simp
  have "norm_request q = q" using q(2) by (simp add: norm_request_def)
  then obtain b' where b': "try_decode_request b = Inr (Complete q, b')"
    using rq.consume_frame [OF b(2) q(1), of "[]"] b(3) by (auto simp: try_decode_request_def)
  obtain v where v: "handle_request (\<lambda>x. x) (\<lambda>_. Accepted) (\<lambda>_. 0) q (rx_server s) = Inr v"
    "sv_tasks v = [(h, q)]" "sv_sent v = sv_sent (rx_server s)" "sv_registry v = sv_registry (rx_server s)"
    using q(2,3) s(5) by (simp add: handle_request_def post_request_def Let_def)
  let ?s2 = "s\<lparr>rx_up := [], rx_in := b', rx_server := v, rx_down := []\<rparr>"
  have 2: "rx_step ?s1 ?s2"
    using rxs_read [of ?s1 q b' "\<lambda>x. x" "\<lambda>_. Accepted" "\<lambda>_. 0" v False] b' v(1) s(4) by (simp add: sent_since_def)
  obtain v' where v': "run_task nanos nanos True 0 v = Inr v'" "sv_sent v' = sv_sent v @ [g]"
    using reply v(2) by (simp add: run_task_def Let_def)
  have 3: "rx_step ?s2 (s\<lparr>rx_up := [], rx_in := b', rx_server := v', rx_down := g\<rparr>)"
    using rxs_task [of 0 ?s2 nanos nanos True v' True] v(2) v' s(4) by (simp add: sent_since_def)
  show ?thesis
    using steps_trans [OF steps_single [of rx_step, OF 3] steps_trans [OF steps_single [of rx_step, OF 2] steps_single [of rx_step, OF 1]]] by blast
qed

lemma client_completes:
  assumes s: "rx_client s = \<lparr>cs_client = c, cs_threads = ts\<rparr>" "nb_ok (cl_input c)" "nb_peek (cl_input c) = []"
    "cl_pending c = [p]" "pc_request_id p = rs_request_id r" "rx_down s = g"
    and r: "encode_response r = Inr g" "norm_response r = r"
  shows "\<exists>s'. steps rx_step s s' \<and> cl_done (cs_client (rx_client s')) = cl_done c @ [(rs_request_id r, r)] \<and>
     rx_calls s' = rx_calls s"
proof -
  obtain b where b: "nb_append g (cl_input c) = Inr b" "nb_ok b" "nb_peek b = g"
    using nb.app_ok [OF s(2), of g] s(3) by auto
  obtain b' where b': "try_decode_response b = Inr (Complete r, b')" "nb_peek b' = []"
    using rs.consume_frame [OF b(2) r(1), of "[]"] b(3) r(2) by (auto simp: try_decode_response_def)
  have more: "try_decode_response b' = Inr (Need_More_Data, b')"
    using b'(2) rs.dec_nothing by (simp add: try_decode_response_def consume_def)
  let ?s = "s\<lparr>rx_down := []\<rparr>" and ?c = "c\<lparr>cl_input := b\<rparr>"
  have 1: "rx_step s (rx_with ?s ?c (ts @ [[On_Message]]) (rx_up s))"
  proof -
    have "rx_with ?s ?c (ts @ [[On_Message]]) (rx_up s) = s\<lparr>rx_client := (rx_client s)\<lparr>cs_client := ?c,
        cs_threads := ts @ [[On_Message]]\<rparr>, rx_down := []\<rparr>"
      unfolding rx_with_same [of ?s "rx_up s", simplified] by (rule rpc_system.equality) simp_all
    with rxs_arrive_client [of s "rx_client s" g "[]" b] s(1,6) b(1) show ?thesis by simp
  qed
  obtain c' ops' st where run: "cl_run 3 True ?c [On_Message] [] = (c', ops', st)" by (rule prod_cases3)
  have "cl_done c' = cl_done c @ [(rs_request_id r, r)]"
    using run s(4,5) b'(1)
    by (auto simp: numeral_eq_Suc read_response_def go_def complete_response_def find_pending_def
        complete_pending_def finish_future_def run_callback_def Let_def split: option.splits if_splits)
  then have ended: "cl_done c' = cl_done c @ [(rs_request_id r, r)]" .
  have 2: "steps rx_step (rx_with ?s ?c (ts @ [[On_Message]]) (rx_up s))
      (rx_with ?s c' ((ts @ [[On_Message]])[length ts := ops'] @ st)
        (rx_up s @ concat (map snd (drop (length (cl_sent c)) (cl_sent c')))))"
    using steps_run [OF run, of "length ts" "ts @ [[On_Message]]" "cl_sent c" "[]" ?s "rx_up s"] by simp
  have "steps rx_step s
      (rx_with ?s c' ((ts @ [[On_Message]])[length ts := ops'] @ st)
        (rx_up s @ concat (map snd (drop (length (cl_sent c)) (cl_sent c')))))" (is "steps _ _ ?t")
    by (rule steps_trans [OF 2 steps_single [of rx_step, OF 1]])
  with ended show ?thesis
    by (intro exI [of _ ?t] conjI) (simp_all add: rx_with_def)
qed


lemma call_round_trip:
  assumes idle: "rx_idle s" and fits: "0 < co_timeout options" "encode_request q = Inr f"
    and q: "q = prepare_request (cl_next_request (cs_client (rx_client s))) options r" "rq_serializer q = ''raw''"
    and h: "find_method (rq_service_name q) (rq_method_name q) (sv_registry (rx_server s)) = Found h"
      "keeps_id (sv_registry (rx_server s))" "encode_response (task_response h q nanos) = Inr g"
  shows "\<exists>s'. steps rx_step s s' \<and>
     cl_done (cs_client (rx_client s')) = cl_done (cs_client (rx_client s)) @ [(rq_request_id q, task_response h q nanos)] \<and>
     rx_calls s' = rx_calls s @ [(rq_request_id q, q)]"
proof -
  let ?n = "cl_next_request (cs_client (rx_client s))" and ?s = "s\<lparr>rx_calls := rx_calls s @ [(rq_request_id q, q)]\<rparr>"
  have n: "rq_request_id q = ?n" using q(1) by (simp add: prepare_request_def)
  have I: "nb_ok (cl_input (cs_client (rx_client s)))" "nb_peek (cl_input (cs_client (rx_client s))) = []"
    "nb_ok (rx_in s)" "nb_peek (rx_in s) = []" "rx_down s = []" "sv_tasks (rx_server s) = []"
    using idle by (simp_all add: rx_idle_def Let_def)
  obtain c p ts where 1: "steps rx_step s (rx_with ?s c ts f)" and c: "cl_pending c = [p]" "pc_request_id p = ?n"
    "cl_input c = cl_input (cs_client (rx_client s))" "cl_done c = cl_done (cs_client (rx_client s))"
    using call_sends [OF idle fits(1), of r f] fits(2) q(1) n by auto
  let ?s1 = "rx_with ?s c ts f"
  obtain b v where 2: "steps rx_step ?s1 (?s1\<lparr>rx_up := [], rx_in := b, rx_server := v, rx_down := g\<rparr>)"
    using server_answers [OF _ _ _ _ _ fits(2) q(2), of ?s1 h nanos g] h(1,3) I by (auto simp: rx_with_def)
  have reply: "reply_to (sv_registry (rx_server s)) q (task_response h q nanos)"
    using h(1) unfolding reply_to_def by blast
  have id: "rs_request_id (task_response h q nanos) = ?n"
    using reply_id [OF h(2) reply] n by simp
  obtain s' where 3: "steps rx_step (?s1\<lparr>rx_up := [], rx_in := b, rx_server := v, rx_down := g\<rparr>) s'"
    "cl_done (cs_client (rx_client s')) = cl_done c @ [(?n, task_response h q nanos)]" "rx_calls s' = rx_calls ?s"
    using client_completes [of "?s1\<lparr>rx_up := [], rx_in := b, rx_server := v, rx_down := g\<rparr>" c ts p
        "task_response h q nanos" g, OF _ _ _ _ _ _ h(3) reply_norm [OF reply]] c I id by (auto simp: rx_with_def)
  show ?thesis
    by (intro exI [of _ s'] conjI) (use 3(2,3) c(4) n steps_trans [OF 3(1) steps_trans [OF 2 1]] in simp_all)
qed

section \<open>A server with one method\<close>

definition echo_registry :: "handler registry" where
  "echo_registry = [''Calc'' \<mapsto> [''Echo'' \<mapsto> (\<lambda>q p. (p\<lparr>rs_payload := rq_payload q\<rparr>, Normal))]]"

definition echo_request :: rpc_request where
  "echo_request = default_request\<lparr>rq_service_name := ''Calc'', rq_method_name := ''Echo'', rq_payload := ''hi''\<rparr>"

lemma echo_keeps_id: "keeps_id echo_registry"
  by (auto simp: keeps_id_def echo_registry_def find_method_def split: if_splits)

lemma echo_idle:
  "\<exists>s. reach (rx_init echo_registry) rx_step s \<and> rx_idle s \<and> cl_next_request (cs_client (rx_client s)) = 1 \<and>
     cl_done (cs_client (rx_client s)) = [] \<and> sv_registry (rx_server s) = echo_registry \<and> rx_calls s = []"
proof -
  let ?s0 = "\<lparr>rx_client = \<lparr>cs_client = cl_new, cs_threads = []\<rparr>, rx_calls = [], rx_up = [],
     rx_in = nb_new, rx_server = server_new echo_registry, rx_down = []\<rparr>"
  have 1: "rx_step ?s0 (rx_with ?s0 cl_new [[On_Up]] [])"
    using rxs_connect [of ?s0 "\<lparr>cs_client = cl_new, cs_threads = []\<rparr>"] by (simp add: rx_with_def cl_new_def)
  obtain c' ops' st where run: "cl_run 5 True cl_new [On_Up] [] = (c', ops', st)" by (rule prod_cases3)
  have c': "cl_conn c' = Connected \<and> \<not> cl_stopping c' \<and> cl_next_request c' = 1 \<and> cl_pending c' = [] \<and>
      cl_input c' = nb_new \<and> cl_done c' = [] \<and> cl_sent c' = []"
    using run by (auto simp: numeral_eq_Suc loop_ops_defs go_def cl_new_def set_state_def Let_def)
  have 2: "steps rx_step (rx_with ?s0 cl_new [[On_Up]] []) (rx_with ?s0 c' (ops' # st) [])"
  proof -
    have "cl_sent cl_new = [] @ []" by (simp add: cl_new_def)
    from steps_run [OF run _ this, of 0 "[[On_Up]]" ?s0 "[]"] c' show ?thesis by simp
  qed
  have "reach (rx_init echo_registry) rx_step (rx_with ?s0 c' (ops' # st) [])"
    by (rule reach_steps [OF steps_trans [OF 2 steps_single [of rx_step, OF 1]]]) (simp add: reach_init rx_init_def)
  then show ?thesis
    by (rule exI [of _ "rx_with ?s0 c' (ops' # st) []", OF conjI])
      (use c' nb_new_ok in \<open>simp add: rx_with_def rx_idle_def server_new_def\<close>)
qed


text \<open>Its first request and the reply both fit in a frame.\<close>

definition echo_sent :: rpc_request where
  "echo_sent = prepare_request 1 default_options echo_request"

lemma echo_sent_eq:
  "echo_sent = default_request\<lparr>rq_request_id := 1, rq_service_name := ''Calc'', rq_method_name := ''Echo'',
     rq_payload := ''hi'', rq_timeout_ms := 3000, rq_trace_id := ''rpc-1'', rq_attempt := 1\<rparr>"
proof -
  have "decimal (Suc 0) = ''1''" by code_simp
  then show ?thesis
    by (simp add: echo_sent_def prepare_request_def echo_request_def default_request_def default_options_def)
qed

definition echo_reply :: rpc_response where
  "echo_reply = default_response\<lparr>rs_request_id := 1, rs_payload := ''hi'', rs_trace_id := ''rpc-1'', rs_server_cost_us := 5\<rparr>"

lemma echo_task:
  "task_response (\<lambda>q p. (p\<lparr>rs_payload := rq_payload q\<rparr>, Normal)) echo_sent 5000 = echo_reply"
  by (simp add: task_response_def run_handler_def apply_deadline_def echo_sent_eq default_request_def
      default_response_def echo_reply_def reply_serializer_def elapsed_micros_def)

lemma echo_frames: "(\<exists>f. encode_request echo_sent = Inr f) \<and> (\<exists>g. encode_response echo_reply = Inr g)"
  by (simp add: encode_request_Inr encode_response_Inr echo_sent_eq echo_reply_def default_request_def default_response_def
      request_metadata_def response_metadata_def has_request_extension_def has_response_extension_def
      extension_bytes_def max_message_size_def Let_def)

lemma echo_found: "find_method (rq_service_name echo_sent) (rq_method_name echo_sent) echo_registry =
    Found (\<lambda>q p. (p\<lparr>rs_payload := rq_payload q\<rparr>, Normal)) \<and> rq_serializer echo_sent = ''raw'' \<and> rq_request_id echo_sent = 1"
  by (simp add: find_method_def echo_registry_def echo_sent_eq default_request_def)

lemma echo_round_trip:
  "\<exists>s. reach (rx_init echo_registry) rx_step s \<and> cl_done (cs_client (rx_client s)) = [(1, echo_reply)] \<and>
     rx_calls s = [(1, echo_sent)]"
proof -
  obtain s where s: "reach (rx_init echo_registry) rx_step s" "rx_idle s" "cl_next_request (cs_client (rx_client s)) = 1"
    "cl_done (cs_client (rx_client s)) = []" "sv_registry (rx_server s) = echo_registry" "rx_calls s = []"
    using echo_idle by blast
  obtain f g where fg: "encode_request echo_sent = Inr f" "encode_response echo_reply = Inr g"
    using echo_frames by blast
  have "0 < co_timeout default_options" by (simp add: default_options_def)
  from call_round_trip [OF s(2) this fg(1), of echo_request _ 5000 g] echo_found echo_keeps_id echo_task fg(2) s(3-6)
  obtain s' where "steps rx_step s s'" "cl_done (cs_client (rx_client s')) = [(1, echo_reply)]" "rx_calls s' = [(1, echo_sent)]"
    by (auto simp: echo_sent_def)
  then show ?thesis using reach_steps [OF _ s(1)] by blast
qed

section \<open>Properties\<close>

text \<open>
  C23. However the threads of client and server interleave, with the bytes cut anywhere and
  the connection breaking and coming back at any time: a call ends with an error made by the
  client for that call, or with a reply of the server to the request of that very call, never to
  another one, whatever the order in which the handlers finish. Neither side ever reads a
  frame as bad or reports the other to break the protocol. (Handlers that throw must not have changed
  the id in the response.)
\<close>

theorem answers_match_calls:
  assumes "keeps_id reg" "reach (rx_init reg) rx_step s"
  shows "distinct (map fst (rx_calls s)) \<and>
    (\<forall>(i, r) \<in> set (cl_done (cs_client (rx_client s))).
       (\<exists>code message. r = client_error i code message) \<or>
       (\<exists>q. (i, q) \<in> set (rx_calls s) \<and> reply_to reg q r)) \<and>
    (\<forall>b. try_decode_request (rx_in s) \<noteq> Inr (Protocol_Error, b)) \<and>
    (\<forall>b. try_decode_response (cl_input (cs_client (rx_client s))) \<noteq> Inr (Protocol_Error, b))"
proof -
  let ?c = "cs_client (rx_client s)"
  have I: "client_part reg (rx_calls s) (rx_client s)" "nb_ok (rx_in s)" "nb_ok (cl_input ?c)"
    "stream_of encode_request (rx_requests s) (nb_peek (rx_in s) @ rx_up s)"
    "stream_of encode_response {p. rx_answer reg (rx_requests s) p} (nb_peek (cl_input ?c) @ rx_down s)"
    using rx.reach_inv [OF assms(2)] by (simp_all add: rx_inv_def up_part_def down_part_def)
  have C: "cl_inv (rx_client s)" "map fst (rx_calls s) = cl_issued ?c" "\<forall>(i, q) \<in> set (rx_calls s). rq_request_id q = i"
    "done_ok (rx_answer reg (rx_requests s)) ?c"
    using I(1) by (auto simp: client_part_def rx_requests_def)
  have "(\<exists>code message. r = client_error i code message) \<or> (\<exists>q. (i, q) \<in> set (rx_calls s) \<and> reply_to reg q r)"
    if "(i, r) \<in> set (cl_done ?c)" for i r
  proof (cases "rx_answer reg (rx_requests s) r")
    case True
    then obtain j q where q: "(j, q) \<in> set (rx_calls s)" "reply_to reg q r"
      unfolding rx_answer_def rx_requests_def by auto
    have "rs_request_id r = i" using C(1) that by (auto simp: cl_inv_def ans_ok_def)
    then have "j = i" using reply_id [OF assms(1) q(2)] C(3) q(1) by auto
    with q show ?thesis by blast
  next
    case False
    then show ?thesis using C(4) that unfolding done_ok_def by blast
  qed
  moreover have "try_decode_request (rx_in s) \<noteq> Inr (Protocol_Error, b)" for b
    using rq.stream_read [OF I(2,4)] unfolding try_decode_request_def by blast
  moreover have "try_decode_response (cl_input ?c) \<noteq> Inr (Protocol_Error, b)" for b
    using rs.stream_read [OF I(3,5)] unfolding try_decode_response_def by blast
  moreover have "distinct (map fst (rx_calls s))"
    using C(1,2) unfolding cl_inv_def place_inv_def Let_def by metis
  ultimately show ?thesis by blast
qed


lemma answers_match_calls_witness:
  "\<exists>s q. reach (rx_init echo_registry) rx_step s \<and> rx_calls s = [(1, q)] \<and> cl_done (cs_client (rx_client s)) = [(1, echo_reply)] \<and>
     reply_to echo_registry q echo_reply"
proof -
  obtain s where s: "reach (rx_init echo_registry) rx_step s" "cl_done (cs_client (rx_client s)) = [(1, echo_reply)]"
    "rx_calls s = [(1, echo_sent)]"
    using echo_round_trip by blast
  have "echo_reply \<noteq> client_error i code message" for i code message
    by (simp add: echo_reply_def client_error_def default_response_def)
  with answers_match_calls [OF echo_keeps_id s(1)] s(2,3) have "reply_to echo_registry echo_sent echo_reply"
    by auto
  with s show ?thesis by blast
qed

text \<open>
  C24. A call made on an idle connection can run to its end: with a positive timeout, a request
  that fits in a frame and carries the serializer \<open>raw\<close> (as the default options do), a method that
  is registered, handlers that leave the request id of the reply alone, and a reply that fits in
  a frame, the threads of client and server reach a state where the call has ended with what the
  handler made of the request, and nothing else has.
\<close>

theorem idle_call_answered:
  assumes "rx_idle s" "0 < co_timeout options"
    and "q = prepare_request (cl_next_request (cs_client (rx_client s))) options r" "rq_serializer q = ''raw''"
    and "encode_request q = Inr f"
    and "find_method (rq_service_name q) (rq_method_name q) (sv_registry (rx_server s)) = Found h"
    and "keeps_id (sv_registry (rx_server s))" "encode_response (task_response h q nanos) = Inr g"
  shows "\<exists>s'. steps rx_step s s' \<and>
     cl_done (cs_client (rx_client s')) =
       cl_done (cs_client (rx_client s)) @ [(rq_request_id q, task_response h q nanos)]"
  using call_round_trip [OF assms(1,2,5,3,4,6-8)] by blast

lemma idle_call_answered_witness:
  "\<exists>s s'. reach (rx_init echo_registry) rx_step s \<and> steps rx_step s s' \<and>
     cl_done (cs_client (rx_client s')) = [(1, echo_reply)]"
proof -
  obtain s where s: "reach (rx_init echo_registry) rx_step s" "rx_idle s" "cl_next_request (cs_client (rx_client s)) = 1"
    "cl_done (cs_client (rx_client s)) = []" "sv_registry (rx_server s) = echo_registry"
    using echo_idle by blast
  obtain f g where fg: "encode_request echo_sent = Inr f" "encode_response echo_reply = Inr g"
    using echo_frames by blast
  have "0 < co_timeout default_options" by (simp add: default_options_def)
  from idle_call_answered [OF s(2) this _ _ fg(1), of echo_request _ 5000 g] echo_found echo_keeps_id echo_task fg(2) s
  show ?thesis by (auto simp: echo_sent_def)
qed

end
