(* ===== verification/Event_Loop.thy ===== *)
theory Event_Loop
  imports Prelude
begin

text \<open>
  \<open>EventLoop\<close> (code/MiniReactor/src/net/EventLoop.cpp): the queue of functors other threads hand
  to the loop, and the eventfd that wakes it. A functor is a value of a type \<open>'f\<close>; what it does
  when run is left open, except that callbacks and functors may queue functors and quit the
  loop themselves.
\<close>

section \<open>State and operations\<close>

text \<open>
  Where the loop's thread is: not in \<open>loop()\<close> yet; at the test of \<open>quit_\<close>; in \<open>epoll_wait\<close>; handling the events it
  reported (\<open>True\<close> stands for the wakeup channel, \<open>False\<close> for another); about to take the queue;
  running the functors taken; out of the loop. Another thread is idle or about to write the
  eventfd. \<open>lp_queued\<close>, \<open>lp_ran\<close> and \<open>lp_early\<close> are histories: the functors queued, those run, and
  those the loop's own thread has queued before it called \<open>loop()\<close>.
\<close>

datatype 'f lp_pc = Lp_Before | Lp_Test | Lp_Poll | Lp_Events "bool list" | Lp_Swap | Lp_Run "'f list" | Lp_Out

datatype ot_pc = Ot_Idle | Ot_Wakeup

record 'f loop =
  lp_functors :: "'f list"
  lp_calling :: bool
  lp_quit :: bool
  lp_eventfd :: nat
  lp_pc :: "'f lp_pc"
  lp_others :: "ot_pc list"
  lp_queued :: "'f list"
  lp_ran :: "'f list"
  lp_early :: "'f list"

definition lp_new :: "nat \<Rightarrow> 'f loop" where
  "lp_new n = \<lparr>lp_functors = [], lp_calling = False, lp_quit = False, lp_eventfd = 0, lp_pc = Lp_Before,
     lp_others = replicate n Ot_Idle, lp_queued = [], lp_ran = [], lp_early = []\<rparr>"

text \<open>
  \<open>wakeup\<close>: the counter of the eventfd goes up; when it cannot (\<open>EAGAIN\<close>), it is at its maximum
  and stays there.
\<close>

definition eventfd_max :: nat where "eventfd_max = 2 ^ 64 - 2"

definition lp_wakeup :: "'f loop \<Rightarrow> 'f loop" where
  "lp_wakeup l = (if lp_eventfd l < eventfd_max then l\<lparr>lp_eventfd := lp_eventfd l + 1\<rparr> else l)"

definition lp_handle_wakeup_read :: "'f loop \<Rightarrow> 'f loop" where
  "lp_handle_wakeup_read l = l\<lparr>lp_eventfd := 0\<rparr>"

definition lp_push :: "'f \<Rightarrow> 'f loop \<Rightarrow> 'f loop" where
  "lp_push f l = l\<lparr>lp_functors := lp_functors l @ [f], lp_queued := lp_queued l @ [f]\<rparr>"

text \<open>\<open>queueInLoop\<close> and \<open>quit\<close> called by the loop's own thread.\<close>

definition lp_queue_own :: "'f \<Rightarrow> 'f loop \<Rightarrow> 'f loop" where
  "lp_queue_own f l =
     (let l = lp_push f l; l = (if lp_pc l = Lp_Before then l\<lparr>lp_early := lp_early l @ [f]\<rparr> else l)
      in if lp_calling l then lp_wakeup l else l)"

definition lp_set_quit :: "'f loop \<Rightarrow> 'f loop" where
  "lp_set_quit l = l\<lparr>lp_quit := True\<rparr>"

text \<open>\<open>queueInLoop\<close> and \<open>quit\<close> of another thread, up to the write of the eventfd.\<close>

definition lp_queue_other :: "nat \<Rightarrow> 'f \<Rightarrow> 'f loop \<Rightarrow> 'f loop" where
  "lp_queue_other k f l = (lp_push f l)\<lparr>lp_others := (lp_others l)[k := Ot_Wakeup]\<rparr>"

definition lp_quit_other :: "nat \<Rightarrow> 'f loop \<Rightarrow> 'f loop" where
  "lp_quit_other k l = (lp_set_quit l)\<lparr>lp_others := (lp_others l)[k := Ot_Wakeup]\<rparr>"

text \<open>\<open>runInLoop\<close>: in the loop's thread the functor is run at once and not queued.\<close>

datatype 'f dispatch = Run_Now 'f | Queued "'f loop"

definition lp_run_in_loop :: "nat option \<Rightarrow> 'f \<Rightarrow> 'f loop \<Rightarrow> 'f dispatch" where
  "lp_run_in_loop caller f l = (case caller of None \<Rightarrow> Run_Now f | Some k \<Rightarrow> Queued (lp_queue_other k f l))"

text \<open>
  One step of the loop's thread, in \<open>doPendingFunctors\<close> and in \<open>loop\<close>: \<open>reported\<close> is what \<open>epoll_wait\<close> returned. The thread is in a
  callback while it is handling an event, and in a functor while it is running them.
\<close>

fun lp_do_pending :: "'f loop \<Rightarrow> 'f loop option" where
  "lp_do_pending l =
     (case lp_pc l of
        Lp_Swap \<Rightarrow> Some (l\<lparr>lp_calling := True, lp_functors := [], lp_pc := Lp_Run (lp_functors l)\<rparr>)
      | Lp_Run [] \<Rightarrow> Some (l\<lparr>lp_calling := False, lp_pc := Lp_Test\<rparr>)
      | Lp_Run (f # fs) \<Rightarrow> Some (l\<lparr>lp_pc := Lp_Run fs, lp_ran := lp_ran l @ [f]\<rparr>)
      | _ \<Rightarrow> None)"

fun lp_advance :: "bool list \<Rightarrow> 'f loop \<Rightarrow> 'f loop option" where
  "lp_advance reported l =
     (case lp_pc l of
        Lp_Before \<Rightarrow> Some (l\<lparr>lp_pc := Lp_Test\<rparr>)
      | Lp_Test \<Rightarrow> Some (l\<lparr>lp_pc := if lp_quit l then Lp_Out else Lp_Poll\<rparr>)
      | Lp_Poll \<Rightarrow>
          if True \<in> set reported \<and> lp_eventfd l = 0 then None else Some (l\<lparr>lp_pc := Lp_Events reported\<rparr>)
      | Lp_Events [] \<Rightarrow> Some (l\<lparr>lp_pc := Lp_Swap\<rparr>)
      | Lp_Events (e # es) \<Rightarrow>
          Some ((if e then lp_handle_wakeup_read l else l)\<lparr>lp_pc := Lp_Events es\<rparr>)
      | Lp_Swap \<Rightarrow> lp_do_pending l
      | Lp_Run fs \<Rightarrow> lp_do_pending l
      | Lp_Out \<Rightarrow> None)"

fun in_callback :: "'f lp_pc \<Rightarrow> bool" where
  "in_callback (Lp_Events es) = True"
| "in_callback (Lp_Run fs) = True"
| "in_callback _ = False"

text \<open>Where the loop's own thread may call \<open>queueInLoop\<close> and \<open>quit\<close>: in callbacks, and outside \<open>loop()\<close>.\<close>

definition own_calls :: "'f lp_pc \<Rightarrow> bool" where
  "own_calls pc \<longleftrightarrow> in_callback pc \<or> pc = Lp_Before \<or> pc = Lp_Out"

inductive lp_step :: "'f loop \<Rightarrow> 'f loop \<Rightarrow> bool" where
  lps_advance: "lp_advance reported l = Some l' \<Longrightarrow> lp_step l l'"
| lps_queue_own: "own_calls (lp_pc l) \<Longrightarrow> lp_step l (lp_queue_own f l)"
| lps_quit_own: "own_calls (lp_pc l) \<Longrightarrow> lp_step l (lp_set_quit l)"
| lps_queue_other: "k < length (lp_others l) \<Longrightarrow> lp_others l ! k = Ot_Idle \<Longrightarrow>
    lp_step l (lp_queue_other k f l)"
| lps_quit_other: "k < length (lp_others l) \<Longrightarrow> lp_others l ! k = Ot_Idle \<Longrightarrow>
    lp_step l (lp_quit_other k l)"
| lps_wakeup: "k < length (lp_others l) \<Longrightarrow> lp_others l ! k = Ot_Wakeup \<Longrightarrow>
    lp_step l ((lp_wakeup l)\<lparr>lp_others := (lp_others l)[k := Ot_Idle]\<rparr>)"

section \<open>The invariant\<close>

fun lp_taken :: "'f lp_pc \<Rightarrow> 'f list" where
  "lp_taken (Lp_Run fs) = fs"
| "lp_taken _ = []"

text \<open>Somebody has written the eventfd, or is about to.\<close>

definition lp_alarm :: "'f loop \<Rightarrow> bool" where
  "lp_alarm l \<longleftrightarrow> 0 < lp_eventfd l \<or> Ot_Wakeup \<in> set (lp_others l)"

text \<open>
  Where a queued functor needs an alarm: from taking the queue to the end of \<open>epoll_wait\<close>. Functors
  the loop's own thread has queued before \<open>loop()\<close> have none.
\<close>

fun needs_alarm :: "'f lp_pc \<Rightarrow> bool" where
  "needs_alarm Lp_Before = True"
| "needs_alarm Lp_Test = True"
| "needs_alarm Lp_Poll = True"
| "needs_alarm (Lp_Run fs) = True"
| "needs_alarm _ = False"

definition lp_inv :: "'f loop \<Rightarrow> bool" where
  "lp_inv l \<longleftrightarrow>
     lp_queued l = lp_ran l @ lp_taken (lp_pc l) @ lp_functors l \<and>
     (lp_calling l \<longleftrightarrow> (\<exists>fs. lp_pc l = Lp_Run fs)) \<and>
     (needs_alarm (lp_pc l) \<longrightarrow> lp_functors l \<noteq> [] \<longrightarrow>
        lp_alarm l \<or> lp_functors l = lp_early l \<and> lp_queued l = lp_early l) \<and>
     (lp_pc l = Lp_Before \<longrightarrow> lp_ran l = [] \<and> (lp_functors l = [] \<longrightarrow> lp_early l = [])) \<and>
     (lp_pc l = Lp_Poll \<longrightarrow> lp_quit l \<longrightarrow> lp_alarm l) \<and>
     (lp_pc l = Lp_Out \<longrightarrow> lp_quit l)"

lemma alarm_wakeup: "lp_alarm (lp_wakeup l)"
  by (auto simp: lp_alarm_def lp_wakeup_def eventfd_max_def)

lemma wakeup_frame [simp]:
  "lp_functors (lp_wakeup l) = lp_functors l" "lp_calling (lp_wakeup l) = lp_calling l"
  "lp_quit (lp_wakeup l) = lp_quit l" "lp_pc (lp_wakeup l) = lp_pc l"
  "lp_others (lp_wakeup l) = lp_others l" "lp_queued (lp_wakeup l) = lp_queued l" "lp_ran (lp_wakeup l) = lp_ran l"
  "lp_early (lp_wakeup l) = lp_early l"
  by (simp_all add: lp_wakeup_def)

lemma lp_inv_step: "lp_step l l' \<Longrightarrow> lp_inv l \<Longrightarrow> lp_inv l'"
proof (induction rule: lp_step.induct)
  case (lps_advance reported l l')
  then show ?case
    by (cases "lp_pc l")
      (auto simp: lp_inv_def lp_alarm_def lp_handle_wakeup_read_def split: if_splits list.splits)
next
  case (lps_queue_own l f)
  have "lp_alarm (lp_wakeup (lp_push f l))" by (rule alarm_wakeup)
  with lps_queue_own show ?case
    by (cases "lp_pc l") (auto simp: lp_inv_def lp_queue_own_def own_calls_def lp_push_def Let_def lp_alarm_def)
next
  case (lps_quit_own l)
  then show ?case
    by (cases "lp_pc l") (auto simp: lp_inv_def lp_set_quit_def lp_alarm_def own_calls_def)
next
  case (lps_queue_other k l f)
  then have "lp_alarm (lp_queue_other k f l)"
    by (auto simp: lp_alarm_def lp_queue_other_def lp_push_def set_update_memI)
  with lps_queue_other show ?case
    by (auto simp: lp_inv_def lp_queue_other_def lp_push_def)
next
  case (lps_quit_other k l)
  then have "lp_alarm (lp_quit_other k l)"
    by (auto simp: lp_alarm_def lp_quit_other_def lp_set_quit_def set_update_memI)
  with lps_quit_other show ?case
    by (auto simp: lp_inv_def lp_quit_other_def lp_set_quit_def)
next
  case (lps_wakeup k l)
  have "0 < lp_eventfd (lp_wakeup l)"
    by (auto simp: lp_wakeup_def eventfd_max_def)
  with lps_wakeup show ?case
    by (auto simp: lp_inv_def lp_alarm_def)
qed

definition lp_init :: "nat \<Rightarrow> 'f loop \<Rightarrow> bool" where
  "lp_init n l \<longleftrightarrow> l = lp_new n"

lemma lp_inv_init: "lp_init n l \<Longrightarrow> lp_inv l"
  by (simp add: lp_init_def lp_new_def lp_inv_def)

interpretation lp: invariant_system "lp_init n" lp_step lp_inv
  by unfold_locales (auto intro: lp_inv_init lp_inv_step)

section \<open>Properties\<close>

text \<open>
  C26. The functors handed to a loop run in the order they were queued, each once, whoever
  queued them: what ran, followed by what the loop has taken and what is still in the queue, is
  what was queued. And no wakeup of another thread, a callback or a functor is lost: when the loop is in
  \<open>epoll_wait\<close> with no wakeup written and none about to be, nobody has asked it to quit and its queue
  is empty, or it has run nothing yet and all that was ever queued was queued by the loop's own thread
  before \<open>loop()\<close>.
\<close>

theorem functors_in_order:
  assumes "reach (lp_init n) lp_step l"
  shows "lp_queued l = lp_ran l @ lp_taken (lp_pc l) @ lp_functors l \<and>
    (lp_pc l = Lp_Poll \<and> lp_eventfd l = 0 \<and> Ot_Wakeup \<notin> set (lp_others l) \<longrightarrow>
       \<not> lp_quit l \<and> (lp_functors l = [] \<and> lp_queued l = lp_ran l \<or>
         lp_ran l = [] \<and> lp_functors l = lp_early l \<and> lp_queued l = lp_early l))"
  using lp.reach_inv [OF assms] by (auto simp: lp_inv_def lp_alarm_def)

text \<open>
  The exception: a functor queued by the loop's own thread before \<open>loop()\<close> writes no wakeup, and the
  loop goes to sleep with it in the queue.
\<close>

lemma early_functor_stranded:
  "\<exists>l. reach (lp_init 0) lp_step l \<and> lp_pc l = Lp_Poll \<and> lp_eventfd l = 0 \<and> lp_others l = [] \<and> lp_functors l = [5 :: nat]"
proof -
  let ?R = "reach (lp_init 0) lp_step"
  have "?R (lp_new 0 :: nat loop)" by (rule reach_init) (simp add: lp_init_def)
  from reach_step [OF this lps_queue_own [of _ 5]] have 1: "?R (lp_queue_own 5 (lp_new 0) :: nat loop)"
    by (simp add: lp_new_def own_calls_def)
  let ?l = "\<lambda>pc. (lp_queue_own 5 (lp_new 0) :: nat loop)\<lparr>lp_pc := pc\<rparr>"
  note eval = lp_queue_own_def lp_push_def lp_new_def
  have 2: "?R (?l Lp_Test)" by (rule reach_step [OF 1 lps_advance [of "[]"]]) (simp add: eval)
  have 3: "?R (?l Lp_Poll)" by (rule reach_step [OF 2 lps_advance [of "[]"]]) (simp add: eval)
  then show ?thesis by (intro exI [of _ "?l Lp_Poll"]) (simp add: eval)
qed

text \<open>Another thread queues a functor while the loop sleeps; the loop wakes up and runs it.\<close>

definition demo_loop :: "nat loop" where
  "demo_loop = \<lparr>lp_functors = [], lp_calling = False, lp_quit = False, lp_eventfd = 0, lp_pc = Lp_Poll,
     lp_others = [Ot_Idle], lp_queued = [5], lp_ran = [5], lp_early = []\<rparr>"

lemma demo_loop_reach: "reach (lp_init 1) lp_step demo_loop"
proof -
  let ?R = "reach (lp_init 1) lp_step"
  let ?l = "\<lambda>fs c e pc os q r. \<lparr>lp_functors = fs, lp_calling = c, lp_quit = False, lp_eventfd = e, lp_pc = pc,
     lp_others = os, lp_queued = q, lp_ran = r, lp_early = []\<rparr> :: nat loop"
  have adv: "?R l' " if "?R l" "lp_advance reported l = Some l'" for l l' :: "nat loop" and reported
    by (rule reach_step [OF that(1) lps_advance [OF that(2)]])
  have "?R (?l [] False 0 Lp_Before [Ot_Idle] [] [])"
    by (rule reach_init) (simp add: lp_init_def lp_new_def)
  from adv [OF this] have "?R (?l [] False 0 Lp_Test [Ot_Idle] [] [])" by simp
  from adv [OF this] have 1: "?R (?l [] False 0 Lp_Poll [Ot_Idle] [] [])" by simp
  have 2: "?R (?l [5] False 0 Lp_Poll [Ot_Wakeup] [5] [])"
    using reach_step [OF 1 lps_queue_other [of 0 _ 5]] by (simp add: lp_queue_other_def lp_push_def)
  have 3: "?R (?l [5] False 1 Lp_Poll [Ot_Idle] [5] [])"
    using reach_step [OF 2 lps_wakeup [of 0]] by (simp add: lp_wakeup_def eventfd_max_def)
  from adv [OF 3, of "[True]"] have 4: "?R (?l [5] False 1 (Lp_Events [True]) [Ot_Idle] [5] [])" by simp
  from adv [OF 4] have 5: "?R (?l [5] False 0 (Lp_Events []) [Ot_Idle] [5] [])"
    by (simp add: lp_handle_wakeup_read_def)
  from adv [OF 5] have 6: "?R (?l [5] False 0 Lp_Swap [Ot_Idle] [5] [])" by simp
  from adv [OF 6] have 7: "?R (?l [] True 0 (Lp_Run [5]) [Ot_Idle] [5] [])" by simp
  from adv [OF 7] have 8: "?R (?l [] True 0 (Lp_Run []) [Ot_Idle] [5] [5])" by simp
  from adv [OF 8] have 9: "?R (?l [] False 0 Lp_Test [Ot_Idle] [5] [5])" by simp
  from adv [OF 9] show ?thesis by (simp add: demo_loop_def)
qed

lemma functors_in_order_witness:
  "lp_pc demo_loop = Lp_Poll \<and> lp_functors demo_loop = [] \<and> lp_queued demo_loop = [5] \<and>
   lp_queued demo_loop = lp_ran demo_loop"
  using functors_in_order [OF demo_loop_reach] by (simp add: demo_loop_def)

end
