(* ===== verification/Loop_Thread.thy ===== *)
theory Loop_Thread
  imports Event_Loop
begin

text \<open>
  \<open>EventLoopThread\<close> (code/MiniReactor/src/net/EventLoopThread.cpp): a thread that makes an event
  loop on its stack, publishes the pointer, runs the loop and takes the pointer back; its owner,
  who starts it, waits for the pointer, and ends the loop in the destructor. The loop is that of
  \<open>Event_Loop\<close>; the owner is its other thread number 0, the numbers from 1 on are clients who
  queue functors.
\<close>

section \<open>State and operations\<close>

text \<open>
  The thread: not started; making the loop; about to publish it; in \<open>loop()\<close>; about to take the
  pointer back; about to destroy the loop; returned.
\<close>

datatype th_pc = Th_None | Th_Construct | Th_Publish | Th_Loop | Th_Clear | Th_Destroy | Th_End

text \<open>
  The owner: before \<open>startLoop\<close>; about to test the pointer there; asleep on the condition
  variable, notified or not; back from it. In the destructor: about to store \<open>quit_\<close>; about to
  write the eventfd; about to join; done.
\<close>

datatype ow_pc = Ow_New | Ow_Test | Ow_Asleep bool | Ow_Started | Ow_Quit | Ow_Wakeup | Ow_Join | Ow_Gone

text \<open>\<open>et_ptr\<close>: \<open>loop_\<close> is not null.\<close>

record 'f loop_thread =
  et_ptr :: bool
  et_thread :: th_pc
  et_owner :: ow_pc
  et_loop :: "'f loop"

definition et_new :: "nat \<Rightarrow> 'f loop_thread" where
  "et_new n = \<lparr>et_ptr = False, et_thread = Th_None, et_owner = Ow_New, et_loop = lp_new (n + 1)\<rparr>"

definition et_alive :: "'f loop_thread \<Rightarrow> bool" where
  "et_alive t \<longleftrightarrow> et_thread t \<in> {Th_Publish, Th_Loop, Th_Clear, Th_Destroy}"

text \<open>\<open>threadFunc\<close>; \<open>reported\<close> is what \<open>epoll_wait\<close> returns.\<close>

fun et_notify :: "ow_pc \<Rightarrow> ow_pc" where
  "et_notify (Ow_Asleep b) = Ow_Asleep True"
| "et_notify pc = pc"

definition et_thread_func :: "bool list \<Rightarrow> 'f loop_thread \<Rightarrow> 'f loop_thread option" where
  "et_thread_func reported t =
     (case et_thread t of
        Th_Construct \<Rightarrow> Some (t\<lparr>et_thread := Th_Publish\<rparr>)
      | Th_Publish \<Rightarrow> Some (t\<lparr>et_ptr := True, et_owner := et_notify (et_owner t), et_thread := Th_Loop\<rparr>)
      | Th_Loop \<Rightarrow>
          if lp_pc (et_loop t) = Lp_Out then Some (t\<lparr>et_thread := Th_Clear\<rparr>)
          else map_option (\<lambda>l. t\<lparr>et_loop := l\<rparr>) (lp_advance reported (et_loop t))
      | Th_Clear \<Rightarrow> Some (t\<lparr>et_ptr := False, et_thread := Th_Destroy\<rparr>)
      | Th_Destroy \<Rightarrow> Some (t\<lparr>et_thread := Th_End\<rparr>)
      | _ \<Rightarrow> None)"

text \<open>\<open>startLoop\<close>; \<open>None\<close>: the owner sleeps on.\<close>

definition et_start_loop :: "'f loop_thread \<Rightarrow> 'f loop_thread option" where
  "et_start_loop t =
     (case et_owner t of
        Ow_New \<Rightarrow> Some (t\<lparr>et_thread := Th_Construct, et_owner := Ow_Test\<rparr>)
      | Ow_Test \<Rightarrow> Some (t\<lparr>et_owner := if et_ptr t then Ow_Started else Ow_Asleep False\<rparr>)
      | Ow_Asleep True \<Rightarrow> Some (t\<lparr>et_owner := Ow_Test\<rparr>)
      | _ \<Rightarrow> None)"

text \<open>
  The destructor; \<open>None\<close>: the join waits. It calls \<open>quit\<close> through the pointer it has read under
  the mutex: a store, then a write of the eventfd.
\<close>

definition et_destroy :: "'f loop_thread \<Rightarrow> 'f loop_thread result option" where
  "et_destroy t =
     (case et_owner t of
        Ow_New \<Rightarrow> Some (ret (t\<lparr>et_owner := if et_ptr t then Ow_Quit else Ow_Join\<rparr>))
      | Ow_Started \<Rightarrow> Some (ret (t\<lparr>et_owner := if et_ptr t then Ow_Quit else Ow_Join\<rparr>))
      | Ow_Quit \<Rightarrow> Some (if et_alive t then ret (t\<lparr>et_owner := Ow_Wakeup, et_loop := lp_quit_other 0 (et_loop t)\<rparr>)
                        else throw (UB ''use after free''))
      | Ow_Wakeup \<Rightarrow>
          Some (if et_alive t
                then ret (t\<lparr>et_owner := Ow_Join,
                            et_loop := (lp_wakeup (et_loop t))\<lparr>lp_others := (lp_others (et_loop t))[0 := Ot_Idle]\<rparr>\<rparr>)
                else throw (UB ''use after free''))
      | Ow_Join \<Rightarrow> if et_thread t \<in> {Th_None, Th_End} then Some (ret (t\<lparr>et_owner := Ow_Gone\<rparr>)) else None
      | _ \<Rightarrow> None)"

text \<open>
  All together. Callbacks and functors may queue functors, and if \<open>quits\<close> holds end the loop
  themselves. Clients use the loop between the return of \<open>startLoop\<close> and the destructor, while it
  runs; their calls have returned before the destructor is entered.
\<close>

inductive et_step :: "bool \<Rightarrow> 'f loop_thread \<Rightarrow> 'f loop_thread \<Rightarrow> bool" for quits where
  ets_thread: "et_thread_func reported t = Some t' \<Longrightarrow> et_step quits t t'"
| ets_start: "et_start_loop t = Some t' \<Longrightarrow> et_step quits t t'"
| ets_spurious: "et_owner t = Ow_Asleep b \<Longrightarrow> et_step quits t (t\<lparr>et_owner := Ow_Test\<rparr>)"
| ets_destroy: "et_destroy t = Some (Inr t') \<Longrightarrow>
    et_owner t = Ow_Started \<longrightarrow> Ot_Wakeup \<notin> set (lp_others (et_loop t)) \<Longrightarrow> et_step quits t t'"
| ets_own_queue: "et_thread t = Th_Loop \<Longrightarrow> in_callback (lp_pc (et_loop t)) \<Longrightarrow>
    et_step quits t (t\<lparr>et_loop := lp_queue_own f (et_loop t)\<rparr>)"
| ets_own_quit: "quits \<Longrightarrow> et_thread t = Th_Loop \<Longrightarrow> in_callback (lp_pc (et_loop t)) \<Longrightarrow>
    et_step quits t (t\<lparr>et_loop := lp_set_quit (et_loop t)\<rparr>)"
| ets_client_queue: "et_owner t = Ow_Started \<Longrightarrow> et_thread t = Th_Loop \<Longrightarrow> 0 < k \<Longrightarrow>
    k < length (lp_others (et_loop t)) \<Longrightarrow> lp_others (et_loop t) ! k = Ot_Idle \<Longrightarrow>
    et_step quits t (t\<lparr>et_loop := lp_queue_other k f (et_loop t)\<rparr>)"
| ets_client_wakeup: "et_owner t = Ow_Started \<Longrightarrow> et_alive t \<Longrightarrow> 0 < k \<Longrightarrow>
    k < length (lp_others (et_loop t)) \<Longrightarrow> lp_others (et_loop t) ! k = Ot_Wakeup \<Longrightarrow>
    et_step quits t (t\<lparr>et_loop := (lp_wakeup (et_loop t))\<lparr>lp_others := (lp_others (et_loop t))[k := Ot_Idle]\<rparr>\<rparr>)"

definition et_init :: "nat \<Rightarrow> 'f loop_thread \<Rightarrow> bool" where
  "et_init n t \<longleftrightarrow> t = et_new n"

section \<open>Invariant\<close>

text \<open>What the thread's and the owner's places say about each other, and about the loop.\<close>

fun th_early :: "th_pc \<Rightarrow> bool" where
  "th_early Th_Construct = True"
| "th_early Th_Publish = True"
| "th_early _ = False"

fun th_late :: "th_pc \<Rightarrow> bool" where
  "th_late Th_Clear = True"
| "th_late Th_Destroy = True"
| "th_late Th_End = True"
| "th_late _ = False"

fun ow_ending :: "ow_pc \<Rightarrow> bool" where
  "ow_ending Ow_Wakeup = True"
| "ow_ending Ow_Join = True"
| "ow_ending Ow_Gone = True"
| "ow_ending _ = False"

fun pair_ok :: "bool \<Rightarrow> th_pc \<Rightarrow> ow_pc \<Rightarrow> bool" where
  "pair_ok quits th Ow_New \<longleftrightarrow> th = Th_None"
| "pair_ok quits th Ow_Test \<longleftrightarrow> th \<noteq> Th_None"
| "pair_ok quits th (Ow_Asleep True) \<longleftrightarrow> th \<noteq> Th_None"
| "pair_ok quits th (Ow_Asleep False) \<longleftrightarrow> th \<noteq> Th_None \<and> (quits \<or> th_early th)"
| "pair_ok quits th Ow_Started \<longleftrightarrow> th \<noteq> Th_None \<and> \<not> th_early th"
| "pair_ok quits th Ow_Quit \<longleftrightarrow> th \<noteq> Th_None \<and> \<not> th_early th"
| "pair_ok quits th Ow_Wakeup \<longleftrightarrow> th \<noteq> Th_None \<and> \<not> th_early th"
| "pair_ok quits th Ow_Join \<longleftrightarrow> \<not> th_early th"
| "pair_ok quits th Ow_Gone \<longleftrightarrow> th = Th_None \<or> th = Th_End"

lemma pair_ok_asleep [simp]: "pair_ok quits th (Ow_Asleep b) \<longleftrightarrow> th \<noteq> Th_None \<and> (b \<or> quits \<or> th_early th)"
  by (cases b) simp_all

definition quit_ok :: "bool \<Rightarrow> th_pc \<Rightarrow> ow_pc \<Rightarrow> bool \<Rightarrow> bool" where
  "quit_ok quits th ow quit \<longleftrightarrow>
     (th = Th_None \<or> th_early th \<longrightarrow> \<not> quit) \<and> (th_late th \<longrightarrow> quit) \<and>
     (quit \<longrightarrow> quits \<or> ow_ending ow) \<and> (ow_ending ow \<longrightarrow> th = Th_None \<or> quit)"

definition others_ok :: "ow_pc \<Rightarrow> ot_pc list \<Rightarrow> bool" where
  "others_ok ow os \<longleftrightarrow> os \<noteq> [] \<and> os ! 0 = (if ow = Ow_Wakeup then Ot_Wakeup else Ot_Idle) \<and>
     (ow \<noteq> Ow_Started \<longrightarrow> Ot_Wakeup \<notin> set (tl os))"

definition et_inv :: "bool \<Rightarrow> 'f loop_thread \<Rightarrow> bool" where
  "et_inv quits t \<longleftrightarrow> lp_inv (et_loop t) \<and>
     (et_ptr t \<longleftrightarrow> et_thread t = Th_Loop \<or> et_thread t = Th_Clear) \<and> pair_ok quits (et_thread t) (et_owner t) \<and>
     quit_ok quits (et_thread t) (et_owner t) (lp_quit (et_loop t)) \<and> others_ok (et_owner t) (lp_others (et_loop t))"


lemma advance_frame:
  "lp_advance reported l = Some l' \<Longrightarrow> lp_quit l' = lp_quit l \<and> lp_others l' = lp_others l \<and> lp_pc l \<noteq> Lp_Out"
  by (cases "lp_pc l") (auto simp: lp_handle_wakeup_read_def split: if_splits list.splits)

lemma queue_own_frame [simp]:
  "lp_quit (lp_queue_own f l) = lp_quit l" "lp_others (lp_queue_own f l) = lp_others l"
  "lp_pc (lp_queue_own f l) = lp_pc l"
  by (simp_all add: lp_queue_own_def lp_push_def Let_def)

lemma queue_other_frame [simp]:
  "lp_quit (lp_queue_other k f l) = lp_quit l" "lp_pc (lp_queue_other k f l) = lp_pc l"
  "lp_others (lp_queue_other k f l) = (lp_others l)[k := Ot_Wakeup]"
  by (simp_all add: lp_queue_other_def lp_push_def)

lemma quit_frame [simp]:
  "lp_quit (lp_quit_other k l) = True" "lp_pc (lp_quit_other k l) = lp_pc l"
  "lp_others (lp_quit_other k l) = (lp_others l)[k := Ot_Wakeup]"
  "lp_quit (lp_set_quit l) = True" "lp_pc (lp_set_quit l) = lp_pc l" "lp_others (lp_set_quit l) = lp_others l"
  by (simp_all add: lp_quit_other_def lp_set_quit_def)

lemma tl_update_0 [simp]: "tl (xs[0 := x]) = tl xs"
  by (cases xs) simp_all

lemma callback_calls: "in_callback pc \<Longrightarrow> own_calls pc"
  by (simp add: own_calls_def)

lemma et_invD:
  assumes "et_inv quits t"
  shows "lp_inv (et_loop t)" "et_ptr t \<longleftrightarrow> et_thread t = Th_Loop \<or> et_thread t = Th_Clear"
    "pair_ok quits (et_thread t) (et_owner t)" "quit_ok quits (et_thread t) (et_owner t) (lp_quit (et_loop t))"
    "others_ok (et_owner t) (lp_others (et_loop t))"
  using assms by (simp_all add: et_inv_def)

text \<open>A step of the loop that leaves the flag and the others as the places want them.\<close>

lemma loop_inv:
  assumes "et_inv quits t" "lp_step (et_loop t) l"
    "quit_ok quits (et_thread t) ow (lp_quit l)" "others_ok ow (lp_others l)" "pair_ok quits (et_thread t) ow"
  shows "et_inv quits (t\<lparr>et_owner := ow, et_loop := l\<rparr>)"
  using assms lp_inv_step [OF assms(2)] by (simp add: et_inv_def)

lemma loop_inv_same:
  assumes "et_inv quits t" "lp_step (et_loop t) l" "lp_quit l = lp_quit (et_loop t)" "others_ok (et_owner t) (lp_others l)"
  shows "et_inv quits (t\<lparr>et_loop := l\<rparr>)"
  using loop_inv [of quits t l "et_owner t"] assms by (simp add: et_inv_def)

text \<open>A step that does not touch the loop.\<close>

lemma places_inv:
  assumes "et_inv quits t" "et_loop t' = et_loop t"
    "et_ptr t' \<longleftrightarrow> et_thread t' = Th_Loop \<or> et_thread t' = Th_Clear" "pair_ok quits (et_thread t') (et_owner t')"
    "quit_ok quits (et_thread t') (et_owner t') (lp_quit (et_loop t))" "others_ok (et_owner t') (lp_others (et_loop t))"
  shows "et_inv quits t'"
  using assms by (simp add: et_inv_def)

lemma thread_inv:
  assumes inv: "et_inv quits t" and step: "et_thread_func reported t = Some t'"
  shows "et_inv quits t'"
proof (cases "et_thread t = Th_Loop \<and> lp_pc (et_loop t) \<noteq> Lp_Out")
  case True
  then obtain l where l: "lp_advance reported (et_loop t) = Some l" "t' = t\<lparr>et_loop := l\<rparr>"
    using step by (auto simp: et_thread_func_def)
  show ?thesis
    using loop_inv_same [OF inv lps_advance [OF l(1)]] advance_frame [OF l(1)] et_invD(5) [OF inv] l(2) by simp
next
  case False
  note d = et_invD [OF inv]
  have out: "lp_quit (et_loop t)" if "et_thread t = Th_Loop"
    using d(1) False that by (simp add: lp_inv_def)
  show ?thesis
  proof (rule places_inv [OF inv])
    show "et_loop t' = et_loop t" "et_ptr t' \<longleftrightarrow> et_thread t' = Th_Loop \<or> et_thread t' = Th_Clear"
      using step False d(2) by (cases "et_thread t"; simp add: et_thread_func_def; fastforce)+
    show "pair_ok quits (et_thread t') (et_owner t')"
      using step False d(3) by (cases "et_thread t"; cases "et_owner t") (auto simp: et_thread_func_def split: bool.splits)
    show "quit_ok quits (et_thread t') (et_owner t') (lp_quit (et_loop t))"
      using step False d(3,4) out by (cases "et_thread t"; cases "et_owner t") (auto simp: et_thread_func_def quit_ok_def)
    show "others_ok (et_owner t') (lp_others (et_loop t))"
      using step False d(5) by (cases "et_thread t"; cases "et_owner t") (auto simp: et_thread_func_def others_ok_def)
  qed
qed

lemma start_inv:
  assumes inv: "et_inv quits t" and step: "et_start_loop t = Some t'"
  shows "et_inv quits t'"
proof (rule places_inv [OF inv])
  note d = et_invD [OF inv]
  show "et_loop t' = et_loop t"
    using step by (cases "et_owner t") (auto simp: et_start_loop_def split: bool.splits)
  show "et_ptr t' \<longleftrightarrow> et_thread t' = Th_Loop \<or> et_thread t' = Th_Clear"
    using step d(2,3) by (cases "et_owner t") (auto simp: et_start_loop_def split: bool.splits)
  show "pair_ok quits (et_thread t') (et_owner t')"
    using step d(2,3,4) by (cases "et_owner t"; cases "et_thread t")
      (auto simp: et_start_loop_def quit_ok_def split: bool.splits if_splits)
  show "quit_ok quits (et_thread t') (et_owner t') (lp_quit (et_loop t))"
    using step d(3,4) by (cases "et_owner t") (auto simp: et_start_loop_def quit_ok_def split: bool.splits if_splits)
  show "others_ok (et_owner t') (lp_others (et_loop t))"
    using step d(5) by (cases "et_owner t") (auto simp: et_start_loop_def others_ok_def split: bool.splits if_splits)
qed

lemma destroy_inv:
  assumes inv: "et_inv quits t" and step: "et_destroy t = Some (Inr t')"
    and clients: "et_owner t = Ow_Started \<longrightarrow> Ot_Wakeup \<notin> set (lp_others (et_loop t))"
  shows "et_inv quits t'"
proof -
  note d = et_invD [OF inv]
  have os: "0 < length (lp_others (et_loop t))" "lp_others (et_loop t) ! 0 = (if et_owner t = Ow_Wakeup then Ot_Wakeup else Ot_Idle)"
    using d(5) by (simp_all add: others_ok_def)
  show ?thesis
  proof (cases "et_owner t = Ow_Quit \<or> et_owner t = Ow_Wakeup")
    case True
    then show ?thesis
    proof
      assume quit: "et_owner t = Ow_Quit"
      then have "t' = t\<lparr>et_owner := Ow_Wakeup, et_loop := lp_quit_other 0 (et_loop t)\<rparr>" "et_thread t \<noteq> Th_None"
        using step d(3) by (simp_all add: et_destroy_def split: if_splits)
      with quit show ?thesis
        using loop_inv [OF inv lps_quit_other [of 0], of Ow_Wakeup] os d(3-5)
        by (simp add: quit_ok_def others_ok_def)
    next
      assume wake: "et_owner t = Ow_Wakeup"
      then have "t' = t\<lparr>et_owner := Ow_Join, et_loop := (lp_wakeup (et_loop t))\<lparr>lp_others := (lp_others (et_loop t))[0 := Ot_Idle]\<rparr>\<rparr>"
        using step by (simp add: et_destroy_def split: if_splits)
      with wake show ?thesis
        using loop_inv [OF inv lps_wakeup [of 0], of Ow_Join] os d(3-5)
        by (simp add: quit_ok_def others_ok_def)
    qed
  next
    case False
    have tl: "Ot_Wakeup \<notin> set (tl (lp_others (et_loop t)))" if "et_owner t = Ow_Started"
      using clients that by (metis list.set_sel(2) tl_Nil)
    show ?thesis
    proof (rule places_inv [OF inv])
      show "et_loop t' = et_loop t" "et_ptr t' \<longleftrightarrow> et_thread t' = Th_Loop \<or> et_thread t' = Th_Clear"
        using step False d(2) by (cases "et_owner t"; simp add: et_destroy_def split: if_splits; fastforce)+
      show "pair_ok quits (et_thread t') (et_owner t')"
        using step False d(2,3) by (cases "et_owner t"; cases "et_thread t") (auto simp: et_destroy_def split: if_splits)
      show "quit_ok quits (et_thread t') (et_owner t') (lp_quit (et_loop t))"
        using step False d(2-4) by (cases "et_owner t"; cases "et_thread t") (auto simp: et_destroy_def quit_ok_def split: if_splits)
      show "others_ok (et_owner t') (lp_others (et_loop t))"
        using step False d(5) tl by (cases "et_owner t") (auto simp: et_destroy_def others_ok_def split: if_splits)
    qed
  qed
qed

lemma others_okD: "others_ok ow os \<Longrightarrow> os \<noteq> [] \<and> os ! 0 = (if ow = Ow_Wakeup then Ot_Wakeup else Ot_Idle)"
  by (simp add: others_ok_def)

lemma others_ok_client: "others_ok Ow_Started os \<Longrightarrow> 0 < k \<Longrightarrow> others_ok Ow_Started (os[k := x])"
  by (simp add: others_ok_def)

lemma et_inv_step: "et_step quits t t' \<Longrightarrow> et_inv quits t \<Longrightarrow> et_inv quits t'"
proof (induction rule: et_step.induct)
  case (ets_thread reported t t')
  then show ?case using thread_inv by blast
next
  case (ets_start t t')
  then show ?case using start_inv by blast
next
  case (ets_spurious t b)
  note d = et_invD [OF ets_spurious(2)]
  show ?case
    by (rule places_inv [OF ets_spurious(2)])
      (use ets_spurious d in \<open>cases b; simp add: quit_ok_def others_ok_def\<close>)+
next
  case (ets_destroy t t')
  then show ?case using destroy_inv by blast
next
  case (ets_own_queue t f)
  then show ?case
    using loop_inv_same [OF ets_own_queue(3) lps_queue_own [OF callback_calls]] et_invD(5) [OF ets_own_queue(3)] by simp
next
  case (ets_own_quit t)
  note d = et_invD [OF ets_own_quit(4)]
  have "quit_ok quits (et_thread t) (et_owner t) True"
    using ets_own_quit(1,2) d(4) by (simp add: quit_ok_def)
  then show ?case
    using loop_inv [OF ets_own_quit(4) lps_quit_own [OF callback_calls [OF ets_own_quit(3)]], of "et_owner t"] d by simp
next
  case (ets_client_queue t k f)
  then show ?case
    using loop_inv_same [OF ets_client_queue(6) lps_queue_other] et_invD(5) [OF ets_client_queue(6)] others_ok_client by simp
next
  case (ets_client_wakeup t k)
  then show ?case
    using loop_inv_same [OF ets_client_wakeup(6) lps_wakeup] et_invD(5) [OF ets_client_wakeup(6)] others_ok_client by simp
qed

lemma et_inv_init: "et_init n t \<Longrightarrow> et_inv quits t"
  using lp_inv_init [of "n + 1" "lp_new (n + 1)"]
  by (simp add: et_init_def et_new_def et_inv_def quit_ok_def others_ok_def lp_init_def lp_new_def)

interpretation et: invariant_system "et_init n" "et_step quits" "et_inv quits"
  by unfold_locales (auto intro: et_inv_init et_inv_step)


section \<open>Joining\<close>

text \<open>The thread alone, its polls answered by the given lists of events.\<close>

fun et_run :: "bool list list \<Rightarrow> 'f loop_thread \<Rightarrow> 'f loop_thread option" where
  "et_run [] t = Some t"
| "et_run (reported # rs) t = (case et_thread_func reported t of None \<Rightarrow> None | Some t' \<Rightarrow> et_run rs t')"

text \<open>
  How many steps are left when the flag is set and no poll reports more than \<open>m\<close> events: the
  events and functors in hand, the functors in the queue unless the thread has just taken them,
  and the way out.
\<close>

fun lp_left :: "nat \<Rightarrow> 'f list \<Rightarrow> 'f lp_pc \<Rightarrow> nat" where
  "lp_left m fs Lp_Out = 0"
| "lp_left m fs Lp_Test = 1"
| "lp_left m fs Lp_Before = 2"
| "lp_left m fs (Lp_Run gs) = length gs + 2"
| "lp_left m fs Lp_Swap = length fs + 3"
| "lp_left m fs (Lp_Events es) = length es + length fs + 4"
| "lp_left m fs Lp_Poll = m + length fs + 5"

fun th_left :: "nat \<Rightarrow> 'f loop \<Rightarrow> th_pc \<Rightarrow> nat" where
  "th_left m l Th_Loop = lp_left m (lp_functors l) (lp_pc l) + 3"
| "th_left m l Th_Clear = 2"
| "th_left m l Th_Destroy = 1"
| "th_left m l _ = 0"

lemma advance_left:
  assumes "lp_advance reported l = Some l'" "lp_quit l" "length reported \<le> m"
  shows "lp_left m (lp_functors l') (lp_pc l') < lp_left m (lp_functors l) (lp_pc l)"
  using assms by (cases "lp_pc l") (auto simp: lp_handle_wakeup_read_def split: if_splits list.splits)

lemma thread_left:
  assumes "et_thread_func reported t = Some t'" "lp_quit (et_loop t)" "length reported \<le> m"
    "\<not> th_early (et_thread t)"
  shows "th_left m (et_loop t') (et_thread t') < th_left m (et_loop t) (et_thread t)"
proof (cases "et_thread t = Th_Loop \<and> lp_pc (et_loop t) \<noteq> Lp_Out")
  case True
  then obtain l where "lp_advance reported (et_loop t) = Some l" "t' = t\<lparr>et_loop := l\<rparr>"
    using assms(1) by (auto simp: et_thread_func_def)
  with advance_left [of reported "et_loop t" l m] assms(2,3) True show ?thesis by simp
next
  case False
  with assms show ?thesis by (cases "et_thread t") (auto simp: et_thread_func_def)
qed

lemma thread_owner:
  assumes "et_thread_func reported t = Some t'" "et_owner t = Ow_Join"
  shows "et_owner t' = Ow_Join"
  using assms by (cases "et_thread t") (auto simp: et_thread_func_def split: if_splits)

text \<open>At the join the thread has ended, was never started, or the flag is set.\<close>

lemma join_quit:
  assumes "et_inv quits t" "et_owner t = Ow_Join"
  shows "et_thread t = Th_None \<or> lp_quit (et_loop t)" "\<not> th_early (et_thread t)"
  using et_invD(3,4) [OF assms(1)] assms(2) by (auto simp: quit_ok_def)

lemma run_left:
  "et_run rs t = Some t' \<Longrightarrow> et_inv quits t \<Longrightarrow> et_owner t = Ow_Join \<Longrightarrow> \<forall>r \<in> set rs. length r \<le> m \<Longrightarrow>
   et_inv quits t' \<and> et_owner t' = Ow_Join \<and>
   length rs + th_left m (et_loop t') (et_thread t') \<le> th_left m (et_loop t) (et_thread t)"
proof (induction rs arbitrary: t)
  case (Cons r rs)
  obtain t1 where t1: "et_thread_func r t = Some t1" "et_run rs t1 = Some t'"
    using Cons.prems(1) by (auto split: option.splits)
  note q = join_quit [OF Cons.prems(2,3)]
  have "et_thread t \<noteq> Th_None" using t1(1) by (auto simp: et_thread_func_def)
  then have "th_left m (et_loop t1) (et_thread t1) < th_left m (et_loop t) (et_thread t)"
    using thread_left [OF t1(1), of m] q Cons.prems(4) by auto
  then show ?case
    using Cons.IH [OF t1(2) thread_inv [OF Cons.prems(2) t1(1)] thread_owner [OF t1(1) Cons.prems(3)]] Cons.prems(4)
    by auto
qed simp

text \<open>There is always a next step: a poll sees the wakeup.\<close>

lemma join_moves:
  assumes "et_inv quits t" "et_owner t = Ow_Join" "et_thread t \<noteq> Th_None" "et_thread t \<noteq> Th_End"
  shows "\<exists>reported. length reported \<le> 1 \<and> et_thread_func reported t \<noteq> None"
proof -
  note q = join_quit [OF assms(1,2)] and d = et_invD [OF assms(1)]
  have others: "Ot_Wakeup \<notin> set (lp_others (et_loop t))"
    using d(5) assms(2) by (cases "lp_others (et_loop t)") (auto simp: others_ok_def)
  have alarm: "0 < lp_eventfd (et_loop t)" if "lp_pc (et_loop t) = Lp_Poll"
    using d(1) q(1) assms(3) others that by (simp add: lp_inv_def lp_alarm_def)
  have adv: "lp_advance [True] (et_loop t) \<noteq> None" if "lp_pc (et_loop t) \<noteq> Lp_Out"
    using alarm that by (cases "lp_pc (et_loop t)") (auto split: list.splits)
  have "et_thread_func [True] t \<noteq> None"
    using adv assms(3,4) q(2) by (cases "et_thread t") (auto simp: et_thread_func_def)
  then show ?thesis by (intro exI [of _ "[True]"]) simp
qed

section \<open>Properties\<close>

text \<open>
  C29. Whatever order the threads run in: the pointer \<open>loop_\<close> is not null exactly while the loop
  runs, so it never points to a destroyed one; unless functors end the loop themselves, the owner
  does not sleep in \<open>startLoop\<close> with the pointer published and no notification under way, and the
  destructor's store of \<open>quit_\<close> finds the loop alive; and when the destructor has returned the
  thread has ended or was never started.
\<close>

theorem loop_pointer_valid:
  assumes "reach (et_init n) (et_step quits) t"
  shows "(et_ptr t \<longleftrightarrow> et_thread t = Th_Loop \<or> et_thread t = Th_Clear) \<and> (et_ptr t \<longrightarrow> et_alive t) \<and>
    (\<not> quits \<and> et_owner t = Ow_Asleep False \<longrightarrow> \<not> et_ptr t \<and> th_early (et_thread t)) \<and>
    (\<not> quits \<and> et_owner t = Ow_Quit \<longrightarrow> (\<exists>t'. et_destroy t = Some (Inr t'))) \<and>
    (et_owner t = Ow_Gone \<longrightarrow> et_thread t = Th_None \<or> et_thread t = Th_End)"
proof -
  have inv: "et_inv quits t" by (rule et.reach_inv [OF assms])
  note d = et_invD [OF inv]
  have alive: "et_ptr t \<longrightarrow> et_alive t" using d(2) by (auto simp: et_alive_def)
  have asleep: "\<not> et_ptr t \<and> th_early (et_thread t)" if "\<not> quits" "et_owner t = Ow_Asleep False"
    using d(2,3) that by auto
  have quit: "\<exists>t'. et_destroy t = Some (Inr t')" if "\<not> quits" "et_owner t = Ow_Quit"
  proof -
    have "\<not> lp_quit (et_loop t)" using d(4) that by (simp add: quit_ok_def)
    then have "et_alive t"
      using d(3,4) that by (cases "et_thread t") (auto simp: quit_ok_def et_alive_def)
    then show ?thesis using that by (simp add: et_destroy_def)
  qed
  have "et_owner t = Ow_Gone \<longrightarrow> et_thread t = Th_None \<or> et_thread t = Th_End"
    using d(3) by auto
  with d(2) alive asleep quit show ?thesis by blast
qed

text \<open>
  C30. The join of the destructor returns: once it is reached, the thread can always take a step
  until it has ended, and when polls report at most \<open>m\<close> events it takes at most as many steps as
  the events, functors and queued functors in hand, plus \<open>m\<close> and 8 more. No wakeup is lost: the
  loop is not left asleep in \<open>epoll_wait\<close>.
\<close>

theorem join_returns:
  assumes "reach (et_init n) (et_step quits) t" "et_owner t = Ow_Join"
    and "et_run rs t = Some t'" "\<forall>r \<in> set rs. length r \<le> m"
  shows "length rs \<le> m + length (lp_functors (et_loop t)) + length (lp_taken (lp_pc (et_loop t))) +
      (case lp_pc (et_loop t) of Lp_Events es \<Rightarrow> length es | _ \<Rightarrow> 0) + 8 \<and>
    (if et_thread t' = Th_None \<or> et_thread t' = Th_End
     then et_destroy t' = Some (Inr (t'\<lparr>et_owner := Ow_Gone\<rparr>))
     else \<exists>reported. length reported \<le> 1 \<and> et_thread_func reported t' \<noteq> None)"
proof -
  have r: "et_inv quits t'" "et_owner t' = Ow_Join"
    "length rs + th_left m (et_loop t') (et_thread t') \<le> th_left m (et_loop t) (et_thread t)"
    using run_left [OF assms(3) et.reach_inv [OF assms(1)] assms(2,4)] by simp_all
  have "th_left m (et_loop t) (et_thread t) \<le> m + length (lp_functors (et_loop t)) + length (lp_taken (lp_pc (et_loop t))) +
      (case lp_pc (et_loop t) of Lp_Events es \<Rightarrow> length es | _ \<Rightarrow> 0) + 8"
    by (cases "et_thread t"; cases "lp_pc (et_loop t)"; simp)
  with r(3) have "length rs \<le> m + length (lp_functors (et_loop t)) + length (lp_taken (lp_pc (et_loop t))) +
      (case lp_pc (et_loop t) of Lp_Events es \<Rightarrow> length es | _ \<Rightarrow> 0) + 8" by linarith
  moreover have "et_destroy t' = Some (Inr (t'\<lparr>et_owner := Ow_Gone\<rparr>))" if "et_thread t' = Th_None \<or> et_thread t' = Th_End"
    using that r(2) by (auto simp: et_destroy_def)
  ultimately show ?thesis using join_moves [OF r(1,2)] by auto
qed


section \<open>Examples\<close>

text \<open>The owner starts a loop, which goes to sleep, and begins to destroy it.\<close>

definition et_at :: "bool \<Rightarrow> th_pc \<Rightarrow> ow_pc \<Rightarrow> bool \<Rightarrow> nat \<Rightarrow> nat lp_pc \<Rightarrow> ot_pc \<Rightarrow> nat loop_thread" where
  "et_at ptr th ow quit n pc o0 = \<lparr>et_ptr = ptr, et_thread = th, et_owner = ow,
     et_loop = \<lparr>lp_functors = [], lp_calling = False, lp_quit = quit, lp_eventfd = n, lp_pc = pc,
       lp_others = [o0], lp_queued = [], lp_ran = [], lp_early = []\<rparr>\<rparr>"

lemma demo_quit_reach: "reach (et_init 0) (et_step False) (et_at True Th_Loop Ow_Quit False 0 Lp_Poll Ot_Idle)"
proof -
  let ?R = "reach (et_init 0) (et_step False) :: nat loop_thread \<Rightarrow> bool"
  have own: "?R t'" if "?R t" "et_start_loop t = Some t'" for t t' :: "nat loop_thread"
    by (rule reach_step [OF that(1) ets_start [OF that(2)]])
  have thr: "?R t'" if "?R t" "et_thread_func [] t = Some t'" for t t' :: "nat loop_thread"
    by (rule reach_step [OF that(1) ets_thread [OF that(2)]])
  have "?R (et_at False Th_None Ow_New False 0 Lp_Before Ot_Idle)"
    by (rule reach_init) (simp add: et_init_def et_new_def lp_new_def et_at_def)
  from own [OF this] have "?R (et_at False Th_Construct Ow_Test False 0 Lp_Before Ot_Idle)"
    by (simp add: et_start_loop_def et_at_def)
  from own [OF this] have "?R (et_at False Th_Construct (Ow_Asleep False) False 0 Lp_Before Ot_Idle)"
    by (simp add: et_start_loop_def et_at_def)
  from thr [OF this] have "?R (et_at False Th_Publish (Ow_Asleep False) False 0 Lp_Before Ot_Idle)"
    by (simp add: et_thread_func_def et_at_def)
  from thr [OF this] have "?R (et_at True Th_Loop (Ow_Asleep True) False 0 Lp_Before Ot_Idle)"
    by (simp add: et_thread_func_def et_at_def)
  from own [OF this] have "?R (et_at True Th_Loop Ow_Test False 0 Lp_Before Ot_Idle)"
    by (simp add: et_start_loop_def et_at_def)
  from own [OF this] have "?R (et_at True Th_Loop Ow_Started False 0 Lp_Before Ot_Idle)"
    by (simp add: et_start_loop_def et_at_def)
  from thr [OF this] have "?R (et_at True Th_Loop Ow_Started False 0 Lp_Test Ot_Idle)"
    by (simp add: et_thread_func_def et_at_def)
  from thr [OF this] have 1: "?R (et_at True Th_Loop Ow_Started False 0 Lp_Poll Ot_Idle)"
    by (simp add: et_thread_func_def et_at_def)
  show ?thesis
    by (rule reach_step [OF 1 ets_destroy]) (simp_all add: et_destroy_def et_at_def)
qed

lemma demo_wakeup_reach: "reach (et_init 0) (et_step False) (et_at True Th_Loop Ow_Wakeup True 0 Lp_Poll Ot_Wakeup)"
  by (rule reach_step [OF demo_quit_reach ets_destroy])
    (simp_all add: et_destroy_def et_at_def et_alive_def lp_quit_other_def lp_set_quit_def)

lemma demo_join_reach: "reach (et_init 0) (et_step False) (et_at True Th_Loop Ow_Join True 1 Lp_Poll Ot_Idle)"
  by (rule reach_step [OF demo_wakeup_reach ets_destroy])
    (simp_all add: et_destroy_def et_at_def et_alive_def lp_wakeup_def eventfd_max_def)

text \<open>
  The destructor has stored \<open>quit_\<close> and not yet written the eventfd, when an event wakes the
  loop's thread: it sees the flag, ends, and destroys the loop. The destructor then asks the
  destroyed loop for its thread and writes its eventfd.
\<close>

lemma quit_after_free:
  "\<exists>t :: nat loop_thread. reach (et_init 0) (et_step False) t \<and> et_destroy t = Some (throw (UB ''use after free''))"
proof -
  let ?R = "reach (et_init 0) (et_step False) :: nat loop_thread \<Rightarrow> bool"
  have thr: "?R t'" if "?R t" "et_thread_func [False] t = Some t'" for t t' :: "nat loop_thread"
    by (rule reach_step [OF that(1) ets_thread [OF that(2)]])
  note s = et_thread_func_def et_at_def
  from thr [OF demo_wakeup_reach] have "?R (et_at True Th_Loop Ow_Wakeup True 0 (Lp_Events [False]) Ot_Wakeup)"
    by (simp add: s)
  from thr [OF this] have "?R (et_at True Th_Loop Ow_Wakeup True 0 (Lp_Events []) Ot_Wakeup)" by (simp add: s)
  from thr [OF this] have "?R (et_at True Th_Loop Ow_Wakeup True 0 Lp_Swap Ot_Wakeup)" by (simp add: s)
  from thr [OF this] have 1: "?R ((et_at True Th_Loop Ow_Wakeup True 0 (Lp_Run []) Ot_Wakeup)\<lparr>et_loop :=
      (et_loop (et_at True Th_Loop Ow_Wakeup True 0 (Lp_Run []) Ot_Wakeup))\<lparr>lp_calling := True\<rparr>\<rparr>)" by (simp add: s)
  from thr [OF 1] have "?R (et_at True Th_Loop Ow_Wakeup True 0 Lp_Test Ot_Wakeup)" by (simp add: s)
  from thr [OF this] have "?R (et_at True Th_Loop Ow_Wakeup True 0 Lp_Out Ot_Wakeup)" by (simp add: s)
  from thr [OF this] have "?R (et_at True Th_Clear Ow_Wakeup True 0 Lp_Out Ot_Wakeup)" by (simp add: s)
  from thr [OF this] have "?R (et_at False Th_Destroy Ow_Wakeup True 0 Lp_Out Ot_Wakeup)" by (simp add: s)
  from thr [OF this] have "?R (et_at False Th_End Ow_Wakeup True 0 Lp_Out Ot_Wakeup)" by (simp add: s)
  moreover have "et_destroy (et_at False Th_End Ow_Wakeup True 0 Lp_Out Ot_Wakeup) = Some (throw (UB ''use after free''))"
    by (simp add: et_destroy_def et_at_def et_alive_def)
  ultimately show ?thesis by blast
qed

lemma loop_pointer_valid_witness:
  "\<exists>t'. et_destroy (et_at True Th_Loop Ow_Quit False 0 Lp_Poll Ot_Idle) = Some (Inr t')"
  using loop_pointer_valid [OF demo_quit_reach] by (simp add: et_at_def)

lemma join_returns_witness:
  "\<exists>t'. et_run [[True], [], [], [], [], [], [], [], []] (et_at True Th_Loop Ow_Join True 1 Lp_Poll Ot_Idle) = Some t' \<and>
     et_destroy t' = Some (Inr (t'\<lparr>et_owner := Ow_Gone\<rparr>))"
proof -
  obtain t' where t': "et_run [[True], [], [], [], [], [], [], [], []] (et_at True Th_Loop Ow_Join True 1 Lp_Poll Ot_Idle) = Some t'"
    "et_thread t' = Th_End"
    by (simp add: et_thread_func_def et_at_def lp_handle_wakeup_read_def)
  with join_returns [OF demo_join_reach _ t'(1), of 1] show ?thesis
    by (simp add: et_at_def)
qed

end
