(* ===== verification/Loop_Timers.thy ===== *)
theory Loop_Timers
  imports Event_Loop Timer_Scheduler
begin

text \<open>
  The timers of event loops (code/MiniReactor/src/net/EventLoop.cpp, \<open>runAfter\<close>, \<open>runEvery\<close>,
  \<open>cancel\<close> and the destructor) on the process-wide \<open>TimerManager\<close>
  (code/MiniReactor/src/base/TimerManager.cpp). The manager's scheduler is the one of
  \<open>Timer_Scheduler\<close>; its tasks are wrappers that hand a functor to the loop with a given number.
  Each loop is an \<open>Event_Loop\<close>; the threads of the pool are its other threads. What
  \<open>secondsToDuration\<close> returns is an argument of the calls.
\<close>

section \<open>The timer manager\<close>

record 'f manager =
  mg_started :: bool
  mg_sched :: "(nat \<times> 'f) tsys"

definition mg_ensure_started :: "'f manager \<Rightarrow> 'f manager result" where
  "mg_ensure_started m =
     (if mg_started m then ret m
      else rbind (tm_start True (sy_state (mg_sched m))) (\<lambda>s.
        ret (m\<lparr>mg_started := True, mg_sched := (mg_sched m)\<lparr>sy_state := s, sy_worker := Wk_Start\<rparr>\<rparr>)))"

text \<open>The second half of \<open>runAfter\<close>, or if \<open>every\<close> holds of \<open>runEvery\<close>.\<close>

definition mg_schedule :: "bool \<Rightarrow> time \<Rightarrow> nat \<times> 'f \<Rightarrow> 'f manager \<Rightarrow> (timer_id \<times> 'f manager) result" where
  "mg_schedule every delay task m =
     (let y = mg_sched m
      in rbind ((if every then tm_schedule_every else tm_schedule_after) (sy_now y) delay (Some task) (sy_state y))
           (\<lambda>(i, s, wake). ret (i, m\<lparr>mg_sched := sy_update s wake y\<rparr>)))"

definition mg_cancel :: "timer_id \<Rightarrow> 'f manager \<Rightarrow> 'f manager" where
  "mg_cancel i m =
     (let (b, s, wake) = tm_cancel i (sy_state (mg_sched m))
      in m\<lparr>mg_sched := sy_update s wake (mg_sched m)\<rparr>)"

text \<open>
  \<open>stop\<close>: the request, then by client \<open>k\<close> the join of the scheduler's thread and the last section;
  \<open>None\<close>: the client waits. Inside a callback it returns after the join.
\<close>

definition mg_request_stop :: "'f manager \<Rightarrow> 'f manager" where
  "mg_request_stop m =
     (let (s, wake) = tm_request_stop (sy_state (mg_sched m))
      in m\<lparr>mg_sched := sy_update s wake (mg_sched m)\<rparr>)"

definition mg_await_stop :: "nat \<Rightarrow> bool \<Rightarrow> 'f manager \<Rightarrow> 'f manager option" where
  "mg_await_stop k inside m =
     (let y = mg_sched m
      in case sy_clients y ! k of
           Cl_Idle \<Rightarrow>
             if tm_scheduler (sy_state y) = Stopping \<or> tm_scheduler (sy_state y) = Stopped
             then Some (m\<lparr>mg_sched := y\<lparr>sy_clients := (sy_clients y)[k := Cl_Join]\<rparr>\<rparr>) else None
         | Cl_Join \<Rightarrow>
             if sy_worker y = Wk_None \<or> sy_worker y = Wk_Exited
             then Some (m\<lparr>mg_sched := y\<lparr>sy_clients := (sy_clients y)[k := if inside then Cl_Idle else Cl_Finish]\<rparr>\<rparr>)
             else None
         | Cl_Finish \<Rightarrow>
             if tm_in_flight (sy_state y) = 0
             then Some (m\<lparr>mg_sched := y\<lparr>sy_state := tm_finish_stop (sy_state y),
                                          sy_clients := (sy_clients y)[k := Cl_Idle]\<rparr>\<rparr>)
             else None)"

section \<open>Event loops and their calls\<close>

text \<open>
  A loop is alive (\<open>timerAlive_\<close> holds exactly then), in its destructor before it has taken
  \<open>timerIds_\<close>, cancelling the ids it took, or destroyed. \<open>ev_dropped\<close> is the history of the
  functors whose wrappers found the loop not alive.
\<close>

datatype ev_phase = Ev_Live | Ev_Dead | Ev_Cancelling "timer_id list" | Ev_Gone

record 'f evloop =
  ev_loop :: "'f loop"
  ev_phase :: ev_phase
  ev_ids :: "timer_id set"
  ev_dropped :: "'f list"

definition ev_new :: "nat \<Rightarrow> 'f evloop" where
  "ev_new workers = \<lparr>ev_loop = lp_new workers, ev_phase = Ev_Live, ev_ids = {}, ev_dropped = []\<rparr>"

text \<open>
  Where a call of \<open>runAfter\<close>, \<open>runEvery\<close> or \<open>cancel\<close> is: before each of its critical sections,
  back, or out by an exception (with the arguments it was called with).
\<close>

datatype 'f ev_pc =
    Ev_Ensure bool time 'f
  | Ev_Schedule bool time 'f
  | Ev_Insert timer_id
  | Ev_Erase timer_id
  | Ev_Cancel timer_id
  | Ev_Returned timer_id
  | Ev_Threw bool time cpp_exn

text \<open>
  Where a wrapper that runs on the pool is: about to test the flag; about to push the functor;
  about to write the eventfd as the loop's other thread number \<open>w\<close>; about to return; gone.
\<close>

datatype 'f cb_pc = Cb_Test nat 'f | Cb_Queue nat 'f | Cb_Wakeup nat nat | Cb_End | Cb_Gone

text \<open>\<open>ls_owner\<close> is the history of the ids given out, and the loop each was given out for.\<close>

record 'f lsys =
  ls_manager :: "'f manager"
  ls_loops :: "'f evloop list"
  ls_calls :: "(nat \<times> 'f ev_pc) list"
  ls_callbacks :: "(nat \<times> 'f cb_pc) list"
  ls_owner :: "timer_id \<rightharpoonup> nat"

abbreviation ls_sched :: "'f lsys \<Rightarrow> (nat \<times> 'f) tsys" where
  "ls_sched s \<equiv> mg_sched (ls_manager s)"

definition ls_change :: "nat \<Rightarrow> ('f evloop \<Rightarrow> 'f evloop) \<Rightarrow> 'f lsys \<Rightarrow> 'f lsys" where
  "ls_change n g s = s\<lparr>ls_loops := (ls_loops s)[n := g (ls_loops s ! n)]\<rparr>"

text \<open>
  A critical section of a call on loop \<open>n\<close>. Ids are given out until the counter of the scheduler has
  gone round.
\<close>

fun ev_step :: "nat \<Rightarrow> 'f ev_pc \<Rightarrow> 'f lsys \<Rightarrow> ('f lsys \<times> 'f ev_pc) option" where
  "ev_step n (Ev_Ensure every delay f) s =
     (case mg_ensure_started (ls_manager s) of
        Inl e \<Rightarrow> Some (s, Ev_Threw every delay e)
      | Inr m \<Rightarrow> Some (s\<lparr>ls_manager := m\<rparr>, Ev_Schedule every delay f))"
| "ev_step n (Ev_Schedule every delay f) s =
     (if tm_next_id (sy_state (ls_sched s)) = - 1 then None
      else case mg_schedule every delay (n, f) (ls_manager s) of
             Inl e \<Rightarrow> Some (s, Ev_Threw every delay e)
           | Inr (i, m) \<Rightarrow> Some (s\<lparr>ls_manager := m, ls_owner := (ls_owner s)(i \<mapsto> n)\<rparr>, Ev_Insert i))"
| "ev_step n (Ev_Insert i) s = Some (ls_change n (\<lambda>e. e\<lparr>ev_ids := insert i (ev_ids e)\<rparr>) s, Ev_Returned i)"
| "ev_step n (Ev_Erase i) s = Some (ls_change n (\<lambda>e. e\<lparr>ev_ids := ev_ids e - {i}\<rparr>) s, Ev_Cancel i)"
| "ev_step n (Ev_Cancel i) s = Some (s\<lparr>ls_manager := mg_cancel i (ls_manager s)\<rparr>, Ev_Returned i)"
| "ev_step n pc s = None"

text \<open>
  The destructor, step by step; \<open>order\<close> is the order in which the ids come out of the set.
\<close>

definition ev_destroy :: "timer_id list \<Rightarrow> nat \<Rightarrow> 'f lsys \<Rightarrow> 'f lsys option" where
  "ev_destroy order n s =
     (case ev_phase (ls_loops s ! n) of
        Ev_Live \<Rightarrow> Some (ls_change n (\<lambda>e. e\<lparr>ev_phase := Ev_Dead\<rparr>) s)
      | Ev_Dead \<Rightarrow>
          if set order = ev_ids (ls_loops s ! n) \<and> distinct order
          then Some (ls_change n (\<lambda>e. e\<lparr>ev_phase := Ev_Cancelling order, ev_ids := {}\<rparr>) s) else None
      | Ev_Cancelling (i # is) \<Rightarrow>
          Some (ls_change n (\<lambda>e. e\<lparr>ev_phase := Ev_Cancelling is\<rparr>) (s\<lparr>ls_manager := mg_cancel i (ls_manager s)\<rparr>))
      | Ev_Cancelling [] \<Rightarrow> Some (ls_change n (\<lambda>e. e\<lparr>ev_phase := Ev_Gone\<rparr>) s)
      | Ev_Gone \<Rightarrow> None)"

text \<open>
  The lambda that \<open>runAfter\<close> and \<open>runEvery\<close> give to the manager, run by a thread of the pool:
  \<open>queueInLoop\<close> pushes and then writes the eventfd.
\<close>

fun cb_step :: "nat \<Rightarrow> 'f cb_pc \<Rightarrow> 'f lsys \<Rightarrow> ('f lsys \<times> 'f cb_pc) result option" where
  "cb_step w (Cb_Test n f) s =
     Some (ret (if ev_phase (ls_loops s ! n) = Ev_Live then (s, Cb_Queue n f)
                else (ls_change n (\<lambda>e. e\<lparr>ev_dropped := ev_dropped e @ [f]\<rparr>) s, Cb_End)))"
| "cb_step w (Cb_Queue n f) s =
     (let e = ls_loops s ! n
      in if ev_phase e = Ev_Gone then Some (throw (UB ''use after free''))
         else if w < length (lp_others (ev_loop e)) \<and> lp_others (ev_loop e) ! w = Ot_Idle
         then Some (ret (ls_change n (\<lambda>e. e\<lparr>ev_loop := lp_queue_other w f (ev_loop e)\<rparr>) s, Cb_Wakeup n w))
         else None)"
| "cb_step w (Cb_Wakeup n v) s =
     (let e = ls_loops s ! n
      in if ev_phase e = Ev_Gone then Some (throw (UB ''use after free''))
         else if v < length (lp_others (ev_loop e)) \<and> lp_others (ev_loop e) ! v = Ot_Wakeup
         then Some (ret (ls_change n (\<lambda>e. e\<lparr>ev_loop :=
                (lp_wakeup (ev_loop e))\<lparr>lp_others := (lp_others (ev_loop e))[v := Ot_Idle]\<rparr>\<rparr>) s, Cb_End))
         else None)"
| "cb_step w pc s = None"

section \<open>All threads together\<close>

text \<open>
  Calls are made while the loop is alive; its destructor is entered when the calls on it have
  returned. The loop's own thread runs until then.
\<close>

fun ev_over :: "'f ev_pc \<Rightarrow> bool" where
  "ev_over (Ev_Returned i) = True"
| "ev_over (Ev_Threw every delay e) = True"
| "ev_over _ = False"

definition ls_with :: "'f lsys \<Rightarrow> (nat \<times> 'f) tsys \<Rightarrow> 'f lsys" where
  "ls_with s y = s\<lparr>ls_manager := (ls_manager s)\<lparr>mg_sched := y\<rparr>\<rparr>"

inductive ls_step :: "'f lsys \<Rightarrow> 'f lsys \<Rightarrow> bool" where
  lss_run: "n < length (ls_loops s) \<Longrightarrow> ev_phase (ls_loops s ! n) = Ev_Live \<Longrightarrow>
    ls_step s (s\<lparr>ls_calls := ls_calls s @ [(n, Ev_Ensure every delay f)]\<rparr>)"
| lss_cancel: "n < length (ls_loops s) \<Longrightarrow> ev_phase (ls_loops s ! n) = Ev_Live \<Longrightarrow>
    ls_step s (s\<lparr>ls_calls := ls_calls s @ [(n, Ev_Erase i)]\<rparr>)"
| lss_call: "j < length (ls_calls s) \<Longrightarrow> ls_calls s ! j = (n, pc) \<Longrightarrow> ev_step n pc s = Some (s', pc') \<Longrightarrow>
    ls_step s (s'\<lparr>ls_calls := (ls_calls s)[j := (n, pc')]\<rparr>)"
| lss_destroy: "n < length (ls_loops s) \<Longrightarrow> \<forall>(m, pc) \<in> set (ls_calls s). m = n \<longrightarrow> ev_over pc \<Longrightarrow>
    ev_destroy order n s = Some s' \<Longrightarrow> ls_step s s'"
| lss_callback: "j < length (ls_callbacks s) \<Longrightarrow> ls_callbacks s ! j = (k, pc) \<Longrightarrow>
    cb_step w pc s = Some (Inr (s', pc')) \<Longrightarrow>
    ls_step s (s'\<lparr>ls_callbacks := (ls_callbacks s)[j := (k, pc')]\<rparr>)"
| lss_loop: "n < length (ls_loops s) \<Longrightarrow> ev_phase (ls_loops s ! n) = Ev_Live \<Longrightarrow>
    lp_advance reported (ev_loop (ls_loops s ! n)) = Some l \<Longrightarrow>
    ls_step s (ls_change n (\<lambda>e. e\<lparr>ev_loop := l\<rparr>) s)"
| lss_request_stop: "ls_step s (s\<lparr>ls_manager := mg_request_stop (ls_manager s)\<rparr>)"
| lss_await_stop: "k < length (sy_clients (ls_sched s)) \<Longrightarrow> mg_await_stop k inside (ls_manager s) = Some m \<Longrightarrow>
    ls_step s (s\<lparr>ls_manager := m\<rparr>)"
| lss_time: "sy_now (ls_sched s) \<le> now \<Longrightarrow> ls_step s (ls_with s ((ls_sched s)\<lparr>sy_now := now\<rparr>))"
| lss_worker: "ls_sched s = y \<Longrightarrow>
    tm_worker_step (sy_now y) timed_out answer (sy_state y) (sy_worker y) = Some ((st, pc), ws) \<Longrightarrow>
    ls_step s (ls_with s (y\<lparr>sy_state := st, sy_worker := pc, sy_wrappers := sy_wrappers y @ ws, sy_signal := False\<rparr>))"
| lss_begin: "ls_sched s = y \<Longrightarrow> k < length (sy_wrappers y) \<Longrightarrow> sy_wrappers y ! k = Wr_Queued t \<Longrightarrow>
    tt_callback t = Some (n, f) \<Longrightarrow> n < length (ls_loops s) \<Longrightarrow> tm_wrapper_begin t (sy_state y) = (st, w) \<Longrightarrow>
    ls_step s ((ls_with s (y\<lparr>sy_state := st, sy_wrappers := (sy_wrappers y)[k := w],
                   sy_started := (if w = Wr_Done then sy_started y else (t, sy_now y) # sy_started y)\<rparr>))
                 \<lparr>ls_callbacks := ls_callbacks s @ (if w = Wr_Done then [] else [(k, Cb_Test n f)])\<rparr>)"
| lss_end: "ls_sched s = y \<Longrightarrow> j < length (ls_callbacks s) \<Longrightarrow> ls_callbacks s ! j = (k, Cb_End) \<Longrightarrow>
    k < length (sy_wrappers y) \<Longrightarrow> sy_wrappers y ! k = Wr_Running t \<Longrightarrow>
    tm_wrapper_end (sy_now y) t (sy_state y) = (st, wake) \<Longrightarrow>
    ls_step s ((ls_with s (sy_update st wake (y\<lparr>sy_wrappers := (sy_wrappers y)[k := Wr_Done]\<rparr>)))
                 \<lparr>ls_callbacks := (ls_callbacks s)[j := (k, Cb_Gone)]\<rparr>)"
| lss_done: "ls_sched s = y \<Longrightarrow> k < length (sy_wrappers y) \<Longrightarrow> sy_wrappers y ! k = Wr_Done \<Longrightarrow>
    ls_step s (ls_with s (y\<lparr>sy_state := tm_finish_in_flight (sy_state y), sy_wrappers := (sy_wrappers y)[k := Wr_Gone]\<rparr>))"

definition ls_init :: "nat \<Rightarrow> nat \<Rightarrow> nat \<Rightarrow> 'f lsys \<Rightarrow> bool" where
  "ls_init loops workers stoppers s \<longleftrightarrow>
     (\<exists>y. tm_init stoppers 0 y \<and>
        s = \<lparr>ls_manager = \<lparr>mg_started = False, mg_sched = y\<rparr>, ls_loops = replicate loops (ev_new workers),
             ls_calls = [], ls_callbacks = [], ls_owner = Map.empty\<rparr>)"

section \<open>The scheduler underneath\<close>

lemma nth_update_any: "xs[i := x] ! j = (if i = j \<and> j < length xs then x else xs ! j)"
  by (cases "i < length xs") (auto simp: nth_list_update list_update_beyond)

lemma with_simps [simp]:
  "ls_manager (ls_with s y) = (ls_manager s)\<lparr>mg_sched := y\<rparr>" "ls_loops (ls_with s y) = ls_loops s"
  "ls_calls (ls_with s y) = ls_calls s" "ls_callbacks (ls_with s y) = ls_callbacks s" "ls_owner (ls_with s y) = ls_owner s"
  by (simp_all add: ls_with_def)

lemma change_simps [simp]:
  "ls_manager (ls_change n g s) = ls_manager s" "ls_calls (ls_change n g s) = ls_calls s"
  "ls_callbacks (ls_change n g s) = ls_callbacks s" "ls_owner (ls_change n g s) = ls_owner s"
  "length (ls_loops (ls_change n g s)) = length (ls_loops s)"
  "n < length (ls_loops s) \<Longrightarrow> ls_loops (ls_change n g s) ! m = (if m = n then g (ls_loops s ! n) else ls_loops s ! m)"
  by (simp_all add: ls_change_def)

lemma cancel_step: "tm_step (mg_sched m) (mg_sched (mg_cancel i m))"
proof -
  obtain b st wake where c: "tm_cancel i (sy_state (mg_sched m)) = (b, st, wake)" by (rule prod_cases3)
  from tms_cancel [OF c] show ?thesis by (simp add: mg_cancel_def c)
qed

lemma ensure_step:
  "mg_ensure_started m = Inr m' \<Longrightarrow> mg_sched m' = mg_sched m \<or> tm_step (mg_sched m) (mg_sched m')"
  by (auto simp: mg_ensure_started_def rbind_Inr_iff intro: tms_start split: if_splits)

lemma schedule_step:
  assumes "mg_schedule every delay task m = Inr (i, m')" "tm_next_id (sy_state (mg_sched m)) \<noteq> - 1"
  shows "tm_step (mg_sched m) (mg_sched m')"
proof (cases every)
  case True
  then obtain st wake where "tm_schedule_every (sy_now (mg_sched m)) delay (Some task) (sy_state (mg_sched m)) = Inr (i, st, wake)"
    "mg_sched m' = sy_update st wake (mg_sched m)"
    using assms(1) by (auto simp: mg_schedule_def Let_def rbind_Inr_iff)
  with tms_schedule_every assms(2) show ?thesis by metis
next
  case False
  then obtain st wake where "tm_schedule_after (sy_now (mg_sched m)) delay (Some task) (sy_state (mg_sched m)) = Inr (i, st, wake)"
    "mg_sched m' = sy_update st wake (mg_sched m)"
    using assms(1) by (auto simp: mg_schedule_def Let_def rbind_Inr_iff)
  with tms_schedule_after assms(2) show ?thesis by metis
qed

lemma request_stop_step: "tm_step (mg_sched m) (mg_sched (mg_request_stop m))"
proof -
  obtain st wake where c: "tm_request_stop (sy_state (mg_sched m)) = (st, wake)" by (rule prod.exhaust)
  from tms_request_stop [OF c] show ?thesis by (simp add: mg_request_stop_def c)
qed

lemma await_stop_step:
  assumes "k < length (sy_clients (mg_sched m))" "mg_await_stop k inside m = Some m'"
  shows "tm_step (mg_sched m) (mg_sched m') \<and> mg_started m' = mg_started m \<and>
    sy_started (mg_sched m') = sy_started (mg_sched m)"
proof (cases "sy_clients (mg_sched m) ! k")
  case Cl_Idle
  with assms tms_join [OF assms(1)] show ?thesis by (auto simp: mg_await_stop_def Let_def split: if_splits)
next
  case Cl_Join
  with assms tms_joined [OF assms(1), of inside] show ?thesis
    by (auto simp: mg_await_stop_def Let_def split: if_splits)
next
  case Cl_Finish
  with assms tms_finish [OF assms(1)] show ?thesis by (auto simp: mg_await_stop_def Let_def split: if_splits)
qed

lemma call_sched:
  "ev_step n pc s = Some (s', pc') \<Longrightarrow> ls_sched s' = ls_sched s \<or> tm_step (ls_sched s) (ls_sched s')"
  by (cases pc) (auto split: sum.splits if_splits dest: ensure_step schedule_step intro: cancel_step)

lemma destroy_sched:
  "ev_destroy order n s = Some s' \<Longrightarrow> ls_sched s' = ls_sched s \<or> tm_step (ls_sched s) (ls_sched s')"
  by (auto simp: ev_destroy_def split: ev_phase.splits list.splits if_splits intro: cancel_step)

lemma callback_frame:
  assumes "cb_step w pc s = Some (Inr (s', pc'))"
  shows "ls_manager s' = ls_manager s \<and> ls_calls s' = ls_calls s \<and> ls_owner s' = ls_owner s \<and>
    length (ls_loops s') = length (ls_loops s)"
  using assms by (cases pc) (auto simp: Let_def split: if_splits)

lemma ls_sched_step: "ls_step s s' \<Longrightarrow> ls_sched s' = ls_sched s \<or> tm_step (ls_sched s) (ls_sched s')"
proof (induction rule: ls_step.induct)
  case (lss_call j s n pc s' pc')
  then show ?case using call_sched by simp
next
  case (lss_destroy n s order s')
  then show ?case using destroy_sched by blast
next
  case (lss_callback j s k pc w s' pc')
  then show ?case using callback_frame [OF lss_callback(3)] by simp
next
  case (lss_request_stop s)
  then show ?case using request_stop_step [of "ls_manager s"] by simp
next
  case (lss_await_stop k s inside m)
  then show ?case using await_stop_step by fastforce
next
  case (lss_time s now)
  then show ?case using tms_time [OF lss_time] by simp
next
  case (lss_worker s y timed_out answer st pc ws)
  then show ?case using tms_worker [of y timed_out answer st pc ws] by simp
next
  case (lss_begin s y k t n f st w)
  then show ?case using tms_begin [of k y t st w] by simp
next
  case (lss_end s y j k t st wake)
  then show ?case using tms_end [of k y t st wake] by simp
next
  case (lss_done s y k)
  then show ?case using tms_done [of k y] by simp
qed simp_all


lemma next_id_step: "tm_step y y' \<Longrightarrow> tm_inv y \<Longrightarrow> i < tm_next_id (sy_state y) \<Longrightarrow> i < tm_next_id (sy_state y')"
proof (induction rule: tm_step.induct)
  case (tms_request_stop y s wake)
  then show ?case by (auto simp: tm_request_stop_def split: scheduler_state.splits)
next
  case (tms_schedule_after y delay task j s wake)
  then show ?case using next_id_less [of "tm_next_id (sy_state y)"]
    by (auto simp: tm_schedule_after_def tm_add_def Let_def split: if_splits)
next
  case (tms_schedule_every y interval task j s wake)
  then show ?case using next_id_less [of "tm_next_id (sy_state y)"]
    by (auto simp: tm_schedule_every_def tm_add_def Let_def split: if_splits)
next
  case (tms_cancel j y b s wake)
  then show ?case by (auto simp: tm_cancel_def Let_def split: option.splits timer_state.splits if_splits)
next
  case (tms_worker y timed_out answer s pc ws)
  note D = tm_invD [OF tms_worker.prems(1)]
  have "worker_effect (sy_state y) s"
    using worker_step_ok [OF tms_worker.hyps D(1,2)] by (simp add: worker_post_def)
  with tms_worker show ?case by (simp add: worker_effect_def)
next
  case (tms_begin k y t s w)
  then show ?case by (auto simp: tm_wrapper_begin_def tm_erase_def split: option.splits timer_state.splits)
next
  case (tms_end k y t s wake)
  then show ?case by (auto simp: tm_wrapper_end_def tm_erase_def Let_def split: option.splits timer_state.splits if_splits)
qed (auto simp: tm_start_def tm_finish_stop_def tm_finish_in_flight_def split: if_splits)

lemma cancel_spent: "i < tm_next_id (sy_state (mg_sched m)) \<Longrightarrow> spent i (mg_sched (mg_cancel i m))"
  by (cases "tm_cancel i (sy_state (mg_sched m))" rule: prod_cases3)
    (auto simp: mg_cancel_def spent_def tm_cancel_def Let_def split: option.splits timer_state.splits)

section \<open>Every timer of a loop is known to it\<close>

text \<open>The loop has the id, or is about to cancel it in its destructor, or a call has it in hand.\<close>

definition tracked :: "nat \<Rightarrow> timer_id \<Rightarrow> 'f lsys \<Rightarrow> bool" where
  "tracked n i s \<longleftrightarrow>
     i \<in> ev_ids (ls_loops s ! n) \<or> (\<exists>is. ev_phase (ls_loops s ! n) = Ev_Cancelling is \<and> i \<in> set is) \<or>
     (n, Ev_Insert i) \<in> set (ls_calls s) \<or> (n, Ev_Cancel i) \<in> set (ls_calls s)"

definition ids_ok :: "'f lsys \<Rightarrow> bool" where
  "ids_ok s \<longleftrightarrow> (\<forall>i n. ls_owner s i = Some n \<longrightarrow> n < length (ls_loops s) \<and>
     i < tm_next_id (sy_state (ls_sched s)) \<and> (spent i (ls_sched s) \<or> tracked n i s))"

definition calls_ok :: "'f lsys \<Rightarrow> bool" where
  "calls_ok s \<longleftrightarrow> (\<forall>(n, pc) \<in> set (ls_calls s). n < length (ls_loops s) \<and>
     (\<not> ev_over pc \<longrightarrow> ev_phase (ls_loops s ! n) = Ev_Live))"

fun ids_taken :: "ev_phase \<Rightarrow> bool" where
  "ids_taken (Ev_Cancelling is) = True"
| "ids_taken Ev_Gone = True"
| "ids_taken _ = False"

definition phase_ok :: "'f lsys \<Rightarrow> bool" where
  "phase_ok s \<longleftrightarrow> (\<forall>n < length (ls_loops s). ids_taken (ev_phase (ls_loops s ! n)) \<longrightarrow> ev_ids (ls_loops s ! n) = {})"

lemma sched_spent:
  assumes "ls_sched s' = ls_sched s \<or> tm_step (ls_sched s) (ls_sched s')" "tm_inv (ls_sched s)" "spent i (ls_sched s)"
  shows "spent i (ls_sched s')" "starts i (ls_sched s') = starts i (ls_sched s)"
  using assms spent_step [of "ls_sched s" "ls_sched s'" i] by auto

lemma ids_okI:
  assumes "ids_ok s" "ls_sched s' = ls_sched s \<or> tm_step (ls_sched s) (ls_sched s')" "tm_inv (ls_sched s)"
    "ls_owner s' = ls_owner s" "length (ls_loops s') = length (ls_loops s)"
    "\<And>n i. n < length (ls_loops s) \<Longrightarrow> i < tm_next_id (sy_state (ls_sched s)) \<Longrightarrow> tracked n i s \<Longrightarrow>
       tracked n i s' \<or> spent i (ls_sched s')"
  shows "ids_ok s'"
proof -
  have "n < length (ls_loops s') \<and> i < tm_next_id (sy_state (ls_sched s')) \<and> (spent i (ls_sched s') \<or> tracked n i s')"
    if "ls_owner s' i = Some n" for n i
  proof -
    have old: "n < length (ls_loops s)" "i < tm_next_id (sy_state (ls_sched s))" "spent i (ls_sched s) \<or> tracked n i s"
      using assms(1,4) that by (auto simp: ids_ok_def)
    then show ?thesis
      using assms(5,6) sched_spent(1) [OF assms(2,3)] next_id_step [OF _ assms(3), of "ls_sched s'" i] assms(2) by metis
  qed
  then show ?thesis by (simp add: ids_ok_def)
qed

lemma tracked_same:
  "ls_loops s' = ls_loops s \<Longrightarrow> set (ls_calls s) \<subseteq> set (ls_calls s') \<Longrightarrow> tracked n i s \<Longrightarrow> tracked n i s'"
  by (auto simp: tracked_def)

lemma tracked_loops:
  assumes "\<And>n. n < length (ls_loops s) \<Longrightarrow> ev_ids (ls_loops s' ! n) = ev_ids (ls_loops s ! n) \<and>
      ev_phase (ls_loops s' ! n) = ev_phase (ls_loops s ! n)"
    "ls_calls s' = ls_calls s" "n < length (ls_loops s)" "tracked n i s"
  shows "tracked n i s'"
  using assms by (auto simp: tracked_def)

text \<open>A call's critical section.\<close>

lemma mem_update: "(x, y) \<in> set xs \<Longrightarrow> xs ! j \<noteq> (x, y) \<Longrightarrow> (x, y) \<in> set (xs[j := z])"
  by (metis in_set_conv_nth length_list_update nth_list_update_neq)

lemma mem_new: "j < length xs \<Longrightarrow> z \<in> set (xs[j := z])"
  by (rule set_update_memI)

lemma schedule_id:
  assumes "mg_schedule every delay task m = Inr (i, m')" "tm_next_id (sy_state (mg_sched m)) \<noteq> - 1"
  shows "i < tm_next_id (sy_state (mg_sched m'))"
  using assms next_id_less [of "tm_next_id (sy_state (mg_sched m))"]
  by (cases every) (auto simp: mg_schedule_def Let_def rbind_Inr_iff tm_schedule_every_def tm_schedule_after_def
      tm_add_def split: if_splits)

lemma call_ids:
  assumes ok: "ids_ok s" "tm_inv (ls_sched s)" and j: "j < length (ls_calls s)" "ls_calls s ! j = (n, pc)"
    and n: "n < length (ls_loops s)" and step: "ev_step n pc s = Some (s1, pc')"
  shows "ids_ok (s1\<lparr>ls_calls := (ls_calls s)[j := (n, pc')]\<rparr>)" (is "ids_ok ?s")
proof -
  have sched: "ls_sched ?s = ls_sched s \<or> tm_step (ls_sched s) (ls_sched ?s)"
    using call_sched [OF step] by simp
  have keep: "tracked m i ?s" if "tracked m i s" "ls_loops s1 = ls_loops s" "pc \<noteq> Ev_Insert i" "pc \<noteq> Ev_Cancel i" for m i
    using that j mem_update [of m "Ev_Insert i" "ls_calls s" j "(n, pc')"] mem_update [of m "Ev_Cancel i" "ls_calls s" j "(n, pc')"]
    by (auto simp: tracked_def)
  show ?thesis
  proof (cases pc)
    case (Ev_Ensure every delay f)
    with step have same: "ls_loops s1 = ls_loops s" "ls_owner s1 = ls_owner s"
      by (auto split: sum.splits)
    show ?thesis
      by (rule ids_okI [OF ok(1) sched ok(2)]) (use same keep Ev_Ensure in simp_all)
  next
    case (Ev_Schedule every delay f)
    show ?thesis
    proof (cases "mg_schedule every delay (n, f) (ls_manager s)")
      case (Inl e)
      with step Ev_Schedule have same: "s1 = s" by (auto split: if_splits)
      show ?thesis
        by (rule ids_okI [OF ok(1) sched ok(2)]) (use same keep Ev_Schedule in simp_all)
    next
      case (Inr x)
      obtain i m where x: "x = (i, m)" by (cases x)
      with Inr step Ev_Schedule have s1: "s1 = s\<lparr>ls_manager := m, ls_owner := (ls_owner s)(i \<mapsto> n)\<rparr>" "pc' = Ev_Insert i"
        and nid: "tm_next_id (sy_state (ls_sched s)) \<noteq> - 1"
        by (auto split: if_splits)
      let ?old = "?s\<lparr>ls_owner := ls_owner s\<rparr>"
      have "ids_ok ?old"
        by (rule ids_okI [OF ok(1) _ ok(2)]) (use s1 sched keep Ev_Schedule in \<open>simp_all add: tracked_def\<close>)
      moreover have "(n, Ev_Insert i) \<in> set (ls_calls ?s)"
        using mem_new [OF j(1)] s1(2) by simp
      ultimately show ?thesis
        using schedule_id [OF Inr [unfolded x] nid] n s1 by (auto simp: ids_ok_def tracked_def)
    qed
  next
    case (Ev_Insert i)
    with step have s1: "s1 = ls_change n (\<lambda>e. e\<lparr>ev_ids := insert i (ev_ids e)\<rparr>) s" by simp
    have "tracked m k ?s" if "m < length (ls_loops s)" "tracked m k s" for m k
      using that j n mem_update [of m "Ev_Insert k" "ls_calls s" j "(n, pc')"] mem_update [of m "Ev_Cancel k" "ls_calls s" j "(n, pc')"]
      by (auto simp: tracked_def s1 Ev_Insert)
    then show ?thesis
      by (intro ids_okI [OF ok(1) sched ok(2)]) (use s1 in simp_all)
  next
    case (Ev_Erase i)
    with step have s1: "s1 = ls_change n (\<lambda>e. e\<lparr>ev_ids := ev_ids e - {i}\<rparr>) s" "pc' = Ev_Cancel i" by simp_all
    have "(n, Ev_Cancel i) \<in> set (ls_calls ?s)" using mem_new [OF j(1)] s1(2) by simp
    then have "tracked m k ?s" if "m < length (ls_loops s)" "tracked m k s" for m k
      using that j n mem_update [of m "Ev_Insert k" "ls_calls s" j "(n, pc')"] mem_update [of m "Ev_Cancel k" "ls_calls s" j "(n, pc')"]
      by (auto simp: tracked_def s1 Ev_Erase)
    then show ?thesis
      by (intro ids_okI [OF ok(1) sched ok(2)]) (use s1 in simp_all)
  next
    case (Ev_Cancel i)
    with step have s1: "s1 = s\<lparr>ls_manager := mg_cancel i (ls_manager s)\<rparr>" by simp
    have "tracked m k ?s \<or> spent k (ls_sched ?s)"
      if "m < length (ls_loops s)" "k < tm_next_id (sy_state (ls_sched s))" "tracked m k s" for m k
    proof (cases "k = i")
      case True
      then show ?thesis using cancel_spent [of i "ls_manager s"] that(2) s1 by simp
    next
      case False
      then show ?thesis using keep [OF that(3)] s1 Ev_Cancel by simp
    qed
    then show ?thesis
      by (intro ids_okI [OF ok(1) sched ok(2)]) (use s1 in simp_all)
  qed (use step in simp_all)
qed


text \<open>A step of the destructor.\<close>

lemma destroy_ids:
  assumes ok: "ids_ok s" "tm_inv (ls_sched s)" "phase_ok s" "n < length (ls_loops s)"
    and calls: "\<forall>(m, pc) \<in> set (ls_calls s). m = n \<longrightarrow> ev_over pc"
    and step: "ev_destroy order n s = Some s'"
  shows "ids_ok s'"
proof -
  let ?e = "ls_loops s ! n"
  have none: "(n, Ev_Insert i) \<notin> set (ls_calls s)" "(n, Ev_Cancel i) \<notin> set (ls_calls s)" for i
    using calls by force+
  have "tracked m i s' \<or> spent i (ls_sched s')"
    if "m < length (ls_loops s)" "i < tm_next_id (sy_state (ls_sched s))" "tracked m i s" for m i
  proof (cases "m = n")
    case False
    then have "ls_loops s' ! m = ls_loops s ! m" "ls_calls s' = ls_calls s"
      using step ok(4) by (auto simp: ev_destroy_def ls_change_def split: ev_phase.splits list.splits if_splits)
    with that(3) show ?thesis by (simp add: tracked_def)
  next
    case True
    show ?thesis
    proof (cases "ev_phase ?e")
      case Ev_Live
      with step True that(3) ok(4) none show ?thesis by (auto simp: ev_destroy_def tracked_def)
    next
      case Ev_Dead
      with step True that(3) ok(4) none show ?thesis by (auto simp: ev_destroy_def tracked_def split: if_splits)
    next
      case (Ev_Cancelling order')
      have "ev_ids ?e = {}" using ok(3,4) Ev_Cancelling by (simp add: phase_ok_def)
      with Ev_Cancelling that(3) True none have i: "i \<in> set order'" by (auto simp: tracked_def)
      then obtain k js where k: "order' = k # js" by (cases order') simp_all
      with step Ev_Cancelling have s': "s' = ls_change n (\<lambda>e. e\<lparr>ev_phase := Ev_Cancelling js\<rparr>)
          (s\<lparr>ls_manager := mg_cancel k (ls_manager s)\<rparr>)"
        by (simp add: ev_destroy_def)
      show ?thesis
      proof (cases "i = k")
        case True
        then show ?thesis using cancel_spent [of i "ls_manager s"] that(2) s' by simp
      next
        case False
        then have "tracked n i s'" using i k ok(4) by (simp add: tracked_def s' ls_change_def)
        then show ?thesis using True by simp
      qed
    next
      case Ev_Gone
      with step show ?thesis by (simp add: ev_destroy_def)
    qed
  qed
  moreover have "ls_owner s' = ls_owner s" "length (ls_loops s') = length (ls_loops s)"
    using step by (auto simp: ev_destroy_def split: ev_phase.splits list.splits if_splits)
  ultimately show ?thesis
    by (intro ids_okI [OF ok(1) destroy_sched [OF step] ok(2)]) simp_all
qed

lemma callback_loops:
  assumes "cb_step w pc s = Some (Inr (s', pc'))" "n < length (ls_loops s)"
  shows "ev_ids (ls_loops s' ! n) = ev_ids (ls_loops s ! n) \<and> ev_phase (ls_loops s' ! n) = ev_phase (ls_loops s ! n)"
  using assms by (cases pc) (auto simp: Let_def ls_change_def nth_update_any split: if_splits)

lemma ids_same:
  assumes "ids_ok s" "ls_sched s' = ls_sched s \<or> tm_step (ls_sched s) (ls_sched s')" "tm_inv (ls_sched s)"
    "ls_owner s' = ls_owner s" "ls_loops s' = ls_loops s" "set (ls_calls s) \<subseteq> set (ls_calls s')"
  shows "ids_ok s'"
  by (rule ids_okI [OF assms(1-4)]) (use assms(5,6) tracked_same in auto)

lemma ids_step:
  assumes step: "ls_step s s'" and ok: "ids_ok s" "tm_inv (ls_sched s)" "phase_ok s" "calls_ok s"
  shows "ids_ok s'"
  using step
proof cases
  case (lss_call j n pc s1 pc')
  have "n < length (ls_loops s)"
    using ok(4) lss_call(2,3) nth_mem [of j "ls_calls s"] by (auto simp: calls_ok_def)
  with lss_call call_ids [OF ok(1,2)] show ?thesis by simp
next
  case (lss_destroy n order)
  then show ?thesis using destroy_ids [OF ok(1-3)] by blast
next
  case (lss_callback j k pc w s1 pc')
  have "tracked n i s'" if "n < length (ls_loops s)" "tracked n i s" for n i
    by (rule tracked_loops [OF _ _ that]) (use lss_callback(1) callback_loops [OF lss_callback(4)] callback_frame [OF lss_callback(4)] in auto)
  then show ?thesis
    by (intro ids_okI [OF ok(1) ls_sched_step [OF step] ok(2)]) (use lss_callback callback_frame [OF lss_callback(4)] in simp_all)
next
  case (lss_loop n reported l)
  have "tracked m i s'" if "m < length (ls_loops s)" "tracked m i s" for m i
    by (rule tracked_loops [OF _ _ that]) (use lss_loop in auto)
  then show ?thesis
    by (intro ids_okI [OF ok(1) ls_sched_step [OF step] ok(2)]) (use lss_loop in simp_all)
qed (use ids_same [OF ok(1) ls_sched_step [OF step] ok(2)] in auto)

lemma calls_step:
  assumes "ls_step s s'" "calls_ok s"
  shows "calls_ok s'"
  using assms(1)
proof cases
  case (lss_call j n pc s1 pc')
  have n: "n < length (ls_loops s)" "\<not> ev_over pc \<longrightarrow> ev_phase (ls_loops s ! n) = Ev_Live"
    using assms(2) lss_call(2,3) nth_mem [of j "ls_calls s"] by (auto simp: calls_ok_def)
  have "\<not> ev_over pc" using lss_call(4) by (cases pc) simp_all
  moreover have "length (ls_loops s1) = length (ls_loops s)"
    "m < length (ls_loops s) \<Longrightarrow> ev_phase (ls_loops s1 ! m) = ev_phase (ls_loops s ! m)" for m
    using lss_call(4) n(1) by (cases pc; auto split: sum.splits if_splits)+
  ultimately show ?thesis
    using assms(2) n lss_call(1) by (auto simp: calls_ok_def dest!: set_update_subset_insert [THEN subsetD])
next
  case (lss_destroy n order)
  have "length (ls_loops s') = length (ls_loops s)" "ls_calls s' = ls_calls s"
    "m \<noteq> n \<Longrightarrow> ls_loops s' ! m = ls_loops s ! m" for m
    using lss_destroy(3) by (auto simp: ev_destroy_def ls_change_def split: ev_phase.splits list.splits if_splits)
  with lss_destroy(2) assms(2) show ?thesis unfolding calls_ok_def by fastforce
next
  case (lss_callback j k pc w s1 pc')
  then show ?thesis
    using assms(2) callback_frame [OF lss_callback(4)] callback_loops [OF lss_callback(4)] by (auto simp: calls_ok_def)
qed (use assms(2) in \<open>auto simp: calls_ok_def\<close>)

lemma phase_step:
  assumes "ls_step s s'" "phase_ok s" "calls_ok s"
  shows "phase_ok s'"
  using assms(1)
proof cases
  case (lss_call j n pc s1 pc')
  have "n < length (ls_loops s)" "\<not> ev_over pc \<longrightarrow> ev_phase (ls_loops s ! n) = Ev_Live"
    using assms(3) lss_call(2,3) nth_mem [of j "ls_calls s"] by (auto simp: calls_ok_def)
  then show ?thesis
    using assms(2) lss_call by (cases pc) (auto simp: phase_ok_def split: sum.splits if_splits)
next
  case (lss_destroy n order)
  then show ?thesis
    using assms(2) by (auto simp: phase_ok_def ev_destroy_def split: ev_phase.splits list.splits if_splits)
next
  case (lss_callback j k pc w s1 pc')
  then show ?thesis
    using assms(2) callback_frame [OF lss_callback(4)] callback_loops [OF lss_callback(4)] by (auto simp: phase_ok_def)
qed (use assms(2) in \<open>auto simp: phase_ok_def\<close>)


section \<open>Every firing of a timer reaches its loop\<close>

text \<open>The functors of loop \<open>n\<close> in the timers whose wrappers have started, and in unfinished wrappers.\<close>

definition functor_of :: "nat \<Rightarrow> (nat \<times> 'f) task \<Rightarrow> 'f list" where
  "functor_of n c = (case c of Some (m, f) \<Rightarrow> if m = n then [f] else [] | None \<Rightarrow> [])"

definition functors_started :: "nat \<Rightarrow> (nat \<times> 'f) tsys \<Rightarrow> 'f list" where
  "functors_started n y = concat (map (\<lambda>(t, at). functor_of n (tt_callback t)) (sy_started y))"

fun cb_functor :: "nat \<Rightarrow> 'f cb_pc \<Rightarrow> 'f list" where
  "cb_functor n (Cb_Test m f) = (if m = n then [f] else [])"
| "cb_functor n (Cb_Queue m f) = (if m = n then [f] else [])"
| "cb_functor n _ = []"

definition functors_pending :: "nat \<Rightarrow> (nat \<times> 'f cb_pc) list \<Rightarrow> 'f list" where
  "functors_pending n cbs = concat (map (\<lambda>(k, pc). cb_functor n pc) cbs)"

definition loop_ok :: "nat \<Rightarrow> 'f list \<Rightarrow> 'f list \<Rightarrow> 'f evloop \<Rightarrow> bool" where
  "loop_ok n started pending e \<longleftrightarrow>
     mset started = mset (lp_queued (ev_loop e)) + mset pending + mset (ev_dropped e) \<and>
     lp_inv (ev_loop e) \<and> (ev_phase e = Ev_Live \<longrightarrow> ev_dropped e = [])"

definition loops_ok :: "'f lsys \<Rightarrow> bool" where
  "loops_ok s \<longleftrightarrow> (\<forall>n < length (ls_loops s).
     loop_ok n (functors_started n (ls_sched s)) (functors_pending n (ls_callbacks s)) (ls_loops s ! n))"

lemma pending_update:
  assumes "j < length cbs" "cbs ! j = (k, pc)"
  shows "\<exists>R. mset (functors_pending n cbs) = mset (cb_functor n pc) + R \<and>
    mset (functors_pending n (cbs[j := (k, pc')])) = mset (cb_functor n pc') + R"
proof -
  have "cbs = take j cbs @ (k, pc) # drop (j + 1) cbs"
    using assms id_take_nth_drop [of j cbs] by simp
  then have "functors_pending n cbs = functors_pending n (take j cbs @ (k, pc) # drop (j + 1) cbs)"
    "functors_pending n (cbs[j := (k, pc')]) = functors_pending n (take j cbs @ (k, pc') # drop (j + 1) cbs)"
    using assms(1) by (simp_all add: upd_conv_take_nth_drop)
  then show ?thesis
    by (intro exI [of _ "mset (functors_pending n (take j cbs)) + mset (functors_pending n (drop (j + 1) cbs))"])
      (simp add: functors_pending_def)
qed

lemma loops_okI:
  assumes "loops_ok s" "length (ls_loops s') = length (ls_loops s)"
    "\<And>n. n < length (ls_loops s) \<Longrightarrow>
       functors_started n (ls_sched s') = functors_started n (ls_sched s) \<and>
       functors_pending n (ls_callbacks s') = functors_pending n (ls_callbacks s) \<and>
       ev_loop (ls_loops s' ! n) = ev_loop (ls_loops s ! n) \<and> ev_dropped (ls_loops s' ! n) = ev_dropped (ls_loops s ! n) \<and>
       (ev_phase (ls_loops s' ! n) = Ev_Live \<longrightarrow> ev_phase (ls_loops s ! n) = Ev_Live)"
  shows "loops_ok s'"
  using assms by (simp add: loops_ok_def loop_ok_def)

lemma update_started [simp]: "functors_started n (sy_update st wake y) = functors_started n y"
  by (simp add: functors_started_def)

lemma cancel_started [simp]: "functors_started n (mg_sched (mg_cancel i m)) = functors_started n (mg_sched m)"
  by (simp add: mg_cancel_def split: prod.splits)

lemma call_frame:
  assumes "ev_step n pc s = Some (s', pc')" "m < length (ls_loops s)" "n < length (ls_loops s)"
  shows "ls_callbacks s' = ls_callbacks s \<and> functors_started m (ls_sched s') = functors_started m (ls_sched s) \<and>
    length (ls_loops s') = length (ls_loops s) \<and> ev_loop (ls_loops s' ! m) = ev_loop (ls_loops s ! m) \<and>
    ev_dropped (ls_loops s' ! m) = ev_dropped (ls_loops s ! m) \<and> ev_phase (ls_loops s' ! m) = ev_phase (ls_loops s ! m)"
proof (cases pc)
  case (Ev_Ensure every delay f)
  with assms show ?thesis
    by (auto simp: mg_ensure_started_def rbind_def functors_started_def split: sum.splits if_splits)
next
  case (Ev_Schedule every delay f)
  with assms show ?thesis
    by (auto simp: mg_schedule_def Let_def rbind_Inr_iff split: sum.splits if_splits)
qed (use assms in auto)

lemma destroy_frame:
  assumes "ev_destroy order n s = Some s'" "n < length (ls_loops s)"
  shows "ls_callbacks s' = ls_callbacks s \<and> functors_started m (ls_sched s') = functors_started m (ls_sched s) \<and>
    length (ls_loops s') = length (ls_loops s) \<and> ev_loop (ls_loops s' ! m) = ev_loop (ls_loops s ! m) \<and>
    ev_dropped (ls_loops s' ! m) = ev_dropped (ls_loops s ! m) \<and>
    (ev_phase (ls_loops s' ! m) = Ev_Live \<longrightarrow> ev_phase (ls_loops s ! m) = Ev_Live)"
  using assms by (auto simp: ev_destroy_def ls_change_def nth_update_any split: ev_phase.splits list.splits if_splits)

lemma worker_started: "functors_started n (y\<lparr>sy_state := st, sy_worker := pc, sy_wrappers := ws, sy_signal := b\<rparr>) = functors_started n y"
  by (simp add: functors_started_def)

lemma request_stop_started [simp]:
  "functors_started n (mg_sched (mg_request_stop m)) = functors_started n (mg_sched m)"
  "sy_started (mg_sched (mg_request_stop m)) = sy_started (mg_sched m)" "mg_started (mg_request_stop m) = mg_started m"
  by (simp_all add: mg_request_stop_def split: prod.splits)

text \<open>The wrapper's own steps move its functor along.\<close>

lemma callback_ok:
  assumes ok: "loops_ok s" and j: "j < length (ls_callbacks s)" "ls_callbacks s ! j = (k, pc)"
    and step: "cb_step w pc s = Some (Inr (s1, pc'))"
  shows "loops_ok (s1\<lparr>ls_callbacks := (ls_callbacks s)[j := (k, pc')]\<rparr>)" (is "loops_ok ?s")
proof -
  have "loop_ok n (functors_started n (ls_sched s)) (functors_pending n (ls_callbacks ?s)) (ls_loops ?s ! n)"
    if n: "n < length (ls_loops s)" for n
  proof -
    have old: "loop_ok n (functors_started n (ls_sched s)) (functors_pending n (ls_callbacks s)) (ls_loops s ! n)"
      using ok n by (simp add: loops_ok_def)
    obtain R where R: "mset (functors_pending n (ls_callbacks s)) = mset (cb_functor n pc) + R"
      "mset (functors_pending n ((ls_callbacks s)[j := (k, pc')])) = mset (cb_functor n pc') + R"
      using pending_update [OF j] by blast
    show ?thesis
    proof (cases pc)
      case (Cb_Test m f)
      with step old R n show ?thesis
        by (cases "m = n") (auto simp: loop_ok_def ls_change_def nth_update_any split: if_splits)
    next
      case (Cb_Queue m f)
      let ?l = "ev_loop (ls_loops s ! m)"
      have s1: "w < length (lp_others ?l)" "lp_others ?l ! w = Ot_Idle" "pc' = Cb_Wakeup m w"
        "s1 = ls_change m (\<lambda>e. e\<lparr>ev_loop := lp_queue_other w f (ev_loop e)\<rparr>) s"
        using step Cb_Queue by (auto simp: Let_def split: if_splits)
      have "lp_inv (lp_queue_other w f ?l)" if "lp_inv ?l"
        by (rule lp_inv_step [OF lps_queue_other [OF s1(1,2)] that])
      moreover have "lp_queued (lp_queue_other w f ?l) = lp_queued ?l @ [f]"
        by (simp add: lp_queue_other_def lp_push_def)
      ultimately show ?thesis
        using old R n s1 Cb_Queue by (cases "m = n") (auto simp: loop_ok_def ls_change_def nth_update_any)
    next
      case (Cb_Wakeup m v)
      let ?l = "ev_loop (ls_loops s ! m)"
      let ?l' = "(lp_wakeup ?l)\<lparr>lp_others := (lp_others ?l)[v := Ot_Idle]\<rparr>"
      have s1: "v < length (lp_others ?l)" "lp_others ?l ! v = Ot_Wakeup" "pc' = Cb_End"
        "s1 = ls_change m (\<lambda>e. e\<lparr>ev_loop := (lp_wakeup (ev_loop e))\<lparr>lp_others := (lp_others (ev_loop e))[v := Ot_Idle]\<rparr>\<rparr>) s"
        using step Cb_Wakeup by (auto simp: Let_def split: if_splits)
      have "lp_inv ?l'" if "lp_inv ?l"
        by (rule lp_inv_step [OF lps_wakeup [OF s1(1,2)] that])
      moreover have "lp_queued ?l' = lp_queued ?l" by simp
      ultimately show ?thesis
        using old R n s1 Cb_Wakeup by (cases "m = n") (auto simp: loop_ok_def ls_change_def nth_update_any)
    qed (use step in simp_all)
  qed
  then show ?thesis
    using callback_frame [OF step] by (simp add: loops_ok_def)
qed

lemma begin_wrapper: "tm_wrapper_begin t s = (s', w) \<Longrightarrow> w = Wr_Done \<or> w = Wr_Running t"
  by (auto simp: tm_wrapper_begin_def split: option.splits timer_state.splits)

lemma loops_step:
  assumes step: "ls_step s s'" and ok: "loops_ok s" "calls_ok s"
  shows "loops_ok s'"
  using step
proof cases
  case (lss_call j n pc s1 pc')
  have n: "n < length (ls_loops s)"
    using ok(2) lss_call(2,3) nth_mem [of j "ls_calls s"] by (auto simp: calls_ok_def)
  show ?thesis
    by (rule loops_okI [OF ok(1)]) (use lss_call(1) call_frame [OF lss_call(4) _ n] n in auto)
next
  case (lss_destroy n order)
  show ?thesis
    by (rule loops_okI [OF ok(1)]) (use destroy_frame [OF lss_destroy(3,1)] in auto)
next
  case (lss_callback j k pc w s1 pc')
  then show ?thesis using callback_ok [OF ok(1)] by simp
next
  case (lss_loop n reported l)
  have "lp_inv l" "lp_queued l = lp_queued (ev_loop (ls_loops s ! n))"
    using lp_inv_step [OF lps_advance [OF lss_loop(4)]] ok(1) lss_loop(2,4)
    by (auto simp: loops_ok_def loop_ok_def lp_handle_wakeup_read_def split: lp_pc.splits list.splits if_splits)
  then show ?thesis
    using ok(1) lss_loop(1,2) by (auto simp: loops_ok_def loop_ok_def)
next
  case (lss_await_stop k inside m)
  then show ?thesis using ok(1) await_stop_step [OF lss_await_stop(2,3)] by (simp add: loops_ok_def functors_started_def)
next
  case (lss_begin y k t n f st w)
  have "w = Wr_Done \<or> w = Wr_Running t" by (rule begin_wrapper [OF lss_begin(7)])
  then show ?thesis
    using ok(1) lss_begin(1,2,5)
    by (auto simp: loops_ok_def loop_ok_def functors_started_def functors_pending_def functor_of_def)
next
  case (lss_end y j k t st wake)
  have "mset (functors_pending n ((ls_callbacks s)[j := (k, Cb_Gone)])) = mset (functors_pending n (ls_callbacks s))" for n
    using pending_update [OF lss_end(3,4), of n Cb_Gone] by auto
  then show ?thesis
    using ok(1) lss_end(1,2) by (simp add: loops_ok_def loop_ok_def functors_started_def)
qed (use ok(1) in \<open>auto simp: loops_ok_def functors_started_def\<close>)


section \<open>The manager is started once\<close>

text \<open>How far the scheduler is: not started, started, being stopped or stopped.\<close>

definition stopped :: "'f manager \<Rightarrow> bool" where
  "stopped m \<longleftrightarrow> tm_scheduler (sy_state (mg_sched m)) = Stopping \<or> tm_scheduler (sy_state (mg_sched m)) = Stopped"

definition sched_ok :: "'f manager \<Rightarrow> bool" where
  "sched_ok m \<longleftrightarrow> tm_scheduler (sy_state (mg_sched m)) = (if mg_started m then Running else Created) \<or> stopped m"

definition bad_delay :: "bool \<Rightarrow> time \<Rightarrow> bool" where
  "bad_delay every delay \<longleftrightarrow> (if every then delay \<le> 0 else delay < 0)"

fun call_ok :: "bool \<Rightarrow> bool \<Rightarrow> 'f ev_pc \<Rightarrow> bool" where
  "call_ok started stop (Ev_Schedule every delay f) \<longleftrightarrow> started"
| "call_ok started stop (Ev_Threw every delay e) \<longleftrightarrow>
     bad_delay every delay \<and> (\<exists>message. e = Invalid_Argument message) \<or> stop \<and> (\<exists>message. e = Logic_Error message)"
| "call_ok started stop _ \<longleftrightarrow> True"

definition started_ok :: "'f lsys \<Rightarrow> bool" where
  "started_ok s \<longleftrightarrow> sched_ok (ls_manager s) \<and>
     (\<forall>(n, pc) \<in> set (ls_calls s). call_ok (mg_started (ls_manager s)) (stopped (ls_manager s)) pc)"

lemma cancel_scheduler [simp]: "tm_scheduler (sy_state (mg_sched (mg_cancel i m))) = tm_scheduler (sy_state (mg_sched m))"
  "mg_started (mg_cancel i m) = mg_started m"
  by (cases "tm_cancel i (sy_state (mg_sched m))" rule: prod_cases3;
    auto simp: mg_cancel_def tm_cancel_def Let_def split: option.splits timer_state.splits)+

lemma schedule_scheduler:
  "case mg_schedule every delay task m of
     Inl e \<Rightarrow> bad_delay every delay \<and> (\<exists>message. e = Invalid_Argument message) \<or>
       tm_scheduler (sy_state (mg_sched m)) \<noteq> Running \<and> (\<exists>message. e = Logic_Error message)
   | Inr (i, m') \<Rightarrow> tm_scheduler (sy_state (mg_sched m)) = Running \<and>
       tm_scheduler (sy_state (mg_sched m')) = Running \<and> mg_started m' = mg_started m"
  by (cases every) (auto simp: mg_schedule_def Let_def rbind_def tm_schedule_every_def tm_schedule_after_def tm_add_def bad_delay_def)

lemma ensure_scheduler:
  assumes "sched_ok m"
  shows "case mg_ensure_started m of Inl e \<Rightarrow> stopped m \<and> (\<exists>message. e = Logic_Error message)
    | Inr m' \<Rightarrow> sched_ok m' \<and> mg_started m' \<and> (stopped m \<longrightarrow> stopped m')"
  using assms by (cases "mg_started m")
    (auto simp: mg_ensure_started_def tm_start_def sched_ok_def stopped_def rbind_def split: sum.splits)

lemma call_ok_mono: "call_ok b d pc \<Longrightarrow> (b \<Longrightarrow> c) \<Longrightarrow> (d \<Longrightarrow> e) \<Longrightarrow> call_ok c e pc"
  by (cases pc) auto

lemma started_okI:
  assumes "started_ok s" "sched_ok (ls_manager s')"
    "mg_started (ls_manager s) \<Longrightarrow> mg_started (ls_manager s')" "stopped (ls_manager s) \<Longrightarrow> stopped (ls_manager s')"
    "\<And>n pc. (n, pc) \<in> set (ls_calls s') \<Longrightarrow> (n, pc) \<in> set (ls_calls s) \<or>
       call_ok (mg_started (ls_manager s')) (stopped (ls_manager s')) pc"
  shows "started_ok s'"
proof -
  have "call_ok (mg_started (ls_manager s')) (stopped (ls_manager s')) pc" if "(n, pc) \<in> set (ls_calls s')" for n pc
  proof (cases "(n, pc) \<in> set (ls_calls s)")
    case True
    then have "call_ok (mg_started (ls_manager s)) (stopped (ls_manager s)) pc"
      using assms(1) by (auto simp: started_ok_def)
    then show ?thesis by (rule call_ok_mono) (fact assms(3,4))+
  next
    case False
    with assms(5) [OF that] show ?thesis by simp
  qed
  with assms(2) show ?thesis by (auto simp: started_ok_def)
qed

text \<open>Steps that leave the calls and the manager's flag alone and do not restart the scheduler.\<close>

lemma started_same:
  assumes "started_ok s" "ls_calls s' = ls_calls s" "mg_started (ls_manager s') = mg_started (ls_manager s)"
    "tm_scheduler (sy_state (ls_sched s')) = tm_scheduler (sy_state (ls_sched s)) \<or> stopped (ls_manager s')"
  shows "started_ok s'"
  by (rule started_okI [OF assms(1)]) (use assms in \<open>auto simp: started_ok_def sched_ok_def stopped_def\<close>)

lemma call_started:
  assumes "ev_step n pc s = Some (s', pc')" "sched_ok (ls_manager s)" "call_ok (mg_started (ls_manager s)) (stopped (ls_manager s)) pc"
  shows "sched_ok (ls_manager s') \<and> (mg_started (ls_manager s) \<longrightarrow> mg_started (ls_manager s')) \<and>
    (stopped (ls_manager s) \<longrightarrow> stopped (ls_manager s')) \<and>
    call_ok (mg_started (ls_manager s')) (stopped (ls_manager s')) pc'"
proof (cases pc)
  case (Ev_Ensure every delay f)
  with ensure_scheduler [OF assms(2)] assms show ?thesis by (auto split: sum.splits)
next
  case (Ev_Schedule every delay f)
  with schedule_scheduler [where every = every and delay = delay and task = "(n, f)" and m = "ls_manager s"] assms show ?thesis
    by (auto simp: sched_ok_def stopped_def split: sum.splits prod.splits if_splits)
qed (use assms in \<open>auto simp: sched_ok_def stopped_def\<close>)

lemma started_step:
  assumes step: "ls_step s s'" and ok: "started_ok s" "tm_inv (ls_sched s)"
  shows "started_ok s'"
  using step
proof cases
  case (lss_call j n pc s1 pc')
  have "sched_ok (ls_manager s)" "call_ok (mg_started (ls_manager s)) (stopped (ls_manager s)) pc"
    using ok(1) lss_call(2,3) nth_mem [of j "ls_calls s"] by (auto simp: started_ok_def)
  from call_started [OF lss_call(4) this] show ?thesis
    using lss_call(1) by (intro started_okI [OF ok(1)]) (auto dest!: set_update_subset_insert [THEN subsetD])
next
  case (lss_destroy n order)
  then show ?thesis
    by (intro started_same [OF ok(1)])
      (auto simp: ev_destroy_def split: ev_phase.splits list.splits if_splits)
next
  case (lss_callback j k pc w s1 pc')
  then show ?thesis using callback_frame [OF lss_callback(4)] by (intro started_same [OF ok(1)]) simp_all
next
  case lss_request_stop
  then show ?thesis
    by (intro started_same [OF ok(1)])
      (auto simp: mg_request_stop_def tm_request_stop_def stopped_def split: scheduler_state.splits)
next
  case (lss_await_stop k inside m)
  then show ?thesis
    by (intro started_same [OF ok(1)])
      (auto simp: mg_await_stop_def Let_def tm_finish_stop_def stopped_def split: cl_pc.splits if_splits)
next
  case (lss_worker y timed_out answer st pc ws)
  note D = tm_invD [OF ok(2)]
  have "worker_effect (sy_state y) st"
    using worker_step_ok [OF lss_worker(3)] D(1,2) lss_worker(2) by (simp add: worker_post_def)
  with lss_worker show ?thesis by (intro started_same [OF ok(1)]) (simp_all add: worker_effect_def)
next
  case (lss_begin y k t n f st w)
  then show ?thesis
    by (intro started_same [OF ok(1)])
      (auto simp: tm_wrapper_begin_def tm_erase_def split: option.splits timer_state.splits)
next
  case (lss_end y j k t st wake)
  then show ?thesis
    by (intro started_same [OF ok(1)])
      (auto simp: tm_wrapper_end_def tm_erase_def Let_def split: option.splits timer_state.splits if_splits)
next
  case (lss_done y k)
  then show ?thesis by (intro started_same [OF ok(1)]) (auto simp: tm_finish_in_flight_def)
qed (use ok(1) in \<open>auto simp: started_ok_def sched_ok_def stopped_def\<close>)

section \<open>The invariant\<close>

definition ls_inv :: "'f lsys \<Rightarrow> bool" where
  "ls_inv s \<longleftrightarrow> tm_inv (ls_sched s) \<and> ids_ok s \<and> calls_ok s \<and> phase_ok s \<and> loops_ok s \<and> started_ok s"

lemma ls_invD:
  assumes "ls_inv s"
  shows "tm_inv (ls_sched s)" "ids_ok s" "calls_ok s" "phase_ok s" "loops_ok s" "started_ok s"
  using assms by (simp_all add: ls_inv_def)

lemma ls_inv_step: "ls_step s s' \<Longrightarrow> ls_inv s \<Longrightarrow> ls_inv s'"
proof -
  assume step: "ls_step s s'" and inv: "ls_inv s"
  note D = ls_invD [OF inv]
  have "tm_inv (ls_sched s')"
    using ls_sched_step [OF step] D(1) tm_inv_step by metis
  then show "ls_inv s'"
    unfolding ls_inv_def
    using ids_step [OF step D(2,1,4,3)] calls_step [OF step D(3)] phase_step [OF step D(4,3)]
      loops_step [OF step D(5,3)] started_step [OF step D(6,1)] by blast
qed

lemma ls_inv_init:
  fixes s :: "'f lsys"
  assumes "ls_init loops workers stoppers s"
  shows "ls_inv s"
proof -
  obtain y where y: "tm_init stoppers 0 y" "s = \<lparr>ls_manager = \<lparr>mg_started = False, mg_sched = y\<rparr>,
      ls_loops = replicate loops (ev_new workers), ls_calls = [], ls_callbacks = [], ls_owner = Map.empty\<rparr>"
    using assms by (auto simp: ls_init_def)
  have "lp_inv (lp_new workers :: 'f loop)"
    by (rule lp_inv_init [of workers]) (simp add: lp_init_def)
  then have "loops_ok s" "phase_ok s"
    using y by (simp_all add: loops_ok_def loop_ok_def phase_ok_def ev_new_def functors_started_def
        functors_pending_def tm_init_def lp_new_def)
  moreover have "started_ok s"
    using y by (simp add: started_ok_def sched_ok_def tm_init_def tm_new_def)
  ultimately show ?thesis
    using tm_inv_init [OF y(1)] y(2) by (simp add: ls_inv_def ids_ok_def calls_ok_def)
qed

interpretation ls: invariant_system "ls_init loops workers stoppers" ls_step ls_inv
  by unfold_locales (auto intro: ls_inv_init ls_inv_step)

lemma gone_spent:
  assumes "ls_inv s" "n < length (ls_loops s)" "ev_phase (ls_loops s ! n) = Ev_Gone" "ls_owner s i = Some n"
  shows "spent i (ls_sched s)"
proof -
  note D = ls_invD [OF assms(1)]
  have "ev_over pc" if "(n, pc) \<in> set (ls_calls s)" for pc
    using D(3) that assms(3) unfolding calls_ok_def by force
  then have "(n, Ev_Insert i) \<notin> set (ls_calls s)" "(n, Ev_Cancel i) \<notin> set (ls_calls s)" by force+
  moreover have "ev_ids (ls_loops s ! n) = {}" using D(4) assms(2,3) by (simp add: phase_ok_def)
  ultimately have "\<not> tracked n i s" using assms(3) by (simp add: tracked_def)
  with D(2) assms(4) show ?thesis unfolding ids_ok_def by blast
qed

lemma spent_run:
  "steps ls_step s s' \<Longrightarrow> ls_inv s \<Longrightarrow> spent i (ls_sched s) \<Longrightarrow>
   spent i (ls_sched s') \<and> starts i (ls_sched s') = starts i (ls_sched s)"
proof (induction rule: steps.induct)
  case (steps_snoc s t u)
  then have inv: "ls_inv t" using ls.steps_inv by blast
  from steps_snoc sched_spent [OF ls_sched_step [OF steps_snoc.hyps(2)] ls_invD(1) [OF inv]] show ?case by metis
qed simp

section \<open>Properties\<close>

text \<open>
  C27. Once the destructor of an event loop has returned, no timer that was set through the loop
  starts its callback any more: neither one that was pending, nor a repeated one that was running,
  nor one whose id was on its way into the loop's table. (A callback that has tested the flag
  before may still be on its way.)
\<close>

theorem destroyed_loop_silent:
  assumes "reach (ls_init loops workers stoppers) ls_step s" "n < length (ls_loops s)" "ev_phase (ls_loops s ! n) = Ev_Gone"
    and "ls_owner s i = Some n" "steps ls_step s s'"
  shows "starts i (ls_sched s') = starts i (ls_sched s) \<and>
    tm_states (sy_state (ls_sched s')) i \<in> {None, Some Cancelled, Some Executing}"
proof -
  have inv: "ls_inv s" by (rule ls.reach_inv [OF assms(1)])
  have "spent i (ls_sched s') \<and> starts i (ls_sched s') = starts i (ls_sched s)"
    by (rule spent_run [OF assms(5) inv gone_spent [OF inv assms(2-4)]])
  then show ?thesis by (auto simp: spent_def)
qed

text \<open>
  C28. Every start of a timer's callback hands its functor to the loop it was set for, exactly once,
  unless the loop's destructor has begun: what was started is what the loop was given, what
  wrappers still hold and what was dropped, and nothing is dropped while the loop is alive. The
  loop runs what it was given in order, no callback starts before its time, and calls fail only for a
  delay that is negative or an interval that is not positive, or once the manager has been stopped.
\<close>

theorem timer_functors:
  assumes "reach (ls_init loops workers stoppers) ls_step s" "n < length (ls_loops s)" "ls_loops s ! n = e" "ev_loop e = l"
  shows "mset (functors_started n (ls_sched s)) =
      mset (lp_queued l) + mset (functors_pending n (ls_callbacks s)) + mset (ev_dropped e) \<and>
    (ev_phase e = Ev_Live \<longrightarrow> ev_dropped e = []) \<and>
    lp_queued l = lp_ran l @ lp_taken (lp_pc l) @ lp_functors l \<and>
    (\<forall>(t, at) \<in> set (sy_started (ls_sched s)). tt_expiration t \<le> at) \<and>
    (\<forall>m every delay ex. (m, Ev_Threw every delay ex) \<in> set (ls_calls s) \<longrightarrow>
       (if every then delay \<le> 0 else delay < 0) \<and> (\<exists>message. ex = Invalid_Argument message) \<or>
       stopped (ls_manager s) \<and> (\<exists>message. ex = Logic_Error message))"
proof -
  note D = ls_invD [OF ls.reach_inv [OF assms(1)]]
  have ok: "loop_ok n (functors_started n (ls_sched s)) (functors_pending n (ls_callbacks s)) e"
    using D(5) assms(2) unfolding loops_ok_def assms(3) [symmetric] by blast
  moreover have "lp_queued l = lp_ran l @ lp_taken (lp_pc l) @ lp_functors l"
    using ok assms(4) by (simp add: loop_ok_def lp_inv_def)
  moreover have "\<forall>(t, at) \<in> set (sy_started (ls_sched s)). tt_expiration t \<le> at"
    using tm_invD(9) [OF D(1)] by blast
  moreover have "(if every then delay \<le> 0 else delay < 0) \<and> (\<exists>message. ex = Invalid_Argument message) \<or>
      stopped (ls_manager s) \<and> (\<exists>message. ex = Logic_Error message)"
    if "(m, Ev_Threw every delay ex) \<in> set (ls_calls s)" for m every delay ex
    using D(6) that unfolding started_ok_def bad_delay_def [symmetric] by force
  ultimately show ?thesis using assms(4) by (simp add: loop_ok_def)
qed


section \<open>Examples\<close>

text \<open>One loop, one timer that is due at time 10.\<close>

definition ld_timer :: "(nat \<times> nat) timer" where
  "ld_timer = \<lparr>tt_id = 1, tt_expiration = 10, tt_interval = 0, tt_repeated = False, tt_callback = Some (0, 7)\<rparr>"

definition ld_sched :: "(nat \<times> nat) timer list \<Rightarrow> timer_states \<Rightarrow> nat \<Rightarrow> (nat \<times> nat) wk_pc \<Rightarrow> (nat \<times> nat) wr list \<Rightarrow>
    time \<Rightarrow> ((nat \<times> nat) timer \<times> time) list \<Rightarrow> (nat \<times> nat) tsys" where
  "ld_sched h st flights pc ws now started = \<lparr>sy_state = \<lparr>tm_tasks = h, tm_states = st, tm_scheduler = Running,
       tm_next_id = 2, tm_in_flight = flights\<rparr>, sy_worker = pc, sy_wrappers = ws, sy_clients = [], sy_now = now,
     sy_signal = False, sy_started = started\<rparr>"

definition ld :: "(nat \<times> nat) tsys \<Rightarrow> ev_phase \<Rightarrow> timer_id set \<Rightarrow> nat ev_pc \<Rightarrow> (nat \<times> nat cb_pc) list \<Rightarrow> nat lsys" where
  "ld y phase is pc cbs = \<lparr>ls_manager = \<lparr>mg_started = True, mg_sched = y\<rparr>,
     ls_loops = [\<lparr>ev_loop = lp_new 1, ev_phase = phase, ev_ids = is, ev_dropped = []\<rparr>], ls_calls = [(0, pc)],
     ls_callbacks = cbs, ls_owner = [1 \<mapsto> 0]\<rparr>"

text \<open>The only call takes its next step.\<close>

definition ld_call :: "nat lsys \<Rightarrow> nat lsys" where
  "ld_call s =
     (case ls_calls s of
        [(n, pc)] \<Rightarrow> (case ev_step n pc s of Some (s', pc') \<Rightarrow> s'\<lparr>ls_calls := [(n, pc')]\<rparr> | None \<Rightarrow> s)
      | _ \<Rightarrow> s)"

lemma ld_call_reach:
  assumes "reach (ls_init 1 1 0) ls_step s"
  shows "reach (ls_init 1 1 0) ls_step (ld_call s)"
proof (cases "\<exists>n pc s' pc'. ls_calls s = [(n, pc)] \<and> ev_step n pc s = Some (s', pc')")
  case True
  then obtain n pc s' pc' where c: "ls_calls s = [(n, pc)]" "ev_step n pc s = Some (s', pc')" by blast
  then have "ls_step s (s'\<lparr>ls_calls := [(n, pc')]\<rparr>)" using lss_call [of 0 s n pc s' pc'] by simp
  with assms c show ?thesis by (auto simp: ld_call_def intro: reach_step)
qed (use assms in \<open>auto simp: ld_call_def split: list.splits option.splits\<close>)

lemma ld_set:
  "reach (ls_init 1 1 0) ls_step (ld (ld_sched [ld_timer] [1 \<mapsto> Pending] 0 Wk_Start [] 0 []) Ev_Live {1} (Ev_Returned 1) [])"
proof -
  let ?R = "reach (ls_init 1 1 0) ls_step :: nat lsys \<Rightarrow> bool"
  let ?y0 = "\<lparr>sy_state = tm_new, sy_worker = Wk_None, sy_wrappers = [], sy_clients = [], sy_now = 0, sy_signal = False,
      sy_started = []\<rparr> :: (nat \<times> nat) tsys"
  let ?s = "\<lambda>cs. \<lparr>ls_manager = \<lparr>mg_started = False, mg_sched = ?y0\<rparr>, ls_loops = [ev_new 1], ls_calls = cs,
      ls_callbacks = [], ls_owner = Map.empty\<rparr> :: nat lsys"
  have 0: "?R (?s [])" by (rule reach_init) (auto simp: ls_init_def tm_init_def)
  have "ls_step (?s []) (?s [(0, Ev_Ensure False 10 7)])"
    using lss_run [of 0 "?s []" False 10 7] by (simp add: ev_new_def)
  with 0 have 1: "?R (?s [(0, Ev_Ensure False 10 7)])" by (rule reach_step)
  let ?y1 = "?y0\<lparr>sy_state := tm_new\<lparr>tm_scheduler := Running\<rparr>, sy_worker := Wk_Start\<rparr>"
  let ?s1 = "(?s [(0, Ev_Schedule False 10 7)])\<lparr>ls_manager := \<lparr>mg_started = True, mg_sched = ?y1\<rparr>\<rparr>"
  have 2: "?R ?s1"
    using ld_call_reach [OF 1] by (simp add: ld_call_def mg_ensure_started_def tm_start_def tm_new_def)
  let ?y2 = "ld_sched [ld_timer] [1 \<mapsto> Pending] 0 Wk_Start [] 0 []"
  have 3: "?R (ld ?y2 Ev_Live {} (Ev_Insert 1) [])"
    using ld_call_reach [OF 2]
    by (simp add: ld_call_def mg_schedule_def tm_schedule_after_def tm_add_def tm_new_def ld_def ld_sched_def ld_timer_def
        sy_update_def ev_new_def Let_def)
  show ?thesis
    using ld_call_reach [OF 3] by (simp add: ld_call_def ld_def ls_change_def)
qed

lemma ld_worker:
  assumes "reach (ls_init 1 1 0) ls_step (ld y phase is pc cbs)"
    "tm_worker_step (sy_now y) timed_out answer (sy_state y) (sy_worker y) = Some ((st, wpc), ws)"
  shows "reach (ls_init 1 1 0) ls_step
    (ld (y\<lparr>sy_state := st, sy_worker := wpc, sy_wrappers := sy_wrappers y @ ws, sy_signal := False\<rparr>) phase is pc cbs)"
  using reach_step [OF assms(1) lss_worker [OF _ assms(2)]] by (simp add: ld_def ls_with_def)

text \<open>The timer is due: its wrapper runs on the pool and is about to test the flag.\<close>

definition ld_due :: "ev_phase \<Rightarrow> timer_id set \<Rightarrow> timer_state \<Rightarrow> nat cb_pc \<Rightarrow> nat lsys" where
  "ld_due phase is st pc = ld (ld_sched [] [1 \<mapsto> st] 1 (Wk_Batch []) [Wr_Running ld_timer] 12 [(ld_timer, 12)])
     phase is (Ev_Returned 1) [(0, pc)]"

lemma ld_fired: "reach (ls_init 1 1 0) ls_step (ld_due Ev_Live {1} Executing (Cb_Test 0 7))"
proof -
  let ?R = "reach (ls_init 1 1 0) ls_step :: nat lsys \<Rightarrow> bool"
  let ?s = "\<lambda>h st k pc ws now. ld (ld_sched h [1 \<mapsto> st] k pc ws now []) Ev_Live {1} (Ev_Returned 1) []"
  note d = ld_sched_def ld_timer_def
  have 1: "?R (?s [ld_timer] Pending 0 (Wk_Wait 1 10) [] 0)"
    using ld_worker [OF ld_set, of False Accepted _ "Wk_Wait 1 10"] by (simp add: d tm_enter.simps)
  have "?R (?s [ld_timer] Pending 0 (Wk_Wait 1 10) [] 12)"
    using reach_step [OF 1 lss_time [of _ 12]] by (simp add: ld_def ls_with_def ld_sched_def)
  from ld_worker [OF this, of True Accepted _ "Wk_Batch [ld_timer]" "[]"] have "?R (?s [] Submitted 0 (Wk_Batch [ld_timer]) [] 12)"
    by (simp add: d tm_wake_wait_def tm_interrupted_def)
  from ld_worker [OF this, of True Accepted _ "Wk_Post ld_timer []" "[]"] have "?R (?s [] Submitted 1 (Wk_Post ld_timer []) [] 12)"
    by (simp add: d tm_check_ready_def)
  from ld_worker [OF this, of True Accepted _ "Wk_Batch []" "[Wr_Queued ld_timer]"]
  have 2: "?R (?s [] Submitted 1 (Wk_Batch []) [Wr_Queued ld_timer] 12)"
    by (simp add: d)
  show ?thesis
    using reach_step [OF 2 lss_begin [OF refl, of 0 _ ld_timer 0 7]]
    by (simp add: ld_due_def ld_def ls_with_def d tm_wrapper_begin_def)
qed

lemma ld_destroyed:
  assumes "reach (ls_init 1 1 0) ls_step (ld_due Ev_Live {1} Executing pc)"
  shows "reach (ls_init 1 1 0) ls_step (ld_due Ev_Gone {} Cancelled pc)"
proof -
  let ?R = "reach (ls_init 1 1 0) ls_step :: nat lsys \<Rightarrow> bool"
  have step: "?R s'" if "?R (ld_due phase is st pc)" "ev_destroy [1] 0 (ld_due phase is st pc) = Some s'" for phase "is" st s'
    by (rule reach_step [OF that(1) lss_destroy [OF _ _ that(2)]]) (simp_all add: ld_due_def ld_def)
  note d = ld_due_def ld_def ev_destroy_def ls_change_def
  from step [OF assms] have "?R (ld_due Ev_Dead {1} Executing pc)" by (simp add: d)
  from step [OF this] have "?R (ld_due (Ev_Cancelling [1]) {} Executing pc)" by (simp add: d)
  from step [OF this] have "?R (ld_due (Ev_Cancelling []) {} Cancelled pc)"
    by (simp add: d mg_cancel_def tm_cancel_def ld_sched_def sy_update_def)
  from step [OF this] show ?thesis by (simp add: d)
qed

text \<open>
  The wrapper has found the loop alive when its owner destroys it; the wrapper goes on to push its
  functor into the queue of the destroyed loop.
\<close>

lemma callback_after_free:
  "\<exists>s. reach (ls_init 1 1 0) ls_step (s :: nat lsys) \<and> ls_callbacks s = [(0, Cb_Queue 0 7)] \<and>
     cb_step 0 (Cb_Queue 0 7) s = Some (throw (UB ''use after free''))"
proof -
  have "reach (ls_init 1 1 0) ls_step (ld_due Ev_Live {1} Executing (Cb_Queue 0 7))"
    using reach_step [OF ld_fired lss_callback [of 0 _ 0 "Cb_Test 0 7"]] by (simp add: ld_due_def ld_def)
  from ld_destroyed [OF this] show ?thesis
    by (intro exI [of _ "ld_due Ev_Gone {} Cancelled (Cb_Queue 0 7)"] conjI) (simp_all add: ld_due_def ld_def)
qed

lemma destroyed_loop_silent_witness:
  "\<exists>s s' :: nat lsys. reach (ls_init 1 1 0) ls_step s \<and> ev_phase (ls_loops s ! 0) = Ev_Gone \<and> ls_owner s 1 = Some 0 \<and>
     steps ls_step s s' \<and> ev_dropped (ls_loops s' ! 0) = [7] \<and> starts 1 (ls_sched s') = starts 1 (ls_sched s)"
proof -
  let ?s = "ld_due Ev_Gone {} Cancelled (Cb_Test 0 7)"
  let ?s' = "(ls_change 0 (\<lambda>e. e\<lparr>ev_dropped := [7]\<rparr>) ?s)\<lparr>ls_callbacks := [(0, Cb_End)]\<rparr>"
  have r: "reach (ls_init 1 1 0) ls_step ?s" by (rule ld_destroyed [OF ld_fired])
  have "ls_step ?s ?s'"
    using lss_callback [of 0 ?s 0 "Cb_Test 0 7" 0 "ls_change 0 (\<lambda>e. e\<lparr>ev_dropped := [7]\<rparr>) ?s" Cb_End]
    by (simp add: ld_due_def ld_def ls_change_def)
  then have st: "steps ls_step ?s ?s'" by (rule steps_single)
  have "starts 1 (ls_sched ?s') = starts 1 (ls_sched ?s)"
    using destroyed_loop_silent [OF r _ _ _ st, of 0 1] by (simp add: ld_due_def ld_def)
  with r st show ?thesis
    by (intro exI [of _ ?s] exI [of _ ?s'] conjI) (simp_all add: ld_due_def ld_def ls_change_def)
qed

lemma timer_functors_witness:
  "\<exists>s e. reach (ls_init 1 1 0) ls_step (s :: nat lsys) \<and> ls_loops s ! 0 = e \<and> mset (functors_started 0 (ls_sched s)) = {#7#} \<and>
     {#7#} = mset (lp_queued (ev_loop e)) + mset (functors_pending 0 (ls_callbacks s)) + mset (ev_dropped e)"
proof -
  let ?s = "ld_due Ev_Live {1} Executing (Cb_Test 0 7)"
  have "functors_started 0 (ls_sched ?s) = [7]"
    by (simp add: ld_due_def ld_def ld_sched_def ld_timer_def functors_started_def functor_of_def)
  with timer_functors [OF ld_fired, of 0 "ls_loops ?s ! 0" "ev_loop (ls_loops ?s ! 0)"] ld_fired show ?thesis
    by (intro exI [of _ ?s] exI [of _ "ls_loops ?s ! 0"] conjI) (simp_all add: ld_due_def ld_def)
qed

end
