(* ===== verification/Connector.thy ===== *)
theory Connector
  imports Prelude
begin

text \<open>
  \<open>Connector\<close> (code/MiniReactor/src/net/Connector.cpp): opening a
  non-blocking connection and handing its socket on. All of it runs on the loop's thread; the
  flag \<open>connectRequested_\<close> alone is set by other threads, so the value a later load of it gives
  is an argument. Sockets are numbers; what is opened, closed and handed on is logged.
\<close>

section \<open>Connector\<close>

datatype cn_state = Cn_Disconnected | Cn_Connecting | Cn_Connected

record connector =
  cn_state :: cn_state
  cn_requested :: bool
  cn_socket :: int
  cn_channel :: bool
  cn_has_new :: bool
  cn_has_error :: bool
  cn_opened :: "int list"
  cn_closed :: "int list"
  cn_handed :: "int list"
  cn_errors :: "int list"

definition cn_new :: connector where
  "cn_new = \<lparr>cn_state = Cn_Disconnected, cn_requested = False, cn_socket = - 1, cn_channel = False,
     cn_has_new = True, cn_has_error = True, cn_opened = [], cn_closed = [], cn_handed = [], cn_errors = []\<rparr>"

definition einprogress :: int where "einprogress = 115"
definition eintr_connect :: int where "eintr_connect = 4"
definition eisconn :: int where "eisconn = 106"
definition econnaborted :: int where "econnaborted = 103"

definition cn_close :: "int \<Rightarrow> connector \<Rightarrow> connector" where
  "cn_close fd c = c\<lparr>cn_closed := cn_closed c @ [fd]\<rparr>"

definition cn_report_error :: "int \<Rightarrow> int \<Rightarrow> bool \<Rightarrow> connector \<Rightarrow> connector" where
  "cn_report_error fd error requested c =
     (let c = cn_close fd c
      in if requested \<and> cn_has_error c then c\<lparr>cn_errors := cn_errors c @ [error]\<rparr> else c)"

definition cn_connecting :: "int \<Rightarrow> connector \<Rightarrow> connector" where
  "cn_connecting fd c = c\<lparr>cn_state := Cn_Connecting, cn_socket := fd, cn_channel := True\<rparr>"

text \<open>
  \<open>startInLoop\<close>: \<open>socket\<close> is the new socket or the error of creating it, \<open>error\<close> the result of
  \<open>connect\<close>, \<open>requested\<close> what the second load of the flag gives.
\<close>

definition cn_start_in_loop :: "int + int \<Rightarrow> int \<Rightarrow> bool \<Rightarrow> connector \<Rightarrow> connector" where
  "cn_start_in_loop socket error requested c =
     (if \<not> cn_requested c \<or> cn_state c \<noteq> Cn_Disconnected then c
      else case socket of
        Inl e \<Rightarrow> if cn_has_error c then c\<lparr>cn_errors := cn_errors c @ [e]\<rparr> else c
      | Inr fd \<Rightarrow>
          let c = c\<lparr>cn_opened := cn_opened c @ [fd]\<rparr>
          in if error = 0
             then
               let c = c\<lparr>cn_state := Cn_Connected\<rparr>
               in if requested \<and> cn_has_new c then c\<lparr>cn_handed := cn_handed c @ [fd]\<rparr>
                  else (cn_close fd c)\<lparr>cn_state := Cn_Disconnected\<rparr>
             else if error = einprogress \<or> error = eintr_connect \<or> error = eisconn
             then cn_connecting fd c
             else cn_report_error fd error requested c)"

text \<open>\<open>assert(channel_ != nullptr)\<close> is part of it.\<close>

definition cn_remove_and_reset_channel :: "connector \<Rightarrow> (int \<times> connector) result" where
  "cn_remove_and_reset_channel c =
     (if \<not> cn_channel c then throw (UB ''assertion failed: channel_ != nullptr'')
      else ret (cn_socket c, c\<lparr>cn_socket := - 1, cn_channel := False\<rparr>))"

definition cn_stop_in_loop :: "connector \<Rightarrow> connector result" where
  "cn_stop_in_loop c =
     (if cn_state c = Cn_Connecting
      then rbind (cn_remove_and_reset_channel c) (\<lambda>(fd, c). ret (cn_close fd (c\<lparr>cn_state := Cn_Disconnected\<rparr>)))
      else if cn_state c = Cn_Connected then ret (c\<lparr>cn_state := Cn_Disconnected\<rparr>)
      else ret c)"

definition cn_handle_write :: "int \<Rightarrow> bool \<Rightarrow> connector \<Rightarrow> connector result" where
  "cn_handle_write error requested c =
     (if cn_state c \<noteq> Cn_Connecting then ret c
      else rbind (cn_remove_and_reset_channel c) (\<lambda>(fd, c).
        if error \<noteq> 0 then ret (cn_report_error fd error requested (c\<lparr>cn_state := Cn_Disconnected\<rparr>))
        else if \<not> requested then ret (cn_close fd (c\<lparr>cn_state := Cn_Disconnected\<rparr>))
        else
          let c = c\<lparr>cn_state := Cn_Connected\<rparr>
          in if cn_has_new c then ret (c\<lparr>cn_handed := cn_handed c @ [fd]\<rparr>)
             else ret ((cn_close fd c)\<lparr>cn_state := Cn_Disconnected\<rparr>)))"

definition cn_handle_error :: "int \<Rightarrow> bool \<Rightarrow> connector \<Rightarrow> connector result" where
  "cn_handle_error error requested c =
     (if cn_state c \<noteq> Cn_Connecting then ret c
      else rbind (cn_remove_and_reset_channel c) (\<lambda>(fd, c).
        ret (cn_report_error fd (if error = 0 then econnaborted else error) requested
               (c\<lparr>cn_state := Cn_Disconnected\<rparr>))))"

text \<open>The destructor: \<open>assert(channel_ == nullptr)\<close>, then the socket is closed if there is one.\<close>

definition cn_destroy :: "connector \<Rightarrow> connector result" where
  "cn_destroy c =
     (if cn_channel c then throw (UB ''assertion failed: channel_ == nullptr'')
      else ret (if cn_socket c \<ge> 0 then cn_close (cn_socket c) c else c))"

text \<open>
  What happens to a connector: the flag is set by \<open>start\<close> and cleared by \<open>stop\<close>, on any thread;
  their other halves and the events of the socket come on the loop's thread. The client clears
  the callbacks when it is destroyed.
\<close>

datatype cn_op =
    Cn_Request bool
  | Cn_Start "int + int" int bool
  | Cn_Stop
  | Cn_Writable int bool
  | Cn_Failed int bool
  | Cn_Clear_Callbacks

fun cn_do :: "cn_op \<Rightarrow> connector \<Rightarrow> connector result" where
  "cn_do (Cn_Request r) c = ret (c\<lparr>cn_requested := r\<rparr>)"
| "cn_do (Cn_Start socket error requested) c = ret (cn_start_in_loop socket error requested c)"
| "cn_do Cn_Stop c = cn_stop_in_loop c"
| "cn_do (Cn_Writable error requested) c = cn_handle_write error requested c"
| "cn_do (Cn_Failed error requested) c = cn_handle_error error requested c"
| "cn_do Cn_Clear_Callbacks c = ret (c\<lparr>cn_has_new := False, cn_has_error := False\<rparr>)"

fun cn_run :: "cn_op list \<Rightarrow> connector \<Rightarrow> connector result" where
  "cn_run [] c = ret c"
| "cn_run (x # xs) c = rbind (cn_do x c) (cn_run xs)"

definition cn_held :: "connector \<Rightarrow> int multiset" where
  "cn_held c = (if cn_state c = Cn_Connecting then {#cn_socket c#} else {#})"

definition cn_inv :: "connector \<Rightarrow> bool" where
  "cn_inv c \<longleftrightarrow>
     mset (cn_opened c) = mset (cn_closed c) + mset (cn_handed c) + cn_held c \<and>
     (cn_channel c \<longleftrightarrow> cn_state c = Cn_Connecting) \<and>
     (cn_state c \<noteq> Cn_Connecting \<longrightarrow> cn_socket c = - 1)"

lemmas cn_defs = cn_start_in_loop_def cn_stop_in_loop_def cn_handle_write_def cn_handle_error_def
  cn_remove_and_reset_channel_def cn_report_error_def cn_connecting_def cn_close_def

lemma cn_inv_do: "cn_inv c \<Longrightarrow> \<exists>c'. cn_do x c = Inr c' \<and> cn_inv c'"
  by (cases x) (auto simp: cn_inv_def cn_held_def cn_defs Let_def split: sum.splits)

lemma cn_inv_run: "cn_inv c \<Longrightarrow> \<exists>c'. cn_run xs c = Inr c' \<and> cn_inv c'"
proof (induction xs arbitrary: c)
  case (Cons x xs)
  obtain c1 where "cn_do x c = Inr c1" "cn_inv c1"
    using cn_inv_do [OF Cons.prems] by blast
  with Cons.IH show ?case by auto
qed simp

lemma cn_inv_new: "cn_inv cn_new"
  by (simp add: cn_inv_def cn_new_def cn_held_def)

section \<open>Properties\<close>

text \<open>
  C32. The connector leaks no socket and closes none twice: over any sequence of requests, stops and
  socket events, whatever the system calls answer, no assertion fails, and the sockets opened
  are those closed, those handed to the client, and the one being connected; when it is stopped
  it holds none, and its destructor closes none and does not fail.
\<close>

theorem sockets_accounted:
  "\<exists>c c'. cn_run xs cn_new = Inr c \<and>
     mset (cn_opened c) = mset (cn_closed c) + mset (cn_handed c) + cn_held c \<and>
     cn_stop_in_loop c = Inr c' \<and> mset (cn_opened c') = mset (cn_closed c') + mset (cn_handed c') \<and>
     cn_destroy c' = Inr c'"
proof -
  obtain c where c: "cn_run xs cn_new = Inr c" "cn_inv c"
    using cn_inv_run [OF cn_inv_new] by blast
  obtain c' where s: "cn_do Cn_Stop c = Inr c'" "cn_inv c'"
    using cn_inv_do [OF c(2)] by blast
  then have "cn_state c' = Cn_Disconnected"
    using c(2) by (cases "cn_state c") (auto simp: cn_inv_def cn_defs)
  then show ?thesis
    using c s by (auto simp: cn_inv_def cn_held_def cn_destroy_def)
qed

end
