(* ===== verification/Channel_Poller.thy ===== *)
theory Channel_Poller
  imports Prelude
begin

unbundle bit_operations_syntax

text \<open>
  \<open>Channel\<close> and \<open>EpollPoller\<close> (code/MiniReactor/src/net/Channel.cpp, EpollPoller.cpp): the events
  a file descriptor is watched for, the dispatch of the events that came, and the bookkeeping
  of what is registered with the kernel. \<open>epoll_ctl\<close> is a parameter \<open>ctl\<close> on an opaque kernel
  state; what the code relies on, \<open>epoll_contract\<close>, is its documented behaviour on the interest
  list, for open descriptors that can be watched and a kernel with resources left (no \<open>EBADF\<close>,
  \<open>EPERM\<close>, \<open>ENOSPC\<close> or \<open>ENOMEM\<close>).
\<close>

section \<open>Channels\<close>

definition epollin :: u32 where "epollin = 0x001"
definition epollpri :: u32 where "epollpri = 0x002"
definition epollout :: u32 where "epollout = 0x004"
definition epollerr :: u32 where "epollerr = 0x008"
definition epollhup :: u32 where "epollhup = 0x010"
definition epollrdhup :: u32 where "epollrdhup = 0x2000"
definition epollet :: u32 where "epollet = 0x80000000"

lemmas epoll_bits = epollin_def epollpri_def epollout_def epollerr_def epollhup_def epollrdhup_def epollet_def

datatype ch_index = Idx_New | Idx_Added | Idx_Deleted

datatype ch_callback = Read_Cb | Write_Cb | Close_Cb | Error_Cb

record channel =
  ch_fd :: int
  ch_events :: u32
  ch_revents :: u32
  ch_index :: ch_index
  ch_has :: "ch_callback \<Rightarrow> bool"

definition ch_new :: "int \<Rightarrow> channel" where
  "ch_new fd = \<lparr>ch_fd = fd, ch_events = 0, ch_revents = 0, ch_index = Idx_New, ch_has = (\<lambda>_. False)\<rparr>"

text \<open>The callbacks \<open>handleEvent\<close> calls, in order.\<close>

definition ch_handle_event :: "channel \<Rightarrow> ch_callback list" where
  "ch_handle_event c =
     (let r = ch_revents c
      in if r AND epollhup \<noteq> 0 \<and> r AND epollin = 0 then filter (ch_has c) [Close_Cb]
         else if r AND epollerr \<noteq> 0 \<and> ch_has c Error_Cb then [Error_Cb]
         else
           (if r AND (epollin OR epollpri OR epollrdhup) \<noteq> 0 then filter (ch_has c) [Read_Cb] else []) @
           (if r AND epollout \<noteq> 0 then filter (ch_has c) [Write_Cb] else []))"

text \<open>The methods that change the events, \<open>update\<close> apart.\<close>

datatype event_change = Enable_Reading | Disable_Reading | Enable_Writing | Disable_Writing | Disable_All

fun ch_change :: "event_change \<Rightarrow> channel \<Rightarrow> channel" where
  "ch_change Enable_Reading c = c\<lparr>ch_events := ch_events c OR (epollin OR epollrdhup)\<rparr>"
| "ch_change Disable_Reading c = c\<lparr>ch_events := ch_events c AND NOT (epollin OR epollrdhup)\<rparr>"
| "ch_change Enable_Writing c = c\<lparr>ch_events := ch_events c OR epollout\<rparr>"
| "ch_change Disable_Writing c = c\<lparr>ch_events := ch_events c AND NOT epollout\<rparr>"
| "ch_change Disable_All c = c\<lparr>ch_events := 0\<rparr>"

definition ch_edge_trigger :: "channel \<Rightarrow> channel" where
  "ch_edge_trigger c = c\<lparr>ch_events := ch_events c OR epollet\<rparr>"

definition ch_is_writing :: "channel \<Rightarrow> bool" where
  "ch_is_writing c \<longleftrightarrow> ch_events c AND epollout \<noteq> 0"

definition ch_is_none :: "channel \<Rightarrow> bool" where
  "ch_is_none c \<longleftrightarrow> ch_events c = 0"

section \<open>The poller\<close>

datatype ctl_op = Ctl_Add | Ctl_Mod | Ctl_Del

text \<open>\<open>epoll_ctl\<close>: the error number, 0 for success, and the new kernel state.\<close>

type_synonym 'k epoll_ctl = "ctl_op \<Rightarrow> int \<Rightarrow> u32 \<Rightarrow> 'k \<Rightarrow> int \<times> 'k"

definition enoent :: int where "enoent = 2"

text \<open>A channel object is known by a number, its address.\<close>

record 'k poller =
  po_channels :: "int \<rightharpoonup> nat"
  po_kernel :: 'k

definition ep_update :: "'k epoll_ctl \<Rightarrow> ctl_op \<Rightarrow> channel \<Rightarrow> 'k poller \<Rightarrow> 'k poller result" where
  "ep_update ctl op c p =
     (let (e, k) = ctl op (ch_fd c) (ch_events c) (po_kernel p);
          p = p\<lparr>po_kernel := k\<rparr>
      in if e \<noteq> 0
         then (if op = Ctl_Del \<and> e = enoent then ret p else throw (System_Error e))
         else ret p)"

definition ep_update_channel :: "'k epoll_ctl \<Rightarrow> nat \<Rightarrow> channel \<Rightarrow> 'k poller \<Rightarrow> (channel \<times> 'k poller) result" where
  "ep_update_channel ctl a c p =
     (if ch_index c = Idx_New \<or> ch_index c = Idx_Deleted
      then
        let p = (if ch_index c = Idx_New
                 then p\<lparr>po_channels := (if po_channels p (ch_fd c) = None
                                        then (po_channels p)(ch_fd c \<mapsto> a) else po_channels p)\<rparr>
                 else p);
            c = c\<lparr>ch_index := Idx_Added\<rparr>
        in rbind (ep_update ctl Ctl_Add c p) (\<lambda>p. ret (c, p))
      else if ch_is_none c
      then rbind (ep_update ctl Ctl_Del c p) (\<lambda>p. ret (c\<lparr>ch_index := Idx_Deleted\<rparr>, p))
      else rbind (ep_update ctl Ctl_Mod c p) (\<lambda>p. ret (c, p)))"

definition ep_remove_channel :: "'k epoll_ctl \<Rightarrow> channel \<Rightarrow> 'k poller \<Rightarrow> (channel \<times> 'k poller) result" where
  "ep_remove_channel ctl c p =
     (if po_channels p (ch_fd c) = None then ret (c, p)
      else rbind (if ch_index c = Idx_Added then ep_update ctl Ctl_Del c p else ret p)
        (\<lambda>p. ret (c\<lparr>ch_index := Idx_New\<rparr>, p\<lparr>po_channels := (po_channels p)(ch_fd c := None)\<rparr>)))"

text \<open>
  \<open>poll\<close>: \<open>epoll_wait\<close> reports channels with their events, at most as many as the event array
  has room for, or fails; the array is doubled when it was full.
\<close>

datatype wait_answer = Ready "(nat \<times> u32) list" | Wait_Failed int

definition eintr :: int where "eintr = 4"

definition ep_poll :: "wait_answer \<Rightarrow> nat \<Rightarrow> ((nat \<times> u32) list \<times> nat) result" where
  "ep_poll answer room =
     (case answer of
        Wait_Failed e \<Rightarrow> if e = eintr then ret ([], room) else throw (System_Error e)
      | Ready evs \<Rightarrow> ret (evs, if length evs = room then room * 2 else room))"

section \<open>Any use of channels\<close>

text \<open>
  The channels of one event loop: creating a channel for a descriptor (with or without edge
  triggering, before it is first registered, as the constructors do), changing its events,
  removing it.
\<close>

datatype ch_op = New_Channel int bool | Change event_change | Remove

record 'k chan_sys =
  cs_channels :: "nat \<rightharpoonup> channel"
  cs_poller :: "'k poller"

definition chan_step :: "'k epoll_ctl \<Rightarrow> nat \<Rightarrow> ch_op \<Rightarrow> 'k chan_sys \<Rightarrow> 'k chan_sys result" where
  "chan_step ctl a op s =
     (case op of
        New_Channel fd et \<Rightarrow>
          ret (s\<lparr>cs_channels := (cs_channels s)(a \<mapsto> if et then ch_edge_trigger (ch_new fd) else ch_new fd)\<rparr>)
      | Change x \<Rightarrow>
          (case cs_channels s a of
             None \<Rightarrow> throw (UB ''no channel'')
           | Some c \<Rightarrow> rbind (ep_update_channel ctl a (ch_change x c) (cs_poller s))
               (\<lambda>(c, p). ret (s\<lparr>cs_channels := (cs_channels s)(a \<mapsto> c), cs_poller := p\<rparr>)))
      | Remove \<Rightarrow>
          (case cs_channels s a of
             None \<Rightarrow> throw (UB ''no channel'')
           | Some c \<Rightarrow> rbind (ep_remove_channel ctl c (cs_poller s))
               (\<lambda>(c, p). ret (s\<lparr>cs_channels := (cs_channels s)(a \<mapsto> c), cs_poller := p\<rparr>))))"

fun chan_run :: "'k epoll_ctl \<Rightarrow> (nat \<times> ch_op) list \<Rightarrow> 'k chan_sys \<Rightarrow> 'k chan_sys result" where
  "chan_run ctl [] s = ret s"
| "chan_run ctl ((a, op) # ops) s = rbind (chan_step ctl a op s) (chan_run ctl ops)"

text \<open>
  The caller's side: a channel object is made anew only when it is not registered, and a channel
  is used only while no other registered channel watches its descriptor (a closed descriptor's
  number may come back with another channel).
\<close>

definition sole :: "nat \<Rightarrow> 'k chan_sys \<Rightarrow> bool" where
  "sole a s \<longleftrightarrow>
     (case cs_channels s a of
        None \<Rightarrow> False
      | Some c \<Rightarrow> \<forall>b d. cs_channels s b = Some d \<longrightarrow> ch_index d \<noteq> Idx_New \<longrightarrow> ch_fd d = ch_fd c \<longrightarrow> b = a)"

definition op_valid :: "nat \<Rightarrow> ch_op \<Rightarrow> 'k chan_sys \<Rightarrow> bool" where
  "op_valid a op s \<longleftrightarrow>
     (case op of
        New_Channel fd et \<Rightarrow> (case cs_channels s a of None \<Rightarrow> True | Some c \<Rightarrow> ch_index c = Idx_New)
      | Change x \<Rightarrow> sole a s
      | Remove \<Rightarrow> sole a s)"

fun run_valid :: "'k epoll_ctl \<Rightarrow> (nat \<times> ch_op) list \<Rightarrow> 'k chan_sys \<Rightarrow> bool" where
  "run_valid ctl [] s \<longleftrightarrow> True"
| "run_valid ctl ((a, op) # ops) s \<longleftrightarrow>
     op_valid a op s \<and> (case chan_step ctl a op s of Inl e \<Rightarrow> True | Inr s' \<Rightarrow> run_valid ctl ops s')"

text \<open>
  The kernel's side, from epoll_ctl(2): \<open>interest\<close> reads the interest list; adding a descriptor
  that is not in it, and changing or deleting one that is, succeeds.
\<close>

definition epoll_contract :: "'k epoll_ctl \<Rightarrow> ('k \<Rightarrow> int \<Rightarrow> u32 option) \<Rightarrow> bool" where
  "epoll_contract ctl interest \<longleftrightarrow>
     (\<forall>fd ev k.
        (interest k fd = None \<longrightarrow>
           fst (ctl Ctl_Add fd ev k) = 0 \<and> interest (snd (ctl Ctl_Add fd ev k)) = (interest k)(fd \<mapsto> ev)) \<and>
        (interest k fd \<noteq> None \<longrightarrow>
           fst (ctl Ctl_Mod fd ev k) = 0 \<and> interest (snd (ctl Ctl_Mod fd ev k)) = (interest k)(fd \<mapsto> ev) \<and>
           fst (ctl Ctl_Del fd ev k) = 0 \<and> interest (snd (ctl Ctl_Del fd ev k)) = (interest k)(fd := None)))"

definition chan_inv :: "('k \<Rightarrow> int \<Rightarrow> u32 option) \<Rightarrow> 'k chan_sys \<Rightarrow> bool" where
  "chan_inv interest s \<longleftrightarrow>
     (\<forall>fd a. po_channels (cs_poller s) fd = Some a \<longleftrightarrow>
        (\<exists>c. cs_channels s a = Some c \<and> ch_fd c = fd \<and> ch_index c \<noteq> Idx_New)) \<and>
     (\<forall>fd e. interest (po_kernel (cs_poller s)) fd = Some e \<longleftrightarrow>
        (\<exists>a c. cs_channels s a = Some c \<and> ch_fd c = fd \<and> ch_index c = Idx_Added \<and> ch_events c = e))"

definition chan_init :: "'k \<Rightarrow> 'k chan_sys" where
  "chan_init k = \<lparr>cs_channels = Map.empty, cs_poller = \<lparr>po_channels = Map.empty, po_kernel = k\<rparr>\<rparr>"

lemma epoll_contractD:
  assumes "epoll_contract ctl interest"
  shows "interest k fd = None \<Longrightarrow>
      fst (ctl Ctl_Add fd ev k) = 0 \<and> interest (snd (ctl Ctl_Add fd ev k)) = (interest k)(fd \<mapsto> ev)"
    "interest k fd \<noteq> None \<Longrightarrow>
      fst (ctl Ctl_Mod fd ev k) = 0 \<and> interest (snd (ctl Ctl_Mod fd ev k)) = (interest k)(fd \<mapsto> ev)"
    "interest k fd \<noteq> None \<Longrightarrow>
      fst (ctl Ctl_Del fd ev k) = 0 \<and> interest (snd (ctl Ctl_Del fd ev k)) = (interest k)(fd := None)"
  using assms by (simp_all add: epoll_contract_def)

lemma ep_update_ok:
  assumes "epoll_contract ctl interest"
    "if op = Ctl_Add then interest (po_kernel p) (ch_fd c) = None else interest (po_kernel p) (ch_fd c) \<noteq> None"
  obtains k where "ep_update ctl op c p = Inr (p\<lparr>po_kernel := k\<rparr>)"
    "interest k = (interest (po_kernel p))(ch_fd c := if op = Ctl_Del then None else Some (ch_events c))"
proof -
  obtain e k where k: "ctl op (ch_fd c) (ch_events c) (po_kernel p) = (e, k)" by fastforce
  have "e = 0 \<and> interest k = (interest (po_kernel p))(ch_fd c := if op = Ctl_Del then None else Some (ch_events c))"
    using epoll_contractD [OF assms(1), of "po_kernel p" "ch_fd c" "ch_events c"] assms(2) k by (cases op) auto
  with k that show ?thesis by (simp add: ep_update_def)
qed

lemma ch_change_simps [simp]: "ch_fd (ch_change x c) = ch_fd c" "ch_index (ch_change x c) = ch_index c"
  by (cases x; simp)+

lemma chan_inv_replace:
  assumes "chan_inv interest s" "cs_channels s a = Some c" "sole a s" "ch_fd c' = ch_fd c"
    "po_channels p' = (po_channels (cs_poller s))(ch_fd c := if ch_index c' = Idx_New then None else Some a)"
    "interest (po_kernel p') = (interest (po_kernel (cs_poller s)))
       (ch_fd c := if ch_index c' = Idx_Added then Some (ch_events c') else None)"
  shows "chan_inv interest (s\<lparr>cs_channels := (cs_channels s)(a \<mapsto> c'), cs_poller := p'\<rparr>)"
proof -
  have only: "b = a" if "cs_channels s b = Some d" "ch_index d \<noteq> Idx_New" "ch_fd d = ch_fd c" for b d
    using assms(2,3) that by (simp add: sole_def)
  have P: "po_channels (cs_poller s) fd = Some b \<longleftrightarrow>
      (\<exists>d. cs_channels s b = Some d \<and> ch_fd d = fd \<and> ch_index d \<noteq> Idx_New)" for fd b
    using assms(1) by (simp add: chan_inv_def)
  have I: "interest (po_kernel (cs_poller s)) fd = Some e \<longleftrightarrow>
      (\<exists>b d. cs_channels s b = Some d \<and> ch_fd d = fd \<and> ch_index d = Idx_Added \<and> ch_events d = e)" for fd e
    using assms(1) by (simp add: chan_inv_def)
  have "(po_channels p' fd = Some b) = (\<exists>d. ((cs_channels s)(a \<mapsto> c')) b = Some d \<and> ch_fd d = fd \<and> ch_index d \<noteq> Idx_New)"
    for fd b
  proof (cases "b = a")
    case True
    then show ?thesis using P [of fd a] assms(2,4) by (auto simp: assms(5))
  next
    case False
    then show ?thesis using P [of fd b] only [of b] by (auto simp: assms(5))
  qed
  moreover have "(interest (po_kernel p') fd = Some e) = (\<exists>b d. ((cs_channels s)(a \<mapsto> c')) b = Some d \<and>
      ch_fd d = fd \<and> ch_index d = Idx_Added \<and> ch_events d = e)" for fd e
  proof (cases "fd = ch_fd c")
    case True
    have "b = a" if "((cs_channels s)(a \<mapsto> c')) b = Some d" "ch_fd d = fd" "ch_index d = Idx_Added" for b d
      using only [of b d] that True by (cases "b = a") auto
    then have "(\<exists>b d. ((cs_channels s)(a \<mapsto> c')) b = Some d \<and> ch_fd d = fd \<and> ch_index d = Idx_Added \<and> ch_events d = e)
        \<longleftrightarrow> (\<exists>d. ((cs_channels s)(a \<mapsto> c')) a = Some d \<and> ch_fd d = fd \<and> ch_index d = Idx_Added \<and> ch_events d = e)"
      by blast
    with True assms(4) show ?thesis by (simp add: assms(6))
  next
    case False
    have "((cs_channels s)(a \<mapsto> c')) b = Some d \<Longrightarrow> ch_fd d = fd \<Longrightarrow> cs_channels s b = Some d"
      "cs_channels s b = Some d \<Longrightarrow> ch_fd d = fd \<Longrightarrow> ((cs_channels s)(a \<mapsto> c')) b = Some d" for b d
      using False assms(2,4) by (cases "b = a"; simp)+
    then have "(\<exists>b d. ((cs_channels s)(a \<mapsto> c')) b = Some d \<and> ch_fd d = fd \<and> ch_index d = Idx_Added \<and> ch_events d = e)
        \<longleftrightarrow> (\<exists>b d. cs_channels s b = Some d \<and> ch_fd d = fd \<and> ch_index d = Idx_Added \<and> ch_events d = e)"
      by blast
    then show ?thesis
      using I [of fd e] False by (simp only: assms(6) fun_upd_other not_False_eq_True)
  qed
  ultimately show ?thesis by (simp add: chan_inv_def)
qed

lemma chan_registered:
  assumes "chan_inv interest s" "cs_channels s a = Some c" "sole a s"
  shows "po_channels (cs_poller s) (ch_fd c) = (if ch_index c = Idx_New then None else Some a)"
    "interest (po_kernel (cs_poller s)) (ch_fd c) = (if ch_index c = Idx_Added then Some (ch_events c) else None)"
proof -
  have only: "b = a" if "cs_channels s b = Some d" "ch_index d \<noteq> Idx_New" "ch_fd d = ch_fd c" for b d
    using assms(2,3) that by (simp add: sole_def)
  show "po_channels (cs_poller s) (ch_fd c) = (if ch_index c = Idx_New then None else Some a)"
  proof (cases "po_channels (cs_poller s) (ch_fd c)")
    case None
    then show ?thesis using assms(1,2) unfolding chan_inv_def by (metis not_None_eq option.distinct(1))
  next
    case (Some b)
    then have "b = a \<and> ch_index c \<noteq> Idx_New"
      using assms(1,2) only unfolding chan_inv_def by (metis option.inject)
    then show ?thesis using Some by simp
  qed
  show "interest (po_kernel (cs_poller s)) (ch_fd c) = (if ch_index c = Idx_Added then Some (ch_events c) else None)"
  proof (cases "interest (po_kernel (cs_poller s)) (ch_fd c)")
    case None
    then show ?thesis using assms(1,2) unfolding chan_inv_def by (metis option.distinct(1))
  next
    case (Some e)
    then have "ch_index c = Idx_Added \<and> ch_events c = e"
      using assms(1,2) only unfolding chan_inv_def by (metis ch_index.distinct(1) option.inject)
    then show ?thesis using Some by simp
  qed
qed

lemma chan_step_change:
  assumes "epoll_contract ctl interest" "chan_inv interest s" "sole a s"
  shows "\<exists>s'. chan_step ctl a (Change x) s = Inr s' \<and> chan_inv interest s'"
proof -
  obtain c where c: "cs_channels s a = Some c"
    using assms(3) by (auto simp: sole_def split: option.splits)
  note R = chan_registered [OF assms(2) c assms(3)]
  note I = chan_inv_replace [OF assms(2) c assms(3)]
  let ?p = "cs_poller s" and ?c = "ch_change x c"
  consider (add) "ch_index c \<noteq> Idx_Added" | (del) "ch_index c = Idx_Added" "ch_is_none ?c"
    | (md) "ch_index c = Idx_Added" "\<not> ch_is_none ?c" by blast
  then show ?thesis
  proof cases
    case add
    define q where "q = (if ch_index c = Idx_New then ?p\<lparr>po_channels := (po_channels ?p)(ch_fd c \<mapsto> a)\<rparr> else ?p)"
    have q: "po_kernel q = po_kernel ?p" "po_channels q = (po_channels ?p)(ch_fd c \<mapsto> a)"
      using R(1) by (auto simp: q_def)
    obtain k where k: "ep_update ctl Ctl_Add (?c\<lparr>ch_index := Idx_Added\<rparr>) q = Inr (q\<lparr>po_kernel := k\<rparr>)"
      "interest k = (interest (po_kernel ?p))(ch_fd c \<mapsto> ch_events ?c)"
      using ep_update_ok [OF assms(1), of Ctl_Add q "?c\<lparr>ch_index := Idx_Added\<rparr>"] R(2) add q(1) by auto
    have "chan_inv interest (s\<lparr>cs_channels := (cs_channels s)(a \<mapsto> ?c\<lparr>ch_index := Idx_Added\<rparr>),
        cs_poller := q\<lparr>po_kernel := k\<rparr>\<rparr>)"
      by (rule I) (use q k(2) in simp_all)
    moreover have "ch_index c = Idx_New \<or> ch_index c = Idx_Deleted"
      using add by (cases "ch_index c") auto
    then have "ep_update_channel ctl a ?c ?p = Inr (?c\<lparr>ch_index := Idx_Added\<rparr>, q\<lparr>po_kernel := k\<rparr>)"
      using k(1) R(1) by (auto simp: ep_update_channel_def q_def Let_def split: if_splits)
    ultimately show ?thesis
      using c by (simp add: chan_step_def)
  next
    case del
    obtain k where k: "ep_update ctl Ctl_Del ?c ?p = Inr (?p\<lparr>po_kernel := k\<rparr>)"
      "interest k = (interest (po_kernel ?p))(ch_fd c := None)"
      using ep_update_ok [OF assms(1), of Ctl_Del ?p ?c] R(2) del by auto
    have "chan_inv interest (s\<lparr>cs_channels := (cs_channels s)(a \<mapsto> ?c\<lparr>ch_index := Idx_Deleted\<rparr>),
        cs_poller := ?p\<lparr>po_kernel := k\<rparr>\<rparr>)"
      by (rule I) (use R(1) k(2) del in \<open>auto split: if_splits\<close>)
    then show ?thesis
      using c k(1) del by (simp add: chan_step_def ep_update_channel_def)
  next
    case md
    obtain k where k: "ep_update ctl Ctl_Mod ?c ?p = Inr (?p\<lparr>po_kernel := k\<rparr>)"
      "interest k = (interest (po_kernel ?p))(ch_fd c \<mapsto> ch_events ?c)"
      using ep_update_ok [OF assms(1), of Ctl_Mod ?p ?c] R(2) md by auto
    have "chan_inv interest (s\<lparr>cs_channels := (cs_channels s)(a \<mapsto> ?c), cs_poller := ?p\<lparr>po_kernel := k\<rparr>\<rparr>)"
      by (rule I) (use R(1) k(2) md in \<open>auto split: if_splits\<close>)
    then show ?thesis
      using c k(1) md by (simp add: chan_step_def ep_update_channel_def)
  qed
qed

lemma chan_step_remove:
  assumes "epoll_contract ctl interest" "chan_inv interest s" "sole a s"
  shows "\<exists>s'. chan_step ctl a Remove s = Inr s' \<and> chan_inv interest s'"
proof -
  obtain c where c: "cs_channels s a = Some c"
    using assms(3) by (auto simp: sole_def split: option.splits)
  note R = chan_registered [OF assms(2) c assms(3)]
  note I = chan_inv_replace [OF assms(2) c assms(3)]
  let ?p = "cs_poller s"
  show ?thesis
  proof (cases "ch_index c")
    case Idx_New
    have "chan_inv interest (s\<lparr>cs_channels := (cs_channels s)(a \<mapsto> c), cs_poller := ?p\<rparr>)"
      by (rule I) (use R Idx_New in \<open>auto simp: fun_upd_idem_iff\<close>)
    then show ?thesis using c R Idx_New by (simp add: chan_step_def ep_remove_channel_def)
  next
    case Idx_Added
    obtain k where k: "ep_update ctl Ctl_Del c ?p = Inr (?p\<lparr>po_kernel := k\<rparr>)"
      "interest k = (interest (po_kernel ?p))(ch_fd c := None)"
      using ep_update_ok [OF assms(1), of Ctl_Del ?p c] R(2) Idx_Added by auto
    have "chan_inv interest (s\<lparr>cs_channels := (cs_channels s)(a \<mapsto> c\<lparr>ch_index := Idx_New\<rparr>),
        cs_poller := ?p\<lparr>po_kernel := k, po_channels := (po_channels ?p)(ch_fd c := None)\<rparr>\<rparr>)"
      by (rule I) (use k(2) in simp_all)
    then show ?thesis using c R Idx_Added k(1) by (simp add: chan_step_def ep_remove_channel_def)
  next
    case Idx_Deleted
    have "chan_inv interest (s\<lparr>cs_channels := (cs_channels s)(a \<mapsto> c\<lparr>ch_index := Idx_New\<rparr>),
        cs_poller := ?p\<lparr>po_channels := (po_channels ?p)(ch_fd c := None)\<rparr>\<rparr>)"
      by (rule I) (use R Idx_Deleted in \<open>auto simp: fun_upd_idem_iff\<close>)
    then show ?thesis using c R Idx_Deleted by (simp add: chan_step_def ep_remove_channel_def)
  qed
qed

lemma chan_step_ok:
  assumes "epoll_contract ctl interest" "chan_inv interest s" "op_valid a op s"
  shows "\<exists>s'. chan_step ctl a op s = Inr s' \<and> chan_inv interest s'"
proof (cases op)
  case (New_Channel fd et)
  let ?c = "if et then ch_edge_trigger (ch_new fd) else ch_new fd"
  have new: "ch_index ?c = Idx_New"
    by (simp add: ch_edge_trigger_def ch_new_def)
  have old: "ch_index d = Idx_New" if "cs_channels s a = Some d" for d
    using assms(3) New_Channel that by (simp add: op_valid_def)
  have "(\<exists>d. ((cs_channels s)(a \<mapsto> ?c)) b = Some d \<and> P d \<and> ch_index d \<noteq> Idx_New) \<longleftrightarrow>
      (\<exists>d. cs_channels s b = Some d \<and> P d \<and> ch_index d \<noteq> Idx_New)" for b P
    using new old by (cases "b = a") auto
  moreover have "(\<exists>d. ((cs_channels s)(a \<mapsto> ?c)) b = Some d \<and> P d \<and> ch_index d = Idx_Added \<and> Q d) \<longleftrightarrow>
      (\<exists>d. cs_channels s b = Some d \<and> P d \<and> ch_index d = Idx_Added \<and> Q d)" for b P Q
    using new old by (cases "b = a") auto
  ultimately have "chan_inv interest (s\<lparr>cs_channels := (cs_channels s)(a \<mapsto> ?c)\<rparr>)"
    using assms(2) unfolding chan_inv_def by (simp del: fun_upd_apply)
  then show ?thesis
    using New_Channel by (simp add: chan_step_def)
qed (use assms chan_step_change chan_step_remove in \<open>auto simp: op_valid_def\<close>)

text \<open>
  C25. The poller never loses track of the kernel: over any use of channels by the rules above
  (each object used while no other registered one watches its descriptor), no \<open>epoll_ctl\<close> call
  fails and no exception is thrown, although additions, changes and deletions are chosen from
  the index of the channel alone; afterwards a descriptor is in the kernel's interest list
  exactly when its channel is marked \<open>kAdded\<close>, with the events of that channel, and \<open>channels_\<close> holds
  exactly the channels not marked \<open>kNew\<close>.
\<close>

theorem poller_matches_kernel:
  assumes "epoll_contract ctl interest" "interest k = Map.empty" "run_valid ctl ops (chan_init k)"
  shows "\<exists>s. chan_run ctl ops (chan_init k) = Inr s \<and>
    (\<forall>fd e. interest (po_kernel (cs_poller s)) fd = Some e \<longleftrightarrow>
       (\<exists>a c. cs_channels s a = Some c \<and> ch_fd c = fd \<and> ch_index c = Idx_Added \<and> ch_events c = e)) \<and>
    (\<forall>fd a. po_channels (cs_poller s) fd = Some a \<longleftrightarrow>
       (\<exists>c. cs_channels s a = Some c \<and> ch_fd c = fd \<and> ch_index c \<noteq> Idx_New))"
proof -
  have "\<exists>s'. chan_run ctl ops s = Inr s' \<and> chan_inv interest s'"
    if "chan_inv interest s" "run_valid ctl ops s" for s
    using that
  proof (induction ops arbitrary: s)
    case (Cons x ops)
    obtain a op where x: "x = (a, op)" by fastforce
    with Cons.prems obtain s1 where s1: "chan_step ctl a op s = Inr s1" "chan_inv interest s1"
      using chan_step_ok [OF assms(1), of s a op] by auto
    then show ?case using Cons.IH [OF s1(2)] Cons.prems(2) x by auto
  qed simp
  moreover have "chan_inv interest (chan_init k)"
    using assms(2) by (simp add: chan_inv_def chan_init_def)
  ultimately obtain s where "chan_run ctl ops (chan_init k) = Inr s" "chan_inv interest s"
    using assms(3) by blast
  then show ?thesis by (auto simp: chan_inv_def)
qed

text \<open>A kernel that is just its interest list; a connection's channel, as the code uses it.\<close>

definition map_ctl :: "(int \<Rightarrow> u32 option) epoll_ctl" where
  "map_ctl op fd ev k =
     (case op of
        Ctl_Add \<Rightarrow> if k fd = None then (0, k(fd \<mapsto> ev)) else (17, k)
      | Ctl_Mod \<Rightarrow> if k fd = None then (enoent, k) else (0, k(fd \<mapsto> ev))
      | Ctl_Del \<Rightarrow> if k fd = None then (enoent, k) else (0, k(fd := None)))"

definition demo_channel_ops :: "(nat \<times> ch_op) list" where
  "demo_channel_ops = [(0, New_Channel 7 True), (0, Change Enable_Reading), (0, Change Enable_Writing),
     (0, Change Disable_Writing), (0, Change Disable_All), (0, Remove), (1, New_Channel 7 False),
     (1, Change Enable_Reading)]"

lemma poller_matches_kernel_witness:
  "\<exists>s. chan_run map_ctl demo_channel_ops (chan_init Map.empty) = Inr s \<and>
     po_kernel (cs_poller s) 7 = Some (epollin OR epollrdhup) \<and> po_channels (cs_poller s) 7 = Some 1"
proof -
  have c: "epoll_contract map_ctl (\<lambda>k. k)"
    by (auto simp: epoll_contract_def map_ctl_def)
  have bits: "epollet OR (epollin OR epollrdhup) \<noteq> 0" "epollet OR (epollin OR epollrdhup) OR epollout \<noteq> 0"
    "(epollet OR (epollin OR epollrdhup) OR epollout) AND NOT epollout \<noteq> 0"
    by (simp_all add: epoll_bits)
  have v: "run_valid map_ctl demo_channel_ops (chan_init Map.empty)"
    by (simp add: demo_channel_ops_def chan_init_def op_valid_def sole_def chan_step_def ch_new_def
        ch_edge_trigger_def ep_update_channel_def ep_remove_channel_def ep_update_def map_ctl_def
        ch_is_none_def Let_def bits rbind_def split: if_splits)
  from poller_matches_kernel [OF c refl v] obtain s where
    s: "chan_run map_ctl demo_channel_ops (chan_init Map.empty) = Inr s" by blast
  let ?c = "(ch_new 7)\<lparr>ch_events := epollin OR epollrdhup, ch_index := Idx_Added\<rparr>"
  have ch: "cs_channels s 1 = Some ?c"
    using s by (auto simp add: demo_channel_ops_def chan_init_def chan_step_def ch_new_def
        ch_edge_trigger_def ep_update_channel_def ep_remove_channel_def ep_update_def map_ctl_def
        ch_is_none_def Let_def bits rbind_def split: if_splits)
  have fields: "ch_fd ?c = 7" "ch_index ?c = Idx_Added" "ch_events ?c = (epollin OR epollrdhup)"
    by (simp_all add: ch_new_def)
  have "\<exists>a c. cs_channels s a = Some c \<and> ch_fd c = 7 \<and> ch_index c = Idx_Added \<and>
      ch_events c = (epollin OR epollrdhup)"
    using ch fields by blast
  moreover have "\<exists>c. cs_channels s 1 = Some c \<and> ch_fd c = 7 \<and> ch_index c \<noteq> Idx_New"
    using ch fields by (intro exI [of _ ?c]) (simp add: ch_new_def)
  ultimately show ?thesis
    using poller_matches_kernel [OF c refl v] s by auto
qed

end
