(* ===== verification/Tcp_Connection.thy ===== *)
theory Tcp_Connection
  imports Net_Buffer Channel_Poller
begin

text \<open>
  \<open>TcpConnection\<close> (code/MiniReactor/src/net/TcpConnection.cpp): the state of a connection, its two
  buffers and what its channel is watched for. Everything runs on the loop's thread, so an
  operation is a function. The answers of \<open>send\<close> and \<open>read\<close> are scripts: lists of results, one
  per call, used up to the first that ends the loop; a script that is used up stands for
  \<open>EAGAIN\<close>. Registering the channel's events with the poller is \<open>Channel_Poller\<close>'s.
\<close>

section \<open>State\<close>

datatype tc_state = K_Connecting | K_Connected | K_Disconnecting | K_Disconnected

text \<open>\<open>Io_Took n\<close>: the kernel takes \<open>n\<close> bytes, or all it is offered if that is less.\<close>

datatype io = Io_Took nat | Io_Intr | Io_Again | Io_Error

datatype rd = Rd_Data string | Rd_End | Rd_Intr | Rd_Again | Rd_Error

text \<open>
  After the fields of the class come the effects outside: the bytes the kernel has taken, the
  calls of \<open>shutdownWrite\<close> and of the close callback, how often the message callback ran; and
  the histories of the bytes accepted for sending, received, and taken out by the application.
\<close>

record conn =
  tc_state :: tc_state
  tc_channel :: channel
  tc_input :: nbuf
  tc_output :: nbuf
  tc_wire :: string
  tc_shutdowns :: nat
  tc_closes :: nat
  tc_messages :: nat
  tc_accepted :: string
  tc_received :: string
  tc_consumed :: string

definition tc_new :: "int \<Rightarrow> conn" where
  "tc_new fd = \<lparr>tc_state = K_Connecting,
     tc_channel = ch_edge_trigger ((ch_new fd)\<lparr>ch_has := \<lambda>_. True\<rparr>),
     tc_input = nb_new, tc_output = nb_new, tc_wire = [], tc_shutdowns = 0, tc_closes = 0,
     tc_messages = 0, tc_accepted = [], tc_received = [], tc_consumed = []\<rparr>"

definition tc_change :: "event_change \<Rightarrow> conn \<Rightarrow> conn" where
  "tc_change x c = c\<lparr>tc_channel := ch_change x (tc_channel c)\<rparr>"

section \<open>Operations\<close>

definition tc_connect_established :: "conn \<Rightarrow> conn" where
  "tc_connect_established c = tc_change Enable_Reading (c\<lparr>tc_state := K_Connected\<rparr>)"

definition tc_connect_destroyed :: "conn \<Rightarrow> conn" where
  "tc_connect_destroyed c =
     (if tc_state c \<noteq> K_Disconnected then tc_change Disable_All (c\<lparr>tc_state := K_Disconnected\<rparr>) else c)"

definition tc_handle_close :: "conn \<Rightarrow> conn" where
  "tc_handle_close c =
     (if tc_state c = K_Disconnected then c
      else (tc_change Disable_All (c\<lparr>tc_state := K_Disconnected\<rparr>))\<lparr>tc_closes := tc_closes c + 1\<rparr>)"

text \<open>
  The loop of \<open>sendInLoop\<close>: the bytes taken, the bytes left, and whether an error ended it.
\<close>

fun direct_send :: "io list \<Rightarrow> string \<Rightarrow> string \<times> string \<times> bool" where
  "direct_send [] data = ([], data, False)"
| "direct_send (Io_Took n # script) data =
     (let k = min n (length data)
      in if k = 0 then ([], data, True)
         else if k = length data then (data, [], False)
         else let (taken, left, err) = direct_send script (drop k data) in (take k data @ taken, left, err))"
| "direct_send (Io_Intr # script) data = direct_send script data"
| "direct_send (Io_Again # script) data = ([], data, False)"
| "direct_send (Io_Error # script) data = ([], data, True)"

definition tc_send_in_loop :: "io list \<Rightarrow> string \<Rightarrow> conn \<Rightarrow> conn result" where
  "tc_send_in_loop script message c =
     (if tc_state c \<noteq> K_Connected \<or> message = [] then ret c
      else
        let (taken, left, err) =
              (if \<not> ch_is_writing (tc_channel c) \<and> nb_readable (tc_output c) = 0
               then direct_send script message else ([], message, False));
            c = c\<lparr>tc_wire := tc_wire c @ taken, tc_accepted := tc_accepted c @ message\<rparr>
        in if err then ret (tc_handle_close c)
           else if left = [] then ret c
           else rbind (nb_append left (tc_output c)) (\<lambda>b.
             let c = c\<lparr>tc_output := b\<rparr>
             in ret (if \<not> ch_is_writing (tc_channel c) then tc_change Enable_Writing c else c)))"

definition tc_shutdown_write :: "conn \<Rightarrow> conn" where
  "tc_shutdown_write c = c\<lparr>tc_shutdowns := tc_shutdowns c + 1\<rparr>"

definition tc_shutdown_in_loop :: "conn \<Rightarrow> conn" where
  "tc_shutdown_in_loop c =
     (if tc_state c = K_Connected
      then
        let c = c\<lparr>tc_state := K_Disconnecting\<rparr>
        in if \<not> ch_is_writing (tc_channel c) then tc_shutdown_write c else c
      else c)"

definition tc_force_close_in_loop :: "conn \<Rightarrow> conn" where
  "tc_force_close_in_loop c =
     (if tc_state c = K_Connected \<or> tc_state c = K_Disconnecting then tc_handle_close c else c)"

datatype write_end = Drained | Would_Block | Write_Failed

fun flush_loop :: "io list \<Rightarrow> nbuf \<Rightarrow> string \<Rightarrow> (nbuf \<times> string \<times> write_end) result" where
  "flush_loop [] b wire = ret (b, wire, if nb_readable b > 0 then Would_Block else Drained)"
| "flush_loop (x # script) b wire =
     (if nb_readable b > 0
      then (case x of
              Io_Took n \<Rightarrow>
                let k = min n (nb_readable b)
                in if k = 0 then ret (b, wire, Write_Failed)
                   else rbind (nb_retrieve k b) (\<lambda>b'. flush_loop script b' (wire @ take k (nb_peek b)))
            | Io_Intr \<Rightarrow> flush_loop script b wire
            | Io_Again \<Rightarrow> ret (b, wire, Would_Block)
            | Io_Error \<Rightarrow> ret (b, wire, Write_Failed))
      else ret (b, wire, Drained))"

definition tc_handle_write :: "io list \<Rightarrow> conn \<Rightarrow> conn result" where
  "tc_handle_write script c =
     (if \<not> ch_is_writing (tc_channel c) then ret c
      else rbind (flush_loop script (tc_output c) (tc_wire c)) (\<lambda>(b, wire, e).
        let c = c\<lparr>tc_output := b, tc_wire := wire\<rparr>
        in case e of
             Would_Block \<Rightarrow> ret c
           | Write_Failed \<Rightarrow> ret (tc_handle_close c)
           | Drained \<Rightarrow>
               let c = tc_change Disable_Writing c
               in ret (if tc_state c = K_Disconnecting then tc_shutdown_write c else c)))"

text \<open>
  The loop of \<open>handleRead\<close>: the new input buffer, the bytes received, and how it ended. The
  application's message callback is what it does to the connection, a list of operations.
\<close>

datatype read_end = Read_Blocked | Read_Closed | Read_Failed

fun read_loop :: "rd list \<Rightarrow> nbuf \<Rightarrow> string \<Rightarrow> (nbuf \<times> string \<times> read_end) result" where
  "read_loop [] b got = ret (b, got, Read_Blocked)"
| "read_loop (Rd_Data s # script) b got =
     (if s = [] then ret (b, got, Read_Closed)
      else rbind (nb_append s b) (\<lambda>b. read_loop script b (got @ s)))"
| "read_loop (Rd_End # script) b got = ret (b, got, Read_Closed)"
| "read_loop (Rd_Intr # script) b got = read_loop script b got"
| "read_loop (Rd_Again # script) b got = ret (b, got, Read_Blocked)"
| "read_loop (Rd_Error # script) b got = ret (b, got, Read_Failed)"

datatype user_op = U_Retrieve nat | U_Send "io list" string | U_Shutdown | U_Force_Close

definition tc_retrieve :: "nat \<Rightarrow> conn \<Rightarrow> conn result" where
  "tc_retrieve n c =
     (let k = min n (nb_readable (tc_input c))
      in rbind (nb_retrieve k (tc_input c)) (\<lambda>b.
           ret (c\<lparr>tc_input := b, tc_consumed := tc_consumed c @ take k (nb_peek (tc_input c))\<rparr>)))"

fun tc_user :: "user_op \<Rightarrow> conn \<Rightarrow> conn result" where
  "tc_user (U_Retrieve n) c = tc_retrieve n c"
| "tc_user (U_Send script message) c = tc_send_in_loop script message c"
| "tc_user U_Shutdown c = ret (tc_shutdown_in_loop c)"
| "tc_user U_Force_Close c = ret (tc_force_close_in_loop c)"

fun tc_users :: "user_op list \<Rightarrow> conn \<Rightarrow> conn result" where
  "tc_users [] c = ret c"
| "tc_users (u # us) c = rbind (tc_user u c) (tc_users us)"

definition tc_message_callback :: "user_op list \<Rightarrow> string \<Rightarrow> conn \<Rightarrow> conn result" where
  "tc_message_callback callback got c =
     (if got \<noteq> [] then tc_users callback (c\<lparr>tc_messages := tc_messages c + 1\<rparr>) else ret c)"

definition tc_handle_read :: "rd list \<Rightarrow> user_op list \<Rightarrow> conn \<Rightarrow> conn result" where
  "tc_handle_read script callback c =
     rbind (read_loop script (tc_input c) []) (\<lambda>(b, got, e).
       let c = c\<lparr>tc_input := b, tc_received := tc_received c @ got\<rparr>
       in case e of
            Read_Closed \<Rightarrow> rbind (tc_message_callback callback got c) (\<lambda>c. ret (tc_handle_close c))
          | Read_Failed \<Rightarrow> ret (tc_handle_close c)
          | Read_Blocked \<Rightarrow> tc_message_callback callback got c)"

text \<open>What the event loop and the application do to a connection after it is established.\<close>

datatype conn_op =
    Op_User user_op
  | Op_Readable "rd list" "user_op list"
  | Op_Writable "io list"
  | Op_Hang_Up
  | Op_Socket_Error
  | Op_Destroyed

fun tc_do :: "conn_op \<Rightarrow> conn \<Rightarrow> conn result" where
  "tc_do (Op_User u) c = tc_user u c"
| "tc_do (Op_Readable script callback) c = tc_handle_read script callback c"
| "tc_do (Op_Writable script) c = tc_handle_write script c"
| "tc_do Op_Hang_Up c = ret (tc_handle_close c)"
| "tc_do Op_Socket_Error c = ret (tc_handle_close c)"
| "tc_do Op_Destroyed c = ret (tc_connect_destroyed c)"

fun tc_run :: "conn_op list \<Rightarrow> conn \<Rightarrow> conn result" where
  "tc_run [] c = ret c"
| "tc_run (x # xs) c = rbind (tc_do x c) (tc_run xs)"

section \<open>Invariant\<close>

definition tc_live :: "conn \<Rightarrow> bool" where
  "tc_live c \<longleftrightarrow> tc_state c = K_Connected \<or> tc_state c = K_Disconnecting"

definition tc_inv :: "conn \<Rightarrow> bool" where
  "tc_inv c \<longleftrightarrow>
     nb_ok (tc_input c) \<and> nb_ok (tc_output c) \<and> tc_state c \<noteq> K_Connecting \<and>
     tc_received c = tc_consumed c @ nb_peek (tc_input c) \<and>
     (if tc_live c then tc_wire c @ nb_peek (tc_output c) = tc_accepted c
      else \<exists>lost. tc_wire c @ lost = tc_accepted c) \<and>
     (tc_live c \<longrightarrow> (ch_is_writing (tc_channel c) \<longleftrightarrow> nb_peek (tc_output c) \<noteq> [])) \<and>
     (tc_state c = K_Disconnected \<longrightarrow> ch_events (tc_channel c) = 0) \<and>
     tc_shutdowns c \<le> 1 \<and> (tc_state c = K_Connected \<longrightarrow> tc_shutdowns c = 0) \<and>
     (tc_state c = K_Disconnecting \<longrightarrow>
        tc_shutdowns c = (if ch_is_writing (tc_channel c) then 0 else 1)) \<and>
     (0 < tc_shutdowns c \<longrightarrow> tc_wire c = tc_accepted c) \<and>
     tc_closes c \<le> 1 \<and> (tc_live c \<longrightarrow> tc_closes c = 0)"

lemma writing_bits [simp]:
  "ch_is_writing (ch_change Enable_Writing c)" "\<not> ch_is_writing (ch_change Disable_Writing c)"
  "\<not> ch_is_writing (ch_change Disable_All c)"
  "ch_is_writing (ch_change Enable_Reading c) = ch_is_writing c"
proof -
  have "(ch_events c OR epollout) AND epollout = epollout" by (rule bit_eqI) (auto simp: bit_simps)
  then show "ch_is_writing (ch_change Enable_Writing c)"
    by (simp add: ch_is_writing_def epoll_bits)
  show "\<not> ch_is_writing (ch_change Disable_Writing c)"
    by (simp add: ch_is_writing_def and.assoc)
  show "\<not> ch_is_writing (ch_change Disable_All c)"
    by (simp add: ch_is_writing_def)
  have "(epollin OR epollrdhup) AND epollout = 0" by (simp add: epoll_bits)
  then show "ch_is_writing (ch_change Enable_Reading c) = ch_is_writing c"
    by (simp add: ch_is_writing_def bit.conj_disj_distrib2)
qed

lemma disable_all_events [simp]: "ch_events (ch_change Disable_All c) = 0"
  by simp

declare ch_change.simps [simp del]

lemma readable_0: "nb_ok b \<Longrightarrow> nb_readable b = 0 \<longleftrightarrow> nb_peek b = []"
  using length_nb_peek [of b] by (metis length_0_conv)

lemma direct_send_split:
  "direct_send script data = (taken, left, err) \<Longrightarrow> taken @ left = data"
proof (induction script arbitrary: data taken left err)
  case (Cons x script)
  show ?case
  proof (cases x)
    case (Io_Took n)
    define k where "k = min n (length data)"
    obtain t l e where rec: "direct_send script (drop k data) = (t, l, e)" by (rule prod_cases3)
    have tl: "t @ l = drop k data" by (rule Cons.IH [OF rec])
    have run: "direct_send (x # script) data =
        (if k = 0 then ([], data, True) else if k = length data then (data, [], False)
         else (take k data @ t, l, e))"
      using Io_Took rec by (simp add: k_def [symmetric] Let_def)
    have "(take k data @ t) @ l = data"
      by (simp only: append_assoc tl append_take_drop_id)
    then show ?thesis
      using Cons.prems unfolding run by (cases "k = 0"; cases "k = length data") auto
  qed (use Cons in auto)
qed simp

lemma flush_loop_ok:
  "nb_ok b \<Longrightarrow> \<exists>b' wire' e. flush_loop script b wire = Inr (b', wire', e) \<and> nb_ok b' \<and>
     wire' @ nb_peek b' = wire @ nb_peek b \<and> (e = Drained \<longleftrightarrow> nb_peek b' = [])"
proof (induction script arbitrary: b wire)
  case (Cons x script)
  show ?case
  proof (cases "nb_readable b > 0")
    case True
    then have ne: "nb_peek b \<noteq> []" using Cons.prems readable_0 [of b] by auto
    show ?thesis
    proof (cases x)
      case (Io_Took n)
      define k where "k = min n (nb_readable b)"
      obtain b1 where b1: "nb_retrieve k b = Inr b1" "nb_ok b1" "nb_peek b1 = drop k (nb_peek b)"
        using nb.rem_ok [OF Cons.prems, of k] by (auto simp: k_def Cons.prems)
      have run: "flush_loop (x # script) b wire =
          (if k = 0 then ret (b, wire, Write_Failed) else flush_loop script b1 (wire @ take k (nb_peek b)))"
        using True Io_Took b1(1) by (simp add: k_def [symmetric] Let_def)
      show ?thesis
        unfolding run using Cons.IH [OF b1(2), of "wire @ take k (nb_peek b)"] b1(3) ne Cons.prems by simp
    qed (use Cons True ne in auto)
  qed (use Cons.prems readable_0 [of b] in simp)
qed (auto simp: readable_0 simp flip: neq0_conv)

lemma read_loop_ok:
  "nb_ok b \<Longrightarrow> \<exists>b' s e. read_loop script b got = Inr (b', got @ s, e) \<and> nb_ok b' \<and> nb_peek b' = nb_peek b @ s"
proof (induction script arbitrary: b got)
  case (Cons x script)
  show ?case
  proof (cases x)
    case (Rd_Data s)
    obtain b1 where b1: "nb_append s b = Inr b1" "nb_ok b1" "nb_peek b1 = nb_peek b @ s"
      using nb.app_ok [OF Cons.prems] by blast
    from Cons.IH [OF b1(2), of "got @ s"] b1 Rd_Data Cons.prems show ?thesis by (cases "s = []") auto
  qed (use Cons in auto)
qed simp

lemma tc_inv_live: "tc_inv c \<Longrightarrow> tc_state c \<noteq> K_Disconnected \<Longrightarrow> tc_live c"
  by (cases "tc_state c") (auto simp: tc_inv_def tc_live_def)

lemma tc_inv_close: "tc_inv c \<Longrightarrow> tc_inv (tc_handle_close c) \<and> tc_state (tc_handle_close c) = K_Disconnected"
proof (cases "tc_state c = K_Disconnected")
  case False
  moreover assume "tc_inv c"
  moreover have "tc_live c" using False \<open>tc_inv c\<close> by (rule tc_inv_live [rotated])
  ultimately show ?thesis
    by (auto simp: tc_handle_close_def tc_inv_def tc_live_def tc_change_def)
qed (simp add: tc_handle_close_def)

lemma tc_inv_destroyed: "tc_inv c \<Longrightarrow> tc_inv (tc_connect_destroyed c)"
proof (cases "tc_state c = K_Disconnected")
  case False
  moreover assume "tc_inv c"
  moreover have "tc_live c" using False \<open>tc_inv c\<close> by (rule tc_inv_live [rotated])
  ultimately show ?thesis
    by (auto simp: tc_connect_destroyed_def tc_inv_def tc_live_def tc_change_def)
qed (simp add: tc_connect_destroyed_def)

lemma tc_inv_shutdown: "tc_inv c \<Longrightarrow> tc_inv (tc_shutdown_in_loop c)"
  by (auto simp: tc_shutdown_in_loop_def tc_shutdown_write_def tc_inv_def tc_live_def Let_def)

text \<open>A message that goes out in parts: closing after an error loses the rest.\<close>

lemma tc_inv_fail:
  assumes "tc_inv c" "tc_live c" "wire @ lost = accepted" "tc_shutdowns c = 0" "nb_ok b"
  shows "tc_inv (tc_handle_close (c\<lparr>tc_output := b, tc_wire := wire, tc_accepted := accepted\<rparr>))"
  using assms by (auto simp: tc_handle_close_def tc_inv_def tc_live_def tc_change_def)

lemma tc_inv_send:
  assumes "tc_inv c"
  shows "\<exists>c'. tc_send_in_loop script message c = Inr c' \<and> tc_inv c'"
proof (cases "tc_state c \<noteq> K_Connected \<or> message = []")
  case False
  then have st: "tc_state c = K_Connected" "message \<noteq> []" "tc_live c" by (auto simp: tc_live_def)
  have i: "nb_ok (tc_input c)" "nb_ok (tc_output c)" "tc_wire c @ nb_peek (tc_output c) = tc_accepted c"
    "ch_is_writing (tc_channel c) \<longleftrightarrow> nb_peek (tc_output c) \<noteq> []" "tc_shutdowns c = 0" "tc_closes c = 0"
    "tc_received c = tc_consumed c @ nb_peek (tc_input c)"
    using assms st by (auto simp: tc_inv_def)
  obtain taken left err where d: "(if \<not> ch_is_writing (tc_channel c) \<and> nb_readable (tc_output c) = 0
      then direct_send script message else ([], message, False)) = (taken, left, err)"
    by (rule prod_cases3)
  have split: "taken @ left = message"
    using d direct_send_split [of script message] by (auto split: if_splits)
  have direct: "nb_peek (tc_output c) = []" if "taken \<noteq> [] \<or> err \<or> left = []"
    using d i(4) st(2) that by (auto split: if_splits)
  let ?c = "c\<lparr>tc_wire := tc_wire c @ taken, tc_accepted := tc_accepted c @ message\<rparr>"
  consider (err) "err" | (all) "\<not> err" "left = []" | (rest) "\<not> err" "left \<noteq> []" by blast
  then show ?thesis
  proof cases
    case err
    have "tc_inv (tc_handle_close ?c)"
      using tc_inv_fail [OF assms st(3), of "tc_wire c @ taken" left "tc_accepted c @ message" "tc_output c"]
        direct err split i by simp
    with d err st show ?thesis by (simp add: tc_send_in_loop_def Let_def)
  next
    case all
    then have "tc_inv ?c"
      using direct split i st by (simp add: tc_inv_def tc_live_def)
    with d all st show ?thesis by (simp add: tc_send_in_loop_def Let_def)
  next
    case rest
    obtain b where b: "nb_append left (tc_output c) = Inr b" "nb_ok b" "nb_peek b = nb_peek (tc_output c) @ left"
      using nb.app_ok [OF i(2)] by blast
    let ?c1 = "?c\<lparr>tc_output := b\<rparr>"
    have bytes: "(tc_wire c @ taken) @ nb_peek b = tc_accepted c @ message"
      using direct split i(3) b(3) by (cases "taken = []") auto
    have "tc_inv (if \<not> ch_is_writing (tc_channel ?c1) then tc_change Enable_Writing ?c1 else ?c1)"
      using bytes b rest i st by (auto simp: tc_inv_def tc_live_def tc_change_def)
    with d rest st b show ?thesis by (simp add: tc_send_in_loop_def Let_def)
  qed
qed (use assms in \<open>auto simp: tc_send_in_loop_def\<close>)

lemma tc_inv_write:
  assumes "tc_inv c"
  shows "\<exists>c'. tc_handle_write script c = Inr c' \<and> tc_inv c'"
proof (cases "ch_is_writing (tc_channel c)")
  case True
  then have "tc_state c \<noteq> K_Disconnected"
    using assms by (auto simp: tc_inv_def ch_is_writing_def)
  then have live: "tc_live c" using assms tc_inv_live by blast
  have i: "nb_ok (tc_output c)" "tc_wire c @ nb_peek (tc_output c) = tc_accepted c" "tc_shutdowns c = 0"
    using assms live True by (auto simp: tc_inv_def tc_live_def)
  obtain b wire e where f: "flush_loop script (tc_output c) (tc_wire c) = Inr (b, wire, e)" "nb_ok b"
    "wire @ nb_peek b = tc_accepted c" "e = Drained \<longleftrightarrow> nb_peek b = []"
    using flush_loop_ok [OF i(1), of script "tc_wire c"] i(2) by auto
  show ?thesis
  proof (cases e)
    case Drained
    then show ?thesis
      using f assms live i True
      by (auto simp: tc_handle_write_def Let_def tc_inv_def tc_live_def tc_change_def tc_shutdown_write_def)
  next
    case Would_Block
    then show ?thesis
      using f assms live i True by (auto simp: tc_handle_write_def Let_def tc_inv_def tc_live_def)
  next
    case Write_Failed
    then show ?thesis
      using f tc_inv_fail [OF assms live f(3) i(3) f(2)] True
      by (simp add: tc_handle_write_def Let_def)
  qed
qed (use assms in \<open>auto simp: tc_handle_write_def\<close>)

lemma tc_inv_retrieve:
  assumes "tc_inv c"
  shows "\<exists>c'. tc_retrieve n c = Inr c' \<and> tc_inv c'"
proof -
  have i: "nb_ok (tc_input c)" "tc_received c = tc_consumed c @ nb_peek (tc_input c)"
    using assms by (simp_all add: tc_inv_def)
  define k where "k = min n (nb_readable (tc_input c))"
  obtain b where b: "nb_retrieve k (tc_input c) = Inr b" "nb_ok b" "nb_peek b = drop k (nb_peek (tc_input c))"
    using nb.rem_ok [OF i(1), of k] i(1) by (auto simp: k_def)
  then show ?thesis
    using assms by (auto simp: tc_retrieve_def k_def [symmetric] Let_def tc_inv_def tc_live_def)
qed

lemma tc_inv_user: "tc_inv c \<Longrightarrow> \<exists>c'. tc_user u c = Inr c' \<and> tc_inv c'"
proof (cases u)
  case U_Force_Close
  then show "tc_inv c \<Longrightarrow> ?thesis"
    using tc_inv_close by (auto simp: tc_force_close_in_loop_def)
qed (auto intro: tc_inv_retrieve tc_inv_send tc_inv_shutdown)

lemma tc_inv_users: "tc_inv c \<Longrightarrow> \<exists>c'. tc_users us c = Inr c' \<and> tc_inv c'"
proof (induction us arbitrary: c)
  case (Cons u us)
  obtain c1 where "tc_user u c = Inr c1" "tc_inv c1"
    using tc_inv_user [OF Cons.prems] by blast
  with Cons.IH show ?case by auto
qed simp

lemma tc_inv_callback: "tc_inv c \<Longrightarrow> \<exists>c'. tc_message_callback us got c = Inr c' \<and> tc_inv c'"
  using tc_inv_users [of "c\<lparr>tc_messages := tc_messages c + 1\<rparr>" us]
  by (auto simp: tc_message_callback_def tc_inv_def tc_live_def)

lemma tc_inv_read:
  assumes "tc_inv c"
  shows "\<exists>c'. tc_handle_read script us c = Inr c' \<and> tc_inv c'"
proof -
  have i: "nb_ok (tc_input c)" "tc_received c = tc_consumed c @ nb_peek (tc_input c)"
    using assms by (simp_all add: tc_inv_def)
  obtain b s e where r: "read_loop script (tc_input c) [] = Inr (b, s, e)" "nb_ok b"
    "nb_peek b = nb_peek (tc_input c) @ s"
    using read_loop_ok [OF i(1), of script "[]"] by auto
  let ?c = "c\<lparr>tc_input := b, tc_received := tc_received c @ s\<rparr>"
  have inv: "tc_inv ?c"
    using assms r(2,3) by (auto simp: tc_inv_def tc_live_def)
  obtain c1 where c1: "tc_message_callback us s ?c = Inr c1" "tc_inv c1"
    using tc_inv_callback [OF inv] by blast
  show ?thesis
    using r(1) c1 tc_inv_close [OF inv] tc_inv_close [OF c1(2)]
    by (cases e) (auto simp: tc_handle_read_def Let_def)
qed

lemma tc_inv_do: "tc_inv c \<Longrightarrow> \<exists>c'. tc_do x c = Inr c' \<and> tc_inv c'"
  by (cases x) (auto intro: tc_inv_user tc_inv_read tc_inv_write tc_inv_close [THEN conjunct1] tc_inv_destroyed)

lemma tc_inv_run: "tc_inv c \<Longrightarrow> \<exists>c'. tc_run xs c = Inr c' \<and> tc_inv c'"
proof (induction xs arbitrary: c)
  case (Cons x xs)
  obtain c1 where "tc_do x c = Inr c1" "tc_inv c1"
    using tc_inv_do [OF Cons.prems] by blast
  with Cons.IH show ?case by auto
qed simp

lemma tc_inv_established: "tc_inv (tc_connect_established (tc_new fd))"
proof -
  have "\<not> ch_is_writing (ch_edge_trigger ((ch_new fd)\<lparr>ch_has := \<lambda>_. True\<rparr>))"
    by (simp add: ch_is_writing_def ch_edge_trigger_def ch_new_def epoll_bits)
  then show ?thesis
    using nb_new_ok by (simp add: tc_inv_def tc_connect_established_def tc_new_def tc_change_def tc_live_def)
qed

section \<open>Properties\<close>

text \<open>
  C31. A connection is a pair of byte streams. Over any sequence of events and application calls on
  an established connection, whatever \<open>read\<close> and \<open>send\<close> answer, no operation throws; the bytes
  the kernel took, followed by the output buffer, are the messages accepted, in order, as long
  as the connection is not closed, and a prefix of them afterwards; the bytes received are those
  the application took followed by the input buffer; bytes wait in the output buffer only while
  the channel watches for writing; the write side is shut down at most once, and only when
  everything accepted has been taken; the close callback runs at most once, and a closed
  connection watches nothing.
\<close>

theorem connection_streams:
  "\<exists>c. tc_run xs (tc_connect_established (tc_new fd)) = Inr c \<and>
     (\<exists>lost. tc_wire c @ lost = tc_accepted c) \<and>
     (tc_state c \<noteq> K_Disconnected \<longrightarrow> tc_wire c @ nb_peek (tc_output c) = tc_accepted c \<and>
        (ch_is_writing (tc_channel c) \<longleftrightarrow> nb_peek (tc_output c) \<noteq> [])) \<and>
     tc_received c = tc_consumed c @ nb_peek (tc_input c) \<and>
     tc_shutdowns c \<le> 1 \<and> (0 < tc_shutdowns c \<longrightarrow> tc_wire c = tc_accepted c) \<and>
     (tc_state c = K_Disconnecting \<longrightarrow> tc_shutdowns c = (if ch_is_writing (tc_channel c) then 0 else 1)) \<and>
     tc_closes c \<le> 1 \<and> (tc_state c = K_Disconnected \<longrightarrow> ch_events (tc_channel c) = 0)"
proof -
  obtain c where c: "tc_run xs (tc_connect_established (tc_new fd)) = Inr c" "tc_inv c"
    using tc_inv_run [OF tc_inv_established] by blast
  have "\<exists>lost. tc_wire c @ lost = tc_accepted c"
    using c(2) by (auto simp: tc_inv_def split: if_splits)
  moreover have "tc_live c" if "tc_state c \<noteq> K_Disconnected"
    using tc_inv_live [OF c(2) that] .
  ultimately show ?thesis
    using c by (auto simp: tc_inv_def)
qed

lemma connection_streams_witness:
  "\<exists>c. tc_run [Op_User (U_Send [Io_Took 2, Io_Again] ''hello''), Op_User U_Shutdown,
        Op_Readable [Rd_Data ''abc'', Rd_Again] [U_Retrieve 1, U_Send [] ''late''], Op_Writable [Io_Took 9]]
       (tc_connect_established (tc_new 5)) = Inr c \<and> tc_closes c \<le> 1 \<and> tc_shutdowns c \<le> 1"
  using connection_streams [of "[Op_User (U_Send [Io_Took 2, Io_Again] ''hello''), Op_User U_Shutdown,
      Op_Readable [Rd_Data ''abc'', Rd_Again] [U_Retrieve 1, U_Send [] ''late''], Op_Writable [Io_Took 9]]" 5]
  by blast

end
