(* ===== verification/Tcp_Client.thy ===== *)
theory Tcp_Client
  imports Connector Tcp_Connection
begin

text \<open>
  \<open>TcpClient\<close> (code/MiniReactor/src/net/TcpClient.cpp): a \<open>Connector\<close> and the connections it gives
  rise to, one after the other. The parts that run on the loop's thread are functions; a call
  from another thread sets the connector's flag at once and has its parts run later, so that any
  interleaving is a sequence of parts. \<open>nextConnectionId_\<close>, an \<open>int\<close> of the code, is not bounded
  here: the model covers the first \<open>2 ^ 31 - 1\<close> connections.
\<close>

section \<open>State\<close>

record client_conn =
  kc_name :: string
  kc_socket :: int
  kc_conn :: conn

text \<open>
  Every connection object ever made, by number; \<open>tl_slot\<close> is \<open>connection_\<close>. \<open>tl_calls\<close> is the
  history of the connection callback: the connection, and whether it was connected.
\<close>

record tcp_client =
  tl_name :: string
  tl_connector :: connector
  tl_slot :: "nat option"
  tl_next_id :: int
  tl_conns :: "client_conn list"
  tl_calls :: "(nat \<times> bool) list"

definition tl_new :: "bool \<Rightarrow> string \<Rightarrow> tcp_client result" where
  "tl_new has_loop name =
     (if \<not> has_loop then throw (Invalid_Argument ''Connector requires an EventLoop'')
      else ret \<lparr>tl_name = name, tl_connector = cn_new, tl_slot = None, tl_next_id = 1, tl_conns = [],
             tl_calls = []\<rparr>)"

section \<open>Operations\<close>

definition tl_put :: "nat \<Rightarrow> conn \<Rightarrow> tcp_client \<Rightarrow> tcp_client" where
  "tl_put i c s = s\<lparr>tl_conns := (tl_conns s)[i := (tl_conns s ! i)\<lparr>kc_conn := c\<rparr>]\<rparr>"

definition tl_new_connection :: "int \<Rightarrow> tcp_client \<Rightarrow> tcp_client" where
  "tl_new_connection fd s =
     (let i = length (tl_conns s);
          k = \<lparr>kc_name = tl_name s @ ''-connection-'' @ decimal (nat (tl_next_id s)), kc_socket = fd,
               kc_conn = tc_connect_established (tc_new fd)\<rparr>
      in s\<lparr>tl_next_id := tl_next_id s + 1, tl_conns := tl_conns s @ [k], tl_slot := Some i,
           tl_calls := tl_calls s @ [(i, True)]\<rparr>)"

text \<open>A part of the connector; the sockets it hands on become connections.\<close>

definition tl_connector_do :: "cn_op \<Rightarrow> tcp_client \<Rightarrow> tcp_client result" where
  "tl_connector_do x s =
     rbind (cn_do x (tl_connector s)) (\<lambda>c.
       ret (fold tl_new_connection (drop (length (cn_handed (tl_connector s))) (cn_handed c))
              (s\<lparr>tl_connector := c\<rparr>)))"

definition tl_stop_connector :: "tcp_client \<Rightarrow> tcp_client result" where
  "tl_stop_connector s = rbind (tl_connector_do (Cn_Request False) s) (tl_connector_do Cn_Stop)"

definition tl_remove_connection :: "nat \<Rightarrow> tcp_client \<Rightarrow> tcp_client result" where
  "tl_remove_connection i s =
     (let s = (if tl_slot s = Some i then s\<lparr>tl_slot := None\<rparr> else s)
      in rbind (tl_stop_connector s) (\<lambda>s.
           let s = tl_put i (tc_connect_destroyed (kc_conn (tl_conns s ! i))) s
           in ret (s\<lparr>tl_calls := tl_calls s @ [(i, False)]\<rparr>)))"

text \<open>
  An operation on a connection; when it closes the connection, the close callback has run. What
  the operation does after that does not look at the client.
\<close>

definition tl_on :: "nat \<Rightarrow> conn_op \<Rightarrow> tcp_client \<Rightarrow> tcp_client result" where
  "tl_on i x s =
     (if i < length (tl_conns s)
      then
        let c = kc_conn (tl_conns s ! i)
        in rbind (tc_do x c) (\<lambda>c'.
             let s = tl_put i c' s
             in if tc_closes c' \<noteq> tc_closes c then tl_remove_connection i s else ret s)
      else ret s)"

text \<open>What happens to a connection: all of \<open>conn_op\<close> but \<open>connectDestroyed\<close>, which the client calls.\<close>

datatype conn_act =
    Act_User user_op
  | Act_Read "rd list" "user_op list"
  | Act_Write "io list"
  | Act_Hang_Up
  | Act_Error

fun act_op :: "conn_act \<Rightarrow> conn_op" where
  "act_op (Act_User u) = Op_User u"
| "act_op (Act_Read script callback) = Op_Readable script callback"
| "act_op (Act_Write script) = Op_Writable script"
| "act_op Act_Hang_Up = Op_Hang_Up"
| "act_op Act_Error = Op_Socket_Error"

datatype loop_part = On_Connector cn_op | On_Conn nat conn_act

fun tl_part :: "loop_part \<Rightarrow> tcp_client \<Rightarrow> tcp_client result" where
  "tl_part (On_Connector x) s = tl_connector_do x s"
| "tl_part (On_Conn i a) s = tl_on i (act_op a) s"

fun tl_parts :: "loop_part list \<Rightarrow> tcp_client \<Rightarrow> tcp_client result" where
  "tl_parts [] s = ret s"
| "tl_parts (x # xs) s = rbind (tl_part x s) (tl_parts xs)"

text \<open>
  The methods, called on the loop's thread: \<open>runInLoop\<close> runs their parts at once, and the
  second load of the flag gives what was just stored.
\<close>

definition tl_connect :: "int + int \<Rightarrow> int \<Rightarrow> tcp_client \<Rightarrow> tcp_client result" where
  "tl_connect socket error s =
     rbind (tl_connector_do (Cn_Request True) s) (tl_connector_do (Cn_Start socket error True))"

definition tl_disconnect :: "tcp_client \<Rightarrow> tcp_client result" where
  "tl_disconnect s = (case tl_slot s of None \<Rightarrow> ret s | Some i \<Rightarrow> tl_on i (Op_User U_Shutdown) s)"

definition tl_stop :: "tcp_client \<Rightarrow> tcp_client result" where
  "tl_stop s = rbind (tl_stop_connector s) (\<lambda>s.
     case tl_slot s of None \<Rightarrow> ret s | Some i \<Rightarrow> tl_on i (Op_User U_Force_Close) s)"

text \<open>The destructor takes the callbacks away first, so nobody is told.\<close>

definition tl_destroy :: "tcp_client \<Rightarrow> tcp_client result" where
  "tl_destroy s =
     rbind (tl_connector_do Cn_Clear_Callbacks s) (\<lambda>s. rbind (tl_stop_connector s) (\<lambda>s.
       case tl_slot s of
         None \<Rightarrow> ret s
       | Some i \<Rightarrow> ret (tl_put i (tc_connect_destroyed (tc_force_close_in_loop (kc_conn (tl_conns s ! i))))
                          (s\<lparr>tl_slot := None\<rparr>))))"

text \<open>
  \<open>handleEvent\<close> of a connection's channel, whose four callbacks are all set. After the read
  callback it goes on to look at the events for writing. The channel is a member of the
  connection object; \<open>held\<close>: somebody besides the client keeps a reference to it. Without one it
  is freed when the close callback has returned.
\<close>

fun tl_callbacks :: "bool \<Rightarrow> nat \<Rightarrow> rd list \<Rightarrow> user_op list \<Rightarrow> io list \<Rightarrow> ch_callback list \<Rightarrow>
    tcp_client \<Rightarrow> tcp_client result" where
  "tl_callbacks held i script callback out [] s = ret s"
| "tl_callbacks held i script callback out (Read_Cb # cbs) s =
     rbind (tl_on i (Op_Readable script callback) s) (\<lambda>s.
       if tl_slot s \<noteq> Some i \<and> \<not> held then throw (UB ''use after free'')
       else tl_callbacks held i script callback out cbs s)"
| "tl_callbacks held i script callback out (Write_Cb # cbs) s =
     rbind (tl_on i (Op_Writable out) s) (tl_callbacks held i script callback out cbs)"
| "tl_callbacks held i script callback out (Close_Cb # cbs) s =
     rbind (tl_on i Op_Hang_Up s) (tl_callbacks held i script callback out cbs)"
| "tl_callbacks held i script callback out (Error_Cb # cbs) s =
     rbind (tl_on i Op_Socket_Error s) (tl_callbacks held i script callback out cbs)"

definition tl_event_callbacks :: "u32 \<Rightarrow> ch_callback list" where
  "tl_event_callbacks revents = ch_handle_event ((ch_new 0)\<lparr>ch_has := \<lambda>_. True, ch_revents := revents\<rparr>)"

definition tl_handle_event :: "bool \<Rightarrow> nat \<Rightarrow> u32 \<Rightarrow> rd list \<Rightarrow> user_op list \<Rightarrow> io list \<Rightarrow>
    tcp_client \<Rightarrow> tcp_client result" where
  "tl_handle_event held i revents script callback out s =
     tl_callbacks held i script callback out (tl_event_callbacks revents) s"

datatype tl_op =
    Do_Connect "int + int" int
  | Do_Disconnect
  | Do_Stop
  | Do_Writable int
  | Do_Failed int
  | Do_Conn nat conn_act

fun tl_do :: "tl_op \<Rightarrow> tcp_client \<Rightarrow> tcp_client result" where
  "tl_do (Do_Connect socket error) s = tl_connect socket error s"
| "tl_do Do_Disconnect s = tl_disconnect s"
| "tl_do Do_Stop s = tl_stop s"
| "tl_do (Do_Writable error) s = tl_connector_do (Cn_Writable error (cn_requested (tl_connector s))) s"
| "tl_do (Do_Failed error) s = tl_connector_do (Cn_Failed error (cn_requested (tl_connector s))) s"
| "tl_do (Do_Conn i a) s = tl_on i (act_op a) s"

fun tl_run :: "tl_op list \<Rightarrow> tcp_client \<Rightarrow> tcp_client result" where
  "tl_run [] s = ret s"
| "tl_run (x # xs) s = rbind (tl_do x s) (tl_run xs)"

section \<open>Closing\<close>

text \<open>Without \<open>connectDestroyed\<close> a connection is closed exactly when its close callback has run.\<close>

definition tc_told :: "conn \<Rightarrow> bool" where
  "tc_told c \<longleftrightarrow> tc_closes c = of_bool (tc_state c = K_Disconnected)"

definition told_step :: "conn \<Rightarrow> conn \<Rightarrow> bool" where
  "told_step c c' \<longleftrightarrow> (tc_told c \<longrightarrow> tc_told c' \<and> (tc_state c = K_Disconnected \<longrightarrow> tc_state c' = K_Disconnected))"

lemma told_step_refl [simp]: "told_step c c"
  by (simp add: told_step_def)

lemma told_step_trans: "told_step c c1 \<Longrightarrow> told_step c1 c2 \<Longrightarrow> told_step c c2"
  by (auto simp: told_step_def)

lemma told_same: "tc_state c' = tc_state c \<Longrightarrow> tc_closes c' = tc_closes c \<Longrightarrow> told_step c c'"
  by (simp add: told_step_def tc_told_def)

lemma told_close [simp]: "told_step c (tc_handle_close c)"
  by (auto simp: told_step_def tc_told_def tc_handle_close_def tc_change_def)

lemma told_close_upd: "tc_state c' = tc_state c \<Longrightarrow> tc_closes c' = tc_closes c \<Longrightarrow> told_step c (tc_handle_close c')"
  by (rule told_step_trans [OF told_same told_close])

lemma told_send: "tc_send_in_loop script message c = Inr c' \<Longrightarrow> told_step c c'"
  by (auto simp: tc_send_in_loop_def Let_def rbind_Inr_iff tc_change_def split: if_splits prod.splits
      intro!: told_same told_close_upd)

lemma told_user: "tc_user u c = Inr c' \<Longrightarrow> told_step c c'"
  by (cases u) (auto simp: tc_retrieve_def Let_def rbind_Inr_iff tc_shutdown_in_loop_def tc_shutdown_write_def
      tc_force_close_in_loop_def told_step_def tc_told_def tc_handle_close_def tc_change_def
      dest!: told_send split: if_splits)

lemma told_users: "tc_users us c = Inr c' \<Longrightarrow> told_step c c'"
proof (induction us arbitrary: c)
  case (Cons u us)
  then show ?case using told_user told_step_trans by (auto simp: rbind_Inr_iff) blast
qed simp

lemma told_callback: "tc_message_callback us got c = Inr c' \<Longrightarrow> told_step c c'"
  using told_users [of us "c\<lparr>tc_messages := tc_messages c + 1\<rparr>" c']
  by (auto simp: tc_message_callback_def told_step_def tc_told_def split: if_splits)

lemma told_read:
  assumes "tc_handle_read script us c = Inr c'"
  shows "told_step c c'"
proof -
  obtain b got e where r: "read_loop script (tc_input c) [] = Inr (b, got, e)"
    using assms by (cases "read_loop script (tc_input c) []") (auto simp: tc_handle_read_def)
  let ?c = "c\<lparr>tc_input := b, tc_received := tc_received c @ got\<rparr>"
  have same: "told_step c ?c" by (rule told_same) simp_all
  show ?thesis
  proof (cases e)
    case Read_Blocked
    then have "told_step ?c c'"
      using assms r told_callback by (simp add: tc_handle_read_def Let_def)
    with same show ?thesis by (rule told_step_trans)
  next
    case Read_Closed
    then obtain c1 where "tc_message_callback us got ?c = Inr c1" "c' = tc_handle_close c1"
      using assms r by (auto simp: tc_handle_read_def Let_def rbind_Inr_iff)
    then have "told_step ?c c'"
      using told_step_trans [OF told_callback told_close] by simp
    with same show ?thesis by (rule told_step_trans)
  next
    case Read_Failed
    then have "c' = tc_handle_close ?c"
      using assms r by (simp add: tc_handle_read_def Let_def)
    then show ?thesis using told_step_trans [OF same told_close] by simp
  qed
qed

lemma told_write:
  assumes "tc_handle_write script c = Inr c'"
  shows "told_step c c'"
proof (cases "ch_is_writing (tc_channel c)")
  case True
  then obtain b wire e where r: "flush_loop script (tc_output c) (tc_wire c) = Inr (b, wire, e)"
    using assms by (cases "flush_loop script (tc_output c) (tc_wire c)") (auto simp: tc_handle_write_def)
  show ?thesis
  proof (cases e)
    case Write_Failed
    with assms r True have "c' = tc_handle_close (c\<lparr>tc_output := b, tc_wire := wire\<rparr>)"
      by (simp add: tc_handle_write_def Let_def)
    then show ?thesis by (simp add: told_close_upd)
  qed (use assms r True in \<open>auto simp: tc_handle_write_def Let_def tc_change_def tc_shutdown_write_def
      intro!: told_same\<close>)
qed (use assms in \<open>simp add: tc_handle_write_def\<close>)

lemma told_act: "tc_do (act_op a) c = Inr c' \<Longrightarrow> told_step c c'"
  by (cases a) (auto dest: told_user told_read told_write)

section \<open>Invariant of any interleaving\<close>

definition tl_gone :: "nat \<Rightarrow> tcp_client \<Rightarrow> bool" where
  "tl_gone i s \<longleftrightarrow> tc_state (kc_conn (tl_conns s ! i)) = K_Disconnected"

definition calls_of :: "nat \<Rightarrow> tcp_client \<Rightarrow> bool list" where
  "calls_of i s = map snd (filter (\<lambda>p. fst p = i) (tl_calls s))"

definition kc_ok :: "string \<Rightarrow> nat \<Rightarrow> client_conn \<Rightarrow> bool" where
  "kc_ok name i k \<longleftrightarrow> tc_inv (kc_conn k) \<and> tc_told (kc_conn k) \<and>
     kc_name k = name @ ''-connection-'' @ decimal (i + 1)"

definition tl_core :: "tcp_client \<Rightarrow> bool" where
  "tl_core s \<longleftrightarrow>
     tl_next_id s = int (length (tl_conns s)) + 1 \<and>
     (\<forall>i < length (tl_conns s). kc_ok (tl_name s) i (tl_conns s ! i)) \<and>
     (\<forall>i. tl_slot s = Some i \<longrightarrow> i + 1 = length (tl_conns s) \<and> \<not> tl_gone i s) \<and>
     (\<forall>i. calls_of i s = (if i < length (tl_conns s) then True # (if tl_gone i s then [False] else []) else []))"

definition tl_inv :: "tcp_client \<Rightarrow> bool" where
  "tl_inv s \<longleftrightarrow> tl_core s \<and> cn_inv (tl_connector s) \<and> cn_handed (tl_connector s) = map kc_socket (tl_conns s)"

lemma cn_do_handed: "cn_do x c = Inr c' \<Longrightarrow> \<exists>fds. cn_handed c' = cn_handed c @ fds"
  by (cases x) (auto simp: cn_defs Let_def rbind_Inr_iff split: if_splits sum.splits)

lemma established_ok: "tc_inv (tc_connect_established (tc_new fd))" "tc_told (tc_connect_established (tc_new fd))"
  "tc_state (tc_connect_established (tc_new fd)) = K_Connected"
  by (rule tc_inv_established) (simp_all add: tc_told_def tc_connect_established_def tc_change_def tc_new_def)

lemma new_connection_core:
  assumes "tl_core s"
  shows "tl_core (tl_new_connection fd s)"
proof -
  let ?s = "tl_new_connection fd s"
  have gone: "tl_gone i ?s \<longleftrightarrow> i < length (tl_conns s) \<and> tl_gone i s" if "i \<le> length (tl_conns s)" for i
    using that by (auto simp: tl_gone_def tl_new_connection_def Let_def nth_append established_ok)
  have calls: "calls_of i ?s = calls_of i s @ (if i = length (tl_conns s) then [True] else [])" for i
    by (simp add: calls_of_def tl_new_connection_def Let_def)
  have nat: "nat (tl_next_id s) = length (tl_conns s) + 1"
    using assms by (simp add: tl_core_def)
  have len: "length (tl_conns ?s) = length (tl_conns s) + 1" "tl_slot ?s = Some (length (tl_conns s))"
    by (simp_all add: tl_new_connection_def Let_def)
  have "kc_ok (tl_name ?s) i (tl_conns ?s ! i)" if "i < length (tl_conns ?s)" for i
    using assms that nat
    by (cases "i = length (tl_conns s)")
      (auto simp: tl_core_def tl_new_connection_def Let_def nth_append kc_ok_def established_ok)
  moreover have "tl_next_id ?s = int (length (tl_conns ?s)) + 1"
    using assms by (simp add: tl_core_def tl_new_connection_def Let_def)
  moreover have "calls_of i ?s = (if i < length (tl_conns ?s) then True # (if tl_gone i ?s then [False] else []) else [])" for i
    using assms gone [of i] len by (auto simp: tl_core_def calls)
  ultimately show ?thesis
    using gone [of "length (tl_conns s)"] len by (simp add: tl_core_def)
qed

lemma new_connections_core:
  "tl_core s \<Longrightarrow> tl_core (fold tl_new_connection fds s) \<and>
     map kc_socket (tl_conns (fold tl_new_connection fds s)) = map kc_socket (tl_conns s) @ fds \<and>
     tl_connector (fold tl_new_connection fds s) = tl_connector s"
proof (induction fds arbitrary: s)
  case (Cons fd fds)
  show ?case
    using Cons.IH [OF new_connection_core [OF Cons.prems, of fd]]
    by (simp add: tl_new_connection_def Let_def)
qed simp

lemma tl_core_connector [simp]: "tl_core (s\<lparr>tl_connector := c\<rparr>) = tl_core s"
  by (simp add: tl_core_def tl_gone_def calls_of_def)

lemma connector_do_inv:
  assumes "tl_inv s"
  shows "\<exists>s'. tl_connector_do x s = Inr s' \<and> tl_inv s'"
proof -
  obtain c where c: "cn_do x (tl_connector s) = Inr c" "cn_inv c"
    using assms cn_inv_do [of "tl_connector s" x] by (auto simp: tl_inv_def)
  obtain fds where fds: "cn_handed c = cn_handed (tl_connector s) @ fds"
    using cn_do_handed [OF c(1)] by blast
  show ?thesis
    using new_connections_core [of "s\<lparr>tl_connector := c\<rparr>" fds] c fds assms
    by (auto simp: tl_connector_do_def tl_inv_def)
qed

text \<open>Stopping hands on nothing, so all it changes is the connector.\<close>

definition cn_stopped :: "connector \<Rightarrow> connector" where
  "cn_stopped c = (case cn_stop_in_loop (c\<lparr>cn_requested := False\<rparr>) of Inl e \<Rightarrow> c | Inr c' \<Rightarrow> c')"

lemma cn_stopped:
  assumes "cn_inv c"
  shows "cn_do Cn_Stop (c\<lparr>cn_requested := False\<rparr>) = Inr (cn_stopped c)" "cn_inv (cn_stopped c)"
    "cn_handed (cn_stopped c) = cn_handed c" "cn_state (cn_stopped c) = Cn_Disconnected"
    "cn_requested (cn_stopped c) = False" "cn_has_new (cn_stopped c) = cn_has_new c"
    "cn_has_error (cn_stopped c) = cn_has_error c"
proof -
  have "cn_inv (c\<lparr>cn_requested := False\<rparr>)"
    using assms by (simp add: cn_inv_def cn_held_def)
  then obtain c' where "cn_do Cn_Stop (c\<lparr>cn_requested := False\<rparr>) = Inr c'" "cn_inv c'"
    using cn_inv_do by blast
  then show "cn_do Cn_Stop (c\<lparr>cn_requested := False\<rparr>) = Inr (cn_stopped c)" "cn_inv (cn_stopped c)"
    by (simp_all add: cn_stopped_def)
  show "cn_handed (cn_stopped c) = cn_handed c" "cn_state (cn_stopped c) = Cn_Disconnected"
    "cn_requested (cn_stopped c) = False" "cn_has_new (cn_stopped c) = cn_has_new c"
    "cn_has_error (cn_stopped c) = cn_has_error c"
    using assms by (cases "cn_state c"; simp add: cn_stopped_def cn_inv_def cn_defs)+
qed

lemma stop_connector_eq:
  assumes "cn_inv (tl_connector s)"
  shows "tl_stop_connector s = Inr (s\<lparr>tl_connector := cn_stopped (tl_connector s)\<rparr>)"
  using cn_stopped [OF assms] by (simp add: tl_stop_connector_def tl_connector_do_def)

lemma remove_connection_eq:
  assumes "cn_inv (tl_connector s)" "tl_gone i s" "i < length (tl_conns s)"
  shows "tl_remove_connection i s
    = Inr (s\<lparr>tl_connector := cn_stopped (tl_connector s), tl_slot := (if tl_slot s = Some i then None else tl_slot s),
             tl_calls := tl_calls s @ [(i, False)]\<rparr>)"
proof -
  have same: "tl_put i (tc_connect_destroyed (kc_conn (tl_conns s ! i))) s' = s'"
    if "tl_conns s' = tl_conns s" for s'
    using assms(2) that by (simp add: tl_put_def tc_connect_destroyed_def tl_gone_def)
  let ?s = "s\<lparr>tl_slot := if tl_slot s = Some i then None else tl_slot s\<rparr>"
  have slot: "(if tl_slot s = Some i then s\<lparr>tl_slot := None\<rparr> else s) = ?s"
    by simp
  have "cn_inv (tl_connector ?s)" using assms(1) by simp
  then show ?thesis
    unfolding tl_remove_connection_def Let_def slot stop_connector_eq [OF \<open>cn_inv (tl_connector ?s)\<close>] rbind_simps
    by (simp add: same)
qed

text \<open>An operation on a connection either leaves it open or closed as it was, or closes it.\<close>

lemma tl_on_cases:
  assumes inv: "tl_inv s" and i: "i < length (tl_conns s)"
  obtains c' where "tc_do (act_op a) (kc_conn (tl_conns s ! i)) = Inr c'" "tc_inv c'" "tc_told c'"
    "tl_gone i s \<Longrightarrow> tc_state c' = K_Disconnected"
    "tl_on i (act_op a) s = Inr (if \<not> tl_gone i s \<and> tc_state c' = K_Disconnected
       then (tl_put i c' s)\<lparr>tl_connector := cn_stopped (tl_connector s),
              tl_slot := (if tl_slot s = Some i then None else tl_slot s), tl_calls := tl_calls s @ [(i, False)]\<rparr>
       else tl_put i c' s)"
proof -
  let ?c = "kc_conn (tl_conns s ! i)"
  have c: "tc_inv ?c" "tc_told ?c"
    using inv i by (simp_all add: tl_inv_def tl_core_def kc_ok_def)
  obtain c' where c': "tc_do (act_op a) ?c = Inr c'" "tc_inv c'"
    using tc_inv_do [OF c(1)] by blast
  have told: "tc_told c'" "tc_state ?c = K_Disconnected \<Longrightarrow> tc_state c' = K_Disconnected"
    using told_act [OF c'(1)] c(2) by (simp_all add: told_step_def)
  have closes: "tc_closes c' \<noteq> tc_closes ?c \<longleftrightarrow> \<not> tl_gone i s \<and> tc_state c' = K_Disconnected"
    using c(2) told by (auto simp: tc_told_def tl_gone_def)
  have "tl_remove_connection i (tl_put i c' s)
      = Inr ((tl_put i c' s)\<lparr>tl_connector := cn_stopped (tl_connector s),
          tl_slot := (if tl_slot s = Some i then None else tl_slot s), tl_calls := tl_calls s @ [(i, False)]\<rparr>)"
    if "tc_state c' = K_Disconnected"
    using remove_connection_eq [of "tl_put i c' s" i] inv i that
    by (simp add: tl_put_def tl_gone_def tl_inv_def)
  then have "tl_on i (act_op a) s = Inr (if \<not> tl_gone i s \<and> tc_state c' = K_Disconnected
       then (tl_put i c' s)\<lparr>tl_connector := cn_stopped (tl_connector s),
              tl_slot := (if tl_slot s = Some i then None else tl_slot s), tl_calls := tl_calls s @ [(i, False)]\<rparr>
       else tl_put i c' s)"
    using i c'(1) closes by (simp add: tl_on_def Let_def)
  with c' told that show ?thesis by (auto simp: tl_gone_def)
qed

lemma put_sockets [simp]: "map kc_socket (tl_conns (tl_put i c s)) = map kc_socket (tl_conns s)"
  by (cases "i < length (tl_conns s)") (auto intro!: nth_equalityI simp: tl_put_def nth_list_update list_update_beyond)

lemma put_frame [simp]:
  "tl_slot (tl_put i c s) = tl_slot s" "tl_connector (tl_put i c s) = tl_connector s"
  "tl_calls (tl_put i c s) = tl_calls s" "tl_name (tl_put i c s) = tl_name s"
  "length (tl_conns (tl_put i c s)) = length (tl_conns s)" "tl_next_id (tl_put i c s) = tl_next_id s"
  by (simp_all add: tl_put_def)

lemma put_core:
  assumes "tl_core s" "i < length (tl_conns s)" "tc_inv c'" "tc_told c'"
    "tl_gone i s \<longleftrightarrow> tc_state c' = K_Disconnected"
  shows "tl_core (tl_put i c' s)"
proof -
  have "tl_gone j (tl_put i c' s) = tl_gone j s" for j
    using assms(2,5) by (auto simp: tl_gone_def tl_put_def nth_list_update)
  with assms show ?thesis
    by (auto simp: tl_core_def calls_of_def kc_ok_def tl_put_def nth_list_update)
qed

lemma close_core:
  assumes "tl_core s" "i < length (tl_conns s)" "tc_inv c'" "tc_told c'" "\<not> tl_gone i s" "tc_state c' = K_Disconnected"
  shows "tl_core ((tl_put i c' s)\<lparr>tl_connector := c, tl_slot := (if tl_slot s = Some i then None else tl_slot s),
    tl_calls := tl_calls s @ [(i, False)]\<rparr>)" (is "tl_core ?s")
proof -
  have gone: "tl_gone j ?s \<longleftrightarrow> tl_gone j s \<or> j = i" for j
    using assms(2,6) by (auto simp: tl_gone_def tl_put_def nth_list_update)
  have calls: "calls_of j ?s = calls_of j s @ (if j = i then [False] else [])" for j
    by (simp add: calls_of_def tl_put_def)
  have "kc_ok (tl_name ?s) j (tl_conns ?s ! j)" if "j < length (tl_conns s)" for j
    using assms that by (auto simp: tl_core_def kc_ok_def tl_put_def nth_list_update)
  with assms show ?thesis
    unfolding tl_core_def calls gone by auto
qed

lemma tl_on_inv:
  assumes "tl_inv s"
  shows "\<exists>s'. tl_on i (act_op a) s = Inr s' \<and> tl_inv s'"
proof (cases "i < length (tl_conns s)")
  case True
  obtain c' where c': "tc_inv c'" "tc_told c'" "tl_gone i s \<Longrightarrow> tc_state c' = K_Disconnected"
    "tl_on i (act_op a) s = Inr (if \<not> tl_gone i s \<and> tc_state c' = K_Disconnected
       then (tl_put i c' s)\<lparr>tl_connector := cn_stopped (tl_connector s),
              tl_slot := (if tl_slot s = Some i then None else tl_slot s), tl_calls := tl_calls s @ [(i, False)]\<rparr>
       else tl_put i c' s)"
    using tl_on_cases [OF assms True] by blast
  have core: "tl_core s" "cn_inv (tl_connector s)" "cn_handed (tl_connector s) = map kc_socket (tl_conns s)"
    using assms by (simp_all add: tl_inv_def)
  show ?thesis
  proof (cases "\<not> tl_gone i s \<and> tc_state c' = K_Disconnected")
    case True
    then show ?thesis
      using c' close_core [OF core(1) \<open>i < length (tl_conns s)\<close> c'(1,2)] cn_stopped [OF core(2)] core
      by (simp add: tl_inv_def)
  next
    case False
    then have "tl_gone i s \<longleftrightarrow> tc_state c' = K_Disconnected" using c'(3) by blast
    then show ?thesis
      using False c' put_core [OF core(1) \<open>i < length (tl_conns s)\<close> c'(1,2)] core
      by (auto simp: tl_inv_def)
  qed
qed (use assms in \<open>simp add: tl_on_def\<close>)

lemma new_connection_name: "tl_name (fold tl_new_connection fds s) = tl_name s"
  by (induction fds arbitrary: s) (simp_all add: tl_new_connection_def Let_def)

lemma connector_do_name: "tl_connector_do x s = Inr s' \<Longrightarrow> tl_name s' = tl_name s"
  by (auto simp: tl_connector_do_def rbind_Inr_iff new_connection_name)

lemma stop_name: "tl_stop_connector s = Inr s' \<Longrightarrow> tl_name s' = tl_name s"
  unfolding tl_stop_connector_def rbind_Inr_iff using connector_do_name by metis

lemma remove_name: "tl_remove_connection i s = Inr s' \<Longrightarrow> tl_name s' = tl_name s"
  unfolding tl_remove_connection_def Let_def rbind_Inr_iff
  by (cases "tl_slot s = Some i") (auto dest: stop_name)

lemma on_name: "tl_on i x s = Inr s' \<Longrightarrow> tl_name s' = tl_name s"
  unfolding tl_on_def Let_def
  by (cases "i < length (tl_conns s)") (auto simp: rbind_Inr_iff dest!: remove_name split: if_splits)

lemma parts_name: "tl_parts xs s = Inr s' \<Longrightarrow> tl_name s' = tl_name s"
proof (induction xs arbitrary: s)
  case (Cons x xs)
  then obtain s1 where s1: "tl_part x s = Inr s1" "tl_parts xs s1 = Inr s'" by (auto simp: rbind_Inr_iff)
  have "tl_name s1 = tl_name s"
    using s1(1) by (cases x) (auto dest: connector_do_name on_name)
  with Cons.IH [OF s1(2)] show ?case by simp
qed simp

lemma tl_inv_slot: "tl_inv s \<Longrightarrow> tl_slot s = Some i \<Longrightarrow> i + 1 = length (tl_conns s) \<and> \<not> tl_gone i s"
  by (simp add: tl_inv_def tl_core_def)

lemma tl_inv_conn: "tl_inv s \<Longrightarrow> i < length (tl_conns s) \<Longrightarrow> tc_inv (kc_conn (tl_conns s ! i))"
  by (simp add: tl_inv_def tl_core_def kc_ok_def)

lemma tl_parts_inv: "tl_inv s \<Longrightarrow> \<exists>s'. tl_parts xs s = Inr s' \<and> tl_inv s'"
proof (induction xs arbitrary: s)
  case (Cons x xs)
  obtain s1 where "tl_part x s = Inr s1" "tl_inv s1"
    using connector_do_inv [OF Cons.prems] tl_on_inv [OF Cons.prems] by (cases x) fastforce+
  with Cons.IH show ?case by auto
qed simp

lemma tl_inv_new: "tl_new True name = Inr s \<Longrightarrow> tl_inv s"
  using cn_inv_new by (auto simp: tl_new_def tl_inv_def tl_core_def calls_of_def) (simp add: cn_new_def)

section \<open>On the loop's thread\<close>

text \<open>What the client is, for its user: off, trying to connect, or connected by a connection.\<close>

datatype tl_abs = Off | Trying | Up nat

definition tl_abs :: "tcp_client \<Rightarrow> tl_abs" where
  "tl_abs s = (case tl_slot s of
     Some i \<Rightarrow> Up i
   | None \<Rightarrow> if cn_state (tl_connector s) = Cn_Connecting then Trying else Off)"

text \<open>
  The specification of an operation: \<open>n\<close> connections were made so far; \<open>closes\<close> says whether
  the operation closes the connection it is applied to.
\<close>

fun tl_spec :: "nat \<Rightarrow> bool \<Rightarrow> tl_op \<Rightarrow> tl_abs \<Rightarrow> tl_abs" where
  "tl_spec n closes (Do_Connect socket error) Off =
     (case socket of
        Inl e \<Rightarrow> Off
      | Inr fd \<Rightarrow> if error = 0 then Up n
                  else if error \<in> {einprogress, eintr_connect, eisconn} then Trying else Off)"
| "tl_spec n closes Do_Stop a = Off"
| "tl_spec n closes (Do_Writable error) Trying = (if error = 0 then Up n else Off)"
| "tl_spec n closes (Do_Failed error) Trying = Off"
| "tl_spec n closes (Do_Conn i act) (Up j) = (if i = j \<and> closes then Off else Up j)"
| "tl_spec n closes op a = a"

definition tl_closes :: "tl_op \<Rightarrow> tcp_client \<Rightarrow> bool" where
  "tl_closes op s =
     (case op of
        Do_Conn i act \<Rightarrow> (case tc_do (act_op act) (kc_conn (tl_conns s ! i)) of
                            Inl e \<Rightarrow> False | Inr c \<Rightarrow> tc_state c = K_Disconnected)
      | _ \<Rightarrow> False)"

text \<open>
  On the loop's thread the slot holds the only open connection, it holds one exactly while the
  connector is connected, and the connection callback alternates.
\<close>

definition tl_open_inv :: "tcp_client \<Rightarrow> bool" where
  "tl_open_inv s \<longleftrightarrow> tl_inv s \<and> cn_has_new (tl_connector s) \<and>
     (\<forall>i < length (tl_conns s). \<not> tl_gone i s \<longrightarrow> tl_slot s = Some i) \<and>
     tl_calls s @ (case tl_slot s of None \<Rightarrow> [] | Some i \<Rightarrow> [(i, False)])
       = concat (map (\<lambda>i. [(i, True), (i, False)]) [0..<length (tl_conns s)])"

definition tl_loop_inv :: "tcp_client \<Rightarrow> bool" where
  "tl_loop_inv s \<longleftrightarrow> tl_open_inv s \<and>
     (tl_slot s \<noteq> None \<longleftrightarrow> cn_state (tl_connector s) = Cn_Connected) \<and>
     (cn_state (tl_connector s) \<noteq> Cn_Disconnected \<longrightarrow> cn_requested (tl_connector s))"

lemma tl_loop_inv_new: "tl_new True name = Inr s \<Longrightarrow> tl_loop_inv s"
  using tl_inv_new by (auto simp: tl_loop_inv_def tl_open_inv_def) (auto simp: tl_new_def cn_new_def)

text \<open>A connector operation that hands on nothing, and one that hands on a socket.\<close>

lemma connector_do_none:
  assumes "tl_loop_inv s" "cn_do x (tl_connector s) = Inr c" "cn_handed c = cn_handed (tl_connector s)"
    "cn_has_new c" "cn_state c = Cn_Connected \<longleftrightarrow> cn_state (tl_connector s) = Cn_Connected"
    "cn_state c \<noteq> Cn_Disconnected \<Longrightarrow> cn_requested c"
  shows "tl_connector_do x s = Inr (s\<lparr>tl_connector := c\<rparr>) \<and> tl_loop_inv (s\<lparr>tl_connector := c\<rparr>)"
proof -
  have do: "tl_connector_do x s = Inr (s\<lparr>tl_connector := c\<rparr>)"
    using assms(2,3) by (simp add: tl_connector_do_def)
  moreover have "tl_inv (s\<lparr>tl_connector := c\<rparr>)"
    using connector_do_inv [of s x] do assms(1) by (auto simp: tl_loop_inv_def tl_open_inv_def)
  ultimately show ?thesis
    using assms by (auto simp: tl_loop_inv_def tl_open_inv_def tl_gone_def)
qed

lemma connector_do_new:
  assumes "tl_loop_inv s" "tl_slot s = None" "cn_do x (tl_connector s) = Inr c"
    "cn_handed c = cn_handed (tl_connector s) @ [fd]" "cn_has_new c" "cn_state c = Cn_Connected" "cn_requested c"
  shows "\<exists>s'. tl_connector_do x s = Inr s' \<and> tl_loop_inv s' \<and> tl_slot s' = Some (length (tl_conns s)) \<and>
     tl_connector s' = c"
proof -
  let ?s = "tl_new_connection fd (s\<lparr>tl_connector := c\<rparr>)"
  have do: "tl_connector_do x s = Inr ?s"
    using assms(3,4) by (simp add: tl_connector_do_def)
  moreover have "tl_inv ?s"
    using connector_do_inv [of s x] do assms(1) by (auto simp: tl_loop_inv_def tl_open_inv_def)
  moreover have "tl_slot ?s = Some (length (tl_conns s))" "tl_connector ?s = c"
    by (simp_all add: tl_new_connection_def Let_def)
  moreover have "i = length (tl_conns s)" if "i < length (tl_conns ?s)" "\<not> tl_gone i ?s" for i
    using that assms(1,2)
    by (cases "i < length (tl_conns s)") (auto simp: tl_loop_inv_def tl_open_inv_def tl_gone_def tl_new_connection_def Let_def nth_append)
  moreover have "tl_calls ?s = tl_calls s @ [(length (tl_conns s), True)]" "length (tl_conns ?s) = length (tl_conns s) + 1"
    by (simp_all add: tl_new_connection_def Let_def)
  ultimately have "tl_loop_inv ?s"
    using assms by (auto simp: tl_loop_inv_def tl_open_inv_def)
  with do show ?thesis
    by (simp add: tl_new_connection_def Let_def)
qed

text \<open>An operation on a connection changes the slot only when it closes the open one.\<close>

lemma on_open:
  fixes act :: conn_act
  assumes inv: "tl_open_inv s" and i: "i < length (tl_conns s)"
  defines "closes \<equiv> tl_closes (Do_Conn i act) s \<and> tl_slot s = Some i"
  shows "\<exists>s'. tl_on i (act_op act) s = Inr s' \<and> tl_open_inv s' \<and>
     tl_slot s' = (if closes then None else tl_slot s) \<and>
     tl_connector s' = (if closes then cn_stopped (tl_connector s) else tl_connector s)"
proof -
  have tl: "tl_inv s" "cn_inv (tl_connector s)" using inv by (simp_all add: tl_open_inv_def tl_inv_def)
  obtain c' where c': "tc_do (act_op act) (kc_conn (tl_conns s ! i)) = Inr c'"
    "tl_gone i s \<Longrightarrow> tc_state c' = K_Disconnected"
    and on: "tl_on i (act_op act) s = Inr (if \<not> tl_gone i s \<and> tc_state c' = K_Disconnected
       then (tl_put i c' s)\<lparr>tl_connector := cn_stopped (tl_connector s),
              tl_slot := (if tl_slot s = Some i then None else tl_slot s), tl_calls := tl_calls s @ [(i, False)]\<rparr>
       else tl_put i c' s)"
    using tl_on_cases [OF tl(1) i] by blast
  have open_iff: "\<not> tl_gone i s \<longleftrightarrow> tl_slot s = Some i"
    using tl_inv_slot [OF tl(1)] inv i unfolding tl_open_inv_def by blast
  then have closes: "closes \<longleftrightarrow> \<not> tl_gone i s \<and> tc_state c' = K_Disconnected"
    using c'(1) by (auto simp: closes_def tl_closes_def)
  obtain s' where s': "tl_on i (act_op act) s = Inr s'" "tl_inv s'"
    using tl_on_inv [OF tl(1)] by blast
  have conns: "tl_conns s' = tl_conns (tl_put i c' s)"
    using s'(1) on by (auto split: if_splits)
  have gone: "tl_gone j s' \<longleftrightarrow> (if j = i then tc_state c' = K_Disconnected else tl_gone j s)" for j
    using i by (simp add: conns tl_gone_def tl_put_def nth_list_update)
  show ?thesis
  proof (cases closes)
    case True
    then have s'_eq: "s' = (tl_put i c' s)\<lparr>tl_connector := cn_stopped (tl_connector s), tl_slot := None,
        tl_calls := tl_calls s @ [(i, False)]\<rparr>" and slot: "tl_slot s = Some i" "tc_state c' = K_Disconnected"
      using s'(1) on closes open_iff by simp_all
    have "tl_open_inv s'"
      using inv s'(2) slot gone unfolding tl_open_inv_def
      by (auto simp: s'_eq cn_stopped [OF tl(2)])
    with s'(1) True show ?thesis by (simp add: s'_eq)
  next
    case False
    then have s'_eq: "s' = tl_put i c' s" and "tc_state c' = K_Disconnected \<longleftrightarrow> tl_gone i s"
      using s'(1) on closes c'(2) by auto
    then have "tl_open_inv s'"
      using inv s'(2) gone unfolding tl_open_inv_def by (auto simp: s'_eq)
    with s'(1) False show ?thesis by (simp add: s'_eq)
  qed
qed

lemma force_close_closes: "tl_closes (Do_Conn i (Act_User U_Force_Close)) s
  \<longleftrightarrow> tc_state (kc_conn (tl_conns s ! i)) \<noteq> K_Connecting"
  by (cases "tc_state (kc_conn (tl_conns s ! i))")
    (auto simp: tl_closes_def tc_force_close_in_loop_def tc_handle_close_def tc_change_def)

lemma slot_bound: "tl_open_inv s \<Longrightarrow> tl_slot s = Some i \<Longrightarrow> i < length (tl_conns s)"
  using tl_inv_slot [of s i] by (simp add: tl_open_inv_def)

lemma stop_ok:
  assumes "tl_loop_inv s"
  shows "\<exists>s'. tl_stop s = Inr s' \<and> tl_loop_inv s' \<and> tl_abs s' = Off"
proof -
  have inv: "tl_open_inv s" "cn_inv (tl_connector s)"
    using assms by (simp_all add: tl_loop_inv_def tl_open_inv_def tl_inv_def)
  let ?s = "s\<lparr>tl_connector := cn_stopped (tl_connector s)\<rparr>"
  note st = cn_stopped [OF inv(2)]
  have eq: "tl_stop_connector s = Inr ?s" by (rule stop_connector_eq [OF inv(2)])
  have opn: "tl_open_inv ?s"
    using inv st by (simp add: tl_open_inv_def tl_inv_def tl_gone_def)
  show ?thesis
  proof (cases "tl_slot s")
    case None
    with eq opn st show ?thesis by (simp add: tl_stop_def tl_loop_inv_def tl_abs_def)
  next
    case (Some i)
    have i: "i < length (tl_conns ?s)" "tl_slot ?s = Some i" using slot_bound [OF opn, of i] Some by simp_all
    then have "tl_closes (Do_Conn i (Act_User U_Force_Close)) ?s"
      using opn tl_inv_conn [of ?s i] by (simp add: force_close_closes tl_open_inv_def tc_inv_def)
    then obtain s' where "tl_on i (Op_User U_Force_Close) ?s = Inr s'" "tl_open_inv s'" "tl_slot s' = None"
      "tl_connector s' = cn_stopped (cn_stopped (tl_connector s))"
      using on_open [OF opn i(1), of "Act_User U_Force_Close"] i(2) by auto
    with eq st Some cn_stopped [OF st(2)] show ?thesis
      by (simp add: tl_stop_def tl_loop_inv_def tl_abs_def)
  qed
qed

lemma tl_loop_invD:
  assumes "tl_loop_inv s"
  shows "tl_open_inv s" "tl_inv s" "cn_inv (tl_connector s)" "cn_has_new (tl_connector s)"
    "tl_slot s \<noteq> None \<longleftrightarrow> cn_state (tl_connector s) = Cn_Connected"
    "cn_state (tl_connector s) \<noteq> Cn_Disconnected \<Longrightarrow> cn_requested (tl_connector s)"
  using assms by (simp_all add: tl_loop_inv_def tl_open_inv_def tl_inv_def)

lemma connect_ok:
  assumes inv: "tl_loop_inv s"
  shows "\<exists>s'. tl_connect socket error s = Inr s' \<and> tl_loop_inv s' \<and>
     tl_abs s' = tl_spec (length (tl_conns s)) False (Do_Connect socket error) (tl_abs s)"
proof -
  let ?c = "(tl_connector s)\<lparr>cn_requested := True\<rparr>"
  let ?s = "s\<lparr>tl_connector := ?c\<rparr>"
  have r: "tl_connector_do (Cn_Request True) s = Inr ?s" "tl_loop_inv ?s"
    using connector_do_none [OF inv, of "Cn_Request True" ?c] tl_loop_invD [OF inv] by simp_all
  have con: "tl_connect socket error s = tl_connector_do (Cn_Start socket error True) ?s"
    using r(1) by (simp add: tl_connect_def)
  note d = tl_loop_invD [OF inv]
  let ?c' = "cn_start_in_loop socket error True ?c"
  have do: "cn_do (Cn_Start socket error True) (tl_connector ?s) = Inr ?c'" by simp
  show ?thesis
  proof (cases "cn_state (tl_connector s) = Cn_Disconnected \<and> (\<exists>fd. socket = Inr fd) \<and> error = 0")
    case True
    then obtain fd where fd: "socket = Inr fd" by blast
    have none: "tl_slot ?s = None" using True d(5) by (cases "tl_slot s") simp_all
    obtain s' where "tl_connector_do (Cn_Start socket error True) ?s = Inr s'" "tl_loop_inv s'"
      "tl_slot s' = Some (length (tl_conns ?s))"
      using connector_do_new [OF r(2) none do, of fd] True fd d(4) by (auto simp: cn_start_in_loop_def Let_def)
    with True fd none con show ?thesis by (simp add: tl_abs_def)
  next
    case False
    have same: "cn_handed ?c' = cn_handed (tl_connector s)" "cn_has_new ?c'" "cn_requested ?c'"
      "cn_state ?c' = (if cn_state (tl_connector s) = Cn_Disconnected \<and> (\<exists>fd. socket = Inr fd) \<and>
         error \<in> {einprogress, eintr_connect, eisconn} then Cn_Connecting else cn_state (tl_connector s))"
      using False d(4) by (auto simp: cn_start_in_loop_def Let_def cn_connecting_def cn_report_error_def cn_close_def
          split: sum.splits)
    have "tl_connector_do (Cn_Start socket error True) ?s = Inr (s\<lparr>tl_connector := ?c'\<rparr>)"
      "tl_loop_inv (s\<lparr>tl_connector := ?c'\<rparr>)"
      using connector_do_none [OF r(2) do] same by (auto split: if_splits)
    moreover have "tl_abs (s\<lparr>tl_connector := ?c'\<rparr>) = tl_spec (length (tl_conns s)) False (Do_Connect socket error) (tl_abs s)"
      using False d(5) same(4)
      by (cases "cn_state (tl_connector s)"; cases "tl_slot s"; cases socket) (auto simp: tl_abs_def)
    ultimately show ?thesis using con by simp
  qed
qed

lemma writable_ok:
  assumes inv: "tl_loop_inv s"
  shows "\<exists>s'. tl_do (Do_Writable error) s = Inr s' \<and> tl_loop_inv s' \<and>
     tl_abs s' = tl_spec (length (tl_conns s)) False (Do_Writable error) (tl_abs s)"
proof -
  note d = tl_loop_invD [OF inv]
  let ?x = "Cn_Writable error (cn_requested (tl_connector s))"
  obtain c where c: "cn_do ?x (tl_connector s) = Inr c"
    using cn_inv_do [OF d(3)] by blast
  show ?thesis
  proof (cases "cn_state (tl_connector s) = Cn_Connecting \<and> error = 0")
    case True
    then have none: "tl_slot s = None" using d(5) by (cases "tl_slot s") simp_all
    have new: "cn_handed c = cn_handed (tl_connector s) @ [cn_socket (tl_connector s)]" "cn_has_new c"
      "cn_state c = Cn_Connected" "cn_requested c"
      using c True d(3,4,6) by (auto simp: cn_inv_def cn_defs Let_def)
    obtain s' where "tl_connector_do ?x s = Inr s'" "tl_loop_inv s'" "tl_slot s' = Some (length (tl_conns s))"
      using connector_do_new [OF inv none c new] by blast
    with True none show ?thesis by (simp add: tl_abs_def)
  next
    case False
    have same: "cn_handed c = cn_handed (tl_connector s)" "cn_has_new c" "cn_requested c = cn_requested (tl_connector s)"
      "cn_state c = (if cn_state (tl_connector s) = Cn_Connecting then Cn_Disconnected else cn_state (tl_connector s))"
      using c False d(3,4) by (auto simp: cn_inv_def cn_defs Let_def split: if_splits)
    have "tl_connector_do ?x s = Inr (s\<lparr>tl_connector := c\<rparr>)" "tl_loop_inv (s\<lparr>tl_connector := c\<rparr>)"
      using connector_do_none [OF inv c same(1,2)] same(3,4) d(6) by (auto split: if_splits)
    moreover have "tl_abs (s\<lparr>tl_connector := c\<rparr>) = tl_spec (length (tl_conns s)) False (Do_Writable error) (tl_abs s)"
      using False d(5) same(4) by (cases "cn_state (tl_connector s)"; cases "tl_slot s") (auto simp: tl_abs_def)
    ultimately show ?thesis by simp
  qed
qed

lemma failed_ok:
  assumes inv: "tl_loop_inv s"
  shows "\<exists>s'. tl_do (Do_Failed error) s = Inr s' \<and> tl_loop_inv s' \<and>
     tl_abs s' = tl_spec (length (tl_conns s)) False (Do_Failed error) (tl_abs s)"
proof -
  note d = tl_loop_invD [OF inv]
  let ?x = "Cn_Failed error (cn_requested (tl_connector s))"
  obtain c where c: "cn_do ?x (tl_connector s) = Inr c"
    using cn_inv_do [OF d(3)] by blast
  have same: "cn_handed c = cn_handed (tl_connector s)" "cn_has_new c" "cn_requested c = cn_requested (tl_connector s)"
    "cn_state c = (if cn_state (tl_connector s) = Cn_Connecting then Cn_Disconnected else cn_state (tl_connector s))"
    using c d(3,4) by (auto simp: cn_inv_def cn_defs Let_def split: if_splits)
  have "tl_connector_do ?x s = Inr (s\<lparr>tl_connector := c\<rparr>)" "tl_loop_inv (s\<lparr>tl_connector := c\<rparr>)"
    using connector_do_none [OF inv c same(1,2)] same(3,4) d(6) by (auto split: if_splits)
  moreover have "tl_abs (s\<lparr>tl_connector := c\<rparr>) = tl_spec (length (tl_conns s)) False (Do_Failed error) (tl_abs s)"
    using d(5) same(4) by (cases "cn_state (tl_connector s)"; cases "tl_slot s") (auto simp: tl_abs_def)
  ultimately show ?thesis by simp
qed

lemma on_ok:
  assumes inv: "tl_loop_inv s"
  shows "\<exists>s'. tl_on i (act_op act) s = Inr s' \<and> tl_loop_inv s' \<and>
     tl_abs s' = tl_spec (length (tl_conns s)) (tl_closes (Do_Conn i act) s) (Do_Conn i act) (tl_abs s)"
proof (cases "i < length (tl_conns s)")
  case True
  note d = tl_loop_invD [OF inv]
  let ?closes = "tl_closes (Do_Conn i act) s \<and> tl_slot s = Some i"
  obtain s' where s': "tl_on i (act_op act) s = Inr s'" "tl_open_inv s'"
    "tl_slot s' = (if ?closes then None else tl_slot s)"
    "tl_connector s' = (if ?closes then cn_stopped (tl_connector s) else tl_connector s)"
    using on_open [OF d(1) True, of act] by blast
  have "tl_loop_inv s'"
    using s' inv cn_stopped [OF d(3)] by (cases ?closes) (auto simp: tl_loop_inv_def)
  moreover have "tl_abs s' = tl_spec (length (tl_conns s)) (tl_closes (Do_Conn i act) s) (Do_Conn i act) (tl_abs s)"
    using s' cn_stopped [OF d(3)] by (cases ?closes; cases "tl_slot s") (auto simp: tl_abs_def)
  ultimately show ?thesis using s'(1) by blast
next
  case False
  moreover have "tl_slot s \<noteq> Some i" using False slot_bound [OF tl_loop_invD(1) [OF inv]] by auto
  ultimately show ?thesis
    using inv by (cases "tl_slot s") (auto simp: tl_on_def tl_abs_def)
qed

lemma disconnect_ok:
  assumes inv: "tl_loop_inv s"
  shows "\<exists>s'. tl_disconnect s = Inr s' \<and> tl_loop_inv s' \<and> tl_abs s' = tl_abs s"
proof (cases "tl_slot s")
  case (Some i)
  have "\<not> tl_gone i s" using tl_inv_slot [OF tl_loop_invD(2) [OF inv] Some] by simp
  then have "\<not> tl_closes (Do_Conn i (Act_User U_Shutdown)) s"
    by (auto simp: tl_closes_def tl_gone_def tc_shutdown_in_loop_def tc_shutdown_write_def Let_def)
  with on_ok [OF inv, of i "Act_User U_Shutdown"] Some show ?thesis
    by (auto simp: tl_disconnect_def tl_abs_def)
qed (use inv in \<open>simp add: tl_disconnect_def\<close>)

lemma loop_do:
  assumes "tl_loop_inv s"
  shows "\<exists>s'. tl_do x s = Inr s' \<and> tl_loop_inv s' \<and>
     tl_abs s' = tl_spec (length (tl_conns s)) (tl_closes x s) x (tl_abs s)"
proof (cases x)
  case (Do_Connect socket error)
  then show ?thesis using connect_ok [OF assms, of socket error] by (simp add: tl_closes_def)
next
  case Do_Disconnect
  then show ?thesis using disconnect_ok [OF assms] by simp
next
  case Do_Stop
  then show ?thesis using stop_ok [OF assms] by simp
next
  case (Do_Writable error)
  then show ?thesis using writable_ok [OF assms, of error] by (simp add: tl_closes_def)
next
  case (Do_Failed error)
  then show ?thesis using failed_ok [OF assms, of error] by (simp add: tl_closes_def)
next
  case (Do_Conn i act)
  then show ?thesis using on_ok [OF assms, of i act] by simp
qed

lemma loop_run: "tl_loop_inv s \<Longrightarrow> \<exists>s'. tl_run xs s = Inr s' \<and> tl_loop_inv s'"
proof (induction xs arbitrary: s)
  case (Cons x xs)
  obtain s1 where "tl_do x s = Inr s1" "tl_loop_inv s1"
    using loop_do [OF Cons.prems] by blast
  with Cons.IH show ?case by auto
qed simp

text \<open>The destructor.\<close>

lemma destroy_ok:
  assumes inv: "tl_loop_inv s"
  shows "\<exists>d. tl_destroy s = Inr d \<and> tl_slot d = None \<and> (\<forall>i < length (tl_conns d). tl_gone i d) \<and>
     tl_calls d = tl_calls s \<and> cn_state (tl_connector d) = Cn_Disconnected \<and> cn_inv (tl_connector d) \<and>
     \<not> cn_has_new (tl_connector d) \<and> \<not> cn_has_error (tl_connector d)"
proof -
  note d = tl_loop_invD [OF inv]
  let ?c = "(tl_connector s)\<lparr>cn_has_new := False, cn_has_error := False\<rparr>"
  let ?s = "s\<lparr>tl_connector := ?c\<rparr>"
  have clear: "tl_connector_do Cn_Clear_Callbacks s = Inr ?s" by (simp add: tl_connector_do_def)
  have ci: "cn_inv ?c" using d(3) by (simp add: cn_inv_def cn_held_def)
  note st = cn_stopped [OF ci]
  have stop: "tl_stop_connector ?s = Inr (?s\<lparr>tl_connector := cn_stopped ?c\<rparr>)"
    using stop_connector_eq [of ?s] ci by simp
  have only: "tl_slot s = Some i" if "i < length (tl_conns s)" "\<not> tl_gone i s" for i
    using d(1) that by (simp add: tl_open_inv_def)
  show ?thesis
  proof (cases "tl_slot s")
    case None
    then show ?thesis
      using only st by (auto simp: tl_destroy_def clear stop tl_gone_def)
  next
    case (Some i)
    have i: "i < length (tl_conns s)" using slot_bound [OF d(1) Some] .
    have closed: "tc_state (tc_connect_destroyed c) = K_Disconnected" for c
      by (simp add: tc_connect_destroyed_def tc_change_def)
    have "tl_gone j s" if "j < length (tl_conns s)" "j \<noteq> i" for j
      using only [OF that(1)] that(2) Some by auto
    then show ?thesis
      using st Some i by (auto simp: tl_destroy_def clear stop tl_gone_def tl_put_def closed nth_list_update)
  qed
qed

text \<open>Events.\<close>

lemma event_callbacks: "tl_event_callbacks revents \<in>
  {[Close_Cb], [Error_Cb], [Read_Cb, Write_Cb], [Read_Cb], [Write_Cb], []}"
  by (auto simp: tl_event_callbacks_def ch_handle_event_def Let_def)

lemma read_slot:
  assumes "tl_inv s" "tl_slot s = Some i"
  shows "\<exists>s'. tl_on i (Op_Readable script callback) s = Inr s' \<and> tl_inv s' \<and>
     (tl_slot s' \<noteq> Some i \<longleftrightarrow> tl_closes (Do_Conn i (Act_Read script callback)) s)"
proof -
  have i: "i < length (tl_conns s)" "\<not> tl_gone i s" using tl_inv_slot [OF assms] by simp_all
  obtain c' where "tc_do (Op_Readable script callback) (kc_conn (tl_conns s ! i)) = Inr c'"
    "tl_on i (Op_Readable script callback) s = Inr (if \<not> tl_gone i s \<and> tc_state c' = K_Disconnected
       then (tl_put i c' s)\<lparr>tl_connector := cn_stopped (tl_connector s),
              tl_slot := (if tl_slot s = Some i then None else tl_slot s), tl_calls := tl_calls s @ [(i, False)]\<rparr>
       else tl_put i c' s)"
    using tl_on_cases [OF assms(1) i(1), of "Act_Read script callback"] by auto
  moreover obtain s' where "tl_on i (Op_Readable script callback) s = Inr s'" "tl_inv s'"
    using tl_on_inv [OF assms(1), of i "Act_Read script callback"] by auto
  ultimately show ?thesis
    using i assms(2) by (auto simp: tl_closes_def split: if_splits)
qed

lemma act_op_surj: "x \<noteq> Op_Destroyed \<Longrightarrow> \<exists>act. x = act_op act"
  by (cases x) (metis act_op.simps)+

lemma on_returns: "tl_inv s \<Longrightarrow> x \<noteq> Op_Destroyed \<Longrightarrow> \<exists>s'. tl_on i x s = Inr s'"
  using act_op_surj tl_on_inv by blast

section \<open>Properties\<close>

text \<open>
  C33. The client under any interleaving of its parts, whichever threads its methods are called
  from and whatever the system calls answer: no assertion fails; every socket opened is closed
  by the connector, handed to one connection, or being connected; a connection's callback is
  called when it is established and once more when it is closed; the slot holds the connection
  made last, open, or none; the names are numbered from 1.
\<close>

theorem client_connections:
  assumes "tl_new True name = Inr s0"
  shows "\<exists>s. tl_parts xs s0 = Inr s \<and>
     mset (cn_opened (tl_connector s))
       = mset (cn_closed (tl_connector s)) + mset (map kc_socket (tl_conns s)) + cn_held (tl_connector s) \<and>
     (\<forall>i. calls_of i s = (if i < length (tl_conns s) then True # (if tl_gone i s then [False] else []) else [])) \<and>
     (\<forall>i. tl_slot s = Some i \<longrightarrow> i + 1 = length (tl_conns s) \<and> \<not> tl_gone i s) \<and>
     (\<forall>i < length (tl_conns s). kc_name (tl_conns s ! i) = name @ ''-connection-'' @ decimal (i + 1))"
proof -
  obtain s where s: "tl_parts xs s0 = Inr s" "tl_inv s"
    using tl_parts_inv [OF tl_inv_new [OF assms]] by blast
  have "tl_name s = name"
    using parts_name [OF s(1)] assms by (auto simp: tl_new_def)
  with s show ?thesis
    by (auto simp: tl_inv_def tl_core_def kc_ok_def cn_inv_def)
qed

text \<open>
  C34. Used on the loop's thread the client implements a machine with three states: off, trying,
  and connected by one connection. After any sequence of calls and events each further operation
  has the specified effect on that state; all other connections are closed, the connection
  callback was called alternately for connecting and closing, connection by connection; and the
  destructor leaves no open connection, no socket being connected and no callback.
\<close>

theorem client_states:
  assumes "tl_new True name = Inr s0"
  shows "\<exists>s s' d. tl_run xs s0 = Inr s \<and> tl_do x s = Inr s' \<and>
     tl_abs s' = tl_spec (length (tl_conns s)) (tl_closes x s) x (tl_abs s) \<and>
     (\<forall>i < length (tl_conns s). tl_gone i s \<longleftrightarrow> tl_abs s \<noteq> Up i) \<and>
     tl_calls s @ (case tl_abs s of Up i \<Rightarrow> [(i, False)] | _ \<Rightarrow> [])
       = concat (map (\<lambda>i. [(i, True), (i, False)]) [0..<length (tl_conns s)]) \<and>
     tl_destroy s = Inr d \<and> tl_abs d = Off \<and> tl_calls d = tl_calls s \<and>
     (\<forall>i < length (tl_conns d). tl_gone i d) \<and>
     mset (cn_opened (tl_connector d)) = mset (cn_closed (tl_connector d)) + mset (cn_handed (tl_connector d)) \<and>
     cn_destroy (tl_connector d) = Inr (tl_connector d)"
proof -
  obtain s where s: "tl_run xs s0 = Inr s" "tl_loop_inv s"
    using loop_run [OF tl_loop_inv_new [OF assms]] by blast
  obtain s' where s': "tl_do x s = Inr s'" "tl_abs s' = tl_spec (length (tl_conns s)) (tl_closes x s) x (tl_abs s)"
    using loop_do [OF s(2)] by blast
  obtain d where d: "tl_destroy s = Inr d" "tl_slot d = None" "\<forall>i < length (tl_conns d). tl_gone i d"
    "tl_calls d = tl_calls s" "cn_state (tl_connector d) = Cn_Disconnected" "cn_inv (tl_connector d)"
    using destroy_ok [OF s(2)] by blast
  have abs: "tl_abs s = Up i \<longleftrightarrow> tl_slot s = Some i" for i
    by (auto simp: tl_abs_def split: option.splits)
  have opn: "tl_open_inv s" "tl_inv s" using tl_loop_invD [OF s(2)] by simp_all
  have gone: "\<forall>i < length (tl_conns s). tl_gone i s \<longleftrightarrow> tl_abs s \<noteq> Up i"
    using opn(1) tl_inv_slot [OF opn(2)] unfolding tl_open_inv_def abs by blast
  have calls: "tl_calls s @ (case tl_abs s of Up i \<Rightarrow> [(i, False)] | _ \<Rightarrow> [])
      = concat (map (\<lambda>i. [(i, True), (i, False)]) [0..<length (tl_conns s)])"
    using opn(1) by (cases "tl_slot s") (simp_all add: tl_open_inv_def tl_abs_def)
  have off: "tl_abs d = Off"
    using d(2,5) by (simp add: tl_abs_def)
  have sockets: "mset (cn_opened (tl_connector d)) = mset (cn_closed (tl_connector d)) + mset (cn_handed (tl_connector d))"
    "cn_destroy (tl_connector d) = Inr (tl_connector d)"
    using d(5,6) by (simp_all add: cn_destroy_def cn_inv_def cn_held_def)
  show ?thesis
    by (intro exI conjI) (fact s(1) s' gone calls d(1) off d(4) d(3) sockets)+
qed

text \<open>
  C35. Handling an event of the open connection uses freed memory exactly when the event is read,
  reading closes the connection, and nobody besides the client holds a reference to it; in every
  other case the handler returns.
\<close>

theorem event_after_free:
  assumes "tl_new True name = Inr s0" "tl_parts xs s0 = Inr s" "tl_slot s = Some i"
  shows "(if \<not> held \<and> Read_Cb \<in> set (tl_event_callbacks revents) \<and>
             tl_closes (Do_Conn i (Act_Read script callback)) s
          then tl_handle_event held i revents script callback out s = Inl (UB ''use after free'')
          else \<exists>s'. tl_handle_event held i revents script callback out s = Inr s')"
proof -
  have inv: "tl_inv s"
    using tl_parts_inv [OF tl_inv_new [OF assms(1)], of xs] assms(2) by auto
  obtain s1 where s1: "tl_on i (Op_Readable script callback) s = Inr s1" "tl_inv s1"
    "tl_slot s1 \<noteq> Some i \<longleftrightarrow> tl_closes (Do_Conn i (Act_Read script callback)) s"
    using read_slot [OF inv assms(3)] by blast
  obtain s2 where s2: "tl_on i (Op_Writable out) s = Inr s2" using on_returns [OF inv] by blast
  obtain s3 where s3: "tl_on i (Op_Writable out) s1 = Inr s3" using on_returns [OF s1(2)] by blast
  obtain s4 where s4: "tl_on i Op_Hang_Up s = Inr s4" using on_returns [OF inv] by blast
  obtain s5 where s5: "tl_on i Op_Socket_Error s = Inr s5" using on_returns [OF inv] by blast
  let ?closes = "tl_closes (Do_Conn i (Act_Read script callback)) s"
  consider "tl_event_callbacks revents = [Close_Cb]" | "tl_event_callbacks revents = [Error_Cb]"
    | "tl_event_callbacks revents = [Read_Cb, Write_Cb]" | "tl_event_callbacks revents = [Read_Cb]"
    | "tl_event_callbacks revents = [Write_Cb]" | "tl_event_callbacks revents = []"
    using event_callbacks [of revents] by blast
  then show ?thesis
    using s1(3) by cases (simp_all add: tl_handle_event_def s1(1) s2 s3 s4 s5)
qed

section \<open>Examples\<close>

definition demo_client :: tcp_client where
  "demo_client = \<lparr>tl_name = ''c'', tl_connector = cn_new, tl_slot = None, tl_next_id = 1, tl_conns = [], tl_calls = []\<rparr>"

lemma demo_client_new: "tl_new True ''c'' = Inr demo_client"
  by (simp add: tl_new_def demo_client_def)

definition demo_up :: "loop_part list" where
  "demo_up = [On_Connector (Cn_Request True), On_Connector (Cn_Start (Inr 7) 0 True)]"

definition demo_online :: tcp_client where
  "demo_online = tl_new_connection 7 (demo_client\<lparr>tl_connector :=
     cn_new\<lparr>cn_requested := True, cn_state := Cn_Connected, cn_opened := [7], cn_handed := [7]\<rparr>\<rparr>)"

lemma demo_up_run: "tl_parts demo_up demo_client = Inr demo_online"
  by (simp add: demo_up_def demo_client_def tl_connector_do_def cn_start_in_loop_def cn_new_def Let_def
      demo_online_def)

lemma decimal_1: "decimal (Suc 0) = ''1''"
  by code_simp

lemma demo_online_conn:
  "tl_conns demo_online = [\<lparr>kc_name = ''c-connection-1'', kc_socket = 7,
     kc_conn = tc_connect_established (tc_new 7)\<rparr>]" "tl_slot demo_online = Some 0"
  by (simp_all add: demo_online_def tl_new_connection_def Let_def demo_client_def decimal_1)

text \<open>
  Another thread stops the client and connects it again: the flag is cleared and set, then the
  loop runs the parts. Closing the old connection stops the connector once more and clears the
  flag, so the new request is forgotten.
\<close>

lemma stop_connect_lost:
  "\<exists>s. tl_parts (demo_up @ [On_Connector (Cn_Request False), On_Connector (Cn_Request True),
       On_Connector Cn_Stop, On_Conn 0 (Act_User U_Force_Close), On_Connector (Cn_Start (Inr 8) 0 True)])
       demo_client = Inr s \<and>
     tl_abs s = Off \<and> \<not> cn_requested (tl_connector s) \<and> cn_opened (tl_connector s) = [7]"
proof -
  have append: "tl_parts (xs @ ys) s = rbind (tl_parts xs s) (tl_parts ys)" for xs ys s
    by (induction xs arbitrary: s) (auto simp: rbind_def split: sum.splits)
  have con: "tl_connector demo_online
      = cn_new\<lparr>cn_requested := True, cn_state := Cn_Connected, cn_opened := [7], cn_handed := [7]\<rparr>"
    by (simp add: demo_online_def tl_new_connection_def Let_def)
  have k: "tc_state (tc_connect_established (tc_new 7)) = K_Connected"
    "tc_closes (tc_connect_established (tc_new 7)) = 0"
    by (simp_all add: tc_connect_established_def tc_new_def tc_change_def)
  show ?thesis
    by (simp add: append demo_up_run tl_connector_do_def con cn_new_def cn_stop_in_loop_def tl_on_def Let_def
        demo_online_conn tc_force_close_in_loop_def k tc_handle_close_def tc_change_def
        tl_remove_connection_def tl_stop_connector_def tl_put_def cn_start_in_loop_def tl_abs_def)
qed

lemma client_connections_witness:
  "\<exists>s. tl_parts demo_up demo_client = Inr s \<and> calls_of 0 s = [True] \<and> kc_name (tl_conns s ! 0) = ''c-connection-1''"
proof -
  obtain s where s: "tl_parts demo_up demo_client = Inr s"
    "\<forall>i. calls_of i s = (if i < length (tl_conns s) then True # (if tl_gone i s then [False] else []) else [])"
    "\<forall>i. tl_slot s = Some i \<longrightarrow> i + 1 = length (tl_conns s) \<and> \<not> tl_gone i s"
    "\<forall>i < length (tl_conns s). kc_name (tl_conns s ! i) = ''c'' @ ''-connection-'' @ decimal (i + 1)"
    using client_connections [OF demo_client_new, of demo_up] by blast
  then show ?thesis
    by (auto simp: demo_up_run demo_online_conn decimal_1)
qed

lemma client_states_witness:
  "\<exists>s s' d. tl_run [Do_Connect (Inr 7) einprogress, Do_Writable 0] demo_client = Inr s \<and>
     tl_do Do_Stop s = Inr s' \<and> tl_abs s' = Off \<and> tl_destroy s = Inr d \<and> tl_abs d = Off"
  using client_states [OF demo_client_new, of "[Do_Connect (Inr 7) einprogress, Do_Writable 0]" Do_Stop]
  by (metis tl_spec.simps(2))

lemma event_after_free_witness:
  "tl_handle_event False 0 (epollin OR epollrdhup) [Rd_End] [] [] demo_online = Inl (UB ''use after free'')"
proof -
  have "Read_Cb \<in> set (tl_event_callbacks (epollin OR epollrdhup))"
    by (simp add: tl_event_callbacks_def ch_handle_event_def epoll_bits)
  moreover have "tl_closes (Do_Conn 0 (Act_Read [Rd_End] [])) demo_online"
    by (simp add: tl_closes_def demo_online_conn tc_handle_read_def tc_message_callback_def
        tc_handle_close_def tc_change_def Let_def)
  ultimately show ?thesis
    using event_after_free [OF demo_client_new demo_up_run demo_online_conn(2), of False
        "epollin OR epollrdhup" "[Rd_End]" "[]" "[]"] by simp
qed

end
