(* ===== verification/Tcp_Server.thy ===== *)
theory Tcp_Server
  imports Prelude
begin

text \<open>
  \<open>TcpServer\<close>, \<open>Acceptor\<close> and \<open>EventLoopThreadPool\<close> (code/MiniReactor/src/net/TcpServer.cpp,
  Acceptor.cpp, EventLoopThreadPool.cpp): the life of the accepted connections, each on one loop,
  and the table of the base loop. Loop 0 is the base loop, the others are the pool's. A loop
  runs its functors in order (\<open>Event_Loop\<close>), the loops at their own pace. \<open>nextConnectionId_\<close>, an
  \<open>int\<close> of the code, is not bounded here: the model covers the first \<open>2 ^ 31 - 1\<close> connections.
\<close>

section \<open>The pool of loops\<close>

record loop_pool =
  lpl_started :: bool
  lpl_threads :: nat
  lpl_loops :: nat
  lpl_next :: nat

definition lpl_new :: "nat \<Rightarrow> loop_pool" where
  "lpl_new threads = \<lparr>lpl_started = False, lpl_threads = threads, lpl_loops = 0, lpl_next = 0\<rparr>"

definition lpl_start :: "loop_pool \<Rightarrow> loop_pool result" where
  "lpl_start p =
     (if lpl_started p then throw (Logic_Error ''EventLoopThreadPool can only be started once'')
      else ret (p\<lparr>lpl_started := True, lpl_loops := lpl_threads p\<rparr>))"

definition lpl_get_next_loop :: "loop_pool \<Rightarrow> (nat \<times> loop_pool) result" where
  "lpl_get_next_loop p =
     (if \<not> lpl_started p then throw (Logic_Error ''EventLoopThreadPool is not started'')
      else if lpl_loops p = 0 then ret (0, p)
      else ret (lpl_next p + 1, p\<lparr>lpl_next := (lpl_next p + 1) mod lpl_loops p\<rparr>))"

section \<open>State of the server\<close>

text \<open>
  A connection: created; established; closed, its removal queued on the base loop; taken out of
  the table, its destruction queued on its loop; destroyed. The last two are one state for the
  connection itself.
\<close>

datatype sc_status = Sc_New | Sc_Established | Sc_Closed | Sc_Removed | Sc_Destroyed

record server_conn =
  sc_name :: string
  sc_loop :: nat
  sc_status :: sc_status

datatype ts_task = Establish nat | Remove_Conn nat | Destroy nat

text \<open>Connections are known by their number in order of acceptance.\<close>

record tcp_server =
  ts_pool :: loop_pool
  ts_next_id :: int
  ts_table :: "string \<rightharpoonup> nat"
  ts_conns :: "server_conn list"
  ts_queues :: "ts_task list list"

definition ts_new :: "nat \<Rightarrow> tcp_server" where
  "ts_new threads = \<lparr>ts_pool = (lpl_new threads)\<lparr>lpl_started := True, lpl_loops := threads\<rparr>, ts_next_id = 1,
     ts_table = Map.empty, ts_conns = [], ts_queues = replicate (threads + 1) []\<rparr>"

text \<open>\<open>start\<close> and \<open>setThreadNum\<close>: the pool is created once, when the server starts.\<close>

definition ts_set_thread_num :: "nat \<Rightarrow> loop_pool option \<Rightarrow> nat \<Rightarrow> nat result" where
  "ts_set_thread_num threads pool old =
     (if pool \<noteq> None then throw (Logic_Error ''TcpServer has already started'') else ret threads)"

definition ts_start :: "nat \<Rightarrow> loop_pool option \<Rightarrow> loop_pool result" where
  "ts_start threads pool = (case pool of None \<Rightarrow> lpl_start (lpl_new threads) | Some p \<Rightarrow> ret p)"

section \<open>Operations\<close>

definition ts_queue :: "nat \<Rightarrow> ts_task \<Rightarrow> tcp_server \<Rightarrow> tcp_server" where
  "ts_queue l t s = s\<lparr>ts_queues := (ts_queues s)[l := ts_queues s ! l @ [t]]\<rparr>"

definition ts_set_status :: "nat \<Rightarrow> sc_status \<Rightarrow> tcp_server \<Rightarrow> tcp_server" where
  "ts_set_status i st s = s\<lparr>ts_conns := (ts_conns s)[i := (ts_conns s ! i)\<lparr>sc_status := st\<rparr>]\<rparr>"

text \<open>\<open>runInLoop\<close> from the base loop: at once when the connection's loop is the base loop.\<close>

definition ts_new_connection :: "tcp_server \<Rightarrow> tcp_server result" where
  "ts_new_connection s =
     rbind (lpl_get_next_loop (ts_pool s)) (\<lambda>(l, p).
       let name = ''connection-'' @ decimal (nat (ts_next_id s));
           i = length (ts_conns s);
           c = \<lparr>sc_name = name, sc_loop = l, sc_status = Sc_New\<rparr>;
           s = s\<lparr>ts_pool := p, ts_next_id := ts_next_id s + 1,
                 ts_table := (if ts_table s name = None then (ts_table s)(name \<mapsto> i) else ts_table s),
                 ts_conns := ts_conns s @ [c]\<rparr>
       in ret (if l = 0 then ts_set_status i Sc_Established s else ts_queue l (Establish i) s))"

text \<open>The acceptor takes every connection that is waiting.\<close>

fun ts_accept :: "nat \<Rightarrow> tcp_server \<Rightarrow> tcp_server result" where
  "ts_accept 0 s = ret s"
| "ts_accept (Suc n) s = rbind (ts_new_connection s) (ts_accept n)"

definition ts_remove_connection :: "nat \<Rightarrow> tcp_server \<Rightarrow> tcp_server" where
  "ts_remove_connection i s = ts_queue 0 (Remove_Conn i) (ts_set_status i Sc_Closed s)"

definition ts_remove_in_loop :: "nat \<Rightarrow> tcp_server \<Rightarrow> tcp_server" where
  "ts_remove_in_loop i s =
     (let c = ts_conns s ! i
      in if ts_table s (sc_name c) = None then s
         else ts_queue (sc_loop c) (Destroy i)
                (ts_set_status i Sc_Removed (s\<lparr>ts_table := (ts_table s)(sc_name c := None)\<rparr>)))"

fun ts_run_task :: "ts_task \<Rightarrow> tcp_server \<Rightarrow> tcp_server" where
  "ts_run_task (Establish i) s = ts_set_status i Sc_Established s"
| "ts_run_task (Remove_Conn i) s = ts_remove_in_loop i s"
| "ts_run_task (Destroy i) s = ts_set_status i Sc_Destroyed s"

inductive ts_step :: "tcp_server \<Rightarrow> tcp_server \<Rightarrow> bool" where
  tss_accept: "ts_new_connection s = Inr s' \<Longrightarrow> ts_step s s'"
| tss_close: "i < length (ts_conns s) \<Longrightarrow> sc_status (ts_conns s ! i) = Sc_Established \<Longrightarrow>
    ts_step s (ts_remove_connection i s)"
| tss_run: "l < length (ts_queues s) \<Longrightarrow> ts_queues s ! l = t # ts \<Longrightarrow>
    ts_step s (ts_run_task t (s\<lparr>ts_queues := (ts_queues s)[l := ts]\<rparr>))"

section \<open>Invariant\<close>

definition ts_count :: "ts_task \<Rightarrow> tcp_server \<Rightarrow> nat" where
  "ts_count t s = sum_list (map (\<lambda>q. count (mset q) t) (ts_queues s))"

definition ts_has :: "sc_status set \<Rightarrow> nat \<Rightarrow> tcp_server \<Rightarrow> bool" where
  "ts_has S i s \<longleftrightarrow> i < length (ts_conns s) \<and> sc_status (ts_conns s ! i) \<in> S"

text \<open>The task a connection in its present status is waiting for, and the loop it waits on.\<close>

fun ts_due :: "ts_task \<Rightarrow> tcp_server \<Rightarrow> bool" where
  "ts_due (Establish i) s = ts_has {Sc_New} i s"
| "ts_due (Remove_Conn i) s = ts_has {Sc_Closed} i s"
| "ts_due (Destroy i) s = ts_has {Sc_Removed} i s"

fun ts_place :: "ts_task \<Rightarrow> tcp_server \<Rightarrow> nat" where
  "ts_place (Establish i) s = sc_loop (ts_conns s ! i)"
| "ts_place (Remove_Conn i) s = 0"
| "ts_place (Destroy i) s = sc_loop (ts_conns s ! i)"

definition ts_wf :: "nat \<Rightarrow> tcp_server \<Rightarrow> bool" where
  "ts_wf n s \<longleftrightarrow>
     length (ts_queues s) = n + 1 \<and> lpl_started (ts_pool s) \<and> lpl_loops (ts_pool s) = n \<and>
     ts_next_id s = int (length (ts_conns s)) + 1 \<and>
     (0 < n \<longrightarrow> lpl_next (ts_pool s) = length (ts_conns s) mod n) \<and>
     (\<forall>i < length (ts_conns s). sc_name (ts_conns s ! i) = ''connection-'' @ decimal (i + 1) \<and>
        sc_loop (ts_conns s ! i) = (if n = 0 then 0 else i mod n + 1))"

definition ts_inv :: "nat \<Rightarrow> tcp_server \<Rightarrow> bool" where
  "ts_inv n s \<longleftrightarrow> ts_wf n s \<and>
     (\<forall>t. ts_count t s = of_bool (ts_due t s)) \<and>
     (\<forall>l < length (ts_queues s). \<forall>t \<in> set (ts_queues s ! l). ts_place t s = l) \<and>
     (\<forall>name i. ts_table s name = Some i \<longleftrightarrow>
        ts_has {Sc_New, Sc_Established, Sc_Closed} i s \<and> sc_name (ts_conns s ! i) = name)"


section \<open>Preservation\<close>

text \<open>What the queues hold after a task is queued or taken, and the statuses after a change.\<close>

lemma ts_count_queue [simp]:
  "l < length (ts_queues s) \<Longrightarrow> ts_count t (ts_queue l u s) = ts_count t s + of_bool (t = u)"
  using sum_list_map_update [of l "ts_queues s" "\<lambda>q. count (mset q) t" "ts_queues s ! l @ [u]"]
  by (cases "t = u") (simp_all add: ts_count_def ts_queue_def)

lemma ts_count_pop:
  assumes "l < length (ts_queues s)" "ts_queues s ! l = u # us"
  shows "ts_count t s = ts_count t (s\<lparr>ts_queues := (ts_queues s)[l := us]\<rparr>) + of_bool (t = u)"
  using sum_list_map_update [of l "ts_queues s" "\<lambda>q. count (mset q) t" us] assms
  by (cases "t = u") (simp_all add: ts_count_def)

lemma ts_count_same: "ts_queues s' = ts_queues s \<Longrightarrow> ts_count t s' = ts_count t s"
  by (simp add: ts_count_def)

lemma ts_count_member: "l < length (ts_queues s) \<Longrightarrow> t \<in> set (ts_queues s ! l) \<Longrightarrow> 0 < ts_count t s"
  using sum_list_map_member_le [of l "ts_queues s" "\<lambda>q. count (mset q) t"]
  by (simp add: ts_count_def) (metis count_mset_0_iff gr0I le_zero_eq)

lemma ts_queue_simps [simp]:
  "ts_pool (ts_queue l t s) = ts_pool s" "ts_next_id (ts_queue l t s) = ts_next_id s"
  "ts_table (ts_queue l t s) = ts_table s" "ts_conns (ts_queue l t s) = ts_conns s"
  "length (ts_queues (ts_queue l t s)) = length (ts_queues s)"
  by (simp_all add: ts_queue_def)

lemma ts_set_status_simps [simp]:
  "ts_pool (ts_set_status i st s) = ts_pool s" "ts_next_id (ts_set_status i st s) = ts_next_id s"
  "ts_table (ts_set_status i st s) = ts_table s" "ts_queues (ts_set_status i st s) = ts_queues s"
  "length (ts_conns (ts_set_status i st s)) = length (ts_conns s)"
  "ts_count t (ts_set_status i st s) = ts_count t s"
  by (simp_all add: ts_set_status_def ts_count_def)

lemma ts_conns_set_status [simp]:
  "sc_name (ts_conns (ts_set_status i st s) ! j) = sc_name (ts_conns s ! j)"
  "sc_loop (ts_conns (ts_set_status i st s) ! j) = sc_loop (ts_conns s ! j)"
  by (cases "i < length (ts_conns s)"; simp add: ts_set_status_def nth_list_update list_update_beyond)
     (cases "i < length (ts_conns s)"; simp add: ts_set_status_def nth_list_update list_update_beyond)

lemma ts_count_table [simp]: "ts_count t (s\<lparr>ts_table := m\<rparr>) = ts_count t s"
  by (simp add: ts_count_def)

lemma ts_has_simps [simp]:
  "ts_has S j (ts_queue l t s) = ts_has S j s"
  "ts_has S j (s\<lparr>ts_queues := qs\<rparr>) = ts_has S j s"
  "ts_has S j (s\<lparr>ts_table := m\<rparr>) = ts_has S j s"
  "ts_has S j (ts_set_status i st s)
    = (if i = j then i < length (ts_conns s) \<and> st \<in> S else ts_has S j s)"
  by (auto simp: ts_has_def ts_set_status_def)

lemma ts_has_bound: "ts_has S i s \<Longrightarrow> i < length (ts_conns s)"
  by (simp add: ts_has_def)

text \<open>
  The invariant in a form a step can be checked against: every queue only holds due tasks at
  their place, and every due task is queued once.
\<close>

lemma ts_invI:
  assumes "ts_wf n s" "\<And>t. ts_count t s = of_bool (ts_due t s)"
    "\<And>l t. l < length (ts_queues s) \<Longrightarrow> t \<in> set (ts_queues s ! l) \<Longrightarrow> ts_place t s = l"
    "\<And>name i. ts_table s name = Some i \<longleftrightarrow>
        ts_has {Sc_New, Sc_Established, Sc_Closed} i s \<and> sc_name (ts_conns s ! i) = name"
  shows "ts_inv n s"
  using assms by (auto simp: ts_inv_def)

lemma ts_inv_member: "ts_inv n s \<Longrightarrow> l < length (ts_queues s) \<Longrightarrow> t \<in> set (ts_queues s ! l) \<Longrightarrow>
  ts_due t s \<and> ts_place t s = l"
  using ts_count_member [of l s t] by (cases "ts_due t s") (auto simp: ts_inv_def)

lemma ts_inv_name: "ts_inv n s \<Longrightarrow> i < length (ts_conns s) \<Longrightarrow> j < length (ts_conns s) \<Longrightarrow>
  sc_name (ts_conns s ! i) = sc_name (ts_conns s ! j) \<longleftrightarrow> i = j"
  by (auto simp: ts_inv_def ts_wf_def)

lemma ts_loop_bound: "ts_wf n s \<Longrightarrow> i < length (ts_conns s) \<Longrightarrow>
  sc_loop (ts_conns s ! i) < length (ts_queues s)"
  by (auto simp: ts_wf_def)

lemma ts_wf_set_status [simp]: "ts_wf n (ts_set_status i st s) = ts_wf n s"
  by (simp add: ts_wf_def)

lemma ts_wf_queue [simp]: "ts_wf n (ts_queue l t s) = ts_wf n s"
  by (simp add: ts_wf_def)

lemma ts_wf_table [simp]: "ts_wf n (s\<lparr>ts_table := m\<rparr>) = ts_wf n s"
  by (simp add: ts_wf_def)

lemma ts_place_same [simp]:
  "ts_place t (ts_queue l u s) = ts_place t s"
  "ts_place t (ts_set_status i st s) = ts_place t s"
  "ts_place t (s\<lparr>ts_table := m\<rparr>) = ts_place t s"
  "ts_place t (s\<lparr>ts_queues := qs\<rparr>) = ts_place t s"
  by (cases t; simp; fail)+

lemma ts_set_queue: "l < length (ts_queues s) \<Longrightarrow> set (ts_queues (ts_queue k u s) ! l)
   = (if k = l then insert u (set (ts_queues s ! l)) else set (ts_queues s ! l))"
  by (auto simp: ts_queue_def)


lemma ts_invD:
  assumes "ts_inv n s"
  shows "ts_wf n s" "ts_count t s = of_bool (ts_due t s)"
    "ts_table s name = Some i \<longleftrightarrow>
       ts_has {Sc_New, Sc_Established, Sc_Closed} i s \<and> sc_name (ts_conns s ! i) = name"
  using assms by (auto simp: ts_inv_def)

lemma ts_inv_new: "ts_inv n (ts_new n)"
proof (rule ts_invI)
  show "ts_count t (ts_new n) = of_bool (ts_due t (ts_new n))" for t
    by (cases t) (simp_all add: ts_count_def ts_new_def ts_has_def)
qed (auto simp: ts_wf_def ts_new_def lpl_new_def ts_has_def nth_Cons split: nat.splits)

lemma ts_inv_close:
  assumes inv: "ts_inv n s" and i: "i < length (ts_conns s)" "sc_status (ts_conns s ! i) = Sc_Established"
  shows "ts_inv n (ts_remove_connection i s)"
proof (rule ts_invI)
  have q: "0 < length (ts_queues s)" using inv by (simp add: ts_inv_def ts_wf_def)
  have st: "ts_has S i s \<longleftrightarrow> Sc_Established \<in> S" for S using i by (simp add: ts_has_def)
  show "ts_count t (ts_remove_connection i s) = of_bool (ts_due t (ts_remove_connection i s))" for t
    using q i(1) by (cases t) (auto simp: ts_remove_connection_def ts_invD(2) [OF inv] st)
  show "ts_place t (ts_remove_connection i s) = l"
    if "l < length (ts_queues (ts_remove_connection i s))"
      "t \<in> set (ts_queues (ts_remove_connection i s) ! l)" for l t
    using that ts_inv_member [OF inv, of l t]
    by (auto simp: ts_remove_connection_def ts_set_queue split: if_splits)
  show "ts_table (ts_remove_connection i s) name = Some j \<longleftrightarrow>
      ts_has {Sc_New, Sc_Established, Sc_Closed} j (ts_remove_connection i s) \<and>
      sc_name (ts_conns (ts_remove_connection i s) ! j) = name" for name j
    using i(1) st [of "{Sc_New, Sc_Established, Sc_Closed}"]
    by (auto simp: ts_remove_connection_def ts_invD(3) [OF inv])
qed (simp add: ts_remove_connection_def ts_invD(1) [OF inv])

text \<open>A task taken from a queue: its connection is in the status it was queued for.\<close>

lemma ts_inv_take:
  assumes inv: "ts_inv n s" and l: "l < length (ts_queues s)" "ts_queues s ! l = u # us"
  defines "s1 \<equiv> s\<lparr>ts_queues := (ts_queues s)[l := us]\<rparr>"
  shows "ts_wf n s1" "ts_due u s1" "ts_place u s1 = l"
    "ts_count t s1 = (if t = u then 0 else of_bool (ts_due t s1))"
    "k < length (ts_queues s1) \<Longrightarrow> t \<in> set (ts_queues s1 ! k) \<Longrightarrow> ts_place t s1 = k"
    "ts_table s1 = ts_table s" "ts_conns s1 = ts_conns s" "length (ts_queues s1) = length (ts_queues s)"
proof -
  show "ts_wf n s1"
    using inv by (simp add: ts_inv_def ts_wf_def s1_def)
  have due: "ts_due t s1 = ts_due t s" for t
    by (cases t) (simp_all add: s1_def)
  show "ts_due u s1" "ts_place u s1 = l"
    using ts_inv_member [OF inv l(1), of u] l(2) due by (simp_all add: s1_def)
  then show "ts_count t s1 = (if t = u then 0 else of_bool (ts_due t s1))"
    using ts_count_pop [OF l, of t] due [of t] ts_invD(2) [OF inv, of t]
    by (cases "t = u") (simp_all add: s1_def)
  show "ts_place t s1 = k" if "k < length (ts_queues s1)" "t \<in> set (ts_queues s1 ! k)"
    using that ts_inv_member [OF inv, of k t] l by (auto simp: s1_def nth_list_update split: if_splits)
qed (simp_all add: s1_def)


lemma ts_inv_run:
  assumes inv: "ts_inv n s" and l: "l < length (ts_queues s)" "ts_queues s ! l = u # us"
  shows "ts_inv n (ts_run_task u (s\<lparr>ts_queues := (ts_queues s)[l := us]\<rparr>))"
proof -
  define s1 where "s1 = s\<lparr>ts_queues := (ts_queues s)[l := us]\<rparr>"
  note take = ts_inv_take [OF inv l, folded s1_def]
  note tab = ts_invD(3) [OF inv]
  have has: "ts_has S j s = ts_has S j s1" for S j by (simp add: s1_def)
  have "ts_inv n (ts_run_task u s1)"
  proof (cases u)
    case (Establish i)
    then have i: "ts_has {Sc_New} i s1" using take(2) by simp
    then have st: "ts_has S i s1 \<longleftrightarrow> Sc_New \<in> S" for S by (auto simp: ts_has_def)
    have len: "i < length (ts_conns s1)" using i by (simp add: ts_has_def)
    have "ts_count t s1 = of_bool (ts_due t (ts_set_status i Sc_Established s1))" for t
      using len take(4) [of t] by (cases t) (auto simp: Establish st)
    then show ?thesis
      using len st [of "{Sc_New, Sc_Established, Sc_Closed}"] take(5)
      by (auto intro!: ts_invI simp: Establish take tab has split: if_splits)
  next
    case (Destroy i)
    then have i: "ts_has {Sc_Removed} i s1" using take(2) by simp
    then have st: "ts_has S i s1 \<longleftrightarrow> Sc_Removed \<in> S" for S by (auto simp: ts_has_def)
    have len: "i < length (ts_conns s1)" using i by (simp add: ts_has_def)
    have "ts_count t s1 = of_bool (ts_due t (ts_set_status i Sc_Destroyed s1))" for t
      using len take(4) [of t] by (cases t) (auto simp: Destroy st)
    then show ?thesis
      using len st [of "{Sc_New, Sc_Established, Sc_Closed}"] take(5)
      by (auto intro!: ts_invI simp: Destroy take tab has split: if_splits)
  next
    case (Remove_Conn i)
    then have i: "ts_has {Sc_Closed} i s1" using take(2) by simp
    then have st: "ts_has S i s1 \<longleftrightarrow> Sc_Closed \<in> S" for S by (auto simp: ts_has_def)
    have len: "i < length (ts_conns s1)" using i by (simp add: ts_has_def)
    have "ts_table s1 (sc_name (ts_conns s1 ! i)) = Some i"
      using tab [of "sc_name (ts_conns s1 ! i)" i] st by (simp add: take has)
    then have run: "ts_run_task u s1 = ts_queue (sc_loop (ts_conns s1 ! i)) (Destroy i)
        (ts_set_status i Sc_Removed (s1\<lparr>ts_table := (ts_table s1)(sc_name (ts_conns s1 ! i) := None)\<rparr>))"
      by (simp add: Remove_Conn ts_remove_in_loop_def Let_def)
    show ?thesis
      unfolding run
    proof (rule ts_invI, goal_cases)
      case (2 t)
      then show ?case
        using take(4) [of t] ts_loop_bound [OF take(1) len] len
        by (cases t) (auto simp: Remove_Conn st)
    next
      case (3 k t)
      then show ?case
        using take(5) [of k t] by (auto simp: ts_set_queue split: if_splits)
    next
      case (4 name j)
      then show ?case
        using tab [of name j] ts_inv_name [OF inv, of i j] ts_has_bound [of _ j s] len
        by (cases "i = j") (auto simp: take has)
    next
      case 1
      then show ?case by (simp add: take)
    qed
  qed
  then show ?thesis by (simp add: s1_def)
qed


text \<open>Accepting a connection.\<close>

lemma next_loop:
  assumes "ts_wf n s"
  shows "lpl_get_next_loop (ts_pool s) =
     ret (if n = 0 then (0, ts_pool s)
          else (length (ts_conns s) mod n + 1,
                (ts_pool s)\<lparr>lpl_next := Suc (length (ts_conns s)) mod n\<rparr>))"
  using assms by (auto simp: ts_wf_def lpl_get_next_loop_def mod_Suc_eq)

definition ts_add :: "nat \<Rightarrow> tcp_server \<Rightarrow> tcp_server" where
  "ts_add n s =
     (let i = length (ts_conns s); name = ''connection-'' @ decimal (i + 1)
      in s\<lparr>ts_pool := (if n = 0 then ts_pool s else (ts_pool s)\<lparr>lpl_next := Suc i mod n\<rparr>),
           ts_next_id := ts_next_id s + 1, ts_table := (ts_table s)(name \<mapsto> i),
           ts_conns := ts_conns s @ [\<lparr>sc_name = name, sc_loop = (if n = 0 then 0 else i mod n + 1),
             sc_status = Sc_New\<rparr>]\<rparr>)"

lemma ts_name_new: "ts_inv n s \<Longrightarrow> i < length (ts_conns s) \<Longrightarrow>
  sc_name (ts_conns s ! i) \<noteq> ''connection-'' @ decimal (Suc (length (ts_conns s)))"
  by (auto simp: ts_inv_def ts_wf_def)

lemma ts_name_fresh:
  assumes inv: "ts_inv n s"
  shows "ts_table s (''connection-'' @ decimal (Suc (length (ts_conns s)))) = None"
proof (rule ccontr)
  assume "\<not> ?thesis"
  then obtain i where i: "ts_table s (''connection-'' @ decimal (Suc (length (ts_conns s)))) = Some i"
    by auto
  then have "i < length (ts_conns s)"
      "sc_name (ts_conns s ! i) = ''connection-'' @ decimal (Suc (length (ts_conns s)))"
    by (simp_all add: ts_invD(3) [OF inv] ts_has_def)
  then show False using ts_name_new [OF inv] by blast
qed

lemma ts_new_connection_eq:
  assumes inv: "ts_inv n s"
  shows "ts_new_connection s =
     ret (if n = 0 then ts_set_status (length (ts_conns s)) Sc_Established (ts_add n s)
          else ts_queue (length (ts_conns s) mod n + 1) (Establish (length (ts_conns s))) (ts_add n s))"
proof -
  have "nat (ts_next_id s) = Suc (length (ts_conns s))"
    using inv by (simp add: ts_inv_def ts_wf_def)
  then show ?thesis
    using ts_name_fresh [OF inv]
    by (auto simp: ts_new_connection_def next_loop [OF ts_invD(1) [OF inv]] ts_add_def Let_def)
qed

lemma ts_wf_add:
  assumes "ts_wf n s"
  shows "ts_wf n (ts_add n s)"
  using assms by (auto simp: ts_wf_def ts_add_def Let_def nth_append less_Suc_eq)

lemma ts_has_add [simp]: "ts_has S i (ts_add n s) \<longleftrightarrow>
    (if i = length (ts_conns s) then Sc_New \<in> S else ts_has S i s)"
  by (auto simp: ts_has_def ts_add_def Let_def nth_append)

lemma ts_has_old: "ts_has S i s \<Longrightarrow> i \<noteq> length (ts_conns s)"
  by (simp add: ts_has_def)

lemma ts_add_simps [simp]:
  "ts_queues (ts_add n s) = ts_queues s" "ts_count t (ts_add n s) = ts_count t s"
  "length (ts_conns (ts_add n s)) = Suc (length (ts_conns s))"
  "ts_has S (length (ts_conns s)) s = False"
  by (simp_all add: ts_add_def Let_def ts_count_def ts_has_def)

lemma ts_inv_accept:
  assumes inv: "ts_inv n s" and acc: "ts_new_connection s = Inr s'"
  shows "ts_inv n s'"
proof -
  let ?i = "length (ts_conns s)"
  have wf: "ts_wf n (ts_add n s)" by (rule ts_wf_add) (rule ts_invD(1) [OF inv])
  have place: "ts_place t (ts_add n s) = l"
    if "l < length (ts_queues s)" "t \<in> set (ts_queues s ! l)" for l t
    using ts_inv_member [OF inv that]
    by (cases t) (auto simp: ts_add_def Let_def nth_append ts_has_def)
  have tab: "ts_table (ts_add n s) name = Some j \<longleftrightarrow>
      ts_has {Sc_New, Sc_Established, Sc_Closed} j (ts_add n s) \<and>
      sc_name (ts_conns (ts_add n s) ! j) = name" for name j
    using ts_name_new [OF inv, of j]
    by (cases "j = ?i"; cases "name = ''connection-'' @ decimal (Suc ?i)")
      (auto simp: ts_add_def Let_def nth_append ts_invD(3) [OF inv] ts_has_def)
  have count: "ts_count t s = of_bool (ts_due t (ts_add n s) \<and> t \<noteq> Establish ?i)" for t
    by (cases t) (auto simp: ts_invD(2) [OF inv])
  show ?thesis
  proof (cases "n = 0")
    case True
    then have s': "s' = ts_set_status ?i Sc_Established (ts_add n s)"
      using acc by (simp add: ts_new_connection_eq [OF inv])
    show ?thesis
      unfolding s'
    proof (rule ts_invI, goal_cases)
      case (2 t)
      then show ?case by (cases t) (auto simp: count)
    qed (auto simp: wf place tab)
  next
    case False
    then have s': "s' = ts_queue (?i mod n + 1) (Establish ?i) (ts_add n s)"
      using acc by (simp add: ts_new_connection_eq [OF inv])
    have loop: "sc_loop (ts_conns (ts_add n s) ! ?i) = ?i mod n + 1"
      using False by (simp add: ts_add_def Let_def nth_append)
    have len: "?i mod n + 1 < length (ts_queues s)"
      using wf False by (simp add: ts_wf_def)
    show ?thesis
      unfolding s'
    proof (rule ts_invI, goal_cases)
      case (2 t)
      then show ?case using len by (cases t) (auto simp: count)
    next
      case (3 l t)
      then show ?case using place [of l t] loop by (auto simp: ts_set_queue split: if_splits)
    qed (auto simp: wf tab)
  qed
qed

lemma ts_step_inv: "ts_step s s' \<Longrightarrow> ts_inv n s \<Longrightarrow> ts_inv n s'"
  by (induction rule: ts_step.induct) (auto intro: ts_inv_accept ts_inv_close ts_inv_run)

interpretation server: invariant_system "\<lambda>s. s = ts_new n" ts_step "ts_inv n" for n
  by unfold_locales (auto intro: ts_inv_new ts_step_inv)

text \<open>A server with nothing left to run.\<close>

lemma ts_idle:
  assumes inv: "ts_inv n s" and empty: "\<forall>q \<in> set (ts_queues s). q = []" and i: "i < length (ts_conns s)"
  shows "sc_status (ts_conns s ! i) = Sc_Established \<and> ts_table s (sc_name (ts_conns s ! i)) = Some i \<or>
         sc_status (ts_conns s ! i) = Sc_Destroyed \<and> ts_table s (sc_name (ts_conns s ! i)) = None"
proof -
  have "ts_count t s = 0" for t
    using empty by (auto simp: ts_count_def sum_list_eq_0_iff)
  then have "\<not> ts_due t s" for t
    using ts_invD(2) [OF inv, of t] by simp
  from this [of "Establish i"] this [of "Remove_Conn i"] this [of "Destroy i"]
  consider "sc_status (ts_conns s ! i) = Sc_Established" | "sc_status (ts_conns s ! i) = Sc_Destroyed"
    using i by (cases "sc_status (ts_conns s ! i)") (auto simp: ts_has_def)
  then show ?thesis
  proof cases
    case 1
    then show ?thesis using i by (simp add: ts_invD(3) [OF inv] ts_has_def)
  next
    case 2
    have "ts_table s (sc_name (ts_conns s ! i)) \<noteq> Some j" for j
      using 2 i ts_inv_name [OF inv i, of j] by (auto simp: ts_invD(3) [OF inv] ts_has_def)
    with 2 show ?thesis by auto
  qed
qed

section \<open>Properties\<close>

text \<open>
  C36. In every reachable state of a \<open>TcpServer\<close> with a pool of \<open>n\<close> loops: the connections are
  numbered in order of acceptance and spread round robin over the loops (all on the base loop
  when the pool is empty); a task queued on a loop is one its connection is waiting for in its
  present status, is queued on the right loop (the connection's for establishing and destroying,
  the base loop for the removal from the table) and is queued once; the table holds exactly the
  connections that have not been removed, under their names. So when no task is left, every
  connection ever accepted is either established and in the table, or destroyed and not in it.
\<close>

theorem connections_tracked:
  assumes "reach (\<lambda>s. s = ts_new n) ts_step s"
  shows "(\<forall>i < length (ts_conns s). sc_name (ts_conns s ! i) = ''connection-'' @ decimal (i + 1) \<and>
            sc_loop (ts_conns s ! i) = (if n = 0 then 0 else i mod n + 1)) \<and>
         (\<forall>l < length (ts_queues s). \<forall>t \<in> set (ts_queues s ! l).
            ts_due t s \<and> ts_place t s = l \<and> ts_count t s = 1) \<and>
         (\<forall>name i. ts_table s name = Some i \<longleftrightarrow>
            ts_has {Sc_New, Sc_Established, Sc_Closed} i s \<and> sc_name (ts_conns s ! i) = name) \<and>
         ((\<forall>q \<in> set (ts_queues s). q = []) \<longrightarrow>
            (\<forall>i < length (ts_conns s).
               sc_status (ts_conns s ! i) = Sc_Established \<and> ts_table s (sc_name (ts_conns s ! i)) = Some i \<or>
               sc_status (ts_conns s ! i) = Sc_Destroyed \<and> ts_table s (sc_name (ts_conns s ! i)) = None))"
proof -
  note inv = server.reach_inv [OF assms]
  show ?thesis
  proof (intro conjI, goal_cases)
    case 1
    then show ?case using inv by (simp add: ts_inv_def ts_wf_def)
  next
    case 2
    then show ?case using ts_inv_member [OF inv] ts_invD(2) [OF inv] by simp
  next
    case 3
    then show ?case using ts_invD(3) [OF inv] by blast
  next
    case 4
    then show ?case using ts_idle [OF inv] by blast
  qed
qed

text \<open>One connection, from its acceptance to its destruction, on the first loop of two.\<close>

definition ts_take :: "nat \<Rightarrow> tcp_server \<Rightarrow> tcp_server" where
  "ts_take l s = ts_run_task (hd (ts_queues s ! l)) (s\<lparr>ts_queues := (ts_queues s)[l := tl (ts_queues s ! l)]\<rparr>)"

lemma reach_take: "reach I ts_step s \<Longrightarrow> l < length (ts_queues s) \<Longrightarrow> ts_queues s ! l \<noteq> [] \<Longrightarrow>
  reach I ts_step (ts_take l s)"
  unfolding ts_take_def by (erule reach_step) (rule tss_run, auto)

lemma reach_close: "reach I ts_step s \<Longrightarrow> i < length (ts_conns s) \<Longrightarrow>
  sc_status (ts_conns s ! i) = Sc_Established \<Longrightarrow> reach I ts_step (ts_remove_connection i s)"
  by (erule reach_step) (rule tss_close)

definition ts_demo :: tcp_server where
  "ts_demo = projr (ts_new_connection (ts_new 2))"

lemmas ts_eval = ts_demo_def ts_new_connection_def ts_new_def lpl_new_def lpl_get_next_loop_def ts_take_def
  ts_remove_connection_def ts_remove_in_loop_def ts_set_status_def ts_queue_def Let_def decimal.simps

lemma reach_demo: "reach (\<lambda>s. s = ts_new 2) ts_step ts_demo"
  by (rule reach_step [OF reach_init, of _ "ts_new 2"]) (auto intro!: tss_accept simp: ts_eval)

lemma reach_demo_closed: "reach (\<lambda>s. s = ts_new 2) ts_step (ts_remove_connection 0 (ts_take 1 ts_demo))"
  by (rule reach_close, rule reach_take, rule reach_demo) (simp_all add: ts_eval)

lemma reach_demo_gone:
  "reach (\<lambda>s. s = ts_new 2) ts_step (ts_take 1 (ts_take 0 (ts_remove_connection 0 (ts_take 1 ts_demo))))"
  by (rule reach_take, rule reach_take, rule reach_demo_closed) (simp_all add: ts_eval)

lemma replicate_3: "replicate 3 x = [x, x, x]"
  by (simp add: numeral_3_eq_3)

definition ts_demo_end :: tcp_server where
  "ts_demo_end = ts_take 1 (ts_take 0 (ts_remove_connection 0 (ts_take 1 ts_demo)))"

lemma ts_demo_end_facts:
  "ts_queues ts_demo_end = [[], [], []]" "length (ts_conns ts_demo_end) = 1"
  "sc_status (ts_conns ts_demo_end ! 0) = Sc_Destroyed" "sc_name (ts_conns ts_demo_end ! 0) = ''connection-1''"
  by (simp_all add: ts_demo_end_def ts_eval replicate_3) (simp add: char_of_def bit_0)

lemma connections_tracked_witness:
  "sc_loop (ts_conns ts_demo ! 0) = 1 \<and> ts_table ts_demo_end ''connection-1'' = None"
proof
  show "sc_loop (ts_conns ts_demo ! 0) = 1"
    using connections_tracked [OF reach_demo] by (auto simp: ts_eval)
  note idle = connections_tracked [OF reach_demo_gone, folded ts_demo_end_def, THEN conjunct2,
      THEN conjunct2, THEN conjunct2, rule_format]
  from idle [of 0] show "ts_table ts_demo_end ''connection-1'' = None"
    by (simp add: ts_demo_end_facts)
qed

end
