(* ===== verification/Mpsc_Ring.thy ===== *)
theory Mpsc_Ring
  imports Prelude
begin

text \<open>
  \<open>MpscRingBuffer\<close> (code/AsyncLogger/include/async_logger/mpsc_ring_buffer.h): the lock-free queue
  of the asynchronous logger, with many producers and one consumer. Every access to an atomic
  variable is a step of its own and the threads' steps interleave; the cell contents, which are
  not atomic, are read and written in steps of their own too. Memory is sequentially consistent
  here: the acquire and release orders of the code are not weakened further. Positions are
  64-bit words; the step relation stops before one reaches \<open>2 ^ 63\<close>.
\<close>

section \<open>The queue\<close>

text \<open>A value that was never written, or was moved out, is \<open>None\<close>.\<close>

record 'a mpsc =
  mq_seqs :: "u64 list"
  mq_values :: "'a option list"
  mq_enqueue :: u64
  mq_dequeue :: u64

definition mq_new :: "nat \<Rightarrow> 'a mpsc result" where
  "mq_new capacity =
     (if capacity = 0 then throw (Invalid_Argument ''MpscRingBuffer capacity must be positive'')
      else ret \<lparr>mq_seqs = map of_nat [0..<capacity], mq_values = replicate capacity None,
                mq_enqueue = 0, mq_dequeue = 0\<rparr>)"

definition mq_cell :: "'a mpsc \<Rightarrow> u64 \<Rightarrow> nat" where
  "mq_cell q position = unat position mod length (mq_seqs q)"

lemma mq_cell_simps [simp]:
  "mq_cell (q\<lparr>mq_enqueue := e\<rparr>) x = mq_cell q x" "mq_cell (q\<lparr>mq_dequeue := e\<rparr>) x = mq_cell q x"
  "mq_cell (q\<lparr>mq_values := vs\<rparr>) x = mq_cell q x"
  "mq_cell (q\<lparr>mq_seqs := (mq_seqs q)[i := e]\<rparr>) x = mq_cell q x"
  by (simp_all add: mq_cell_def)

text \<open>
  Where a producer is in \<open>try_enqueue\<close>: about to load the enqueue position; about to load the
  cell's sequence; about to compare and exchange; about to write the value; about to store the
  sequence; returned. \<open>spurious\<close>: a weak exchange may fail although the values are equal.
\<close>

datatype 'a pr_pc =
  Pr_Idle | Pr_Load 'a | Pr_Seq 'a u64 | Pr_Cas 'a u64 | Pr_Write 'a u64 | Pr_Publish 'a u64 | Pr_Done bool

fun mq_try_enqueue :: "bool \<Rightarrow> 'a pr_pc \<Rightarrow> 'a mpsc \<Rightarrow> ('a mpsc \<times> 'a pr_pc) option" where
  "mq_try_enqueue spurious (Pr_Load v) q = Some (q, Pr_Seq v (mq_enqueue q))"
| "mq_try_enqueue spurious (Pr_Seq v position) q =
     (let difference = sint (mq_seqs q ! mq_cell q position) - sint position
      in Some (q, if difference = 0 then Pr_Cas v position
                  else if difference < 0 then Pr_Done False
                  else Pr_Load v))"
| "mq_try_enqueue spurious (Pr_Cas v position) q =
     (if mq_enqueue q = position \<and> \<not> spurious
      then Some (q\<lparr>mq_enqueue := position + 1\<rparr>, Pr_Write v position)
      else Some (q, Pr_Seq v (mq_enqueue q)))"
| "mq_try_enqueue spurious (Pr_Write v position) q =
     Some (q\<lparr>mq_values := (mq_values q)[mq_cell q position := Some v]\<rparr>, Pr_Publish v position)"
| "mq_try_enqueue spurious (Pr_Publish v position) q =
     Some (q\<lparr>mq_seqs := (mq_seqs q)[mq_cell q position := position + 1]\<rparr>, Pr_Done True)"
| "mq_try_enqueue spurious _ q = None"

text \<open>
  The consumer in \<open>try_dequeue\<close>. \<open>Co_Broken\<close>: it moved out of a cell nothing was written to.
\<close>

datatype 'a co_pc =
  Co_Idle | Co_Seq u64 | Co_Take u64 | Co_Free u64 'a | Co_Advance u64 'a | Co_Done "'a option" | Co_Broken

fun mq_try_dequeue :: "'a co_pc \<Rightarrow> 'a mpsc \<Rightarrow> ('a mpsc \<times> 'a co_pc) option" where
  "mq_try_dequeue Co_Idle q = Some (q, Co_Seq (mq_dequeue q))"
| "mq_try_dequeue (Co_Seq position) q =
     Some (q, if mq_seqs q ! mq_cell q position \<noteq> position + 1 then Co_Done None else Co_Take position)"
| "mq_try_dequeue (Co_Take position) q =
     (case mq_values q ! mq_cell q position of
        None \<Rightarrow> Some (q, Co_Broken)
      | Some v \<Rightarrow> Some (q\<lparr>mq_values := (mq_values q)[mq_cell q position := None]\<rparr>, Co_Free position v))"
| "mq_try_dequeue (Co_Free position v) q =
     Some (q\<lparr>mq_seqs := (mq_seqs q)[mq_cell q position := position + of_nat (length (mq_seqs q))]\<rparr>,
           Co_Advance position v)"
| "mq_try_dequeue (Co_Advance position v) q = Some (q\<lparr>mq_dequeue := position + 1\<rparr>, Co_Done (Some v))"
| "mq_try_dequeue (Co_Done r) q = Some (q, Co_Idle)"
| "mq_try_dequeue Co_Broken q = None"

text \<open>\<open>full\<close> compares two loads, in unsigned arithmetic.\<close>

definition mq_full :: "u64 \<Rightarrow> u64 \<Rightarrow> nat \<Rightarrow> bool" where
  "mq_full produced consumed capacity \<longleftrightarrow> capacity \<le> unat (produced - consumed)"

section \<open>Threads\<close>

text \<open>
  \<open>ms_claimed\<close>: the values by position, in the order the exchanges succeeded. \<open>ms_accepted\<close>:
  those for which \<open>try_enqueue\<close> has returned true. \<open>ms_taken\<close>: what the consumer took, in the
  order it freed the cells.
\<close>

record 'a mpsc_sys =
  ms_queue :: "'a mpsc"
  ms_producers :: "'a pr_pc list"
  ms_consumer :: "'a co_pc"
  ms_claimed :: "'a list"
  ms_accepted :: "'a list"
  ms_taken :: "'a list"

fun pr_claims :: "'a pr_pc \<Rightarrow> 'a pr_pc \<Rightarrow> 'a list" where
  "pr_claims (Pr_Cas v position) (Pr_Write w position') = [v]"
| "pr_claims _ _ = []"

fun pr_accepts :: "'a pr_pc \<Rightarrow> 'a list" where
  "pr_accepts (Pr_Publish v position) = [v]"
| "pr_accepts _ = []"

fun co_takes :: "'a co_pc \<Rightarrow> 'a list" where
  "co_takes (Co_Free position v) = [v]"
| "co_takes _ = []"

fun pr_resting :: "'a pr_pc \<Rightarrow> bool" where
  "pr_resting Pr_Idle = True"
| "pr_resting (Pr_Done b) = True"
| "pr_resting _ = False"

inductive ms_step :: "'a mpsc_sys \<Rightarrow> 'a mpsc_sys \<Rightarrow> bool" where
  mss_call: "i < length (ms_producers s) \<Longrightarrow> pr_resting (ms_producers s ! i) \<Longrightarrow>
    ms_step s (s\<lparr>ms_producers := (ms_producers s)[i := Pr_Load v]\<rparr>)"
| mss_producer: "i < length (ms_producers s) \<Longrightarrow>
    unat (mq_enqueue (ms_queue s)) + length (mq_seqs (ms_queue s)) + 1 < 2 ^ 63 \<Longrightarrow>
    mq_try_enqueue spurious (ms_producers s ! i) (ms_queue s) = Some (q, pc) \<Longrightarrow>
    ms_step s (s\<lparr>ms_queue := q, ms_producers := (ms_producers s)[i := pc],
                 ms_claimed := ms_claimed s @ pr_claims (ms_producers s ! i) pc,
                 ms_accepted := ms_accepted s @ pr_accepts (ms_producers s ! i)\<rparr>)"
| mss_consumer: "mq_try_dequeue (ms_consumer s) (ms_queue s) = Some (q, pc) \<Longrightarrow>
    ms_step s (s\<lparr>ms_queue := q, ms_consumer := pc, ms_taken := ms_taken s @ co_takes (ms_consumer s)\<rparr>)"

inductive ms_init :: "nat \<Rightarrow> nat \<Rightarrow> 'a mpsc_sys \<Rightarrow> bool" for capacity n where
  msi: "mq_new capacity = Inr q \<Longrightarrow>
    ms_init capacity n \<lparr>ms_queue = q, ms_producers = replicate n Pr_Idle, ms_consumer = Co_Idle,
      ms_claimed = [], ms_accepted = [], ms_taken = []\<rparr>"

section \<open>The ring, by positions\<close>

text \<open>
  The abstract picture: \<open>hist\<close> is the values claimed so far, position by position; the positions
  below \<open>lo\<close> have been freed; those in \<open>own\<close> are claimed but not published. \<open>sq\<close> and \<open>vl\<close> give the
  sequence and the value of a cell. \<open>taking\<close>: the consumer has moved out the value at \<open>lo\<close>.
\<close>

definition ring_ok :: "nat \<Rightarrow> (nat \<Rightarrow> nat) \<Rightarrow> (nat \<Rightarrow> 'a option) \<Rightarrow> nat \<Rightarrow> 'a list \<Rightarrow> nat set \<Rightarrow> bool \<Rightarrow> bool" where
  "ring_ok C sq vl lo hist own taking \<longleftrightarrow>
     2 \<le> C \<and> lo \<le> length hist \<and> length hist \<le> lo + C \<and> own \<subseteq> {lo..<length hist} \<and>
     (\<forall>p \<in> own. sq (p mod C) = p) \<and>
     (\<forall>p \<in> {lo..<length hist} - own. sq (p mod C) = Suc p \<and>
        vl (p mod C) = (if taking \<and> p = lo then None else Some (hist ! p))) \<and>
     (\<forall>p \<in> {length hist..<lo + C}. sq (p mod C) = p) \<and>
     (taking \<longrightarrow> lo < length hist \<and> lo \<notin> own)"

lemma mod_window:
  fixes p p' :: nat
  assumes "p \<in> {a..<a + C}" "p' \<in> {a..<a + C}" "p mod C = p' mod C"
  shows "p = p'"
proof (rule ccontr)
  assume "p \<noteq> p'"
  then have "p - a < p' - a \<and> p' - a < C \<or> p' - a < p - a \<and> p - a < C"
    using assms(1,2) by auto
  then have "(a + (p - a)) mod C \<noteq> (a + (p' - a)) mod C"
    using ring_index_neq [of "p - a" "p' - a" C a] ring_index_neq [of "p' - a" "p - a" C a] by metis
  then show False using assms by simp
qed

lemma window_pos:
  assumes "0 < C"
  obtains p where "p \<in> {a..<a + C}" "p mod C = x mod (C :: nat)"
proof
  let ?p = "a + (x + (C - a mod C)) mod C"
  show "?p \<in> {a..<a + C}" using assms by simp
  have "?p mod C = (a + (x + (C - a mod C))) mod C"
    by (simp add: mod_add_right_eq)
  also have "a + (x + (C - a mod C)) = x + C + C * (a div C)"
  proof -
    have "a = a mod C + C * (a div C)" "a mod C \<le> C"
      using assms by (simp_all add: less_imp_le_nat)
    then show ?thesis by linarith
  qed
  also have "\<dots> mod C = x mod C" by simp
  finally show "?p mod C = x mod C" .
qed


lemma ring_okD:
  assumes "ring_ok C sq vl lo hist own taking"
  shows "2 \<le> C" "lo \<le> length hist" "length hist \<le> lo + C"
    and "p \<in> own \<Longrightarrow> lo \<le> p" "p \<in> own \<Longrightarrow> p < length hist" "p \<in> own \<Longrightarrow> sq (p mod C) = p"
    and "lo \<le> p \<Longrightarrow> p < length hist \<Longrightarrow> p \<notin> own \<Longrightarrow> sq (p mod C) = Suc p"
    and "lo \<le> p \<Longrightarrow> p < length hist \<Longrightarrow> p \<notin> own \<Longrightarrow>
           vl (p mod C) = (if taking \<and> p = lo then None else Some (hist ! p))"
    and "length hist \<le> p \<Longrightarrow> p < lo + C \<Longrightarrow> sq (p mod C) = p"
    and "taking \<Longrightarrow> lo < length hist" "taking \<Longrightarrow> lo \<notin> own"
  using assms by (auto simp: ring_ok_def)

text \<open>
  What a producer reads off a cell: with equal sequence the position is free, with a smaller one
  the ring was full. A capacity of 1 would not do: there \<open>Suc p\<close> is the next position.
\<close>

lemma ring_sees:
  assumes ok: "ring_ok C sq vl lo hist own taking" and p: "p \<le> length hist"
  shows "sq (p mod C) = p \<Longrightarrow> p < lo + C"
    and "sq (p mod C) < p \<Longrightarrow> p = length hist \<and> length hist = lo + C"
proof -
  note ok' = ring_okD [OF ok]
  have "0 < C" using ok'(1) by simp
  then obtain p0 where p0: "p0 \<in> {lo..<lo + C}" "p0 mod C = p mod C"
    by (rule window_pos)
  have sq: "sq (p mod C) = p0 \<or> sq (p mod C) = Suc p0 \<and> p0 < length hist"
  proof (cases "p0 < length hist")
    case True
    then show ?thesis
      using ok'(6) [of p0] ok'(7) [of p0] p0 by (cases "p0 \<in> own") auto
  next
    case False
    then show ?thesis using ok'(9) [of p0] p0 by auto
  qed
  show "p < lo + C" if "sq (p mod C) = p"
  proof -
    have "p \<noteq> Suc p0"
    proof
      assume "p = Suc p0"
      then have "C dvd Suc p0 - p0"
        using p0(2) mod_eq_dvd_iff_nat [of p0 "Suc p0" C] by simp
      then show False using ok'(1) by simp
    qed
    moreover have "p = p0 \<or> p = Suc p0" using sq by (simp only: that) blast
    ultimately show ?thesis using p0(1) by simp
  qed
  show "p = length hist \<and> length hist = lo + C" if "sq (p mod C) < p"
  proof -
    have less: "p0 < p" using sq that by linarith
    then have "C dvd p - p0"
      using p0(2) mod_eq_dvd_iff_nat [of p0 p C] by simp
    then have "C \<le> p - p0" using less by (intro dvd_imp_le) auto
    then show ?thesis using p p0(1) ok'(3) less by auto
  qed
qed

lemma ring_seq_bound:
  assumes ok: "ring_ok C sq vl lo hist own taking"
  shows "sq (x mod C) \<le> lo + C"
proof -
  note ok' = ring_okD [OF ok]
  have "0 < C" using ok'(1) by simp
  then obtain p where p: "p \<in> {lo..<lo + C}" "p mod C = x mod C"
    by (rule window_pos)
  then have "sq (p mod C) \<le> Suc p"
    using ok'(6) [of p] ok'(7) [of p] ok'(9) [of p] by (cases "p \<in> own"; cases "p < length hist") auto
  then show ?thesis using p by simp
qed

lemma ring_index_other:
  assumes "ring_ok C sq vl lo hist own taking" "lo \<le> p" "p < lo + C" "lo \<le> p'" "p' < lo + C"
  shows "p mod C = p' mod C \<longleftrightarrow> p = p'"
  using assms mod_window [of p lo C p'] by auto

lemma ring_claim:
  assumes ok: "ring_ok C sq vl lo hist own taking" and "length hist < lo + C"
  shows "ring_ok C sq vl lo (hist @ [v]) (insert (length hist) own) taking"
  using ok assms(2) unfolding ring_ok_def
  by (auto simp: nth_append less_Suc_eq) 

lemma ring_write:
  assumes ok: "ring_ok C sq vl lo hist own taking" and own: "p \<in> own"
  shows "ring_ok C sq (vl(p mod C := x)) lo hist own taking"
proof -
  note ok' = ring_okD [OF ok]
  have "p' mod C \<noteq> p mod C" if "p' \<in> {lo..<length hist} - own" for p'
    using ring_index_other [OF ok, of p' p] ok'(3) ok'(4) [OF own] ok'(5) [OF own] that own by auto
  then show ?thesis
    using ok by (simp add: ring_ok_def)
qed

lemma ring_publish:
  assumes ok: "ring_ok C sq vl lo hist own taking" and own: "p \<in> own" and vl: "vl (p mod C) = Some (hist ! p)"
  shows "ring_ok C (sq(p mod C := Suc p)) vl lo hist (own - {p}) taking"
proof -
  note ok' = ring_okD [OF ok]
  have p: "lo \<le> p" "p < length hist" "p < lo + C"
    using ok'(3) ok'(4) [OF own] ok'(5) [OF own] by auto
  have ne: "p' mod C \<noteq> p mod C" if "p' \<noteq> p" "lo \<le> p'" "p' < lo + C" for p'
    using ring_index_other [OF ok, of p' p] p that by auto
  have tk: "taking \<Longrightarrow> p \<noteq> lo" using ok'(11) own by auto
  show ?thesis
    unfolding ring_ok_def
  proof (intro conjI ballI impI)
    fix p' assume "p' \<in> {lo..<length hist} - (own - {p})"
    then show "(sq(p mod C := Suc p)) (p' mod C) = Suc p'"
      "vl (p' mod C) = (if taking \<and> p' = lo then None else Some (hist ! p'))"
      using ok'(7) [of p'] ok'(8) [of p'] ne [of p'] vl tk ok'(3) by (cases "p' = p"; auto)+
  next
    fix p' assume "p' \<in> own - {p}"
    then show "(sq(p mod C := Suc p)) (p' mod C) = p'"
      using ok'(4,5,6) [of p'] ok'(3) ne [of p'] by auto
  next
    fix p' assume "p' \<in> {length hist..<lo + C}"
    then show "(sq(p mod C := Suc p)) (p' mod C) = p'"
      using ok'(9) [of p'] ok'(2) p ne [of p'] by auto
  qed (use ok ok' in \<open>auto simp: ring_ok_def\<close>)
qed

lemma ring_take:
  assumes ok: "ring_ok C sq vl lo hist own False" and lo: "lo < length hist" "lo \<notin> own"
  shows "vl (lo mod C) = Some (hist ! lo)" "ring_ok C sq (vl(lo mod C := None)) lo hist own True"
proof -
  note ok' = ring_okD [OF ok]
  show "vl (lo mod C) = Some (hist ! lo)" using ok'(8) [of lo] lo by simp
  have "p mod C \<noteq> lo mod C" if "p \<in> {lo..<length hist} - own" "p \<noteq> lo" for p
    using ring_index_other [OF ok, of p lo] ok'(1,3) that by auto
  then show "ring_ok C sq (vl(lo mod C := None)) lo hist own True"
    using ok lo by (auto simp: ring_ok_def)
qed

lemma ring_free:
  assumes ok: "ring_ok C sq vl lo hist own True"
  shows "ring_ok C (sq(lo mod C := lo + C)) vl (Suc lo) hist own False"
proof -
  note ok' = ring_okD [OF ok]
  have lo: "lo < length hist" "lo \<notin> own" using ok'(10,11) by auto
  have ne: "p mod C \<noteq> lo mod C" if "lo < p" "p < lo + C" for p
    using ring_index_other [OF ok, of p lo] that ok'(1) by auto
  have own: "lo < p \<and> p < lo + C \<and> p < length hist" if "p \<in> own" for p
    using ok'(3) ok'(4,5) [OF that] lo(2) that by (cases "p = lo") auto
  show ?thesis
    unfolding ring_ok_def
  proof (intro conjI ballI impI)
    fix p assume "p \<in> {Suc lo..<length hist} - own"
    then show "(sq(lo mod C := lo + C)) (p mod C) = Suc p"
      "vl (p mod C) = (if False \<and> p = Suc lo then None else Some (hist ! p))"
      using ok'(7) [of p] ok'(8) [of p] ne [of p] ok'(3) by auto
  next
    fix p assume "p \<in> {length hist..<Suc lo + C}"
    then show "(sq(lo mod C := lo + C)) (p mod C) = p"
      using ok'(9) [of p] ne [of p] lo by (cases "p = lo + C") auto
  next
    fix p assume "p \<in> own"
    then show "(sq(lo mod C := lo + C)) (p mod C) = p"
      using own [of p] ne [of p] ok'(6) [of p] by auto
  next
    show "own \<subseteq> {Suc lo..<length hist}" using own by (auto simp: Suc_le_eq)
  qed (use ok' lo in auto)
qed


section \<open>The invariant\<close>

lemma unat_succ: "unat (w :: u64) < 2 ^ 63 \<Longrightarrow> unat (w + 1) = Suc (unat w)"
  by (simp add: unat_word_ariths)

lemma sint_small:
  assumes "unat (w :: u64) < 2 ^ 63"
  shows "sint w = int (unat w)"
proof -
  have "int (unat w) < int (2 ^ 63)" using assms by (simp only: of_nat_less_iff)
  then have "uint w < 2 ^ 63" by simp
  then have "signed_take_bit 63 (uint w) = uint w"
    by (intro signed_take_bit_int_eq_self) (auto intro: order_trans [OF _ uint_ge_0])
  then show ?thesis by (simp add: sint_uint)
qed

fun pr_owns :: "'a pr_pc \<Rightarrow> nat set" where
  "pr_owns (Pr_Write v position) = {unat position}"
| "pr_owns (Pr_Publish v position) = {unat position}"
| "pr_owns _ = {}"

fun pr_flight :: "'a pr_pc \<Rightarrow> 'a multiset" where
  "pr_flight (Pr_Write v position) = {#v#}"
| "pr_flight (Pr_Publish v position) = {#v#}"
| "pr_flight _ = {#}"

definition own_at :: "'a pr_pc list \<Rightarrow> nat set" where
  "own_at ps = {p. \<exists>i < length ps. p \<in> pr_owns (ps ! i)}"

definition own_apart :: "'a pr_pc list \<Rightarrow> bool" where
  "own_apart ps \<longleftrightarrow> (\<forall>i < length ps. \<forall>j < length ps. i \<noteq> j \<longrightarrow> pr_owns (ps ! i) \<inter> pr_owns (ps ! j) = {})"

fun pr_ok :: "'a mpsc_sys \<Rightarrow> 'a pr_pc \<Rightarrow> bool" where
  "pr_ok s (Pr_Seq v position) \<longleftrightarrow> unat position \<le> length (ms_claimed s)"
| "pr_ok s (Pr_Cas v position) \<longleftrightarrow> unat position \<le> length (ms_claimed s) \<and>
     unat position < length (ms_taken s) + length (mq_seqs (ms_queue s))"
| "pr_ok s (Pr_Write v position) \<longleftrightarrow> unat position < length (ms_claimed s) \<and> ms_claimed s ! unat position = v"
| "pr_ok s (Pr_Publish v position) \<longleftrightarrow> unat position < length (ms_claimed s) \<and> ms_claimed s ! unat position = v \<and>
     mq_values (ms_queue s) ! mq_cell (ms_queue s) position = Some v"
| "pr_ok s _ \<longleftrightarrow> True"

fun co_ok :: "'a mpsc_sys \<Rightarrow> 'a co_pc \<Rightarrow> bool" where
  "co_ok s (Co_Seq position) \<longleftrightarrow> position = mq_dequeue (ms_queue s)"
| "co_ok s (Co_Take position) \<longleftrightarrow> position = mq_dequeue (ms_queue s) \<and>
     length (ms_taken s) < length (ms_claimed s) \<and> length (ms_taken s) \<notin> own_at (ms_producers s)"
| "co_ok s (Co_Free position v) \<longleftrightarrow> position = mq_dequeue (ms_queue s) \<and> v = ms_claimed s ! length (ms_taken s)"
| "co_ok s (Co_Advance position v) \<longleftrightarrow> position = mq_dequeue (ms_queue s)"
| "co_ok s Co_Broken \<longleftrightarrow> False"
| "co_ok s _ \<longleftrightarrow> True"

lemma ok_consumer [simp]:
  "pr_ok (s\<lparr>ms_consumer := c\<rparr>) p = pr_ok s p" "co_ok (s\<lparr>ms_consumer := c\<rparr>) x = co_ok s x"
  by (cases p; simp; fail) (cases x; simp; fail)

fun co_taking :: "'a co_pc \<Rightarrow> bool" where
  "co_taking (Co_Free position v) = True"
| "co_taking _ = False"

fun co_advancing :: "'a co_pc \<Rightarrow> bool" where
  "co_advancing (Co_Advance position v) = True"
| "co_advancing _ = False"

definition ms_inv :: "nat \<Rightarrow> nat \<Rightarrow> 'a mpsc_sys \<Rightarrow> bool" where
  "ms_inv C n s \<longleftrightarrow>
     length (mq_seqs (ms_queue s)) = C \<and> length (mq_values (ms_queue s)) = C \<and> length (ms_producers s) = n \<and>
     unat (mq_enqueue (ms_queue s)) = length (ms_claimed s) \<and> length (ms_claimed s) + C < 2 ^ 63 \<and>
     unat (mq_dequeue (ms_queue s)) + of_bool (co_advancing (ms_consumer s)) = length (ms_taken s) \<and>
     ms_taken s = take (length (ms_taken s)) (ms_claimed s) \<and>
     mset (ms_claimed s) = mset (ms_accepted s) + sum_list (map pr_flight (ms_producers s)) \<and>
     ring_ok C (\<lambda>k. unat (mq_seqs (ms_queue s) ! k)) (\<lambda>k. mq_values (ms_queue s) ! k)
       (length (ms_taken s)) (ms_claimed s) (own_at (ms_producers s)) (co_taking (ms_consumer s)) \<and>
     own_apart (ms_producers s) \<and>
     (\<forall>pc \<in> set (ms_producers s). pr_ok s pc) \<and> co_ok s (ms_consumer s)"

lemma own_at_update:
  assumes "own_apart ps" "i < length ps"
  shows "own_at (ps[i := pc]) = (own_at ps - pr_owns (ps ! i)) \<union> pr_owns pc"
  using assms unfolding own_at_def own_apart_def
  by (auto simp: nth_list_update split: if_splits) 

lemma own_apart_update:
  assumes "own_apart ps" "pr_owns pc \<inter> (own_at ps - pr_owns (ps ! i)) = {}" "i < length ps"
  shows "own_apart (ps[i := pc])"
proof -
  have "pr_owns (ps ! j) \<inter> pr_owns pc = {}" if "j < length ps" "j \<noteq> i" for j
  proof -
    have "pr_owns (ps ! j) \<inter> pr_owns (ps ! i) = {}" "pr_owns (ps ! j) \<subseteq> own_at ps"
      using assms(1,3) that by (auto simp: own_apart_def own_at_def)
    then show ?thesis using assms(2) by auto
  qed
  then show ?thesis
    using assms(1,3) by (auto simp: own_apart_def nth_list_update)
qed

lemma own_atI: "pc \<in> set ps \<Longrightarrow> p \<in> pr_owns pc \<Longrightarrow> p \<in> own_at ps"
  by (auto simp: own_at_def in_set_conv_nth)

lemma own_apart_unique:
  "own_apart ps \<Longrightarrow> a \<in> set ps \<Longrightarrow> b \<in> set ps \<Longrightarrow> p \<in> pr_owns a \<Longrightarrow> p \<in> pr_owns b \<Longrightarrow> a = b"
  unfolding own_apart_def in_set_conv_nth by blast

lemma nth_update_fun:
  "j < length xs \<Longrightarrow> (\<lambda>k. f (xs[j := y] ! k)) = (\<lambda>k. f (xs ! k))(j := f y)"
  by (auto simp: fun_eq_iff nth_list_update)


text \<open>
  What a producer's step has to keep: the ring with the positions it owns afterwards, its own
  condition, and the conditions of the other producers and of the consumer.
\<close>

lemma ms_producerI:
  assumes inv: "ms_inv C n s" and i: "i < n"
  defines "ps \<equiv> ms_producers s"
  assumes q: "length (mq_seqs q) = C" "length (mq_values q) = C" "mq_dequeue q = mq_dequeue (ms_queue s)"
    and E: "unat (mq_enqueue q) = length (ms_claimed s @ cl)" "length (ms_claimed s @ cl) + C < 2 ^ 63"
    and ms: "mset cl + pr_flight (ps ! i) = mset acc + pr_flight pc"
    and own: "own = (own_at ps - pr_owns (ps ! i)) \<union> pr_owns pc" "pr_owns pc \<inter> (own_at ps - pr_owns (ps ! i)) = {}"
    and ring: "ring_ok C (\<lambda>k. unat (mq_seqs q ! k)) (\<lambda>k. mq_values q ! k) (length (ms_taken s))
       (ms_claimed s @ cl) own (co_taking (ms_consumer s))"
    and lo: "length (ms_taken s) \<notin> own_at ps \<Longrightarrow> length (ms_taken s) < length (ms_claimed s) \<Longrightarrow>
       length (ms_taken s) \<notin> own"
  defines "s' \<equiv> s\<lparr>ms_queue := q, ms_producers := ps[i := pc], ms_claimed := ms_claimed s @ cl,
      ms_accepted := ms_accepted s @ acc\<rparr>"
  assumes ok: "pr_ok s' pc" "\<And>v x. Pr_Publish v x \<in> set ps \<Longrightarrow> pr_ok s (Pr_Publish v x) \<Longrightarrow> Pr_Publish v x \<noteq> ps ! i \<Longrightarrow>
        mq_values q ! mq_cell q x = Some v"
  shows "ms_inv C n s'"
proof -
  note inv' = inv [unfolded ms_inv_def]
  have len: "i < length ps" using inv' i by (simp add: ps_def)
  have own': "own_at (ps[i := pc]) = own"
    using own_at_update [of ps i pc] inv' len own(1) by (simp add: ps_def)
  have lt: "length (ms_taken s) \<le> length (ms_claimed s)" using inv' by (metis length_take min.cobounded1)
  have taken: "ms_taken s = take (length (ms_taken s)) (ms_claimed s @ cl)"
    using inv' lt by (simp add: ps_def)
  have ms': "sum_list (map pr_flight (ps[i := pc])) + pr_flight (ps ! i) = sum_list (map pr_flight ps) + pr_flight pc"
    by (rule sum_list_map_update [OF len])
  have "mset (ms_claimed s @ cl) = mset (ms_accepted s @ acc) + sum_list (map pr_flight (ps[i := pc]))"
  proof -
    have "mset (ms_claimed s @ cl) + pr_flight (ps ! i)
        = mset (ms_accepted s) + sum_list (map pr_flight ps) + (mset acc + pr_flight pc)"
      using inv' ms by (simp add: ps_def ac_simps)
    also have "\<dots> = mset (ms_accepted s @ acc) + (sum_list (map pr_flight (ps[i := pc])) + pr_flight (ps ! i))"
      using ms' by (simp add: ac_simps)
    finally show ?thesis by (simp add: ac_simps)
  qed
  moreover have "own_apart (ps[i := pc])"
    using inv' own len by (intro own_apart_update) (auto simp: ps_def)
  moreover have "pr_ok s' x" if x: "x \<in> set (ps[i := pc])" for x
  proof (cases "x = pc")
    case False
    then have xin: "x \<in> set ps" using x by (meson insertE set_update_subset_insert subsetD)
    then have old: "pr_ok s x" using inv' by (simp add: ps_def)
    have ne: "x \<noteq> ps ! i" if "pr_owns x \<noteq> {}"
    proof
      assume eq: "x = ps ! i"
      obtain j where j: "j < length ps" "ps[i := pc] ! j = x" using x by (auto simp: in_set_conv_nth)
      then have "j \<noteq> i" "ps ! j = x" using False len by (auto simp: nth_list_update split: if_splits)
      moreover have "own_apart ps" using inv' by (simp add: ps_def)
      ultimately have "pr_owns (ps ! j) \<inter> pr_owns (ps ! i) = {}"
        unfolding own_apart_def using j(1) len by blast
      then show False using eq \<open>ps ! j = x\<close> that by auto
    qed
    show ?thesis
      using old ok(2) [of _ _] xin ne q(1) inv'
      by (cases x) (auto simp: s'_def nth_append)
  qed (use ok(1) in simp)
  moreover have "co_ok s' (ms_consumer s)"
    using inv' q(3) lo own' lt
    by (cases "ms_consumer s") (auto simp: s'_def nth_append ps_def ring_ok_def)
  moreover have "length ps = n" using inv' by (simp add: ps_def)
  ultimately show ?thesis
    using inv' q E ring taken own' by (simp add: ms_inv_def s'_def)
qed


lemmas ms_invD = ms_inv_def [THEN iffD1]

lemma ms_producer_inv:
  assumes inv: "ms_inv C n s" and i: "i < n"
    and bound: "unat (mq_enqueue (ms_queue s)) + C + 1 < 2 ^ 63"
    and step: "mq_try_enqueue spurious (ms_producers s ! i) (ms_queue s) = Some (q, pc)"
  shows "ms_inv C n (s\<lparr>ms_queue := q, ms_producers := (ms_producers s)[i := pc],
           ms_claimed := ms_claimed s @ pr_claims (ms_producers s ! i) pc,
           ms_accepted := ms_accepted s @ pr_accepts (ms_producers s ! i)\<rparr>)"
proof -
  let ?ps = "ms_producers s" and ?q = "ms_queue s"
  let ?E = "length (ms_claimed s)" and ?lo = "length (ms_taken s)"
  note inv' = ms_invD [OF inv]
  have len: "i < length ?ps" using inv' i by simp
  have pc: "pr_ok s (?ps ! i)" using inv' len by simp
  have C: "length (mq_seqs ?q) = C" "length (mq_values ?q) = C" "unat (mq_enqueue ?q) = ?E" "?E + C + 1 < 2 ^ 63"
    using inv' bound by simp_all
  have ring: "ring_ok C (\<lambda>k. unat (mq_seqs ?q ! k)) (\<lambda>k. mq_values ?q ! k) ?lo (ms_claimed s)
      (own_at ?ps) (co_taking (ms_consumer s))"
    using inv' by simp
  have Cpos: "0 < C" using ring_okD(1) [OF ring] by simp
  have cell: "mq_cell ?q x = unat x mod C" "unat x mod C < C" for x
    using C Cpos by (simp_all add: mq_cell_def)
  show ?thesis
  proof (cases "?ps ! i")
    case (Pr_Load v)
    then show ?thesis
      using step ring C inv' by (intro ms_producerI [OF inv i]) auto
  next
    case (Pr_Seq v x)
    then have x: "unat x \<le> ?E" using pc by simp
    let ?k = "unat (mq_seqs ?q ! (unat x mod C))"
    have k: "?k < 2 ^ 63"
      using ring_seq_bound [OF ring, of "unat x"] ring_okD(2) [OF ring] C(4) by simp
    have d: "sint (mq_seqs ?q ! mq_cell ?q x) - sint x = int ?k - int (unat x)"
      using sint_small [OF k] sint_small [of x] x C(4) by (simp add: cell)
    show ?thesis
    proof (cases "?k = unat x")
      case True
      then have "pc = Pr_Cas v x" "q = ?q" using step d by (simp_all add: Pr_Seq Let_def)
      then show ?thesis
        using Pr_Seq ring C inv' x ring_sees(1) [OF ring x True] by (intro ms_producerI [OF inv i]) auto
    next
      case False
      then have "pc = (if ?k < unat x then Pr_Done False else Pr_Load v)" "q = ?q"
        using step d by (auto simp: Pr_Seq Let_def simp del: of_nat_unat)
      then show ?thesis
        using Pr_Seq ring C inv' by (intro ms_producerI [OF inv i]) auto
    qed
  next
    case (Pr_Cas v x)
    show ?thesis
    proof (cases "mq_enqueue ?q = x \<and> \<not> spurious")
      case True
      then have new: "q = ?q\<lparr>mq_enqueue := x + 1\<rparr>" "pc = Pr_Write v x" and x: "unat x = ?E"
        using step C(3) by (auto simp: Pr_Cas)
      have lt: "?E < ?lo + C" using pc x by (simp add: Pr_Cas C)
      have notin: "?E \<notin> own_at ?ps" using ring_okD(5) [OF ring] by blast
      show ?thesis
        using Pr_Cas new x notin C inv' ring_claim [OF ring lt, of v] unat_succ [of x]
        by (intro ms_producerI [OF inv i, where own = "insert ?E (own_at ?ps)"]) auto
    next
      case False
      then have "q = ?q" "pc = Pr_Seq v (mq_enqueue ?q)" using step by (auto simp: Pr_Cas split: if_splits)
      then show ?thesis
        using Pr_Cas ring C inv' by (intro ms_producerI [OF inv i]) auto
    qed
  next
    case (Pr_Write v x)
    then have new: "q = ?q\<lparr>mq_values := (mq_values ?q)[unat x mod C := Some v]\<rparr>" "pc = Pr_Publish v x"
      using step by (auto simp: cell)
    have own: "unat x \<in> own_at ?ps" using own_atI [OF nth_mem [OF len], of "unat x"] by (simp add: Pr_Write)
    let ?k = "unat x mod C"
    have values_upd: "(\<lambda>k. (mq_values ?q)[?k := Some v] ! k) = (\<lambda>k. mq_values ?q ! k)(?k := Some v)"
      by (rule nth_update_fun [of ?k "mq_values ?q" "\<lambda>x. x"]) (simp add: C cell)
    have ring': "ring_ok C (\<lambda>k. unat (mq_seqs ?q ! k)) (\<lambda>k. (mq_values ?q)[?k := Some v] ! k) ?lo
        (ms_claimed s) (own_at ?ps) (co_taking (ms_consumer s))"
      unfolding values_upd by (rule ring_write [OF ring own])
    have other: "(mq_values ?q)[?k := Some v] ! (unat y mod C) = Some w"
      if y: "Pr_Publish w y \<in> set ?ps" "pr_ok s (Pr_Publish w y)" for w y
    proof -
      have yown: "unat y \<in> own_at ?ps" using own_atI [OF y(1)] by simp
      have "unat y \<noteq> unat x"
      proof
        assume eq: "unat y = unat x"
        have "own_apart ?ps" using inv' by simp
        then have "Pr_Publish w y = ?ps ! i"
          by (rule own_apart_unique [OF _ y(1) nth_mem [OF len], of "unat x"]) (simp_all add: Pr_Write eq)
        then show False by (simp add: Pr_Write)
      qed
      then have "unat y mod C \<noteq> unat x mod C"
        using ring_index_other [OF ring, of "unat y" "unat x"] ring_okD(3,4,5) [OF ring] own yown
        by (meson less_le_trans)
      then show ?thesis using y(2) C by (simp add: cell)
    qed
    have self: "(mq_values ?q)[?k := Some v] ! ?k = Some v"
      using C(2) cell(2) [of x] by simp
    show ?thesis
      using Pr_Write new C inv' ring' own pc other self
      by (intro ms_producerI [OF inv i, where own = "own_at ?ps"]) (auto simp: mq_cell_def)
  next
    case (Pr_Publish v x)
    then have new: "q = ?q\<lparr>mq_seqs := (mq_seqs ?q)[unat x mod C := x + 1]\<rparr>" "pc = Pr_Done True"
      using step by (auto simp: cell)
    have own: "unat x \<in> own_at ?ps" using own_atI [OF nth_mem [OF len], of "unat x"] by (simp add: Pr_Publish)
    let ?k = "unat x mod C"
    have x: "unat x < ?E" "ms_claimed s ! unat x = v" "mq_values ?q ! ?k = Some v"
      using pc by (simp_all add: Pr_Publish cell)
    have succ: "unat (x + 1) = Suc (unat x)" using x(1) C(4) by (intro unat_succ) simp
    have seqs_upd: "(\<lambda>k. unat ((mq_seqs ?q)[?k := x + 1] ! k)) = (\<lambda>k. unat (mq_seqs ?q ! k))(?k := Suc (unat x))"
      unfolding succ [symmetric] by (rule nth_update_fun) (simp add: C cell)
    have ring': "ring_ok C (\<lambda>k. unat ((mq_seqs ?q)[?k := x + 1] ! k)) (\<lambda>k. mq_values ?q ! k) ?lo
        (ms_claimed s) (own_at ?ps - {unat x}) (co_taking (ms_consumer s))"
      unfolding seqs_upd by (rule ring_publish [OF ring own]) (simp add: x)
    show ?thesis
      using Pr_Publish new C inv' ring' by (intro ms_producerI [OF inv i, where own = "own_at ?ps - {unat x}"]) (auto simp: mq_cell_def)
  qed (use step in auto)
qed


lemma ms_consumer_inv:
  assumes inv: "ms_inv C n s"
    and step: "mq_try_dequeue (ms_consumer s) (ms_queue s) = Some (q, pc)"
  shows "ms_inv C n (s\<lparr>ms_queue := q, ms_consumer := pc, ms_taken := ms_taken s @ co_takes (ms_consumer s)\<rparr>)"
proof -
  let ?q = "ms_queue s" and ?c = "ms_consumer s"
  let ?E = "length (ms_claimed s)" and ?lo = "length (ms_taken s)"
  note inv' = ms_invD [OF inv]
  have C: "length (mq_seqs ?q) = C" "length (mq_values ?q) = C" "?E + C < 2 ^ 63"
    using inv' by simp_all
  have ring: "ring_ok C (\<lambda>k. unat (mq_seqs ?q ! k)) (\<lambda>k. mq_values ?q ! k) ?lo (ms_claimed s)
      (own_at (ms_producers s)) (co_taking ?c)"
    using inv' by simp
  have Cpos: "0 < C" using ring_okD(1) [OF ring] by simp
  have cell: "mq_cell ?q x = unat x mod C" "unat x mod C < C" for x
    using C Cpos by (simp_all add: mq_cell_def)
  have others: "pr_ok (s\<lparr>ms_queue := q', ms_consumer := pc', ms_taken := ts\<rparr>) p"
    if "pr_ok s p" "mq_seqs q' = (mq_seqs ?q)[k := y]" "?lo \<le> length ts"
      "\<And>v x. p = Pr_Publish v x \<Longrightarrow> mq_values q' ! mq_cell ?q x = Some v" for p q' pc' ts k y
    using that by (cases p) (auto simp: mq_cell_def)
  have co: "co_ok s ?c" using inv' by simp
  show ?thesis
  proof (cases ?c)
    case (Co_Seq x)
    then have x: "x = mq_dequeue ?q" "unat x = ?lo" using co inv' by auto
    show ?thesis
    proof (cases "mq_seqs ?q ! mq_cell ?q x = x + 1")
      case True
      then have "unat (mq_seqs ?q ! (?lo mod C)) = Suc ?lo"
        using unat_succ [of x] x cell C ring_okD(2) [OF ring] by simp
      then have "?lo < ?E" "?lo \<notin> own_at (ms_producers s)"
        using ring_okD(9) [OF ring, of ?lo] ring_okD(6) [OF ring, of ?lo] ring_okD(2) [OF ring] Cpos
        by (cases "?lo < ?E"; force)+
      moreover have "q = ?q" "pc = Co_Take x" using step True by (simp_all add: Co_Seq)
      ultimately show ?thesis
        using inv' x others Co_Seq by (simp add: ms_inv_def)
    next
      case False
      then have "q = ?q" "pc = Co_Done None" using step by (simp_all add: Co_Seq)
      then show ?thesis using inv' Co_Seq by (simp add: ms_inv_def)
    qed
  next
    case (Co_Take x)
    then have x: "x = mq_dequeue ?q" "unat x = ?lo" "?lo < ?E" "?lo \<notin> own_at (ms_producers s)"
      using co inv' by auto
    have "co_taking ?c = False" by (simp add: Co_Take)
    note take = ring_take [OF ring [unfolded this] x(3,4)]
    let ?k = "?lo mod C"
    have new: "q = ?q\<lparr>mq_values := (mq_values ?q)[?k := None]\<rparr>" "pc = Co_Free x (ms_claimed s ! ?lo)"
      using step take(1) x(2) by (simp_all add: Co_Take cell)
    have values_upd: "(\<lambda>k. (mq_values ?q)[?k := None] ! k) = (\<lambda>k. mq_values ?q ! k)(?k := None)"
      by (rule nth_update_fun [of ?k "mq_values ?q" "\<lambda>x. x"]) (simp add: C Cpos)
    have ring': "ring_ok C (\<lambda>k. unat (mq_seqs ?q ! k)) (\<lambda>k. (mq_values ?q)[?k := None] ! k) ?lo (ms_claimed s)
        (own_at (ms_producers s)) True"
      unfolding values_upd by (rule take(2))
    have keep: "(mq_values ?q)[?k := None] ! mq_cell ?q y = Some v"
      if "Pr_Publish v y \<in> set (ms_producers s)" "pr_ok s (Pr_Publish v y)" for v y
    proof -
      have yown: "unat y \<in> own_at (ms_producers s)" using own_atI [OF that(1)] by simp
      have "unat y mod C \<noteq> ?k"
      proof
        assume "unat y mod C = ?k"
        then have "unat y = ?lo"
          using ring_index_other [OF ring, of "unat y" ?lo] ring_okD(3,4,5) [OF ring] yown Cpos
          by (meson less_add_same_cancel1 less_le_trans order_refl)
        then show False using yown x(4) by simp
      qed
      then show ?thesis using that(2) by (simp add: cell)
    qed
    have "pr_ok (s\<lparr>ms_queue := q, ms_consumer := pc\<rparr>) p" if "p \<in> set (ms_producers s)" for p
    proof -
      have "pr_ok s p" using inv' that by simp
      then show ?thesis using keep that new(1) by (cases p) auto
    qed
    then show ?thesis
      using inv' ring' new x Co_Take by (simp add: ms_inv_def)
  next
    case (Co_Free x v)
    then have x: "x = mq_dequeue ?q" "unat x = ?lo" "v = ms_claimed s ! ?lo" using co inv' by auto
    have "co_taking ?c = True" by (simp add: Co_Free)
    note ring = ring [unfolded this]
    have lo: "?lo < ?E" "?lo \<notin> own_at (ms_producers s)" using ring_okD(10,11) [OF ring] by simp_all
    let ?k = "?lo mod C"
    have new: "q = ?q\<lparr>mq_seqs := (mq_seqs ?q)[?k := x + of_nat C]\<rparr>" "pc = Co_Advance x v"
      using step x(2) C(1) by (simp_all add: Co_Free cell)
    have "unat (x + of_nat C) = ?lo + C"
      using x(2) lo(1) C(3) by (simp add: unat_word_ariths unat_of_nat)
    then have seqs_upd: "(\<lambda>k. unat ((mq_seqs ?q)[?k := x + of_nat C] ! k)) = (\<lambda>k. unat (mq_seqs ?q ! k))(?k := ?lo + C)"
      using nth_update_fun [of ?k "mq_seqs ?q" unat "x + of_nat C"] C Cpos by simp
    have ring': "ring_ok C (\<lambda>k. unat ((mq_seqs ?q)[?k := x + of_nat C] ! k)) (\<lambda>k. mq_values ?q ! k) (Suc ?lo)
        (ms_claimed s) (own_at (ms_producers s)) False"
      unfolding seqs_upd by (rule ring_free [OF ring])
    have tk: "ms_taken s @ [v] = take (Suc ?lo) (ms_claimed s)"
      using inv' x(3) lo(1) by (metis take_Suc_conv_app_nth)
    have "pr_ok (s\<lparr>ms_queue := q, ms_consumer := pc, ms_taken := ms_taken s @ [v]\<rparr>) p"
      if "p \<in> set (ms_producers s)" for p
    proof -
      have "pr_ok s p" using inv' that by simp
      then show ?thesis using new(1) by (cases p) auto
    qed
    then show ?thesis
      using inv' ring' new x lo Co_Free tk by (simp add: ms_inv_def)
  next
    case (Co_Advance x v)
    then have x: "x = mq_dequeue ?q" "Suc (unat x) = ?lo" using co inv' by auto
    then have "unat (x + 1) = ?lo"
      using unat_succ [of x] ring_okD(2) [OF ring] C(3) by simp
    moreover have new: "q = ?q\<lparr>mq_dequeue := x + 1\<rparr>" "pc = Co_Done (Some v)"
      using step by (simp_all add: Co_Advance)
    moreover have "pr_ok (s\<lparr>ms_queue := q, ms_consumer := pc\<rparr>) p" if "p \<in> set (ms_producers s)" for p
    proof -
      have "pr_ok s p" using inv' that by simp
      then show ?thesis using new(1) by (cases p) auto
    qed
    ultimately show ?thesis
      using inv' Co_Advance by (simp add: ms_inv_def)
  qed (use step inv' co in \<open>auto simp: ms_inv_def\<close>)
qed


lemma ms_inv_init:
  assumes "2 \<le> C" "C < 2 ^ 63" "ms_init C n s"
  shows "ms_inv C n s"
proof -
  obtain q where q: "mq_new C = Inr q" and s: "s = \<lparr>ms_queue = q, ms_producers = replicate n Pr_Idle,
      ms_consumer = Co_Idle, ms_claimed = [], ms_accepted = [], ms_taken = []\<rparr>"
    using assms(3) by (auto elim: ms_init.cases)
  have q': "q = \<lparr>mq_seqs = map of_nat [0..<C], mq_values = replicate C None, mq_enqueue = 0, mq_dequeue = 0\<rparr>"
    using q assms(1) by (simp add: mq_new_def)
  have "unat (map of_nat [0..<C] ! p :: u64) = p" if "p < C" for p
    using that assms(2) by (simp add: unat_of_nat)
  then have "ring_ok C (\<lambda>k. unat (map of_nat [0..<C] ! k :: u64)) ((!) (replicate C None)) 0 [] {} False"
    using assms(1) by (simp add: ring_ok_def)
  moreover have "own_at (replicate n Pr_Idle :: 'a pr_pc list) = {}" "own_apart (replicate n Pr_Idle :: 'a pr_pc list)"
    by (simp_all add: own_at_def own_apart_def)
  moreover have "sum_list (replicate n {#}) = ({#} :: 'a multiset)" by (induction n) simp_all
  ultimately show ?thesis
    using assms(2) by (simp add: ms_inv_def s q')
qed

lemma ms_call_inv:
  assumes inv: "ms_inv C n s" and i: "i < n" "pr_resting (ms_producers s ! i)"
  shows "ms_inv C n (s\<lparr>ms_producers := (ms_producers s)[i := Pr_Load v]\<rparr>)"
proof -
  have "pr_owns (ms_producers s ! i) = {}" "pr_flight (ms_producers s ! i) = {#}"
    using i(2) by (cases "ms_producers s ! i"; simp)+
  then show ?thesis
    using inv i ms_invD [OF inv]
      ms_producerI [OF inv i(1), of "ms_queue s" "[]" "[]" "Pr_Load v" "own_at (ms_producers s)"]
    by (auto simp: mq_cell_def)
qed

lemma ms_step_inv: "ms_step s s' \<Longrightarrow> ms_inv C n s \<Longrightarrow> ms_inv C n s'"
proof (induction rule: ms_step.induct)
  case (mss_call i s v)
  then show ?case using ms_call_inv by (metis ms_inv_def)
next
  case (mss_producer i s spurious q pc)
  then have "i < n" "length (mq_seqs (ms_queue s)) = C" by (simp_all add: ms_inv_def)
  then show ?case using mss_producer by (intro ms_producer_inv) simp_all
next
  case (mss_consumer s q pc)
  then show ?case by (intro ms_consumer_inv)
qed

definition ms_start :: "nat \<Rightarrow> nat \<Rightarrow> 'a mpsc_sys \<Rightarrow> bool" where
  "ms_start C n s \<longleftrightarrow> 2 \<le> C \<and> C < 2 ^ 63 \<and> ms_init C n s"

interpretation mpsc: invariant_system "ms_start C n" ms_step "ms_inv C n" for C n
  by unfold_locales (auto simp: ms_start_def intro: ms_inv_init ms_step_inv)

section \<open>What the invariant says of the code\<close>

lemma ms_waiting:
  assumes "ms_inv C n s"
  shows "\<exists>waiting. ms_claimed s = ms_taken s @ waiting \<and> length waiting \<le> C"
proof -
  note inv = ms_invD [OF assms]
  have "ms_claimed s = ms_taken s @ drop (length (ms_taken s)) (ms_claimed s)"
    using inv by (metis append_take_drop_id)
  moreover have "length (ms_claimed s) \<le> length (ms_taken s) + C"
    using inv by (simp add: ring_ok_def)
  ultimately show ?thesis by (metis add_diff_cancel_left' diff_le_mono length_drop)
qed

text \<open>A producer is turned away only from a full ring.\<close>

lemma ms_refused:
  assumes inv: "ms_inv C n s" and i: "i < n" "ms_producers s ! i = Pr_Seq v x"
    and step: "mq_try_enqueue spurious (Pr_Seq v x) (ms_queue s) = Some (q, Pr_Done False)"
  shows "length (ms_claimed s) = length (ms_taken s) + C"
proof -
  note inv' = ms_invD [OF inv]
  have ring: "ring_ok C (\<lambda>k. unat (mq_seqs (ms_queue s) ! k)) (\<lambda>k. mq_values (ms_queue s) ! k)
      (length (ms_taken s)) (ms_claimed s) (own_at (ms_producers s)) (co_taking (ms_consumer s))"
    using inv' by simp
  have "pr_ok s (ms_producers s ! i)" using inv' i(1) by simp
  then have x: "unat x \<le> length (ms_claimed s)" using i(2) by simp
  have k: "sint (mq_seqs (ms_queue s) ! (unat x mod C)) < sint x"
    using step inv' by (simp add: Let_def mq_cell_def split: if_splits)
  have xs: "sint x = int (unat x)" using x inv' by (intro sint_small) simp
  have "unat (mq_seqs (ms_queue s) ! (unat x mod C)) < 2 ^ 63"
    using ring_seq_bound [OF ring, of "unat x"] ring_okD(2) [OF ring] inv' by simp
  then have "unat (mq_seqs (ms_queue s) ! (unat x mod C)) < unat x"
    using k xs sint_small by (metis of_nat_less_iff)
  then show ?thesis using ring_sees(2) [OF ring x] by simp
qed

text \<open>With no producer between its exchange and its store, the consumer finds the oldest value.\<close>

lemma ms_found:
  assumes inv: "ms_inv C n s" and quiet: "\<And>p. p \<in> set (ms_producers s) \<Longrightarrow> pr_flight p = {#}"
    and c: "ms_consumer s = Co_Seq x" "ms_claimed s \<noteq> ms_taken s"
  shows "mq_try_dequeue (ms_consumer s) (ms_queue s) = Some (ms_queue s, Co_Take x)"
proof -
  note inv' = ms_invD [OF inv]
  have ring: "ring_ok C (\<lambda>k. unat (mq_seqs (ms_queue s) ! k)) (\<lambda>k. mq_values (ms_queue s) ! k)
      (length (ms_taken s)) (ms_claimed s) (own_at (ms_producers s)) (co_taking (ms_consumer s))"
    using inv' by simp
  have lt: "length (ms_taken s) < length (ms_claimed s)"
    using inv' c(2) ring_okD(2) [OF ring] by (metis le_neq_implies_less order_refl take_all)
  have x: "unat x = length (ms_taken s)" using inv' c(1) by auto
  have owns: "pr_owns p = {}" if "pr_flight p = {#}" for p :: "'a pr_pc"
    using that by (cases p) auto
  have "length (ms_taken s) \<notin> own_at (ms_producers s)"
    using quiet owns by (auto simp: own_at_def)
  then have "unat (mq_seqs (ms_queue s) ! mq_cell (ms_queue s) x) = unat (x + 1)"
    using ring_okD(7) [OF ring, of "length (ms_taken s)"] lt x inv' unat_succ [of x] by (simp add: mq_cell_def)
  then have "mq_seqs (ms_queue s) ! mq_cell (ms_queue s) x = x + 1"
    by (simp only: word_unat_eq_iff)
  then show ?thesis by (simp add: c(1))
qed


text \<open>
  C37. \<open>MpscRingBuffer\<close> with a capacity of at least 2, any number of producers and one consumer, in
  any interleaving of their atomic accesses: the consumer takes the values in the order in which
  the producers' exchanges succeeded, none lost, repeated or read before it was written; at
  most \<open>capacity\<close> wait; the values claimed are those whose \<open>try_enqueue\<close> returned true and those
  of the producers between their exchange and their return; a producer is turned away only when
  the ring is full; and when no producer is in between and a value waits, \<open>try_dequeue\<close> finds it.
\<close>

theorem mpsc_fifo:
  assumes "2 \<le> capacity" "capacity < 2 ^ 63" "reach (ms_init capacity n) ms_step s"
  shows "(\<exists>waiting. ms_claimed s = ms_taken s @ waiting \<and> length waiting \<le> capacity) \<and>
         ms_consumer s \<noteq> Co_Broken \<and>
         mset (ms_claimed s) = mset (ms_accepted s) + sum_list (map pr_flight (ms_producers s)) \<and>
         (\<forall>i < n. \<forall>v x q. ms_producers s ! i = Pr_Seq v x \<and>
            mq_try_enqueue False (Pr_Seq v x) (ms_queue s) = Some (q, Pr_Done False) \<longrightarrow>
            length (ms_claimed s) = length (ms_taken s) + capacity) \<and>
         (\<forall>x. (\<forall>p \<in> set (ms_producers s). pr_flight p = {#}) \<and> ms_consumer s = Co_Seq x \<and>
            ms_claimed s \<noteq> ms_taken s \<longrightarrow>
            mq_try_dequeue (ms_consumer s) (ms_queue s) = Some (ms_queue s, Co_Take x))"
proof -
  have "reach (ms_start capacity n) ms_step s"
    by (rule reach_mono [OF assms(3)]) (simp add: ms_start_def assms(1,2) del: power_numeral)
  then have inv: "ms_inv capacity n s" by (rule mpsc.reach_inv)
  then have "ms_consumer s \<noteq> Co_Broken"
    "mset (ms_claimed s) = mset (ms_accepted s) + sum_list (map pr_flight (ms_producers s))"
    by (auto simp: ms_inv_def)
  then show ?thesis
    using ms_waiting [OF inv] ms_refused [OF inv] ms_found [OF inv] by blast
qed

text \<open>Schedules, to run examples.\<close>

datatype 'a sched = Do_Call nat 'a | Do_Enqueue nat | Do_Dequeue

fun ms_act :: "'a sched \<Rightarrow> 'a mpsc_sys \<Rightarrow> 'a mpsc_sys option" where
  "ms_act (Do_Call i v) s =
     (if i < length (ms_producers s) \<and> pr_resting (ms_producers s ! i)
      then Some (s\<lparr>ms_producers := (ms_producers s)[i := Pr_Load v]\<rparr>) else None)"
| "ms_act (Do_Enqueue i) s =
     (if i < length (ms_producers s) \<and> unat (mq_enqueue (ms_queue s)) + length (mq_seqs (ms_queue s)) + 1 < 2 ^ 63
      then (case mq_try_enqueue False (ms_producers s ! i) (ms_queue s) of
              None \<Rightarrow> None
            | Some (q, pc) \<Rightarrow> Some (s\<lparr>ms_queue := q, ms_producers := (ms_producers s)[i := pc],
                 ms_claimed := ms_claimed s @ pr_claims (ms_producers s ! i) pc,
                 ms_accepted := ms_accepted s @ pr_accepts (ms_producers s ! i)\<rparr>))
      else None)"
| "ms_act Do_Dequeue s =
     (case mq_try_dequeue (ms_consumer s) (ms_queue s) of
        None \<Rightarrow> None
      | Some (q, pc) \<Rightarrow> Some (s\<lparr>ms_queue := q, ms_consumer := pc, ms_taken := ms_taken s @ co_takes (ms_consumer s)\<rparr>))"

fun ms_acts :: "'a sched list \<Rightarrow> 'a mpsc_sys \<Rightarrow> 'a mpsc_sys option" where
  "ms_acts [] s = Some s"
| "ms_acts (a # as) s = (case ms_act a s of None \<Rightarrow> None | Some s' \<Rightarrow> ms_acts as s')"

lemma ms_act_step: "ms_act a s = Some s' \<Longrightarrow> ms_step s s'"
  by (cases a) (auto split: if_splits option.splits intro: ms_step.intros)

lemma ms_acts_reach: "ms_acts as s = Some s' \<Longrightarrow> reach I ms_step s \<Longrightarrow> reach I ms_step s'"
proof (induction as arbitrary: s)
  case (Cons a as)
  then obtain s1 where "ms_act a s = Some s1" "ms_acts as s1 = Some s'"
    by (auto split: option.splits)
  then show ?case using Cons reach_step ms_act_step by metis
qed simp

definition ms_new :: "nat \<Rightarrow> nat \<Rightarrow> 'a mpsc_sys" where
  "ms_new capacity n = \<lparr>ms_queue = projr (mq_new capacity), ms_producers = replicate n Pr_Idle,
     ms_consumer = Co_Idle, ms_claimed = [], ms_accepted = [], ms_taken = []\<rparr>"

lemma ms_new_reach: "0 < C \<Longrightarrow> reach (ms_init C n) ms_step (ms_new C n)"
  by (auto intro!: reach_init ms_init.intros simp: ms_new_def mq_new_def)

text \<open>Two producers fill a ring of two cells; the consumer takes one value.\<close>

definition demo_sched :: "nat sched list" where
  "demo_sched = [Do_Call 0 7, Do_Call 1 8, Do_Enqueue 0, Do_Enqueue 1, Do_Enqueue 0, Do_Enqueue 1,
     Do_Enqueue 1, Do_Enqueue 0, Do_Enqueue 1, Do_Enqueue 1, Do_Dequeue, Do_Dequeue, Do_Dequeue,
     Do_Dequeue, Do_Dequeue, Do_Dequeue]"

lemma ms_new_small:
  "ms_new 1 1 = \<lparr>ms_queue = \<lparr>mq_seqs = [0], mq_values = [None], mq_enqueue = 0, mq_dequeue = 0\<rparr>,
     ms_producers = [Pr_Idle], ms_consumer = Co_Idle, ms_claimed = [], ms_accepted = [], ms_taken = []\<rparr>"
  "ms_new 2 2 = \<lparr>ms_queue = \<lparr>mq_seqs = [0, 1], mq_values = [None, None], mq_enqueue = 0, mq_dequeue = 0\<rparr>,
     ms_producers = [Pr_Idle, Pr_Idle], ms_consumer = Co_Idle, ms_claimed = [], ms_accepted = [], ms_taken = []\<rparr>"
  by (simp_all add: ms_new_def mq_new_def numeral_2_eq_2)

lemmas ms_eval = ms_new_small mq_cell_def Let_def

lemma mpsc_fifo_witness:
  "\<exists>s. ms_acts demo_sched (ms_new 2 2) = Some s \<and> ms_taken s = [8] \<and>
     (\<exists>waiting. ms_claimed s = ms_taken s @ waiting \<and> length waiting \<le> 2)"
proof -
  obtain s where s: "ms_acts demo_sched (ms_new 2 2) = Some s" "ms_taken s = [8]"
    by (simp add: demo_sched_def ms_eval)
  have "reach (ms_init 2 2) ms_step s"
    using ms_acts_reach [OF s(1) ms_new_reach] by simp
  from mpsc_fifo [OF _ _ this] s show ?thesis by auto
qed

text \<open>
  With a capacity of 1, which \<open>AsyncLogger\<close> accepts, the sequence of a published cell is the next
  position, so the second \<open>try_enqueue\<close> overwrites the first value; both return true, and the
  consumer, which expects sequence 1 at position 0, finds nothing any more.
\<close>

definition one_cell_sched :: "nat sched list" where
  "one_cell_sched = [Do_Call 0 7, Do_Enqueue 0, Do_Enqueue 0, Do_Enqueue 0, Do_Enqueue 0, Do_Enqueue 0,
     Do_Call 0 8, Do_Enqueue 0, Do_Enqueue 0, Do_Enqueue 0, Do_Enqueue 0, Do_Enqueue 0, Do_Dequeue, Do_Dequeue]"

lemma one_cell_loses:
  "\<exists>s. reach (ms_init 1 1) ms_step s \<and> ms_accepted s = [7, 8 :: nat] \<and> ms_taken s = [] \<and>
     ms_producers s = [Pr_Done True] \<and> ms_consumer s = Co_Done None \<and> mq_dequeue (ms_queue s) = 0 \<and>
     mq_seqs (ms_queue s) = [2] \<and> mq_values (ms_queue s) = [Some 8]"
proof -
  obtain s where s: "ms_acts one_cell_sched (ms_new 1 1) = Some s" "ms_accepted s = [7, 8]" "ms_taken s = []"
    "ms_producers s = [Pr_Done True]" "ms_consumer s = Co_Done None" "mq_dequeue (ms_queue s) = 0"
    "mq_seqs (ms_queue s) = [2]" "mq_values (ms_queue s) = [Some 8]"
    by (simp add: one_cell_sched_def ms_eval ms_new_small(1) [simplified])
  moreover have "reach (ms_init 1 1) ms_step s"
    using ms_acts_reach [OF s(1) ms_new_reach] by simp
  ultimately show ?thesis by blast
qed

end
