(* ===== verification/Log_File.thy ===== *)
theory Log_File
  imports Prelude
begin

text \<open>
  What the worker of \<open>AsyncLogger\<close> does with a record (code/AsyncLogger/src/async_logger.cpp,
  include/async_logger/log_record.h, log_level.h): its fixed-size texts, its line, the batch
  buffer, the log file and the rotation of its backups. All of it runs on the worker's thread.
  The file system is a store of the log file and its numbered backups, with a script of which
  accesses fail.
\<close>

section \<open>Levels\<close>

datatype log_level = Trace | Debug | Info | Warn | Error | Fatal

fun level_value :: "log_level \<Rightarrow> nat" where
  "level_value Trace = 0" | "level_value Debug = 1" | "level_value Info = 2"
| "level_value Warn = 3" | "level_value Error = 4" | "level_value Fatal = 5"

lemma level_value_inj: "level_value a = level_value b \<Longrightarrow> a = b"
  by (cases a; cases b) simp_all

instantiation log_level :: linorder
begin

definition less_eq_log_level :: "log_level \<Rightarrow> log_level \<Rightarrow> bool" where
  "less_eq_log_level a b \<longleftrightarrow> level_value a \<le> level_value b"

definition less_log_level :: "log_level \<Rightarrow> log_level \<Rightarrow> bool" where
  "less_log_level a b \<longleftrightarrow> level_value a < level_value b"

instance
  by standard (auto simp: less_eq_log_level_def less_log_level_def intro: level_value_inj)

end

fun level_text :: "log_level \<Rightarrow> string" where
  "level_text Trace = ''TRACE''" | "level_text Debug = ''DEBUG''" | "level_text Info = ''INFO''"
| "level_text Warn = ''WARN''" | "level_text Error = ''ERROR''" | "level_text Fatal = ''FATAL''"

section \<open>Records\<close>

text \<open>\<open>FixedText\<close>: an array of characters and the number of those in use.\<close>

record fixed_text =
  ft_data :: string
  ft_size :: u16

definition nul :: char where "nul = char_of (0 :: nat)"

definition ft_new :: "nat \<Rightarrow> fixed_text" where
  "ft_new capacity = \<lparr>ft_data = replicate capacity nul, ft_size = 0\<rparr>"

definition ft_assign :: "string \<Rightarrow> fixed_text \<Rightarrow> fixed_text" where
  "ft_assign value t =
     (let copied = min (length value) (length (ft_data t) - 1)
      in t\<lparr>ft_data := (take copied value @ drop copied (ft_data t))[copied := nul],
           ft_size := of_nat copied\<rparr>)"

definition ft_view :: "fixed_text \<Rightarrow> string" where
  "ft_view t = take (unat (ft_size t)) (ft_data t)"

lemma ft_view_assign:
  assumes "0 < length (ft_data t)" "length (ft_data t) \<le> 2 ^ 16"
  shows "ft_view (ft_assign value t) = take (length (ft_data t) - 1) value"
proof -
  let ?n = "min (length value) (length (ft_data t) - 1)"
  have "unat (of_nat ?n :: u16) = ?n"
    using assms by (auto simp: unat_of_nat min_def)
  moreover have "take ?n value = take (length (ft_data t) - 1) value"
    by (auto simp: min_def)
  ultimately show ?thesis
    using assms(1) by (simp add: ft_view_def ft_assign_def Let_def)
qed

definition max_message :: nat where "max_message = 512"
definition max_file :: nat where "max_file = 192"
definition max_function :: nat where "max_function = 128"
definition max_line :: nat where "max_line = 1024"

lemmas log_sizes = max_message_def max_file_def max_function_def max_line_def

text \<open>Time stamps are microseconds since the epoch.\<close>

record log_record =
  lr_time :: nat
  lr_level :: log_level
  lr_thread :: u64
  lr_file :: fixed_text
  lr_line :: i32
  lr_function :: fixed_text
  lr_message :: fixed_text
  lr_sequence :: u64

text \<open>The part of \<open>log\<close> that fills a record; a null pointer stands for the empty text.\<close>

definition log_record_of :: "nat \<Rightarrow> log_level \<Rightarrow> u64 \<Rightarrow> string option \<Rightarrow> i32 \<Rightarrow> string option \<Rightarrow> string \<Rightarrow>
    u64 \<Rightarrow> log_record" where
  "log_record_of now level tid file line func message sequence =
     \<lparr>lr_time = now, lr_level = level, lr_thread = tid,
      lr_file = ft_assign (case file of None \<Rightarrow> [] | Some f \<Rightarrow> f) (ft_new max_file),
      lr_line = line,
      lr_function = ft_assign (case func of None \<Rightarrow> [] | Some f \<Rightarrow> f) (ft_new max_function),
      lr_message = ft_assign message (ft_new max_message),
      lr_sequence = sequence\<rparr>"

section \<open>The line of a record\<close>

text \<open>The conversions of \<open>snprintf\<close> the format uses: a bounded string ends at a null character.\<close>

definition conv_string :: "string \<Rightarrow> string" where
  "conv_string s = takeWhile (\<lambda>c. c \<noteq> nul) s"

definition conv_padded :: "nat \<Rightarrow> nat \<Rightarrow> string" where
  "conv_padded width n = (let s = decimal n in replicate (width - length s) (CHR ''0'') @ s)"

definition conv_int :: "i32 \<Rightarrow> string" where
  "conv_int w = (if sint w < 0 then CHR ''-'' # decimal (nat (- sint w)) else decimal (nat (sint w)))"

definition record_text :: "string \<Rightarrow> log_record \<Rightarrow> string" where
  "record_text time_text r =
     time_text @ ''.'' @ conv_padded 6 (lr_time r mod 1000000) @ '' ['' @ level_text (lr_level r) @
     ''] [tid='' @ decimal (unat (lr_thread r)) @ ''] ['' @ conv_string (ft_view (lr_file r)) @ '':'' @
     conv_int (lr_line r) @ '' '' @ conv_string (ft_view (lr_function r)) @ ''] '' @
     conv_string (ft_view (lr_message r)) @ [char_of (10 :: nat)]"

text \<open>
  \<open>format_record\<close>. \<open>local_text\<close> is \<open>localtime_r\<close> and \<open>strftime\<close>: the text of a second, or failure.
  It is called when the second differs from the cached one.
\<close>

definition format_record :: "(nat \<Rightarrow> string option) \<Rightarrow> nat \<Rightarrow> log_record \<Rightarrow> (nat \<times> string) option \<Rightarrow>
    (string \<times> (nat \<times> string) option) result" where
  "format_record local_text capacity r cached =
     (let seconds = lr_time r div 1000000;
          refreshed = (case cached of
              Some (second, text) \<Rightarrow> if seconds \<noteq> second then local_text seconds else Some text
            | None \<Rightarrow> local_text seconds)
      in case refreshed of
           None \<Rightarrow> throw (Runtime_Error ''failed to format log timestamp'')
         | Some text \<Rightarrow>
             let line = record_text text r
             in ret (if length line \<ge> capacity then take (capacity - 2) line @ [char_of (10 :: nat)] else line,
                     Some (seconds, text)))"

text \<open>What the line of a record is, with no cache and no buffer of limited size.\<close>

definition record_line :: "(nat \<Rightarrow> string option) \<Rightarrow> log_record \<Rightarrow> string" where
  "record_line local_text r = record_text (the (local_text (lr_time r div 1000000))) r"

section \<open>Bounds of a line\<close>

lemma decimal_length: "n < 10 ^ k \<Longrightarrow> 0 < k \<Longrightarrow> length (decimal n) \<le> k"
proof (induction k arbitrary: n)
  case (Suc k)
  show ?case
  proof (cases "n < 10")
    case False
    then have k: "0 < k" using Suc.prems by (cases k) simp_all
    have "n div 10 < 10 ^ k" using Suc.prems(1) by (simp add: less_mult_imp_div_less mult.commute)
    then have "length (decimal (n div 10)) \<le> k" by (rule Suc.IH) (rule k)
    with False show ?thesis by (subst decimal.simps) simp
  qed (simp add: decimal.simps)
qed simp

lemma conv_padded_length: "n < 10 ^ k \<Longrightarrow> 0 < k \<Longrightarrow> length (conv_padded k n) = k"
  using decimal_length [of n k] by (simp add: conv_padded_def Let_def)

lemma conv_int_length: "length (conv_int w) \<le> 11"
proof -
  have "\<bar>sint w\<bar> \<le> 2 ^ 31"
    using sint_less [of w] sint_ge [of w] by (simp add: abs_le_iff)
  then have "nat (sint w) < 10 ^ 10" "nat (- sint w) < 10 ^ 10" by auto
  then show ?thesis
    using decimal_length [of "nat (sint w)" 10] decimal_length [of "nat (- sint w)" 10] by (simp add: conv_int_def)
qed

lemma level_text_length: "length (level_text l) \<le> 5"
  by (cases l) simp_all

lemma conv_string_length: "length (conv_string s) \<le> length s"
  by (simp add: conv_string_def length_takeWhile_le)

definition record_ok :: "log_record \<Rightarrow> bool" where
  "record_ok r \<longleftrightarrow> length (ft_view (lr_file r)) < max_file \<and> length (ft_view (lr_function r)) < max_function \<and>
     length (ft_view (lr_message r)) < max_message"

lemma record_text_length:
  assumes "record_ok r" "length time_text = 19"
  shows "length (record_text time_text r) \<le> 908"
proof -
  have "unat (lr_thread r) < 10 ^ 20"
    using unsigned_less [where 'a = nat, of "lr_thread r"] by simp
  then have "length (decimal (unat (lr_thread r))) \<le> 20" by (rule decimal_length) simp
  moreover have "length (conv_padded 6 (lr_time r mod 1000000)) = 6"
    by (rule conv_padded_length) simp_all
  ultimately show ?thesis
    using assms level_text_length [of "lr_level r"] conv_int_length [of "lr_line r"]
      conv_string_length [of "ft_view (lr_file r)"] conv_string_length [of "ft_view (lr_function r)"]
      conv_string_length [of "ft_view (lr_message r)"]
    by (simp add: record_text_def record_ok_def log_sizes)
qed

lemma record_ok_of: "record_ok (log_record_of now level tid file line func message sequence)"
  by (simp add: record_ok_def log_record_of_def ft_view_assign ft_new_def log_sizes min_def split: option.splits)


section \<open>Batches and files\<close>

text \<open>
  The buffer's text stands for the first \<open>active_buffer_size_\<close> bytes of \<open>active_buffer_\<close>;
  \<open>lf_file\<close> for what was written to the log file, \<open>lf_backups\<close> for the backups by number.
  \<open>lf_closed\<close> is a history: the files rotated out, oldest first.
\<close>

record log_config =
  lc_max_file_size :: nat
  lc_max_backup_files :: nat
  lc_batch_buffer_size :: nat

record log_file =
  lf_active :: string
  lf_active_records :: nat
  lf_current_size :: nat
  lf_written :: nat
  lf_cached :: "(nat \<times> string) option"
  lf_file :: string
  lf_backups :: "nat \<rightharpoonup> string"
  lf_faults :: "bool list"
  lf_closed :: "string list"

text \<open>An access to the file system: it fails when the script says so.\<close>

definition lf_access :: "string \<Rightarrow> (log_file \<Rightarrow> log_file) \<Rightarrow> log_file \<Rightarrow> log_file result" where
  "lf_access failure f s =
     (case lf_faults s of
        [] \<Rightarrow> ret (f s)
      | fault # fs \<Rightarrow> if fault then throw (Runtime_Error failure) else ret (f (s\<lparr>lf_faults := fs\<rparr>)))"

definition lf_flush_output :: "log_file \<Rightarrow> log_file result" where
  "lf_flush_output = lf_access ''failed to flush log file'' id"

definition lf_write_active :: "log_file \<Rightarrow> log_file result" where
  "lf_write_active s =
     (if lf_active s = [] then ret s
      else
        let text = lf_active s; records = lf_active_records s;
            s = s\<lparr>lf_active := [], lf_active_records := 0\<rparr>
        in lf_access ''failed to write log batch''
             (\<lambda>s. s\<lparr>lf_file := lf_file s @ text, lf_current_size := lf_current_size s + length text,
                    lf_written := lf_written s + records\<rparr>) s)"

text \<open>The loop that renames backup \<open>index - 1\<close> to \<open>index\<close>, from \<open>index\<close> down to 2.\<close>

fun lf_shift_loop :: "nat \<Rightarrow> log_file \<Rightarrow> log_file result" where
  "lf_shift_loop index s =
     (if index > 1
      then rbind (lf_access ''failed to inspect log backup'' id s) (\<lambda>s.
        rbind (case lf_backups s (index - 1) of
                 None \<Rightarrow> ret s
               | Some text \<Rightarrow> lf_access ''failed to rotate log backup''
                   (\<lambda>s. s\<lparr>lf_backups := (lf_backups s)(index \<mapsto> text, index - 1 := None)\<rparr>) s)
          (lf_shift_loop (index - 1)))
      else ret s)"

declare lf_shift_loop.simps [simp del]

definition lf_rotation_due :: "log_config \<Rightarrow> nat \<Rightarrow> log_file \<Rightarrow> bool" where
  "lf_rotation_due c next_size s \<longleftrightarrow>
     \<not> (lc_max_file_size c = 0 \<or>
        (lf_current_size s = 0 \<and> lf_active s = []) \<or>
        (lf_current_size s \<le> lc_max_file_size c \<and>
         length (lf_active s) \<le> lc_max_file_size c - lf_current_size s \<and>
         next_size \<le> lc_max_file_size c - lf_current_size s - length (lf_active s)))"

definition lf_rotate_if_needed :: "log_config \<Rightarrow> nat \<Rightarrow> log_file \<Rightarrow> log_file result" where
  "lf_rotate_if_needed c next_size s =
     (if \<not> lf_rotation_due c next_size s then ret s
      else
        rbind (lf_write_active s) (\<lambda>s.
        rbind (lf_flush_output s) (\<lambda>s.
        if lc_max_backup_files c = 0
        then lf_access ''failed to recreate log file after rotation''
               (\<lambda>s. s\<lparr>lf_file := [], lf_current_size := 0, lf_closed := lf_closed s @ [lf_file s]\<rparr>) s
        else
          rbind (lf_access ''failed to remove oldest log backup''
                   (\<lambda>s. s\<lparr>lf_backups := (lf_backups s)(lc_max_backup_files c := None)\<rparr>) s) (\<lambda>s.
          rbind (lf_shift_loop (lc_max_backup_files c) s) (\<lambda>s.
          rbind (lf_access ''failed to rotate current log file''
                   (\<lambda>s. s\<lparr>lf_backups := (lf_backups s)(1 \<mapsto> lf_file s), lf_file := [],
                          lf_closed := lf_closed s @ [lf_file s]\<rparr>) s)
            (lf_access ''failed to create rotated log file'' (\<lambda>s. s\<lparr>lf_current_size := 0\<rparr>)))))))"

definition lf_append_record :: "(nat \<Rightarrow> string option) \<Rightarrow> log_config \<Rightarrow> log_record \<Rightarrow> log_file \<Rightarrow> log_file result" where
  "lf_append_record local_text c r s =
     rbind (format_record local_text max_line r (lf_cached s)) (\<lambda>(line, cached).
     rbind (lf_rotate_if_needed c (length line) (s\<lparr>lf_cached := cached\<rparr>)) (\<lambda>s.
     rbind (if length (lf_active s) + length line > lc_batch_buffer_size c then lf_write_active s else ret s) (\<lambda>s.
       if length (lf_active s) + length line > lc_batch_buffer_size c
       then throw (UB ''copy past the end of the batch buffer'')
       else ret (s\<lparr>lf_active := lf_active s @ line, lf_active_records := lf_active_records s + 1\<rparr>))))"

fun lf_append_all :: "(nat \<Rightarrow> string option) \<Rightarrow> log_config \<Rightarrow> log_record list \<Rightarrow> log_file \<Rightarrow> log_file result" where
  "lf_append_all local_text c [] s = ret s"
| "lf_append_all local_text c (r # rs) s = rbind (lf_append_record local_text c r s) (lf_append_all local_text c rs)"

text \<open>A started logger: \<open>old\<close> are the backups there already, oldest first, \<open>text\<close> the log file.\<close>

definition lf_backups_of :: "nat \<Rightarrow> string list \<Rightarrow> nat \<rightharpoonup> string" where
  "lf_backups_of n closed k = (if 1 \<le> k \<and> k \<le> n \<and> k \<le> length closed then Some (rev closed ! (k - 1)) else None)"

definition lf_new :: "log_config \<Rightarrow> string list \<Rightarrow> string \<Rightarrow> bool list \<Rightarrow> log_file" where
  "lf_new c old text faults =
     \<lparr>lf_active = [], lf_active_records = 0, lf_current_size = length text, lf_written = 0, lf_cached = None,
      lf_file = text, lf_backups = lf_backups_of (lc_max_backup_files c) old, lf_faults = faults, lf_closed = old\<rparr>"


section \<open>Every step of a successful append\<close>

lemma lf_access_Inr:
  assumes "lf_access m f s = Inr s'"
  shows "\<exists>fs. s' = f (s\<lparr>lf_faults := fs\<rparr>)"
proof (cases "lf_faults s")
  case Nil
  have "s\<lparr>lf_faults := lf_faults s\<rparr> = s" by simp
  then have "s\<lparr>lf_faults := []\<rparr> = s" by (simp only: Nil)
  moreover have "s' = f s" using assms Nil by (simp add: lf_access_def)
  ultimately have "s' = f (s\<lparr>lf_faults := []\<rparr>)" by (simp only:)
  then show ?thesis ..
qed (use assms in \<open>auto simp: lf_access_def split: if_splits\<close>)

lemma lf_write_active_Inr:
  assumes "lf_write_active s = Inr s'" "lf_active s = [] \<longrightarrow> lf_active_records s = 0"
  shows "\<exists>fs. s' = s\<lparr>lf_active := [], lf_active_records := 0, lf_file := lf_file s @ lf_active s,
     lf_current_size := lf_current_size s + length (lf_active s), lf_written := lf_written s + lf_active_records s,
     lf_faults := fs\<rparr>"
proof (cases "lf_active s = []")
  case True
  then have "s' = s" "lf_active_records s = 0" using assms by (simp_all add: lf_write_active_def)
  then show ?thesis using True by (intro exI [of _ "lf_faults s"]) simp
next
  case False
  then obtain fs where "s' = (\<lambda>s'. s'\<lparr>lf_file := lf_file s' @ lf_active s,
      lf_current_size := lf_current_size s' + length (lf_active s), lf_written := lf_written s' + lf_active_records s\<rparr>)
      (s\<lparr>lf_active := [], lf_active_records := 0, lf_faults := fs\<rparr>)"
    using assms(1) by (auto simp: lf_write_active_def Let_def dest!: lf_access_Inr)
  then show ?thesis by (intro exI [of _ fs]) (rule log_file.equality, simp_all)
qed

lemma lf_shift_loop_Inr:
  assumes "lf_shift_loop j s = Inr s'" "lf_backups s j = None"
  shows "\<exists>fs. s' = s\<lparr>lf_backups := (\<lambda>k. if 1 \<le> k \<and> k \<le> j then (if k = 1 then None else lf_backups s (k - 1))
             else lf_backups s k), lf_faults := fs\<rparr>"
  using assms
proof (induction j s rule: lf_shift_loop.induct)
  case (1 j s)
  show ?case
  proof (cases "1 < j")
    case False
    then have "s' = s" using 1(2) by (simp add: lf_shift_loop.simps [of j])
    moreover have "(\<lambda>k. if 1 \<le> k \<and> k \<le> j then (if k = 1 then None else lf_backups s (k - 1)) else lf_backups s k)
        = lf_backups s"
      using False 1(3) by (cases "j = 1") (auto simp: fun_eq_iff not_less le_Suc_eq)
    ultimately show ?thesis by (intro exI [of _ "lf_faults s"]) (simp add: log_file.equality)
  next
    case True
    obtain s1 s2 where s1: "lf_access ''failed to inspect log backup'' id s = Inr s1"
      and s2: "(case lf_backups s1 (j - 1) of None \<Rightarrow> ret s1
        | Some text \<Rightarrow> lf_access ''failed to rotate log backup''
            (\<lambda>s. s\<lparr>lf_backups := (lf_backups s)(j \<mapsto> text, j - 1 := None)\<rparr>) s1) = Inr s2"
      and loop: "lf_shift_loop (j - 1) s2 = Inr s'"
      using 1(2) True by (subst (asm) lf_shift_loop.simps) (auto simp: rbind_Inr_iff)
    obtain fs where s1': "s1 = s\<lparr>lf_faults := fs\<rparr>" using lf_access_Inr [OF s1] by auto
    obtain fs' where s2': "s2 = s\<lparr>lf_backups := (case lf_backups s (j - 1) of None \<Rightarrow> lf_backups s
        | Some text \<Rightarrow> (lf_backups s)(j \<mapsto> text, j - 1 := None)), lf_faults := fs'\<rparr>"
    proof (cases "lf_backups s (j - 1)")
      case None
      then have "s2 = s\<lparr>lf_backups := lf_backups s, lf_faults := fs\<rparr>"
        using s2 by (simp add: s1')
      then show ?thesis using that None by simp
    next
      case (Some t)
      then have "lf_access ''failed to rotate log backup''
          (\<lambda>s. s\<lparr>lf_backups := (lf_backups s)(j \<mapsto> t, j - 1 := None)\<rparr>) s1 = Inr s2"
        using s2 by (simp add: s1')
      from lf_access_Inr [OF this] obtain fs' where
        "s2 = s\<lparr>lf_faults := fs', lf_backups := (lf_backups s)(j \<mapsto> t, j - 1 := None)\<rparr>"
        by (auto simp: s1')
      then have "s2 = s\<lparr>lf_backups := (lf_backups s)(j \<mapsto> t, j - 1 := None), lf_faults := fs'\<rparr>"
        by simp
      then show ?thesis using that Some by simp
    qed
    have "lf_backups s2 (j - 1) = None"
      using 1(3) True by (auto simp: s2' split: option.splits)
    from 1(1) [OF True loop this] obtain fs'' where "s' = s2\<lparr>lf_backups :=
        (\<lambda>k. if 1 \<le> k \<and> k \<le> j - 1 then (if k = 1 then None else lf_backups s2 (k - 1)) else lf_backups s2 k),
        lf_faults := fs''\<rparr>" ..
    moreover have "(\<lambda>k. if 1 \<le> k \<and> k \<le> j - 1 then (if k = 1 then None else lf_backups s2 (k - 1)) else lf_backups s2 k)
        = (\<lambda>k. if 1 \<le> k \<and> k \<le> j then (if k = 1 then None else lf_backups s (k - 1)) else lf_backups s k)"
    proof
      fix k
      consider "k = 0" | "k = 1" | "1 < k" "k < j" | "k = j" "1 < k" | "j < k" by linarith
      then show "(if 1 \<le> k \<and> k \<le> j - 1 then (if k = 1 then None else lf_backups s2 (k - 1)) else lf_backups s2 k)
        = (if 1 \<le> k \<and> k \<le> j then (if k = 1 then None else lf_backups s (k - 1)) else lf_backups s k)"
        by cases (use True 1(3) in \<open>auto simp: s2' split: option.splits\<close>)
    qed
    ultimately show ?thesis by (auto simp: s2')
  qed
qed


lemma lf_backups_of_snoc:
  "(\<lambda>k. if 1 \<le> k \<and> k \<le> n then (if k = 1 then None else ((lf_backups_of n closed)(n := None)) (k - 1))
        else ((lf_backups_of n closed)(n := None)) k)(1 \<mapsto> f)
   = (if n = 0 then [1 \<mapsto> f] else lf_backups_of n (closed @ [f]))"
proof
  fix k
  consider "k = 0" | "k = 1" | j where "k = Suc (Suc j)" "k \<le> n" | "n < k" "1 < k"
    by (metis One_nat_def Suc_lessI not0_implies_Suc not_le neq0_conv)
  then show "((\<lambda>k. if 1 \<le> k \<and> k \<le> n then (if k = 1 then None else ((lf_backups_of n closed)(n := None)) (k - 1))
        else ((lf_backups_of n closed)(n := None)) k)(1 \<mapsto> f)) k
   = (if n = 0 then [1 \<mapsto> f] else lf_backups_of n (closed @ [f])) k"
    by cases (auto simp: lf_backups_of_def nth_Cons split: nat.splits)
qed

lemma lf_backups_of_0 [simp]: "lf_backups_of 0 closed = Map.empty"
  by (auto simp: lf_backups_of_def)

text \<open>A rotation closes the current file, with what was still in the buffer.\<close>

lemma lf_rotate_Inr:
  assumes step: "lf_rotate_if_needed c n s = Inr s'" and due: "lf_rotation_due c n s"
    and recs: "lf_active s = [] \<longrightarrow> lf_active_records s = 0"
    and backups: "lf_backups s = lf_backups_of (lc_max_backup_files c) (lf_closed s)"
  defines "closed \<equiv> lf_closed s @ [lf_file s @ lf_active s]"
  shows "lf_active s' = []" "lf_active_records s' = 0" "lf_current_size s' = 0" "lf_file s' = []"
    "lf_written s' = lf_written s + lf_active_records s" "lf_cached s' = lf_cached s" "lf_closed s' = closed"
    "lf_backups s' = lf_backups_of (lc_max_backup_files c) closed"
proof -
  let ?n = "lc_max_backup_files c"
  obtain s1 s2 where s1: "lf_write_active s = Inr s1" and s2: "lf_flush_output s1 = Inr s2"
    using step due by (auto simp: lf_rotate_if_needed_def rbind_Inr_iff)
  obtain fs where s2': "s2 = s\<lparr>lf_active := [], lf_active_records := 0, lf_file := lf_file s @ lf_active s,
     lf_current_size := lf_current_size s + length (lf_active s), lf_written := lf_written s + lf_active_records s,
     lf_faults := fs\<rparr>"
    using lf_write_active_Inr [OF s1 recs] lf_access_Inr [OF s2 [unfolded lf_flush_output_def]] by auto
  have "lf_active s' = [] \<and> lf_active_records s' = 0 \<and> lf_current_size s' = 0 \<and> lf_file s' = [] \<and>
    lf_written s' = lf_written s + lf_active_records s \<and> lf_cached s' = lf_cached s \<and> lf_closed s' = closed \<and>
    lf_backups s' = lf_backups_of ?n closed"
  proof (cases "?n = 0")
    case True
    then have "lf_access ''failed to recreate log file after rotation''
        (\<lambda>s. s\<lparr>lf_file := [], lf_current_size := 0, lf_closed := lf_closed s @ [lf_file s]\<rparr>) s2 = Inr s'"
      using step due s1 s2 by (simp add: lf_rotate_if_needed_def)
    from lf_access_Inr [OF this] show ?thesis
      using backups True by (auto simp: s2' closed_def)
  next
    case False
    then obtain s3 s4 s5 where
      s3: "lf_access ''failed to remove oldest log backup'' (\<lambda>s. s\<lparr>lf_backups := (lf_backups s)(?n := None)\<rparr>) s2 = Inr s3"
      and s4: "lf_shift_loop ?n s3 = Inr s4"
      and s5: "lf_access ''failed to rotate current log file''
         (\<lambda>s. s\<lparr>lf_backups := (lf_backups s)(1 \<mapsto> lf_file s), lf_file := [], lf_closed := lf_closed s @ [lf_file s]\<rparr>) s4
         = Inr s5"
      and s6: "lf_access ''failed to create rotated log file'' (\<lambda>s. s\<lparr>lf_current_size := 0\<rparr>) s5 = Inr s'"
      using step due s1 s2 by (auto simp: lf_rotate_if_needed_def rbind_Inr_iff)
    obtain fs3 where s3': "s3 = s2\<lparr>lf_faults := fs3, lf_backups := (lf_backups s)(?n := None)\<rparr>"
      using lf_access_Inr [OF s3] by (auto simp: s2')
    then have "lf_backups s3 ?n = None" by simp
    moreover have back3: "lf_backups s3 = (lf_backups s)(?n := None)" using s3' by simp
    ultimately obtain fs4 where s4': "s4 = s3\<lparr>lf_backups :=
        (\<lambda>k. if 1 \<le> k \<and> k \<le> ?n then (if k = 1 then None else ((lf_backups s)(?n := None)) (k - 1))
             else ((lf_backups s)(?n := None)) k), lf_faults := fs4\<rparr>"
      using lf_shift_loop_Inr [OF s4] unfolding back3 by blast
    have "lf_backups s5 = lf_backups_of ?n closed"
    proof -
      have "lf_backups s5 = (lf_backups s4)(1 \<mapsto> lf_file s @ lf_active s)"
        using lf_access_Inr [OF s5] by (auto simp: s4' s3' s2')
      also have "\<dots> = lf_backups_of ?n closed"
        using lf_backups_of_snoc [of ?n "lf_closed s" "lf_file s @ lf_active s"] False
        unfolding s4' log_file.simps backups closed_def by simp
      finally show ?thesis .
    qed
    then show ?thesis
      using lf_access_Inr [OF s5] lf_access_Inr [OF s6] by (auto simp: s4' s3' s2' closed_def)
  qed
  then show "lf_active s' = []" "lf_active_records s' = 0" "lf_current_size s' = 0" "lf_file s' = []"
    "lf_written s' = lf_written s + lf_active_records s" "lf_cached s' = lf_cached s" "lf_closed s' = closed"
    "lf_backups s' = lf_backups_of ?n closed"
    by blast+
qed

section \<open>Any sequence of records\<close>

definition lf_inv :: "(nat \<Rightarrow> string option) \<Rightarrow> log_config \<Rightarrow> string list \<Rightarrow> string \<Rightarrow> log_record list \<Rightarrow> log_file \<Rightarrow> bool" where
  "lf_inv local_text c old text rs s \<longleftrightarrow>
     (let line = record_line local_text; max = lc_max_file_size c;
          whole = (\<lambda>f. max \<noteq> 0 \<longrightarrow> length f \<le> max \<or> (\<exists>r \<in> set rs. f = line r) \<or> f = text)
      in (\<exists>closed. lf_closed s = old @ closed \<and>
            concat closed @ lf_file s @ lf_active s = text @ concat (map line rs) \<and> list_all whole closed) \<and>
         whole (lf_file s @ lf_active s) \<and>
         lf_current_size s = length (lf_file s) \<and>
         lf_backups s = lf_backups_of (lc_max_backup_files c) (lf_closed s) \<and>
         lf_written s + lf_active_records s = length rs \<and>
         lf_active s = concat (map line (drop (lf_written s) rs)) \<and>
         length (lf_active s) \<le> lc_batch_buffer_size c \<and>
         (\<forall>second t. lf_cached s = Some (second, t) \<longrightarrow> local_text second = Some t))"

lemma lf_inv_new: "lf_inv local_text c old text [] (lf_new c old text faults)"
  by (simp add: lf_inv_def lf_new_def Let_def)

lemma record_line_nonempty: "record_line local_text r \<noteq> []"
  by (simp add: record_line_def record_text_def)


lemma lf_invD:
  assumes "lf_inv local_text c old text rs s"
  shows "lf_current_size s = length (lf_file s)"
    "lf_backups s = lf_backups_of (lc_max_backup_files c) (lf_closed s)"
    "lf_written s + lf_active_records s = length rs"
    "lf_active s = concat (map (record_line local_text) (drop (lf_written s) rs))"
    "length (lf_active s) \<le> lc_batch_buffer_size c"
    "lf_cached s = Some (second, t) \<Longrightarrow> local_text second = Some t"
  using assms by (auto simp: lf_inv_def Let_def)

lemma lf_inv_cached:
  "lf_inv local_text c old text rs s \<Longrightarrow> local_text second = Some t \<Longrightarrow>
   lf_inv local_text c old text rs (s\<lparr>lf_cached := Some (second, t)\<rparr>)"
  by (auto simp: lf_inv_def Let_def)

lemma lf_inv_empty: "lf_inv local_text c old text rs s \<Longrightarrow> lf_active s = [] \<longrightarrow> lf_active_records s = 0"
  using lf_invD(3,4) [of local_text c old "text" rs s] by (simp add: record_line_nonempty)

lemma lf_inv_write:
  assumes inv: "lf_inv local_text c old text rs s" and step: "lf_write_active s = Inr s'"
  shows "lf_inv local_text c old text rs s'" "lf_active s' = []"
    "lf_file s' = lf_file s @ lf_active s" "lf_cached s' = lf_cached s"
proof -
  obtain fs where s': "s' = s\<lparr>lf_active := [], lf_active_records := 0, lf_file := lf_file s @ lf_active s,
     lf_current_size := lf_current_size s + length (lf_active s), lf_written := lf_written s + lf_active_records s,
     lf_faults := fs\<rparr>"
    using lf_write_active_Inr [OF step] lf_inv_empty [OF inv] by blast
  show "lf_inv local_text c old text rs s'"
    using inv by (auto simp: lf_inv_def Let_def s')
qed (use lf_write_active_Inr [OF step] lf_inv_empty [OF inv] in auto)

lemma lf_inv_rotate:
  assumes inv: "lf_inv local_text c old text rs s" and step: "lf_rotate_if_needed c n s = Inr s'"
    and due: "lf_rotation_due c n s"
  shows "lf_inv local_text c old text rs s'" "lf_file s' = []" "lf_active s' = []" "lf_cached s' = lf_cached s"
proof -
  note rot = lf_rotate_Inr [OF step due lf_inv_empty [OF inv] lf_invD(2) [OF inv]]
  show "lf_inv local_text c old text rs s'"
    using inv rot(1-5,7,8) by (auto simp: lf_inv_def Let_def rot(6))
qed (use lf_rotate_Inr [OF step due lf_inv_empty [OF inv] lf_invD(2) [OF inv]] in auto)

lemma lf_inv_add:
  assumes inv: "lf_inv local_text c old text rs s"
    and room: "length (lf_active s) + length (record_line local_text r) \<le> lc_batch_buffer_size c"
    and size: "lc_max_file_size c \<noteq> 0 \<Longrightarrow> lf_file s @ lf_active s \<noteq> [] \<Longrightarrow>
      length (lf_file s) + length (lf_active s) + length (record_line local_text r) \<le> lc_max_file_size c"
  shows "lf_inv local_text c old text (rs @ [r])
     (s\<lparr>lf_active := lf_active s @ record_line local_text r, lf_active_records := lf_active_records s + 1\<rparr>)"
proof -
  have "lf_written s \<le> length rs" using lf_invD(3) [OF inv] by simp
  then show ?thesis
    using inv room size
    by (cases "lf_file s @ lf_active s = []") (auto simp: lf_inv_def Let_def list_all_iff)
qed

lemma format_record_eq:
  assumes "record_ok r" "local_text (lr_time r div 1000000) = Some t" "length t = 19"
    and "\<And>second t. cached = Some (second, t) \<Longrightarrow> local_text second = Some t"
  shows "format_record local_text max_line r cached
       = ret (record_line local_text r, Some (lr_time r div 1000000, t))"
  using assms record_text_length [OF assms(1,3)]
  by (auto simp: format_record_def record_line_def max_line_def Let_def split: option.splits)

definition clock_ok :: "(nat \<Rightarrow> string option) \<Rightarrow> bool" where
  "clock_ok local_text \<longleftrightarrow> (\<forall>second. \<exists>t. local_text second = Some t \<and> length t = 19)"

lemma lf_append_Inr:
  assumes "lf_append_record local_text c r s = Inr s'"
  obtains line cached s1 s2 where "format_record local_text max_line r (lf_cached s) = Inr (line, cached)"
    and "lf_rotate_if_needed c (length line) (s\<lparr>lf_cached := cached\<rparr>) = Inr s1"
    and "(if length (lf_active s1) + length line > lc_batch_buffer_size c then lf_write_active s1 else ret s1) = Inr s2"
    and "length (lf_active s2) + length line \<le> lc_batch_buffer_size c"
    and "s' = s2\<lparr>lf_active := lf_active s2 @ line, lf_active_records := lf_active_records s2 + 1\<rparr>"
proof (cases "format_record local_text max_line r (lf_cached s)")
  case (Inr x)
  obtain line cached where x: "x = (line, cached)" by (cases x)
  show ?thesis
    using assms that [of line cached] Inr x
    by (auto simp: lf_append_record_def rbind_Inr_iff split: if_splits)
qed (use assms in \<open>simp add: lf_append_record_def\<close>)

lemma lf_inv_append:
  assumes inv: "lf_inv local_text c old text rs s" and step: "lf_append_record local_text c r s = Inr s'"
    and env: "clock_ok local_text" "record_ok r"
  shows "lf_inv local_text c old text (rs @ [r]) s'"
proof -
  let ?L = "record_line local_text r" and ?sec = "lr_time r div 1000000"
  obtain t where t: "local_text ?sec = Some t" "length t = 19"
    using env(1) by (auto simp: clock_ok_def)
  define s0 where "s0 = s\<lparr>lf_cached := Some (?sec, t)\<rparr>"
  have inv0: "lf_inv local_text c old text rs s0"
    unfolding s0_def by (rule lf_inv_cached [OF inv t(1)])
  have fmt: "format_record local_text max_line r (lf_cached s) = ret (?L, Some (?sec, t))"
    using env(2) t lf_invD(6) [OF inv] by (rule format_record_eq)
  obtain s1 s2 where s1: "lf_rotate_if_needed c (length ?L) s0 = Inr s1"
    and s2: "(if length (lf_active s1) + length ?L > lc_batch_buffer_size c then lf_write_active s1 else ret s1) = Inr s2"
    and room: "length (lf_active s2) + length ?L \<le> lc_batch_buffer_size c"
    and s': "s' = s2\<lparr>lf_active := lf_active s2 @ ?L, lf_active_records := lf_active_records s2 + 1\<rparr>"
    using step by (auto simp: lf_append_record_def fmt s0_def rbind_Inr_iff split: if_splits)
  have inv1: "lf_inv local_text c old text rs s1 \<and> (lc_max_file_size c \<noteq> 0 \<longrightarrow> lf_file s1 @ lf_active s1 \<noteq> [] \<longrightarrow>
      length (lf_file s1) + length (lf_active s1) + length ?L \<le> lc_max_file_size c)"
  proof (cases "lf_rotation_due c (length ?L) s0")
    case True
    then show ?thesis using lf_inv_rotate [OF inv0 s1] by simp
  next
    case False
    then have "s1 = s0" using s1 by (simp add: lf_rotate_if_needed_def)
    then show ?thesis
      using inv0 False lf_invD(1) [OF inv0] by (auto simp: lf_rotation_due_def)
  qed
  then have inv2: "lf_inv local_text c old text rs s2 \<and> lf_file s2 @ lf_active s2 = lf_file s1 @ lf_active s1"
    using s2 lf_inv_write [of local_text c old "text" rs s1 s2] by (auto split: if_splits)
  show ?thesis
    unfolding s'
  proof (rule lf_inv_add)
    show "length (lf_file s2) + length (lf_active s2) + length ?L \<le> lc_max_file_size c"
      if "lc_max_file_size c \<noteq> 0" "lf_file s2 @ lf_active s2 \<noteq> []"
      using that inv1 inv2 by (metis length_append)
  qed (use inv2 room in simp_all)
qed

lemma lf_inv_append_all:
  assumes "lf_inv local_text c old text rs0 s" "lf_append_all local_text c rs s = Inr s'"
    "clock_ok local_text" "\<forall>r \<in> set rs. record_ok r"
  shows "lf_inv local_text c old text (rs0 @ rs) s'"
  using assms
proof (induction rs arbitrary: rs0 s)
  case (Cons r rs)
  then obtain s1 where s1: "lf_append_record local_text c r s = Inr s1" "lf_append_all local_text c rs s1 = Inr s'"
    by (auto simp: rbind_Inr_iff)
  have "lf_inv local_text c old text ((rs0 @ [r]) @ rs) s'"
    using Cons s1 by (intro Cons.IH lf_inv_append) auto
  then show ?case by simp
qed simp


section \<open>Without file system failures\<close>

definition lf_healthy :: "log_file \<Rightarrow> bool" where
  "lf_healthy s \<longleftrightarrow> True \<notin> set (lf_faults s)"

definition lf_returns :: "log_file result \<Rightarrow> bool" where
  "lf_returns m \<longleftrightarrow> (\<exists>s. m = Inr s \<and> lf_healthy s)"

lemma lf_returns_access:
  "lf_healthy s \<Longrightarrow> (\<And>s. lf_faults (f s) = lf_faults s) \<Longrightarrow> lf_returns (lf_access m f s)"
  by (cases "lf_faults s") (auto simp: lf_returns_def lf_healthy_def lf_access_def)

lemma lf_returns_bind: "lf_returns m \<Longrightarrow> (\<And>s. m = Inr s \<Longrightarrow> lf_healthy s \<Longrightarrow> lf_returns (f s)) \<Longrightarrow> lf_returns (rbind m f)"
  by (auto simp: lf_returns_def)

lemma lf_returns_ret: "lf_healthy s \<Longrightarrow> lf_returns (ret s)"
  by (simp add: lf_returns_def)

lemma lf_returns_write: "lf_healthy s \<Longrightarrow> lf_returns (lf_write_active s)"
  by (auto simp: lf_write_active_def Let_def lf_healthy_def intro!: lf_returns_access lf_returns_ret)

lemma lf_returns_shift: "lf_healthy s \<Longrightarrow> lf_returns (lf_shift_loop j s)"
proof (induction j s rule: lf_shift_loop.induct)
  case (1 j s)
  show ?case
    by (subst lf_shift_loop.simps)
      (auto intro!: lf_returns_bind lf_returns_access lf_returns_ret 1(1) [simplified] 1(2) split: option.split)
qed

lemma lf_returns_rotate: "lf_healthy s \<Longrightarrow> lf_returns (lf_rotate_if_needed c n s)"
  unfolding lf_rotate_if_needed_def lf_flush_output_def
  by (auto intro!: lf_returns_bind lf_returns_access lf_returns_ret lf_returns_write lf_returns_shift)

lemma lf_returns_append:
  assumes inv: "lf_inv local_text c old pre rs s" and env: "clock_ok local_text" "record_ok r" "max_line \<le> lc_batch_buffer_size c"
    and ok: "lf_healthy s"
  shows "lf_returns (lf_append_record local_text c r s)"
proof -
  let ?L = "record_line local_text r"
  obtain t where t: "local_text (lr_time r div 1000000) = Some t" "length t = 19"
    using env(1) by (auto simp: clock_ok_def)
  have L: "length ?L \<le> lc_batch_buffer_size c"
    using record_text_length [OF env(2) t(2)] env(3) t(1) by (simp add: record_line_def max_line_def)
  have fmt: "format_record local_text max_line r (lf_cached s) = ret (?L, Some (lr_time r div 1000000, t))"
    using env(2) t lf_invD(6) [OF inv] by (rule format_record_eq)
  have empty: "lf_active s2 = []" if "lf_write_active s1 = Inr s2" for s1 s2
    using that by (cases "lf_active s1 = []") (auto simp: lf_write_active_def Let_def dest!: lf_access_Inr)
  show ?thesis
    unfolding lf_append_record_def fmt rbind_simps prod.case
  proof (rule lf_returns_bind)
    show "lf_returns (lf_rotate_if_needed c (length ?L) (s\<lparr>lf_cached := Some (lr_time r div 1000000, t)\<rparr>))"
      using ok by (intro lf_returns_rotate) (simp add: lf_healthy_def)
  next
    fix s1 assume s1: "lf_healthy s1"
    show "lf_returns (rbind (if length (lf_active s1) + length ?L > lc_batch_buffer_size c then lf_write_active s1 else ret s1)
       (\<lambda>s. if length (lf_active s) + length ?L > lc_batch_buffer_size c
         then throw (UB ''copy past the end of the batch buffer'')
         else ret (s\<lparr>lf_active := lf_active s @ ?L, lf_active_records := lf_active_records s + 1\<rparr>)))"
      using s1 lf_returns_write [OF s1] empty L
      by (intro lf_returns_bind) (auto simp: lf_returns_ret lf_healthy_def split: if_splits intro!: lf_returns_ret)
  qed
qed

lemma lf_returns_append_all:
  assumes "lf_inv local_text c old pre rs0 s" "clock_ok local_text" "\<forall>r \<in> set rs. record_ok r"
    "max_line \<le> lc_batch_buffer_size c" "lf_healthy s"
  shows "lf_returns (lf_append_all local_text c rs s)"
  using assms
proof (induction rs arbitrary: rs0 s)
  case (Cons r rs)
  show ?case
    unfolding lf_append_all.simps
  proof (rule lf_returns_bind)
    show "lf_returns (lf_append_record local_text c r s)"
      using Cons.prems by (intro lf_returns_append) auto
  next
    fix s1 assume "lf_append_record local_text c r s = Inr s1" "lf_healthy s1"
    then show "lf_returns (lf_append_all local_text c rs s1)"
      using Cons.prems by (intro Cons.IH [of "rs0 @ [r]"] lf_inv_append) auto
  qed
qed (simp add: lf_returns_ret)

text \<open>
  C38. What the worker does with a list of records of which each fits its fixed texts, starting
  from a log file with the contents \<open>pre\<close> and the backups \<open>old\<close>. If the file system accesses
  succeed, it never fails; and whenever it returns: the files closed by rotation, then the log
  file, then the batch buffer hold \<open>pre\<close> and the complete line of every record in order, no line
  cut off or torn apart; the backups are the last \<open>max_backup_files\<close> closed files, newest first;
  the counters say which records are in the buffer; and with a size limit every file is
  within it, or is a single line, or the file that was already there.
\<close>

theorem log_rotation:
  assumes "max_line \<le> lc_batch_buffer_size c" "clock_ok local_text" "\<forall>r \<in> set rs. record_ok r"
  shows "(True \<notin> set faults \<longrightarrow> (\<exists>s. lf_append_all local_text c rs (lf_new c old pre faults) = Inr s)) \<and>
    (\<forall>s. lf_append_all local_text c rs (lf_new c old pre faults) = Inr s \<longrightarrow>
       (\<exists>closed. lf_closed s = old @ closed \<and>
          concat closed @ lf_file s @ lf_active s = pre @ concat (map (record_line local_text) rs) \<and>
          (lc_max_file_size c \<noteq> 0 \<longrightarrow> (\<forall>f \<in> set (closed @ [lf_file s @ lf_active s]).
             length f \<le> lc_max_file_size c \<or> (\<exists>r \<in> set rs. f = record_line local_text r) \<or> f = pre))) \<and>
       lf_backups s = lf_backups_of (lc_max_backup_files c) (lf_closed s) \<and>
       lf_written s + lf_active_records s = length rs \<and>
       lf_active s = concat (map (record_line local_text) (drop (lf_written s) rs)))"
proof (intro conjI impI allI)
  assume "True \<notin> set faults"
  then have "lf_healthy (lf_new c old pre faults)" by (simp add: lf_healthy_def lf_new_def)
  then show "\<exists>s. lf_append_all local_text c rs (lf_new c old pre faults) = Inr s"
    using lf_returns_append_all [OF lf_inv_new assms(2,3,1)] unfolding lf_returns_def by blast
next
  fix s assume "lf_append_all local_text c rs (lf_new c old pre faults) = Inr s"
  from lf_inv_append_all [OF lf_inv_new this assms(2,3)]
  have inv: "lf_inv local_text c old pre rs s" by simp
  then show "\<exists>closed. lf_closed s = old @ closed \<and>
      concat closed @ lf_file s @ lf_active s = pre @ concat (map (record_line local_text) rs) \<and>
      (lc_max_file_size c \<noteq> 0 \<longrightarrow> (\<forall>f \<in> set (closed @ [lf_file s @ lf_active s]).
         length f \<le> lc_max_file_size c \<or> (\<exists>r \<in> set rs. f = record_line local_text r) \<or> f = pre))"
    by (auto simp: lf_inv_def Let_def list_all_iff)
  show "lf_backups s = lf_backups_of (lc_max_backup_files c) (lf_closed s)"
    "lf_written s + lf_active_records s = length rs"
    "lf_active s = concat (map (record_line local_text) (drop (lf_written s) rs))"
    by (rule lf_invD [OF inv])+
qed


text \<open>Three records, with a limit that makes every second one rotate.\<close>

definition demo_record :: "string \<Rightarrow> log_record" where
  "demo_record message = log_record_of 5000007 Warn 3 (Some ''a.cpp'') 12 None message 1"

definition demo_clock :: "nat \<Rightarrow> string option" where
  "demo_clock second = Some ''2024-01-01 00:00:05''"

definition demo_config :: log_config where
  "demo_config = \<lparr>lc_max_file_size = 150, lc_max_backup_files = 1, lc_batch_buffer_size = 1024\<rparr>"

lemma log_rotation_witness:
  "\<exists>s. lf_append_all demo_clock demo_config (map demo_record [''one'', ''two'', ''three'']) (lf_new demo_config [] [] []) = Inr s \<and>
     (\<exists>closed. concat closed @ lf_file s @ lf_active s =
        concat (map (record_line demo_clock) (map demo_record [''one'', ''two'', ''three''])))"
proof -
  have env: "max_line \<le> lc_batch_buffer_size demo_config" "clock_ok demo_clock"
    "\<forall>r \<in> set (map demo_record [''one'', ''two'', ''three'']). record_ok r"
    by (simp_all add: demo_config_def max_line_def clock_ok_def demo_clock_def demo_record_def record_ok_of)
  obtain s where s: "lf_append_all demo_clock demo_config (map demo_record [''one'', ''two'', ''three''])
      (lf_new demo_config [] [] []) = Inr s"
    using log_rotation [OF env, of "[]" "[]" "[]"] by auto
  then show ?thesis
    using log_rotation [OF env, of "[]" "[]" "[]"] by fastforce
qed

end
