(* ===== verification/Async_Logger.thy ===== *)
theory Async_Logger
  imports Log_File
begin

text \<open>
  \<open>AsyncLogger\<close> (code/AsyncLogger/src/async_logger.cpp): the threads that call \<open>log\<close> and \<open>flush\<close>,
  the worker, and \<open>start\<close> and \<open>stop\<close>. Every access to an atomic variable is a step. The queue is
  what \<open>Mpsc_Ring\<close> shows \<open>MpscRingBuffer\<close> to be from two cells on: a bounded FIFO; a value whose producer has not
  returned from \<open>try_enqueue\<close> may not be visible to the consumer yet. Waiting on a condition
  variable is a step that its predicate, or the time limit, enables.
\<close>

section \<open>State\<close>

datatype al_state = L_Created | L_Running | L_Stopping | L_Stopped | L_Failed

datatype overflow_policy = Block | Drop_Newest

record al_config =
  ac_path :: string
  ac_min_level :: log_level
  ac_max_queue_size :: nat
  ac_policy :: overflow_policy
  ac_flush_interval :: int
  ac_flush_on_error :: bool
  ac_file :: log_config

text \<open>
  A thread outside the logger, by the statement it is about to execute. The number is the
  pending count \<open>log\<close> read (\<open>previous_pending\<close>), or the target of a \<open>flush\<close>.
\<close>

datatype th_pc =
    Th_Idle
  | Th_Log log_record
  | Th_Enter log_record
  | Th_Recheck log_record
  | Th_Make log_record
  | Th_Pend log_record
  | Th_Try log_record nat
  | Th_Undo log_record
  | Th_Full log_record
  | Th_Wait log_record
  | Th_Count log_record nat
  | Th_Refused
  | Th_Leave log_record nat
  | Th_After log_record nat
  | Th_Flush
  | Th_Target
  | Th_Max nat
  | Th_Request nat
  | Th_Flush_Wait nat
  | Th_Return bool

text \<open>The worker; \<open>consumed\<close>, \<open>current\<close> and \<open>stopping_and_drained\<close> are its local variables.\<close>

datatype wk_pc =
    Wk_None
  | Wk_Drain bool
  | Wk_Unpend log_record
  | Wk_Append log_record
  | Wk_State bool
  | Wk_Pending bool al_state
  | Wk_Active bool al_state
  | Wk_Due bool al_state bool
  | Wk_Mark bool al_state bool
  | Wk_Clear bool al_state bool
  | Wk_End bool al_state bool
  | Wk_More
  | Wk_Sleep
  | Wk_Returned
  | Wk_Failed

datatype st_pc = St_Idle | St_Store al_state | St_Join

text \<open>
  \<open>al_queued\<close> is the history of all records enqueued, of which the consumer has taken the first
  \<open>al_taken\<close>. \<open>al_inside\<close> is a history too: how many threads were inside \<open>log\<close> when the worker
  last found nothing pending.
\<close>

record logger =
  al_state :: al_state
  al_queued :: "log_record list"
  al_taken :: nat
  al_pending :: nat
  al_active :: nat
  al_sequence :: u64
  al_accepted :: nat
  al_dropped :: nat
  al_flushed :: nat
  al_flush_target :: nat
  al_flush_requested :: bool
  al_has_error :: bool
  al_file :: log_file
  al_worker :: wk_pc
  al_threads :: "th_pc list"
  al_stopper :: st_pc
  al_inside :: nat

section \<open>Operations\<close>

definition validate_config :: "al_config \<Rightarrow> unit result" where
  "validate_config c =
     (if ac_path c = [] then throw (Invalid_Argument ''logger file_path must not be empty'')
      else if ac_max_queue_size c = 0 then throw (Invalid_Argument ''logger max_queue_size must be greater than 0'')
      else if ac_flush_interval c \<le> 0 then throw (Invalid_Argument ''logger flush_interval must be positive'')
      else if lc_batch_buffer_size (ac_file c) < max_line
      then throw (Invalid_Argument ''logger batch_buffer_size is too small'')
      else ret ())"

definition al_new :: "nat \<Rightarrow> log_file \<Rightarrow> logger" where
  "al_new n file = \<lparr>al_state = L_Created, al_queued = [], al_taken = 0, al_pending = 0, al_active = 0,
     al_sequence = 0, al_accepted = 0, al_dropped = 0, al_flushed = 0, al_flush_target = 0,
     al_flush_requested = False, al_has_error = False, al_file = file, al_worker = Wk_None,
     al_threads = replicate n Th_Idle, al_stopper = St_Idle, al_inside = 0\<rparr>"

text \<open>
  The directory and the file: a path with a slash has a parent to create; a file that does not exist
  is one without content. The creation of the thread succeeds.
\<close>

definition al_open :: "al_config \<Rightarrow> log_file \<Rightarrow> log_file result" where
  "al_open c f =
     rbind (if CHR ''/'' \<in> set (ac_path c) then lf_access ''failed to create log directory'' id f else ret f) (\<lambda>f.
     rbind (lf_access ''failed to inspect log file'' id f) (\<lambda>f.
     rbind (lf_access ''failed to read log file size'' (\<lambda>f. f\<lparr>lf_current_size := length (lf_file f)\<rparr>) f) (\<lambda>f.
     lf_access (''failed to open log file: '' @ ac_path c) id f)))"

definition al_start :: "al_config \<Rightarrow> logger \<Rightarrow> logger result" where
  "al_start c s =
     (if al_state s \<noteq> L_Created then throw (Logic_Error ''AsyncLogger can only be started once'')
      else rbind (validate_config c) (\<lambda>_. rbind (al_open c (al_file s)) (\<lambda>f.
        ret (s\<lparr>al_file := f, al_state := L_Running, al_worker := Wk_Drain False\<rparr>))))"

definition al_full :: "al_config \<Rightarrow> logger \<Rightarrow> bool" where
  "al_full c s \<longleftrightarrow> length (al_queued s) - al_taken s \<ge> ac_max_queue_size c"

text \<open>
  One step of a thread in \<open>log\<close>: the thread's next statement and the new state. With a queue of
  one cell, which \<open>validate_config\<close> accepts, \<open>try_enqueue\<close> overwrites a record that has not been
  taken instead of refusing (\<open>Mpsc_Ring.one_cell_loses\<close>): what follows such a call is not modelled,
  \<open>log\<close> has no step there, and the properties below are stated for two cells and more.
\<close>

fun al_log :: "al_config \<Rightarrow> th_pc \<Rightarrow> logger \<Rightarrow> (th_pc \<times> logger) option" where
  "al_log c (Th_Log r) s =
     Some (if lr_level r < ac_min_level c then Th_Return True
           else if al_state s \<noteq> L_Running then Th_Return False
           else Th_Enter r, s)"
| "al_log c (Th_Enter r) s = Some (Th_Recheck r, s\<lparr>al_active := al_active s + 1\<rparr>)"
| "al_log c (Th_Recheck r) s = Some (if al_state s \<noteq> L_Running then Th_Refused else Th_Make r, s)"
| "al_log c (Th_Make r) s =
     Some (Th_Pend (r\<lparr>lr_sequence := al_sequence s + 1\<rparr>), s\<lparr>al_sequence := al_sequence s + 1\<rparr>)"
| "al_log c (Th_Pend r) s = Some (Th_Try r (al_pending s), s\<lparr>al_pending := al_pending s + 1\<rparr>)"
| "al_log c (Th_Try r previous) s =
     (if ac_max_queue_size c < 2 then None
      else Some (if al_full c s then (Th_Undo r, s)
                 else (Th_Count r previous, s\<lparr>al_queued := al_queued s @ [r]\<rparr>)))"
| "al_log c (Th_Undo r) s = Some (Th_Full r, s\<lparr>al_pending := al_pending s - 1\<rparr>)"
| "al_log c (Th_Full r) s =
     (if ac_policy c = Drop_Newest then Some (Th_Refused, s\<lparr>al_dropped := al_dropped s + 1\<rparr>)
      else Some (Th_Wait r, s))"
| "al_log c (Th_Wait r) s =
     (if al_state s \<noteq> L_Running then Some (Th_Refused, s)
      else if \<not> al_full c s then Some (Th_Pend r, s)
      else None)"
| "al_log c (Th_Count r previous) s = Some (Th_Leave r previous, s\<lparr>al_accepted := al_accepted s + 1\<rparr>)"
| "al_log c Th_Refused s = Some (Th_Return False, s\<lparr>al_active := al_active s - 1\<rparr>)"
| "al_log c (Th_Leave r previous) s = Some (Th_After r previous, s\<lparr>al_active := al_active s - 1\<rparr>)"
| "al_log c (Th_After r previous) s =
     Some (if ac_flush_on_error c \<and> lr_level r \<ge> Error then Th_Flush else Th_Return True, s)"
| "al_log c _ s = None"

text \<open>One step of a thread in \<open>flush\<close>; \<open>update_max\<close> is one step, its loop only repeats it.\<close>

fun al_flush :: "th_pc \<Rightarrow> logger \<Rightarrow> (th_pc \<times> logger) option" where
  "al_flush Th_Flush s =
     Some (if al_state s \<in> {L_Created, L_Stopped, L_Failed} then Th_Return True else Th_Target, s)"
| "al_flush Th_Target s = Some (Th_Max (al_accepted s), s)"
| "al_flush (Th_Max target) s = Some (Th_Request target, s\<lparr>al_flush_target := max (al_flush_target s) target\<rparr>)"
| "al_flush (Th_Request target) s = Some (Th_Flush_Wait target, s\<lparr>al_flush_requested := True\<rparr>)"
| "al_flush (Th_Flush_Wait target) s =
     (if al_flushed s \<ge> target \<or> al_state s = L_Failed \<or> al_state s = L_Stopped then Some (Th_Return True, s)
      else None)"
| "al_flush _ s = None"

definition al_fail_worker :: "logger \<Rightarrow> logger" where
  "al_fail_worker s = s\<lparr>al_has_error := True, al_state := L_Failed, al_worker := Wk_Failed\<rparr>"

text \<open>
  One step of the worker. \<open>unseen\<close>: the oldest record is not visible to \<open>try_dequeue\<close> yet;
  \<open>due\<close>: the time of the next periodic flush has come. After a failed access of the file
  system the model keeps the file as it was before the operation.
\<close>

fun al_work :: "(nat \<Rightarrow> string option) \<Rightarrow> al_config \<Rightarrow> bool \<Rightarrow> bool \<Rightarrow> wk_pc \<Rightarrow> logger \<Rightarrow> logger option" where
  "al_work clock c unseen due (Wk_Drain consumed) s =
     (if al_taken s < length (al_queued s) \<and> \<not> unseen
      then Some (s\<lparr>al_taken := al_taken s + 1, al_worker := Wk_Unpend (al_queued s ! al_taken s)\<rparr>)
      else Some (s\<lparr>al_worker := Wk_State consumed\<rparr>))"
| "al_work clock c unseen due (Wk_Unpend r) s = Some (s\<lparr>al_pending := al_pending s - 1, al_worker := Wk_Append r\<rparr>)"
| "al_work clock c unseen due (Wk_Append r) s =
     Some (case lf_append_record clock (ac_file c) r (al_file s) of
             Inl e \<Rightarrow> al_fail_worker s
           | Inr f \<Rightarrow> s\<lparr>al_file := f, al_worker := Wk_Drain True\<rparr>)"
| "al_work clock c unseen due (Wk_State consumed) s =
     Some (s\<lparr>al_worker := if al_state s = L_Stopping then Wk_Pending consumed L_Stopping
                         else Wk_Due consumed (al_state s) False\<rparr>)"
| "al_work clock c unseen due (Wk_Pending consumed current) s =
     Some (if al_pending s = 0 then s\<lparr>al_worker := Wk_Active consumed current, al_inside := al_active s\<rparr>
           else s\<lparr>al_worker := Wk_Due consumed current False\<rparr>)"
| "al_work clock c unseen due (Wk_Active consumed current) s =
     Some (s\<lparr>al_worker := Wk_Due consumed current (al_active s = 0)\<rparr>)"
| "al_work clock c unseen due (Wk_Due consumed current drained) s =
     (if al_flush_requested s \<or> due \<or> drained
      then Some (case rbind (lf_write_active (al_file s)) lf_flush_output of
                   Inl e \<Rightarrow> al_fail_worker s
                 | Inr f \<Rightarrow> s\<lparr>al_file := f, al_worker := Wk_Mark consumed current drained\<rparr>)
      else Some (s\<lparr>al_worker := Wk_End consumed current drained\<rparr>))"
| "al_work clock c unseen due (Wk_Mark consumed current drained) s =
     Some (s\<lparr>al_flushed := lf_written (al_file s), al_worker := Wk_Clear consumed current drained\<rparr>)"
| "al_work clock c unseen due (Wk_Clear consumed current drained) s =
     Some (s\<lparr>al_flush_requested := al_flush_requested s \<and> \<not> lf_written (al_file s) \<ge> al_flush_target s,
             al_worker := Wk_End consumed current drained\<rparr>)"
| "al_work clock c unseen due (Wk_End consumed current drained) s =
     Some (s\<lparr>al_worker := if drained \<or> current = L_Failed then Wk_Returned
                         else if consumed then Wk_Drain False else Wk_More\<rparr>)"
| "al_work clock c unseen due Wk_More s =
     Some (s\<lparr>al_worker := if al_pending s \<noteq> 0 then Wk_Drain False else Wk_Sleep\<rparr>)"
| "al_work clock c unseen due Wk_Sleep s =
     (if al_pending s \<noteq> 0 \<or> al_flush_requested s \<or> al_state s \<noteq> L_Running \<or> due
      then Some (s\<lparr>al_worker := Wk_Drain False\<rparr>) else None)"
| "al_work clock c unseen due _ s = None"

text \<open>
  \<open>stop\<close>, under its mutex: the state is read, then written; the worker is joined; at the end
  the state is \<open>Stopped\<close> unless the worker failed.
\<close>

fun al_stop :: "st_pc \<Rightarrow> logger \<Rightarrow> logger option" where
  "al_stop St_Idle s =
     Some (if al_state s = L_Created then s\<lparr>al_state := L_Stopped\<rparr>
           else if al_state s = L_Stopped then s
           else s\<lparr>al_stopper := St_Store (al_state s)\<rparr>)"
| "al_stop (St_Store current) s =
     Some (s\<lparr>al_state := (if current = L_Running then L_Stopping else al_state s), al_stopper := St_Join\<rparr>)"
| "al_stop St_Join s =
     (if al_worker s \<in> {Wk_Returned, Wk_Failed}
      then Some (s\<lparr>al_state := (if al_state s = L_Failed then L_Failed else L_Stopped), al_stopper := St_Idle\<rparr>)
      else None)"

definition th_resting :: "th_pc \<Rightarrow> bool" where
  "th_resting pc \<longleftrightarrow> pc = Th_Idle \<or> (\<exists>b. pc = Th_Return b)"

inductive al_step :: "(nat \<Rightarrow> string option) \<Rightarrow> al_config \<Rightarrow> logger \<Rightarrow> logger \<Rightarrow> bool" for clock c where
  als_start: "al_stopper s = St_Idle \<Longrightarrow> al_start c s = Inr s' \<Longrightarrow> al_step clock c s s'"
| als_call_log: "i < length (al_threads s) \<Longrightarrow> th_resting (al_threads s ! i) \<Longrightarrow> record_ok r \<Longrightarrow>
    al_step clock c s (s\<lparr>al_threads := (al_threads s)[i := Th_Log r]\<rparr>)"
| als_call_flush: "i < length (al_threads s) \<Longrightarrow> th_resting (al_threads s ! i) \<Longrightarrow>
    al_step clock c s (s\<lparr>al_threads := (al_threads s)[i := Th_Flush]\<rparr>)"
| als_log: "i < length (al_threads s) \<Longrightarrow> al_log c (al_threads s ! i) s = Some (pc, s') \<Longrightarrow>
    al_step clock c s (s'\<lparr>al_threads := (al_threads s)[i := pc]\<rparr>)"
| als_flush: "i < length (al_threads s) \<Longrightarrow> al_flush (al_threads s ! i) s = Some (pc, s') \<Longrightarrow>
    al_step clock c s (s'\<lparr>al_threads := (al_threads s)[i := pc]\<rparr>)"
| als_work: "(unseen \<Longrightarrow> \<exists>r previous. Th_Count r previous \<in> set (al_threads s)) \<Longrightarrow>
    al_work clock c unseen due (al_worker s) s = Some s' \<Longrightarrow> al_step clock c s s'"
| als_stop: "al_stop (al_stopper s) s = Some s' \<Longrightarrow> al_step clock c s s'"


section \<open>Invariant\<close>

fun in_log :: "th_pc \<Rightarrow> bool" where
  "in_log (Th_Recheck r) = True" | "in_log (Th_Make r) = True" | "in_log (Th_Pend r) = True"
| "in_log (Th_Try r n) = True" | "in_log (Th_Undo r) = True" | "in_log (Th_Full r) = True"
| "in_log (Th_Wait r) = True" | "in_log (Th_Count r n) = True" | "in_log Th_Refused = True"
| "in_log (Th_Leave r n) = True" | "in_log _ = False"

fun may_queue :: "th_pc \<Rightarrow> bool" where
  "may_queue (Th_Make r) = True" | "may_queue (Th_Pend r) = True" | "may_queue (Th_Try r n) = True"
| "may_queue (Th_Undo r) = True" | "may_queue (Th_Full r) = True" | "may_queue (Th_Wait r) = True"
| "may_queue _ = False"

fun adds_pending :: "th_pc \<Rightarrow> bool" where
  "adds_pending (Th_Try r n) = True" | "adds_pending (Th_Undo r) = True" | "adds_pending _ = False"

fun uncounted :: "th_pc \<Rightarrow> bool" where
  "uncounted (Th_Count r n) = True" | "uncounted _ = False"

fun th_records :: "th_pc \<Rightarrow> log_record set" where
  "th_records (Th_Log r) = {r}" | "th_records (Th_Enter r) = {r}" | "th_records (Th_Recheck r) = {r}"
| "th_records (Th_Make r) = {r}" | "th_records (Th_Pend r) = {r}" | "th_records (Th_Try r n) = {r}"
| "th_records (Th_Undo r) = {r}" | "th_records (Th_Full r) = {r}" | "th_records (Th_Wait r) = {r}"
| "th_records _ = {}"

fun wk_held :: "wk_pc \<Rightarrow> log_record list" where
  "wk_held (Wk_Unpend r) = [r]" | "wk_held (Wk_Append r) = [r]" | "wk_held _ = []"

fun wk_unpending :: "wk_pc \<Rightarrow> bool" where
  "wk_unpending (Wk_Unpend r) = True" | "wk_unpending _ = False"

text \<open>The worker has found nothing pending while stopping.\<close>

fun wk_final :: "wk_pc \<Rightarrow> bool" where
  "wk_final (Wk_Active consumed current) = True"
| "wk_final (Wk_Due consumed current drained) = drained"
| "wk_final (Wk_Mark consumed current drained) = drained"
| "wk_final (Wk_Clear consumed current drained) = drained"
| "wk_final (Wk_End consumed current drained) = drained"
| "wk_final Wk_Returned = True"
| "wk_final _ = False"

text \<open>The batch buffer is empty: it was just written, and on the way out nothing is appended.\<close>

fun wk_written :: "wk_pc \<Rightarrow> bool" where
  "wk_written (Wk_Mark consumed current drained) = True"
| "wk_written (Wk_Clear consumed current drained) = True"
| "wk_written (Wk_End consumed current drained) = drained"
| "wk_written Wk_Returned = True"
| "wk_written _ = False"

fun wk_current_ok :: "wk_pc \<Rightarrow> bool" where
  "wk_current_ok (Wk_Pending consumed current) \<longleftrightarrow> current = L_Stopping"
| "wk_current_ok (Wk_Active consumed current) \<longleftrightarrow> current = L_Stopping"
| "wk_current_ok (Wk_Due consumed current drained) \<longleftrightarrow> current \<noteq> L_Failed"
| "wk_current_ok (Wk_Mark consumed current drained) \<longleftrightarrow> current \<noteq> L_Failed"
| "wk_current_ok (Wk_Clear consumed current drained) \<longleftrightarrow> current \<noteq> L_Failed"
| "wk_current_ok (Wk_End consumed current drained) \<longleftrightarrow> current \<noteq> L_Failed"
| "wk_current_ok _ \<longleftrightarrow> True"

fun wk_alive :: "wk_pc \<Rightarrow> bool" where
  "wk_alive Wk_None = False" | "wk_alive Wk_Returned = False" | "wk_alive Wk_Failed = False"
| "wk_alive _ = True"

definition al_waiting :: "logger \<Rightarrow> nat" where
  "al_waiting s = length (al_queued s) - al_taken s"

definition al_counts :: "logger \<Rightarrow> bool" where
  "al_counts s \<longleftrightarrow> al_taken s \<le> length (al_queued s) \<and>
     al_pending s = al_waiting s + count_pc adds_pending (al_threads s) + of_bool (wk_unpending (al_worker s)) \<and>
     al_active s = count_pc in_log (al_threads s) \<and>
     al_accepted s + count_pc uncounted (al_threads s) = length (al_queued s) \<and>
     (\<forall>r \<in> set (al_queued s). record_ok r) \<and> (\<forall>pc \<in> set (al_threads s). \<forall>r \<in> th_records pc. record_ok r)"

definition al_phase :: "logger \<Rightarrow> bool" where
  "al_phase s \<longleftrightarrow>
     (al_state s = L_Created \<longrightarrow> al_worker s = Wk_None) \<and>
     (al_worker s = Wk_None \<longrightarrow> al_state s \<in> {L_Created, L_Stopped} \<and> al_stopper s = St_Idle) \<and>
     (wk_alive (al_worker s) \<longrightarrow> al_state s \<in> {L_Running, L_Stopping}) \<and>
     (wk_final (al_worker s) \<or> (\<exists>b current. al_worker s = Wk_Pending b current) \<longrightarrow> al_state s \<noteq> L_Running) \<and>
     wk_current_ok (al_worker s) \<and>
     (wk_final (al_worker s) \<longrightarrow> al_waiting s + count_pc may_queue (al_threads s) \<le> al_inside s)"

definition al_stored :: "(nat \<Rightarrow> string option) \<Rightarrow> al_config \<Rightarrow> string list \<Rightarrow> string \<Rightarrow> logger \<Rightarrow> bool" where
  "al_stored clock c old pre s \<longleftrightarrow>
     (al_worker s \<noteq> Wk_Failed \<longrightarrow>
        (\<exists>appended. take (al_taken s) (al_queued s) = appended @ wk_held (al_worker s) \<and>
           lf_inv clock (ac_file c) old pre appended (al_file s)) \<and>
        (wk_written (al_worker s) \<longrightarrow> lf_active (al_file s) = []) \<and>
        al_flushed s \<le> lf_written (al_file s))"

definition al_inv :: "(nat \<Rightarrow> string option) \<Rightarrow> al_config \<Rightarrow> string list \<Rightarrow> string \<Rightarrow> logger \<Rightarrow> bool" where
  "al_inv clock c old pre s \<longleftrightarrow> al_counts s \<and> al_phase s \<and> al_stored clock c old pre s"

definition al_init :: "nat \<Rightarrow> al_config \<Rightarrow> string list \<Rightarrow> string \<Rightarrow> bool list \<Rightarrow> logger \<Rightarrow> bool" where
  "al_init n c old pre faults s \<longleftrightarrow> s = al_new n (lf_new (ac_file c) old pre faults)"

lemma record_ok_sequence [simp]: "record_ok (r\<lparr>lr_sequence := w\<rparr>) = record_ok r"
  by (simp add: record_ok_def)

text \<open>A step of a thread changes its own program counter and, if it enqueues, the queue's end.\<close>

lemma al_thread_counts:
  assumes "i < length (al_threads s)"
  shows "count_pc P ((al_threads s)[i := pc]) + of_bool (P (al_threads s ! i)) = count_pc P (al_threads s) + of_bool (P pc)"
  by (rule count_pc_update [OF assms])

text \<open>The effect of a step of \<open>log\<close> on the counters, as a balance.\<close>

lemma al_log_effect:
  assumes "al_log c pc0 s = Some (pc, s')" "adds_pending pc0 \<Longrightarrow> 0 < al_pending s" "in_log pc0 \<Longrightarrow> 0 < al_active s"
    "\<forall>r \<in> th_records pc0. record_ok r"
  shows "\<exists>rs. al_queued s' = al_queued s @ rs \<and> (\<forall>r \<in> set rs. record_ok r) \<and> (\<forall>r \<in> th_records pc. record_ok r) \<and>
    al_pending s' + of_bool (adds_pending pc0) = al_pending s + of_bool (adds_pending pc) + length rs \<and>
    al_active s' + of_bool (in_log pc0) = al_active s + of_bool (in_log pc) \<and>
    al_accepted s' + of_bool (uncounted pc) = al_accepted s + of_bool (uncounted pc0) + length rs \<and>
    (al_state s \<noteq> L_Running \<longrightarrow> of_bool (may_queue pc) + length rs \<le> (of_bool (may_queue pc0) :: nat)) \<and>
    al_taken s' = al_taken s \<and> al_worker s' = al_worker s \<and> al_state s' = al_state s \<and> al_stopper s' = al_stopper s \<and>
    al_inside s' = al_inside s"
  using assms by (cases pc0) (auto split: if_splits)

lemma al_log_counts_phase:
  assumes counts: "al_counts s" and phase: "al_phase s" and i: "i < length (al_threads s)"
    and step: "al_log c (al_threads s ! i) s = Some (pc, s')"
  shows "al_counts (s'\<lparr>al_threads := (al_threads s)[i := pc]\<rparr>)" "al_phase (s'\<lparr>al_threads := (al_threads s)[i := pc]\<rparr>)"
proof -
  let ?pc0 = "al_threads s ! i" and ?ths = "(al_threads s)[i := pc]"
  have rec: "\<forall>r \<in> th_records ?pc0. record_ok r"
    using counts nth_mem [OF i] unfolding al_counts_def by blast
  have "adds_pending ?pc0 \<Longrightarrow> 0 < al_pending s" "in_log ?pc0 \<Longrightarrow> 0 < al_active s"
    using counts count_pc_pos [OF i, of adds_pending] count_pc_pos [OF i, of in_log] by (auto simp: al_counts_def)
  then obtain rs where rs: "al_queued s' = al_queued s @ rs" "\<forall>r \<in> set rs. record_ok r" "\<forall>r \<in> th_records pc. record_ok r"
      "al_pending s' + of_bool (adds_pending ?pc0) = al_pending s + of_bool (adds_pending pc) + length rs"
      "al_active s' + of_bool (in_log ?pc0) = al_active s + of_bool (in_log pc)"
      "al_accepted s' + of_bool (uncounted pc) = al_accepted s + of_bool (uncounted ?pc0) + length rs"
      "al_state s \<noteq> L_Running \<longrightarrow> of_bool (may_queue pc) + length rs \<le> (of_bool (may_queue ?pc0) :: nat)"
    and same: "al_taken s' = al_taken s" "al_worker s' = al_worker s" "al_state s' = al_state s"
      "al_stopper s' = al_stopper s" "al_inside s' = al_inside s"
    using al_log_effect [OF step _ _ rec] by blast
  have taken: "al_taken s \<le> length (al_queued s)" using counts by (simp add: al_counts_def)
  have waiting: "al_waiting (s'\<lparr>al_threads := ?ths\<rparr>) = al_waiting s + length rs"
    using taken by (simp add: al_waiting_def rs(1) same)
  have recs: "\<forall>x \<in> set ?ths. \<forall>r \<in> th_records x. record_ok r"
    using counts rs(3) by (intro Ball_list_update) (auto simp: al_counts_def)
  have "al_pending s' = al_waiting s + length rs + count_pc adds_pending ?ths + of_bool (wk_unpending (al_worker s))"
    using counts rs(4) al_thread_counts [OF i, of adds_pending pc] unfolding al_counts_def by linarith
  moreover have "al_active s' = count_pc in_log ?ths"
    using counts rs(5) al_thread_counts [OF i, of in_log pc] unfolding al_counts_def by linarith
  moreover have "al_accepted s' + count_pc uncounted ?ths = length (al_queued s) + length rs"
    using counts rs(6) al_thread_counts [OF i, of uncounted pc] unfolding al_counts_def by linarith
  moreover have "al_taken s \<le> length (al_queued s @ rs)" "\<forall>r \<in> set (al_queued s @ rs). record_ok r"
    using taken counts rs(2) by (auto simp: al_counts_def)
  ultimately show "al_counts (s'\<lparr>al_threads := ?ths\<rparr>)"
    using recs waiting by (simp add: al_counts_def rs(1) same)
  have "al_waiting s + length rs + count_pc may_queue ?ths \<le> al_inside s" if "wk_final (al_worker s)"
  proof -
    have "al_state s \<noteq> L_Running" "al_waiting s + count_pc may_queue (al_threads s) \<le> al_inside s"
      using phase that by (auto simp: al_phase_def)
    then show ?thesis using rs(7) al_thread_counts [OF i, of may_queue pc] by linarith
  qed
  then show "al_phase (s'\<lparr>al_threads := ?ths\<rparr>)"
    using phase waiting by (auto simp: al_phase_def same)
qed

lemma al_log_same: "al_log c pc0 s = Some (pc, s') \<Longrightarrow>
  al_taken s' = al_taken s \<and> al_worker s' = al_worker s \<and> al_file s' = al_file s \<and> al_flushed s' = al_flushed s \<and>
  (\<exists>rs. al_queued s' = al_queued s @ rs)"
  by (cases pc0) (auto split: if_splits)

lemma al_flush_same: "al_flush pc0 s = Some (pc, s') \<Longrightarrow>
  al_taken s' = al_taken s \<and> al_worker s' = al_worker s \<and> al_file s' = al_file s \<and> al_flushed s' = al_flushed s \<and>
  al_queued s' = al_queued s \<and> al_state s' = al_state s \<and> al_stopper s' = al_stopper s \<and> al_pending s' = al_pending s \<and>
  al_active s' = al_active s \<and> al_accepted s' = al_accepted s \<and> al_inside s' = al_inside s \<and>
  \<not> adds_pending pc0 \<and> \<not> adds_pending pc \<and> \<not> in_log pc0 \<and> \<not> in_log pc \<and> \<not> uncounted pc0 \<and> \<not> uncounted pc \<and>
  \<not> may_queue pc0 \<and> \<not> may_queue pc \<and> th_records pc = {}"
  by (cases pc0) (auto split: if_splits)

lemma al_stored_threads:
  assumes "al_stored clock c old pre s" "al_taken s \<le> length (al_queued s)"
    "al_taken s' = al_taken s \<and> al_worker s' = al_worker s \<and> al_file s' = al_file s \<and> al_flushed s' = al_flushed s \<and>
     (\<exists>rs. al_queued s' = al_queued s @ rs)"
  shows "al_stored clock c old pre (s'\<lparr>al_threads := ths\<rparr>)"
  using assms by (auto simp: al_stored_def)

text \<open>Calls, and steps of \<open>flush\<close>, keep what the counts and the phase depend on.\<close>

lemma al_quiet_counts:
  assumes "al_counts s" "i < length (al_threads s)"
    and "\<not> adds_pending (al_threads s ! i)" "\<not> in_log (al_threads s ! i)" "\<not> uncounted (al_threads s ! i)"
    and "\<not> adds_pending pc" "\<not> in_log pc" "\<not> uncounted pc" "\<forall>r \<in> th_records pc. record_ok r"
    and same: "al_taken s' = al_taken s" "al_worker s' = al_worker s" "al_queued s' = al_queued s"
      "al_pending s' = al_pending s" "al_active s' = al_active s" "al_accepted s' = al_accepted s"
  shows "al_counts (s'\<lparr>al_threads := (al_threads s)[i := pc]\<rparr>)"
proof -
  have "\<forall>x \<in> set ((al_threads s)[i := pc]). \<forall>r \<in> th_records x. record_ok r"
    using assms(1,9) by (intro Ball_list_update) (auto simp: al_counts_def)
  then show ?thesis
    using assms(1) same al_thread_counts [OF assms(2), of adds_pending pc] al_thread_counts [OF assms(2), of in_log pc]
      al_thread_counts [OF assms(2), of uncounted pc] assms(3-8)
    by (simp add: al_counts_def al_waiting_def)
qed

lemma al_quiet_phase:
  assumes "al_phase s" "i < length (al_threads s)" "\<not> may_queue (al_threads s ! i)" "\<not> may_queue pc"
    and same: "al_taken s' = al_taken s" "al_worker s' = al_worker s" "al_queued s' = al_queued s"
      "al_state s' = al_state s" "al_stopper s' = al_stopper s" "al_inside s' = al_inside s"
  shows "al_phase (s'\<lparr>al_threads := (al_threads s)[i := pc]\<rparr>)"
  using assms(1) same al_thread_counts [OF assms(2), of may_queue pc] assms(3,4)
  by (simp add: al_phase_def al_waiting_def)

lemma th_resting_quiet: "th_resting pc \<Longrightarrow> \<not> adds_pending pc \<and> \<not> in_log pc \<and> \<not> uncounted pc \<and> \<not> may_queue pc"
  by (auto simp: th_resting_def)

lemma al_log_inv:
  assumes "al_inv clock c old pre s" "i < length (al_threads s)" "al_log c (al_threads s ! i) s = Some (pc, s')"
  shows "al_inv clock c old pre (s'\<lparr>al_threads := (al_threads s)[i := pc]\<rparr>)"
  using assms al_log_counts_phase [OF _ _ assms(2,3)]
    al_stored_threads [OF _ _ al_log_same [OF assms(3)]]
  by (simp add: al_inv_def al_counts_def)

lemma al_flush_inv:
  assumes inv: "al_inv clock c old pre s" and i: "i < length (al_threads s)"
    and step: "al_flush (al_threads s ! i) s = Some (pc, s')"
  shows "al_inv clock c old pre (s'\<lparr>al_threads := (al_threads s)[i := pc]\<rparr>)"
proof -
  note same = al_flush_same [OF step]
  have "al_counts (s'\<lparr>al_threads := (al_threads s)[i := pc]\<rparr>)"
    using inv i same by (intro al_quiet_counts) (auto simp: al_inv_def)
  moreover have "al_phase (s'\<lparr>al_threads := (al_threads s)[i := pc]\<rparr>)"
    using inv i same by (intro al_quiet_phase) (auto simp: al_inv_def)
  moreover have "al_stored clock c old pre (s'\<lparr>al_threads := (al_threads s)[i := pc]\<rparr>)"
    using inv same by (intro al_stored_threads) (auto simp: al_inv_def al_counts_def)
  ultimately show ?thesis by (simp add: al_inv_def)
qed

lemma al_call_inv:
  assumes "al_inv clock c old pre s" "i < length (al_threads s)" "th_resting (al_threads s ! i)"
    "pc = Th_Flush \<or> (\<exists>r. pc = Th_Log r \<and> record_ok r)"
  shows "al_inv clock c old pre (s\<lparr>al_threads := (al_threads s)[i := pc]\<rparr>)"
proof -
  note quiet = th_resting_quiet [OF assms(3)]
  have "al_counts (s\<lparr>al_threads := (al_threads s)[i := pc]\<rparr>)"
    using assms quiet by (intro al_quiet_counts) (auto simp: al_inv_def)
  moreover have "al_phase (s\<lparr>al_threads := (al_threads s)[i := pc]\<rparr>)"
    using assms quiet by (intro al_quiet_phase) (auto simp: al_inv_def)
  moreover have "al_stored clock c old pre (s\<lparr>al_threads := (al_threads s)[i := pc]\<rparr>)"
    using assms(1) by (simp add: al_inv_def al_stored_def)
  ultimately show ?thesis by (simp add: al_inv_def)
qed


text \<open>Steps of the worker.\<close>

lemma al_work_counts:
  assumes "al_counts s" "al_work clock c unseen due (al_worker s) s = Some s'"
  shows "al_counts s'"
proof (cases "al_worker s")
  case (Wk_Drain consumed)
  then show ?thesis using assms by (auto simp: al_counts_def al_waiting_def split: if_splits)
qed (use assms in \<open>auto simp: al_counts_def al_waiting_def al_fail_worker_def split: if_splits sum.splits\<close>)

lemma may_queue_in_log: "may_queue pc \<Longrightarrow> in_log pc"
  by (cases pc) simp_all

lemma count_may_queue: "count_pc may_queue ths \<le> count_pc in_log ths"
  by (induction ths) (auto simp: of_bool_def dest: may_queue_in_log)

lemma al_work_phase:
  assumes "al_phase s" "al_counts s" "al_work clock c unseen due (al_worker s) s = Some s'"
  shows "al_phase s'"
proof (cases "al_worker s")
  case (Wk_Pending consumed current)
  have "count_pc may_queue (al_threads s) \<le> al_active s"
    using assms(2) count_may_queue [of "al_threads s"] by (simp add: al_counts_def)
  moreover have "al_pending s = 0 \<Longrightarrow> al_waiting s = 0" using assms(2) by (simp add: al_counts_def)
  ultimately show ?thesis
    using assms(1,3) Wk_Pending by (auto simp: al_phase_def al_waiting_def split: if_splits)
qed (use assms(1,3) in \<open>auto simp: al_phase_def al_waiting_def al_fail_worker_def split: if_splits sum.splits\<close>)

lemma lf_written_mono:
  "lf_write_active s = Inr s' \<Longrightarrow> lf_written s \<le> lf_written s'"
  by (auto simp: lf_write_active_def Let_def split: if_splits dest!: lf_access_Inr)

lemma lf_append_mono:
  assumes inv: "lf_inv clock c old pre rs s" and step: "lf_append_record clock c r s = Inr s'"
  shows "lf_written s \<le> lf_written s'"
proof -
  obtain line cached s1 s2 where "format_record clock max_line r (lf_cached s) = Inr (line, cached)"
    and s1: "lf_rotate_if_needed c (length line) (s\<lparr>lf_cached := cached\<rparr>) = Inr s1"
    and s2: "(if length (lf_active s1) + length line > lc_batch_buffer_size c then lf_write_active s1 else ret s1) = Inr s2"
    and "length (lf_active s2) + length line \<le> lc_batch_buffer_size c"
    and s': "s' = s2\<lparr>lf_active := lf_active s2 @ line, lf_active_records := lf_active_records s2 + 1\<rparr>"
    by (rule lf_append_Inr [OF step])
  have "lf_written s \<le> lf_written s1"
  proof (cases "lf_rotation_due c (length line) (s\<lparr>lf_cached := cached\<rparr>)")
    case True
    have "lf_active (s\<lparr>lf_cached := cached\<rparr>) = [] \<longrightarrow> lf_active_records (s\<lparr>lf_cached := cached\<rparr>) = 0"
      using lf_inv_empty [OF inv] by simp
    from lf_rotate_Inr(5) [OF s1 True this] show ?thesis using lf_invD(2) [OF inv] by simp
  qed (use s1 in \<open>auto simp: lf_rotate_if_needed_def\<close>)
  also have "\<dots> \<le> lf_written s2" using s2 lf_written_mono by (auto split: if_splits)
  finally show ?thesis by (simp add: s')
qed

lemma al_work_stored:
  assumes stored: "al_stored clock c old pre s" and counts: "al_counts s" and phase: "al_phase s"
    and clock: "clock_ok clock"
    and step: "al_work clock c unseen due (al_worker s) s = Some s'"
  shows "al_stored clock c old pre s'"
proof (cases "al_worker s")
  case (Wk_Drain consumed)
  then show ?thesis
    using stored step by (auto simp: al_stored_def take_Suc_conv_app_nth split: if_splits)
next
  case (Wk_Append r)
  then obtain appended where app: "take (al_taken s) (al_queued s) = appended @ [r]"
    and inv: "lf_inv clock (ac_file c) old pre appended (al_file s)" and fl: "al_flushed s \<le> lf_written (al_file s)"
    using stored by (auto simp: al_stored_def)
  have "r \<in> set (al_queued s)" using app by (metis in_set_takeD in_set_conv_decomp)
  then have ok: "record_ok r" using counts by (simp add: al_counts_def)
  show ?thesis
  proof (cases "lf_append_record clock (ac_file c) r (al_file s)")
    case (Inr f)
    then show ?thesis
      using step Wk_Append app lf_inv_append [OF inv Inr clock ok] lf_append_mono [OF inv Inr] fl
      by (auto simp: al_stored_def)
  qed (use step Wk_Append in \<open>auto simp: al_stored_def al_fail_worker_def\<close>)
next
  case (Wk_Due consumed current drained)
  then obtain appended where app: "take (al_taken s) (al_queued s) = appended"
    and inv: "lf_inv clock (ac_file c) old pre appended (al_file s)" and fl: "al_flushed s \<le> lf_written (al_file s)"
    using stored by (auto simp: al_stored_def)
  show ?thesis
  proof (cases "al_flush_requested s \<or> due \<or> drained")
    case True
    show ?thesis
    proof (cases "rbind (lf_write_active (al_file s)) lf_flush_output")
      case (Inr f)
      then obtain f1 where f1: "lf_write_active (al_file s) = Inr f1" "lf_flush_output f1 = Inr f"
        by (auto simp: rbind_Inr_iff)
      obtain fs where f: "f = f1\<lparr>lf_faults := fs\<rparr>"
        using lf_access_Inr [OF f1(2) [unfolded lf_flush_output_def]] by auto
      have "lf_inv clock (ac_file c) old pre appended f" "lf_active f = []"
        using lf_inv_write [OF inv f1(1)] by (simp_all add: f lf_inv_def Let_def)
      moreover have "al_flushed s \<le> lf_written f" using fl lf_written_mono [OF f1(1)] by (simp add: f)
      ultimately show ?thesis
        using step Wk_Due True Inr app by (auto simp: al_stored_def)
    qed (use step Wk_Due True in \<open>auto simp: al_stored_def al_fail_worker_def\<close>)
  qed (use step Wk_Due stored in \<open>auto simp: al_stored_def\<close>)
next
  case (Wk_End consumed current drained)
  then have "current \<noteq> L_Failed" using phase by (simp add: al_phase_def)
  then show ?thesis using stored step Wk_End by (auto simp: al_stored_def split: if_splits)
qed (use stored step in \<open>auto simp: al_stored_def split: if_splits\<close>)

lemma al_stop_same:
  assumes "al_stop pc s = Some s'"
  shows "al_queued s' = al_queued s" "al_taken s' = al_taken s" "al_pending s' = al_pending s"
    "al_active s' = al_active s" "al_accepted s' = al_accepted s" "al_threads s' = al_threads s"
    "al_worker s' = al_worker s" "al_file s' = al_file s" "al_flushed s' = al_flushed s" "al_inside s' = al_inside s"
  using assms by (cases pc; simp split: if_splits; force)+

lemma al_stop_inv:
  assumes "al_inv clock c old pre s" "al_stop (al_stopper s) s = Some s'"
  shows "al_inv clock c old pre s'"
proof -
  have "al_counts s'"
    using assms(1) al_stop_same [OF assms(2)] by (simp add: al_inv_def al_counts_def al_waiting_def)
  moreover have "al_stored clock c old pre s'"
    using assms(1) al_stop_same [OF assms(2)] by (simp add: al_inv_def al_stored_def)
  moreover have "al_phase s'"
  proof -
    have "al_phase s" using assms(1) by (simp add: al_inv_def)
    then show ?thesis
      using assms(2) al_stop_same [OF assms(2)]
      by (cases "al_stopper s") (auto simp: al_phase_def al_waiting_def split: if_splits)
  qed
  ultimately show ?thesis by (simp add: al_inv_def)
qed

lemma al_open_same:
  assumes "al_open c f = Inr f'"
  shows "\<exists>fs. f' = f\<lparr>lf_current_size := length (lf_file f), lf_faults := fs\<rparr>"
proof -
  obtain f1 f2 f3 where 1: "f1 = f \<or> lf_access ''failed to create log directory'' id f = Inr f1"
    and 2: "lf_access ''failed to inspect log file'' id f1 = Inr f2"
    and 3: "lf_access ''failed to read log file size'' (\<lambda>f. f\<lparr>lf_current_size := length (lf_file f)\<rparr>) f2 = Inr f3"
    and 4: "lf_access (''failed to open log file: '' @ ac_path c) id f3 = Inr f'"
    using assms unfolding al_open_def rbind_Inr_iff by (auto split: if_splits)
  have "f = f\<lparr>lf_faults := lf_faults f\<rparr>" by simp
  then obtain a where a: "f1 = f\<lparr>lf_faults := a\<rparr>"
    using 1 lf_access_Inr [of _ id f f1] by (metis id_apply)
  obtain b where b: "f2 = f1\<lparr>lf_faults := b\<rparr>" using lf_access_Inr [OF 2] by auto
  obtain d where d: "f3 = f2\<lparr>lf_faults := d, lf_current_size := length (lf_file f2)\<rparr>" using lf_access_Inr [OF 3] by auto
  obtain h where h: "f' = f3\<lparr>lf_faults := h\<rparr>" using lf_access_Inr [OF 4] by auto
  show ?thesis by (intro exI [of _ h]) (simp add: a b d h)
qed

lemma al_open_inv:
  assumes "al_open c f = Inr f'" "lf_inv clock (ac_file c) old pre rs f"
  shows "lf_inv clock (ac_file c) old pre rs f'"
  using al_open_same [OF assms(1)] assms(2) by (auto simp: lf_inv_def Let_def)

lemma al_open_healthy:
  "lf_faults f = [] \<Longrightarrow> lf_current_size f = length (lf_file f) \<Longrightarrow> al_open c f = Inr f"
  by (cases f) (simp add: al_open_def lf_access_def)

lemma al_open_new: "al_open c (lf_new d old text []) = Inr (lf_new d old text [])"
  by (simp add: al_open_healthy lf_new_def)

lemma al_start_inv:
  assumes "al_inv clock c old pre s" "al_stopper s = St_Idle" "al_start c s = Inr s'"
  shows "al_inv clock c old pre s'"
proof -
  obtain f where f: "al_open c (al_file s) = Inr f" "al_state s = L_Created"
      "s' = s\<lparr>al_file := f, al_state := L_Running, al_worker := Wk_Drain False\<rparr>"
    using assms(3) by (auto simp: al_start_def rbind_Inr_iff split: if_splits)
  have "lf_written f = lf_written (al_file s)" using al_open_same [OF f(1)] by auto
  then show ?thesis
    using assms(1,2) f(2,3) al_open_inv [OF f(1)]
    by (auto simp: al_inv_def al_counts_def al_stored_def al_waiting_def al_phase_def)
qed

lemma al_step_inv: "al_step clock c s s' \<Longrightarrow> clock_ok clock \<Longrightarrow> al_inv clock c old pre s \<Longrightarrow> al_inv clock c old pre s'"
proof (induction rule: al_step.induct)
  case (als_work unseen s due s')
  then show ?case
    using al_work_counts al_work_phase al_work_stored unfolding al_inv_def by blast
qed (blast intro: al_start_inv al_call_inv al_log_inv al_flush_inv al_stop_inv)+


lemma al_inv_init: "al_init n c old pre faults s \<Longrightarrow> al_inv clock c old pre s"
proof -
  have "count_pc P (replicate n Th_Idle) = 0" if "\<not> P Th_Idle" for P
    using that by (induction n) simp_all
  then show "al_init n c old pre faults s \<Longrightarrow> ?thesis"
    using lf_inv_new [of clock "ac_file c" old pre faults]
    by (auto simp: al_init_def al_inv_def al_counts_def al_phase_def al_stored_def al_new_def al_waiting_def)
qed

definition al_system :: "(nat \<Rightarrow> string option) \<Rightarrow> al_config \<Rightarrow> logger \<Rightarrow> logger \<Rightarrow> bool" where
  "al_system clock c s s' \<longleftrightarrow> clock_ok clock \<and> al_step clock c s s'"

interpretation logger: invariant_system "al_init n c old pre faults" "al_system clock c" "al_inv clock c old pre"
  for n c old pre faults clock
  by unfold_locales (auto simp: al_system_def intro: al_inv_init al_step_inv)

lemma al_reach_inv:
  assumes "clock_ok clock" "reach (al_init n c old pre faults) (al_step clock c) s"
  shows "al_inv clock c old pre s"
proof -
  have "reach (al_init n c old pre faults) (al_system clock c) s"
    using assms(2) by (induction rule: reach.induct) (auto intro: reach.intros simp: al_system_def assms(1))
  then show ?thesis by (rule logger.reach_inv)
qed

text \<open>What the stored part of the invariant says of the files.\<close>

lemma al_stored_files:
  assumes "al_stored clock c old pre s" "al_worker s \<noteq> Wk_Failed"
  shows "\<exists>closed appended. take (al_taken s) (al_queued s) = appended @ wk_held (al_worker s) \<and>
     lf_closed (al_file s) = old @ closed \<and>
     concat closed @ lf_file (al_file s) @ lf_active (al_file s) = pre @ concat (map (record_line clock) appended) \<and>
     lf_written (al_file s) + lf_active_records (al_file s) = length appended"
  using assms unfolding al_stored_def lf_inv_def Let_def by blast

lemma al_returned_written:
  assumes "al_stored clock c old pre s" "al_worker s = Wk_Returned" "al_taken s \<le> length (al_queued s)"
  shows "lf_active (al_file s) = []" "lf_written (al_file s) = al_taken s"
proof -
  have inv: "lf_inv clock (ac_file c) old pre (take (al_taken s) (al_queued s)) (al_file s)"
    and empty: "lf_active (al_file s) = []"
    using assms by (auto simp: al_stored_def)
  show "lf_active (al_file s) = []" by (rule empty)
  have "lf_active_records (al_file s) = 0" using lf_inv_empty [OF inv] empty by simp
  then show "lf_written (al_file s) = al_taken s"
    using lf_invD(3) [OF inv] assms(3) by simp
qed

section \<open>The worker runs to its end\<close>

text \<open>
  The worker alone, once \<open>stop\<close> has been called and nobody is inside \<open>log\<close>: one entry of the list
  for each of its steps, true when the periodic flush is due.
\<close>

fun al_run :: "(nat \<Rightarrow> string option) \<Rightarrow> al_config \<Rightarrow> bool list \<Rightarrow> logger \<Rightarrow> logger" where
  "al_run clock c [] s = s"
| "al_run clock c (due # ds) s =
     (case al_work clock c False due (al_worker s) s of None \<Rightarrow> s | Some s' \<Rightarrow> al_run clock c ds s')"

fun wk_measure :: "wk_pc \<Rightarrow> nat \<Rightarrow> nat \<Rightarrow> nat" where
  "wk_measure (Wk_Drain consumed) w p = 3 * w + 8"
| "wk_measure (Wk_Unpend r) w p = 3 * w + 10"
| "wk_measure (Wk_Append r) w p = 3 * w + 9"
| "wk_measure (Wk_State consumed) w p = (if p = 0 then 7 else 3 * w + 16)"
| "wk_measure (Wk_Pending consumed current) w p = (if p = 0 then 6 else 3 * w + 15)"
| "wk_measure (Wk_Active consumed current) w p = 5"
| "wk_measure (Wk_Due consumed current drained) w p = (if drained then 4 else 3 * w + 14)"
| "wk_measure (Wk_Mark consumed current drained) w p = (if drained then 3 else 3 * w + 13)"
| "wk_measure (Wk_Clear consumed current drained) w p = (if drained then 2 else 3 * w + 12)"
| "wk_measure (Wk_End consumed current drained) w p = (if drained then 1 else 3 * w + 11)"
| "wk_measure Wk_More w p = 3 * w + 10"
| "wk_measure Wk_Sleep w p = 3 * w + 9"
| "wk_measure _ w p = 0"

definition al_stopping :: "(nat \<Rightarrow> string option) \<Rightarrow> al_config \<Rightarrow> string list \<Rightarrow> string \<Rightarrow> logger \<Rightarrow> bool" where
  "al_stopping clock c old pre s \<longleftrightarrow> al_inv clock c old pre s \<and> al_state s = L_Stopping \<and> al_active s = 0 \<and>
     lf_healthy (al_file s) \<and> al_worker s \<notin> {Wk_None, Wk_Failed}"

text \<open>
  The number of records the worker will have taken in the end: the records enqueued, unless it
  has read already that nothing is pending and takes no more.
\<close>

definition al_end :: "logger \<Rightarrow> nat" where
  "al_end s = (if wk_final (al_worker s) then al_taken s else length (al_queued s))"

lemma al_stopping_pending:
  assumes "al_stopping clock c old pre s"
  shows "al_pending s = al_waiting s + of_bool (wk_unpending (al_worker s))"
proof -
  have "count_pc adds_pending ths \<le> count_pc in_log ths" for ths
    by (induction ths) (auto simp: of_bool_def elim: adds_pending.elims)
  from this [of "al_threads s"] show ?thesis
    using assms by (simp add: al_stopping_def al_inv_def al_counts_def)
qed

lemma lf_returns_flush: "lf_healthy f \<Longrightarrow> lf_returns (rbind (lf_write_active f) lf_flush_output)"
  unfolding lf_flush_output_def by (intro lf_returns_bind lf_returns_write lf_returns_access) simp_all

lemma al_stopping_step:
  assumes st: "al_stopping clock c old pre s" and env: "clock_ok clock" "max_line \<le> lc_batch_buffer_size (ac_file c)"
    and alive: "al_worker s \<noteq> Wk_Returned"
  obtains s' where "al_work clock c False due (al_worker s) s = Some s'" "al_stopping clock c old pre s'"
    "al_queued s' = al_queued s" "al_end s' = al_end s"
    "wk_measure (al_worker s') (al_waiting s') (al_pending s') < wk_measure (al_worker s) (al_waiting s) (al_pending s)"
proof -
  have inv: "al_counts s" "al_phase s" "al_stored clock c old pre s"
    and s: "al_state s = L_Stopping" "al_active s = 0" "lf_healthy (al_file s)"
      "al_worker s \<noteq> Wk_None" "al_worker s \<noteq> Wk_Failed"
    using st by (auto simp: al_stopping_def al_inv_def)
  have le: "al_taken s \<le> length (al_queued s)" using inv(1) by (simp add: al_counts_def)
  note pending = al_stopping_pending [OF st]
  have "\<exists>s'. al_work clock c False due (al_worker s) s = Some s' \<and> al_queued s' = al_queued s \<and>
     al_state s' = L_Stopping \<and> al_active s' = 0 \<and> lf_healthy (al_file s') \<and> al_worker s' \<notin> {Wk_None, Wk_Failed} \<and>
     al_end s' = al_end s \<and>
     wk_measure (al_worker s') (al_waiting s') (al_pending s') < wk_measure (al_worker s) (al_waiting s) (al_pending s)"
  proof (cases "al_worker s")
    case (Wk_Drain consumed)
    then show ?thesis using s pending by (auto simp: al_waiting_def al_end_def)
  next
    case (Wk_Append r)
    then obtain appended where app: "take (al_taken s) (al_queued s) = appended @ [r]"
      and f: "lf_inv clock (ac_file c) old pre appended (al_file s)"
      using inv(3) by (auto simp: al_stored_def)
    have "r \<in> set (al_queued s)" using app by (metis in_set_takeD in_set_conv_decomp)
    then have "record_ok r" using inv(1) by (simp add: al_counts_def)
    from lf_returns_append [OF f env(1) this env(2) s(3)]
    obtain f' where "lf_append_record clock (ac_file c) r (al_file s) = Inr f'" "lf_healthy f'"
      by (auto simp: lf_returns_def)
    then show ?thesis using s Wk_Append by (auto simp: al_waiting_def al_end_def)
  next
    case (Wk_Due consumed current drained)
    obtain f' where "rbind (lf_write_active (al_file s)) lf_flush_output = Inr f'" "lf_healthy f'"
      using lf_returns_flush [OF s(3)] by (auto simp: lf_returns_def)
    then show ?thesis using s Wk_Due by (auto simp: al_waiting_def al_end_def)
  next
    case (Wk_End consumed current drained)
    then have "current \<noteq> L_Failed" using inv(2) by (simp add: al_phase_def)
    then show ?thesis using s Wk_End by (auto simp: al_waiting_def al_end_def)
  qed (use s pending alive le in \<open>auto simp: al_waiting_def al_end_def\<close>)
  then obtain s' where s': "al_work clock c False due (al_worker s) s = Some s'" "al_queued s' = al_queued s"
    "al_state s' = L_Stopping" "al_active s' = 0" "lf_healthy (al_file s')" "al_worker s' \<notin> {Wk_None, Wk_Failed}"
    "al_end s' = al_end s"
    "wk_measure (al_worker s') (al_waiting s') (al_pending s') < wk_measure (al_worker s) (al_waiting s) (al_pending s)"
    by blast
  moreover have "al_inv clock c old pre s'"
    using al_work_counts [OF inv(1) s'(1)] al_work_phase [OF inv(2,1) s'(1)]
      al_work_stored [OF inv(3,1,2) env(1) s'(1)] by (simp add: al_inv_def)
  ultimately show thesis by (intro that [of s']) (auto simp: al_stopping_def)
qed

lemma al_run_stopping:
  assumes "al_stopping clock c old pre s" "clock_ok clock" "max_line \<le> lc_batch_buffer_size (ac_file c)"
    "wk_measure (al_worker s) (al_waiting s) (al_pending s) \<le> length ds"
  shows "al_worker (al_run clock c ds s) = Wk_Returned \<and> al_stopping clock c old pre (al_run clock c ds s) \<and>
    al_queued (al_run clock c ds s) = al_queued s \<and> al_end (al_run clock c ds s) = al_end s"
  using assms
proof (induction ds arbitrary: s)
  case Nil
  then have "wk_measure (al_worker s) (al_waiting s) (al_pending s) = 0" by simp
  then have "al_worker s = Wk_Returned"
    using Nil(1) by (cases "al_worker s") (auto simp: al_stopping_def split: if_splits)
  then show ?case using Nil(1) by simp
next
  case (Cons d ds)
  show ?case
  proof (cases "al_worker s = Wk_Returned")
    case True
    then show ?thesis using Cons.prems(1) by simp
  next
    case False
    obtain s' where s': "al_work clock c False d (al_worker s) s = Some s'" "al_stopping clock c old pre s'"
      "al_queued s' = al_queued s" "al_end s' = al_end s"
      "wk_measure (al_worker s') (al_waiting s') (al_pending s') < wk_measure (al_worker s) (al_waiting s) (al_pending s)"
      by (rule al_stopping_step [OF Cons.prems(1-3) False])
    then have "wk_measure (al_worker s') (al_waiting s') (al_pending s') \<le> length ds"
      using Cons.prems(4) by simp
    then show ?thesis
      using Cons.IH [OF s'(2) Cons.prems(2,3)] s'(1,3,4) by simp
  qed
qed

lemma wk_measure_bound: "wk_measure pc w p \<le> 3 * w + 16"
  by (cases pc) simp_all


section \<open>Properties\<close>

text \<open>
  C39. In every reachable state of an \<open>AsyncLogger\<close> with a queue of two cells or more, whose
  worker has not failed, the files closed
  by rotation, the log file and the batch buffer hold, after what was there, the lines of the
  records the worker has taken, in the order they were enqueued, except the one it has in hand.
  \<open>accepted_count\<close> counts the records enqueued, but for those of threads just about to count
  theirs; the pending count is what waits in the queue plus the threads that try to enqueue. When
  the worker has returned, the buffer is empty, every record taken is written, and the
  records left in the queue are at most as many as there were threads inside \<open>log\<close> when it
  last looked. A \<open>flush\<close> whose target is reached leaves that many records written.
\<close>

theorem logger_conserves:
  assumes "clock_ok clock" "2 \<le> ac_max_queue_size c" "reach (al_init n c old pre faults) (al_step clock c) s"
  shows "(al_worker s \<noteq> Wk_Failed \<longrightarrow>
      (\<exists>closed appended. take (al_taken s) (al_queued s) = appended @ wk_held (al_worker s) \<and>
         lf_closed (al_file s) = old @ closed \<and>
         concat closed @ lf_file (al_file s) @ lf_active (al_file s) = pre @ concat (map (record_line clock) appended) \<and>
         lf_written (al_file s) + lf_active_records (al_file s) = length appended)) \<and>
    al_accepted s + count_pc uncounted (al_threads s) = length (al_queued s) \<and>
    al_pending s = al_waiting s + count_pc adds_pending (al_threads s) + of_bool (wk_unpending (al_worker s)) \<and>
    (al_worker s = Wk_Returned \<longrightarrow> lf_active (al_file s) = [] \<and> lf_written (al_file s) = al_taken s \<and>
      length (al_queued s) - al_taken s \<le> al_inside s) \<and>
    (\<forall>target. target \<le> al_flushed s \<and> al_worker s \<noteq> Wk_Failed \<longrightarrow> target \<le> lf_written (al_file s))"
proof -
  have inv: "al_counts s" "al_phase s" "al_stored clock c old pre s"
    using al_reach_inv [OF assms(1,3), unfolded al_inv_def] by blast+
  have "length (al_queued s) - al_taken s \<le> al_inside s" if "al_worker s = Wk_Returned"
    using inv(2) that by (simp add: al_phase_def al_waiting_def)
  moreover have "target \<le> lf_written (al_file s)" if "target \<le> al_flushed s" "al_worker s \<noteq> Wk_Failed" for target
    using inv(3) that by (simp add: al_stored_def)
  moreover have "al_accepted s + count_pc uncounted (al_threads s) = length (al_queued s)"
    "al_pending s = al_waiting s + count_pc adds_pending (al_threads s) + of_bool (wk_unpending (al_worker s))"
    "al_taken s \<le> length (al_queued s)"
    using inv(1) by (simp_all add: al_counts_def)
  ultimately show ?thesis
    using al_stored_files [OF inv(3)] al_returned_written [OF inv(3)] by blast
qed

text \<open>
  C40. With a queue of two cells or more, once \<open>stop\<close> has been called, when no thread is inside
  \<open>log\<close> and the file system works, the worker ends after at most \<open>3 * n + 16\<close> steps, for \<open>n\<close>
  records waiting, whatever the clock says; then every record ever enqueued is in the files, in
  order, and counted as written. The exception is a worker that has read, before those records
  were enqueued, that nothing is pending (\<open>stop_loses_record\<close>): it ends as well, and the files hold
  exactly the records it had taken. The batch buffer has room for a line, as \<open>validate_config\<close>
  demands, and \<open>clock\<close>, what \<open>localtime_r\<close> and \<open>strftime\<close> make of a second, always has an answer of
  19 characters.
\<close>

theorem logger_drains:
  assumes "clock_ok clock" "max_line \<le> lc_batch_buffer_size (ac_file c)" "2 \<le> ac_max_queue_size c"
    and "reach (al_init n c old pre faults) (al_step clock c) s"
    and "al_state s = L_Stopping" "al_active s = 0" "wk_alive (al_worker s)"
    and "True \<notin> set (lf_faults (al_file s))" "3 * al_waiting s + 16 \<le> length ds"
    and "m = (if wk_final (al_worker s) then al_taken s else length (al_queued s))"
  shows "al_worker (al_run clock c ds s) = Wk_Returned \<and> al_queued (al_run clock c ds s) = al_queued s \<and>
    al_taken (al_run clock c ds s) = m \<and> lf_written (al_file (al_run clock c ds s)) = m \<and>
    (\<exists>closed. lf_closed (al_file (al_run clock c ds s)) = old @ closed \<and>
       concat closed @ lf_file (al_file (al_run clock c ds s)) =
         pre @ concat (map (record_line clock) (take m (al_queued s))))"
proof -
  have "al_stopping clock c old pre s"
    using al_reach_inv [OF assms(1,4)] assms(5-8) by (auto simp: al_stopping_def lf_healthy_def)
  moreover have "wk_measure (al_worker s) (al_waiting s) (al_pending s) \<le> length ds"
    using wk_measure_bound assms(9) by (rule order_trans)
  ultimately have run: "al_worker (al_run clock c ds s) = Wk_Returned" "al_stopping clock c old pre (al_run clock c ds s)"
    "al_queued (al_run clock c ds s) = al_queued s" "al_end (al_run clock c ds s) = m"
    using al_run_stopping [OF _ assms(1,2)] assms(10) al_end_def by metis+
  let ?t = "al_run clock c ds s"
  have inv: "al_counts ?t" "al_stored clock c old pre ?t"
    using run(2) by (simp_all add: al_stopping_def al_inv_def)
  have taken: "al_taken ?t = m" "m \<le> length (al_queued s)"
    using run(1,3,4) inv(1) by (simp_all add: al_end_def al_counts_def)
  have "lf_active (al_file ?t) = []" "lf_written (al_file ?t) = al_taken ?t"
    using al_returned_written [OF inv(2) run(1)] taken run(3) by simp_all
  then show ?thesis
    using al_stored_files [OF inv(2)] run taken by auto
qed

section \<open>Schedules\<close>

datatype al_act = A_Start | A_Log_Call nat log_record | A_Flush_Call nat | A_Thread nat | A_Work bool | A_Stop

fun al_perform :: "(nat \<Rightarrow> string option) \<Rightarrow> al_config \<Rightarrow> al_act \<Rightarrow> logger \<Rightarrow> logger option" where
  "al_perform clock c A_Start s =
     (if al_stopper s = St_Idle then (case al_start c s of Inl e \<Rightarrow> None | Inr s' \<Rightarrow> Some s') else None)"
| "al_perform clock c (A_Log_Call i r) s =
     (if i < length (al_threads s) \<and> al_threads s ! i = Th_Idle
      then Some (s\<lparr>al_threads := (al_threads s)[i := Th_Log r]\<rparr>) else None)"
| "al_perform clock c (A_Flush_Call i) s =
     (if i < length (al_threads s) \<and> al_threads s ! i = Th_Return True
      then Some (s\<lparr>al_threads := (al_threads s)[i := Th_Flush]\<rparr>) else None)"
| "al_perform clock c (A_Thread i) s =
     (if i < length (al_threads s)
      then (case al_log c (al_threads s ! i) s of
              Some (pc, s') \<Rightarrow> Some (s'\<lparr>al_threads := (al_threads s)[i := pc]\<rparr>)
            | None \<Rightarrow> (case al_flush (al_threads s ! i) s of
                Some (pc, s') \<Rightarrow> Some (s'\<lparr>al_threads := (al_threads s)[i := pc]\<rparr>)
              | None \<Rightarrow> None))
      else None)"
| "al_perform clock c (A_Work due) s = al_work clock c False due (al_worker s) s"
| "al_perform clock c A_Stop s = al_stop (al_stopper s) s"

fun al_acts :: "(nat \<Rightarrow> string option) \<Rightarrow> al_config \<Rightarrow> al_act list \<Rightarrow> logger \<Rightarrow> logger option" where
  "al_acts clock c [] s = Some s"
| "al_acts clock c (a # as) s = (case al_perform clock c a s of None \<Rightarrow> None | Some s' \<Rightarrow> al_acts clock c as s')"

fun act_ok :: "al_act \<Rightarrow> bool" where
  "act_ok (A_Log_Call i r) = record_ok r"
| "act_ok _ = True"

lemma al_perform_step:
  assumes step: "al_perform clock c a s = Some s'" and ok: "act_ok a"
  shows "al_step clock c s s'"
proof (cases a)
  case A_Start
  then have "al_stopper s = St_Idle" "al_start c s = Inr s'"
    using step by (auto split: if_splits sum.splits)
  then show ?thesis by (rule als_start)
next
  case (A_Log_Call i r)
  then have "i < length (al_threads s)" "th_resting (al_threads s ! i)" "record_ok r"
      "s' = s\<lparr>al_threads := (al_threads s)[i := Th_Log r]\<rparr>"
    using step ok by (auto simp: th_resting_def split: if_splits)
  then show ?thesis by (simp add: als_call_log)
next
  case (A_Flush_Call i)
  then have "i < length (al_threads s)" "th_resting (al_threads s ! i)"
      "s' = s\<lparr>al_threads := (al_threads s)[i := Th_Flush]\<rparr>"
    using step by (auto simp: th_resting_def split: if_splits)
  then show ?thesis by (simp add: als_call_flush)
next
  case (A_Thread i)
  then have i: "i < length (al_threads s)" using step by (simp split: if_splits)
  show ?thesis
  proof (cases "al_log c (al_threads s ! i) s")
    case None
    then obtain pc s1 where "al_flush (al_threads s ! i) s = Some (pc, s1)"
        "s' = s1\<lparr>al_threads := (al_threads s)[i := pc]\<rparr>"
      using step A_Thread i by (auto simp del: al_log.simps al_flush.simps split: option.splits)
    then show ?thesis using als_flush [OF i] by blast
  next
    case (Some x)
    then obtain pc s1 where "al_log c (al_threads s ! i) s = Some (pc, s1)"
        "s' = s1\<lparr>al_threads := (al_threads s)[i := pc]\<rparr>"
      using step A_Thread i by (cases x) (simp del: al_log.simps al_flush.simps)
    then show ?thesis using als_log [OF i] by blast
  qed
next
  case (A_Work due)
  then show ?thesis using step als_work [of False s clock c due s'] by simp
next
  case A_Stop
  then show ?thesis using step als_stop [of s s'] by (simp del: al_stop.simps)
qed

lemma al_acts_reach:
  "al_acts clock c as s = Some s' \<Longrightarrow> list_all act_ok as \<Longrightarrow> reach I (al_step clock c) s \<Longrightarrow>
   reach I (al_step clock c) s'"
proof (induction as arbitrary: s)
  case (Cons a as)
  then obtain s1 where "al_perform clock c a s = Some s1" "al_acts clock c as s1 = Some s'"
    by (auto split: option.splits)
  moreover have "act_ok a" "list_all act_ok as" using Cons.prems(2) by simp_all
  ultimately show ?case using Cons.IH Cons.prems(3) reach_step al_perform_step by metis
qed simp


definition demo_al_config :: "bool \<Rightarrow> al_config" where
  "demo_al_config flush_on_error = \<lparr>ac_path = ''app.log'', ac_min_level = Info, ac_max_queue_size = 2, ac_policy = Block,
     ac_flush_interval = 1000, ac_flush_on_error = flush_on_error,
     ac_file = \<lparr>lc_max_file_size = 0, lc_max_backup_files = 1, lc_batch_buffer_size = 1024\<rparr>\<rparr>"

definition demo_al :: "bool \<Rightarrow> logger" where
  "demo_al b = al_new 2 (lf_new (ac_file (demo_al_config b)) [] [] [])"

definition demo_error :: log_record where
  "demo_error = log_record_of 5000007 Error 3 None 12 None ''x'' 0"

lemma demo_al_reach: "reach (al_init 2 (demo_al_config b) [] [] []) I (demo_al b)"
  by (rule reach_init) (simp add: al_init_def demo_al_def)

lemma demo_error_ok: "record_ok demo_error"
  unfolding demo_error_def by (rule record_ok_of)

lemma demo_clock_ok: "clock_ok demo_clock"
  by (simp add: clock_ok_def demo_clock_def)

text \<open>The states of the examples, evaluated; what the file holds is left as it is computed.\<close>

lemma demo_al_eq: "demo_al b = \<lparr>al_state = L_Created, al_queued = [], al_taken = 0, al_pending = 0, al_active = 0,
     al_sequence = 0, al_accepted = 0, al_dropped = 0, al_flushed = 0, al_flush_target = 0,
     al_flush_requested = False, al_has_error = False, al_file = lf_new (ac_file (demo_al_config b)) [] [] [],
     al_worker = Wk_None, al_threads = [Th_Idle, Th_Idle], al_stopper = St_Idle, al_inside = 0\<rparr>"
  by (simp add: demo_al_def al_new_def numeral_2_eq_2)

lemma demo_level [simp]: "lr_level demo_error = Error" "lr_level (r\<lparr>lr_sequence := w\<rparr>) = lr_level r"
  "\<not> Error < Info" "(Error :: log_level) \<le> Error"
  by (simp_all add: demo_error_def log_record_of_def less_log_level_def)

lemmas al_eval = demo_al_eq al_start_def al_open_healthy al_open_new validate_config_def max_line_def al_full_def demo_al_config_def

text \<open>
  A thread is inside \<open>log\<close> when \<open>stop\<close> is called. The worker reads that nothing is pending, then the
  thread enqueues, counts and leaves, then the worker reads that nobody is inside \<open>log\<close>, and
  returns: \<open>log\<close> has returned true and the record is never written.
\<close>

definition lost_schedule :: "al_act list" where
  "lost_schedule = [A_Start, A_Log_Call 0 demo_error, A_Thread 0, A_Thread 0, A_Thread 0, A_Stop, A_Stop,
     A_Work False, A_Work False, A_Work False,
     A_Thread 0, A_Thread 0, A_Thread 0, A_Thread 0, A_Thread 0, A_Thread 0,
     A_Work False, A_Work False, A_Work False, A_Work False, A_Work False, A_Stop]"

lemma stop_loses_record:
  "\<exists>s. reach (al_init 2 (demo_al_config False) [] [] []) (al_step demo_clock (demo_al_config False)) s \<and>
     al_state s = L_Stopped \<and> al_worker s = Wk_Returned \<and> al_accepted s = 1 \<and> al_taken s = 0 \<and>
     al_threads s ! 0 = Th_Return True \<and> lf_written (al_file s) = 0"
proof -
  obtain s where s: "al_acts demo_clock (demo_al_config False) lost_schedule (demo_al False) = Some s"
     "al_state s = L_Stopped" "al_worker s = Wk_Returned" "al_accepted s = 1" "al_taken s = 0"
     "al_threads s ! 0 = Th_Return True" "lf_written (al_file s) = 0"
    by (simp add: lost_schedule_def al_eval lf_new_def lf_write_active_def lf_flush_output_def lf_access_def)
  moreover have "list_all act_ok lost_schedule"
    by (simp add: lost_schedule_def demo_error_ok)
  ultimately show ?thesis using al_acts_reach [OF s(1) _ demo_al_reach] by blast
qed

lemma logger_conserves_witness:
  "\<exists>s. reach (al_init 2 (demo_al_config False) [] [] []) (al_step demo_clock (demo_al_config False)) s \<and>
     al_worker s = Wk_Returned \<and> lf_active (al_file s) = [] \<and> length (al_queued s) \<le> al_inside s"
proof -
  obtain s where s: "reach (al_init 2 (demo_al_config False) [] [] []) (al_step demo_clock (demo_al_config False)) s"
    "al_worker s = Wk_Returned" "al_taken s = 0"
    using stop_loses_record by blast
  then show ?thesis using logger_conserves [OF demo_clock_ok _ s(1)] by (auto simp: demo_al_config_def)
qed

text \<open>One record is logged, then \<open>stop\<close> is called; the worker has not begun.\<close>

definition drain_schedule :: "al_act list" where
  "drain_schedule = [A_Start, A_Log_Call 0 demo_error, A_Thread 0, A_Thread 0, A_Thread 0, A_Thread 0, A_Thread 0,
     A_Thread 0, A_Thread 0, A_Thread 0, A_Stop, A_Stop]"

lemma logger_drains_witness:
  "\<exists>s. al_acts demo_clock (demo_al_config False) drain_schedule (demo_al False) = Some s \<and>
     al_worker (al_run demo_clock (demo_al_config False) (replicate 19 False) s) = Wk_Returned \<and>
     lf_written (al_file (al_run demo_clock (demo_al_config False) (replicate 19 False) s)) = 1"
proof -
  obtain s where s: "al_acts demo_clock (demo_al_config False) drain_schedule (demo_al False) = Some s"
     "al_state s = L_Stopping" "al_active s = 0" "al_worker s = Wk_Drain False" "al_waiting s = 1"
     "lf_faults (al_file s) = []" "length (al_queued s) = 1"
    by (simp add: drain_schedule_def al_eval al_waiting_def lf_new_def)
  have "list_all act_ok drain_schedule"
    by (simp add: drain_schedule_def demo_error_ok)
  then have reach: "reach (al_init 2 (demo_al_config False) [] [] []) (al_step demo_clock (demo_al_config False)) s"
    using al_acts_reach [OF s(1) _ demo_al_reach] by blast
  have "max_line \<le> lc_batch_buffer_size (ac_file (demo_al_config False))"
    "2 \<le> ac_max_queue_size (demo_al_config False)"
    by (simp_all add: demo_al_config_def max_line_def)
  from logger_drains [OF demo_clock_ok this reach s(2,3), of "replicate 19 False"] s
  show ?thesis by simp
qed

text \<open>
  The first thread has enqueued its record but not counted it when the second logs its own and
  flushes: the target is 1, which the first record reaches, and \<open>flush\<close> returns while the
  record of its caller is still in the queue.
\<close>

definition early_schedule :: "al_act list" where
  "early_schedule = [A_Start, A_Log_Call 0 demo_error, A_Thread 0, A_Thread 0, A_Thread 0, A_Thread 0, A_Thread 0,
     A_Thread 0, A_Work False, A_Work False, A_Work False, A_Work False, A_Work False,
     A_Log_Call 1 demo_error, A_Thread 1, A_Thread 1, A_Thread 1, A_Thread 1, A_Thread 1, A_Thread 1, A_Thread 1,
     A_Thread 1, A_Thread 1, A_Flush_Call 1, A_Thread 1, A_Thread 1, A_Thread 1, A_Thread 1,
     A_Work False, A_Work False, A_Thread 1]"

lemma demo_append:
  "\<exists>f g. lf_append_record demo_clock (ac_file (demo_al_config False)) (demo_error\<lparr>lr_sequence := 1\<rparr>)
       (lf_new (ac_file (demo_al_config False)) [] [] []) = Inr f \<and>
     rbind (lf_write_active f) lf_flush_output = Inr g \<and> lf_written g = 1"
proof -
  let ?c = "ac_file (demo_al_config False)" and ?r = "demo_error\<lparr>lr_sequence := 1\<rparr>"
  have ok: "record_ok ?r" "max_line \<le> lc_batch_buffer_size ?c" "lf_healthy (lf_new ?c [] [] [])"
    using demo_error_ok by (simp_all add: demo_al_config_def max_line_def lf_healthy_def lf_new_def)
  obtain f where f: "lf_append_record demo_clock ?c ?r (lf_new ?c [] [] []) = Inr f" "lf_healthy f"
    using lf_returns_append [OF lf_inv_new demo_clock_ok ok] by (auto simp: lf_returns_def)
  have inv: "lf_inv demo_clock ?c [] [] [?r] f"
    using lf_inv_append [OF lf_inv_new f(1) demo_clock_ok ok(1)] by simp
  obtain f1 g where g: "lf_write_active f = Inr f1" "lf_flush_output f1 = Inr g"
    using lf_returns_flush [OF f(2)] by (auto simp: lf_returns_def rbind_Inr_iff)
  have "lf_written f1 = 1"
    using lf_inv_write(1,2) [OF inv g(1)] lf_inv_empty lf_invD(3) by fastforce
  then have "lf_written g = 1"
    using lf_access_Inr [OF g(2) [unfolded lf_flush_output_def]] by auto
  then show ?thesis using f(1) g by auto
qed

lemma flush_returns_early:
  "\<exists>s. reach (al_init 2 (demo_al_config False) [] [] []) (al_step demo_clock (demo_al_config False)) s \<and>
     al_threads s ! 1 = Th_Return True \<and> al_queued s = [demo_error\<lparr>lr_sequence := 1\<rparr>, demo_error\<lparr>lr_sequence := 2\<rparr>] \<and>
     al_taken s = 1 \<and> al_accepted s = 1 \<and> al_flushed s = 1"
proof -
  obtain f g where fg: "lf_append_record demo_clock (ac_file (demo_al_config False)) (demo_error\<lparr>lr_sequence := 1\<rparr>)
       (lf_new (ac_file (demo_al_config False)) [] [] []) = Inr f"
     "rbind (lf_write_active f) lf_flush_output = Inr g" "lf_written g = 1"
    using demo_append by blast
  obtain s where s: "al_acts demo_clock (demo_al_config False) early_schedule (demo_al False) = Some s"
     "al_threads s ! 1 = Th_Return True" "al_queued s = [demo_error\<lparr>lr_sequence := 1\<rparr>, demo_error\<lparr>lr_sequence := 2\<rparr>]"
     "al_taken s = 1" "al_accepted s = 1" "al_flushed s = 1"
    using fg by (simp add: early_schedule_def al_eval)
  moreover have "list_all act_ok early_schedule"
    by (simp add: early_schedule_def demo_error_ok)
  ultimately show ?thesis using al_acts_reach [OF s(1) _ demo_al_reach] by blast
qed

end
