(* ===== verification/Spec2Isabelle.thy ===== *)
theory Spec2Isabelle
  imports Blocking_Queue_Threads Move_Only_Function Timer_Scheduler Rpc_Messages Rpc_System
    Loop_Thread Loop_Timers Tcp_Client Tcp_Server Mpsc_Ring Async_Logger
begin

text \<open>
  A verification library for the C++ programs under \<open>code/\<close> of this repository: the bounded
  queues, the thread pool, the timer scheduler, the asynchronous logger, the reactor network
  library (MiniReactor) and the RPC framework built on it (MiniRPC).

  \<^bold>\<open>How the parts fit together.\<close> \<open>ThreadPool\<close> keeps tasks (\<open>MoveOnlyFunction\<close>) in one bounded
  global queue (\<open>BoundedRingQueue\<close>) and one deque per worker (\<open>LocalTaskQueue\<close>), with work
  stealing. \<open>TimerScheduler\<close> hands due timers to the pool. MiniReactor's event loops run the
  callbacks of file descriptors and of timers; connections buffer their bytes in \<open>Buffer\<close>.
  \<open>RpcServer\<close> cuts requests out of such a buffer (\<open>RpcCodec\<close>), looks the method up
  (\<open>ServiceRegistry\<close>) and runs it on the pool; \<open>RpcClient\<close> matches responses with pending calls.
  \<open>AsyncLogger\<close> puts records into a lock-free queue (\<open>MpscRingBuffer\<close>), from which one worker
  writes them to files it rotates. \<open>BlockingQueue\<close> stands on its own.

  \<^bold>\<open>Theories.\<close>
  \<^item> \<open>Prelude\<close>: machine types, exceptions as values (\<open>cpp_exn\<close>, \<open>result\<close>), critical sections
    (\<open>outcome\<close>), circular arrays, counting of threads, lists without repetitions, reachability and
    the locale \<open>invariant_system\<close>, which every state machine below interprets with its own step
    relation and invariant.
  \<^item> \<open>Bounded_Fifo\<close>: the locale of a bounded queue, and what follows from its laws for any
    sequence of calls. \<open>Ring_Buffer\<close> (BlockingQueue/include/blocking_queue.hpp, \<open>RingBuffer\<close>) and
    \<open>Task_Queues\<close> (ThreadPool/BoundedRingQueue.h, LocalTaskQueue.h) interpret it.
  \<^item> \<open>Blocking_Queue\<close>: each operation of \<open>BlockingQueue\<close> as a critical section, and its refinement
    of an abstract bounded queue; \<open>Blocking_Queue_Threads\<close>: any number of threads calling them,
    sleeping on the condition variables and being woken.
  \<^item> \<open>Thread_Pool\<close> (ThreadPool/ThreadPool.cpp): workers, submitters and the destructor as a step
    relation; tasks are conserved, shutdown drains the queues and does not get stuck.
  \<^item> \<open>Move_Only_Function\<close> (ThreadPool/MoveOnlyFunction.h): an explicit store of objects, small
    buffers and heap cells; no double free, no leak, and the behaviour of plain optional values.
  \<^item> \<open>Timer_Scheduler\<close> (TimerScheduler/TimerScheduler.cpp): the shared state, the scheduler thread,
    the wrappers on the pool and the clients; each timer id is in one place, cancelled timers do
    not start, timers are on time.
  \<^item> \<open>Net_Buffer\<close> (MiniReactor/src/net/Buffer.cpp): the byte buffer with its two indices, every
    access of the vector checked.
  \<^item> \<open>Rpc_Codec\<close> (MiniRPC/src/codec.cpp): the wire format bit by bit; round trips, limits, partial
    frames, independence of how the bytes are cut. \<open>Rpc_Messages\<close>: what the decoders give is well
    formed and can be encoded again.
  \<^item> \<open>Service_Registry\<close>, \<open>Rpc_Server\<close> (MiniRPC/src/service_registry.cpp, rpc_server.cpp): dispatch,
    the task on the pool, error replies, counters, the read loop.
  \<^item> \<open>Rpc_Client\<close> (MiniRPC/src/rpc_client.cpp, rpc_future.cpp, rpc_channel.cpp, rpc_controller.cpp):
    every critical section as one operation, threads as lists of operations; each call ends
    once, frames are sent once, the counters balance.
  \<^item> \<open>Rpc_System\<close>: the threads of a client and of a server on the two ends of a connection, the
    bytes in between cut anywhere, the connection breaking and coming back; every answer belongs
    to its call, no frame is ever bad, a call on an idle connection can be completed.
  \<^item> \<open>Channel_Poller\<close> (MiniReactor/src/net/Channel.cpp, EpollPoller.cpp): the event sets, the epoll
    set and the order in which a channel's callbacks run. \<open>Event_Loop\<close> (EventLoop.cpp): the queue
    of functors, wake-ups, the loop and its end. \<open>Loop_Thread\<close> (EventLoopThread.cpp): starting a
    loop on a thread of its own and ending it. \<open>Loop_Timers\<close> (EventLoop.cpp, TimerManager.cpp): the
    loops' timers on the scheduler of \<open>Timer_Scheduler\<close>, their wrappers on the pool, and the loop's
    destructor.
  \<^item> \<open>Tcp_Connection\<close> (TcpConnection.cpp): the states of a connection, reading, sending and
    buffering its bytes; \<open>Connector\<close>: connecting with retries; \<open>Tcp_Server\<close> (Acceptor.cpp,
    EventLoopThreadPool.cpp, TcpServer.cpp): accepting, placing and removing connections. \<open>Tcp_Client\<close>
    (TcpClient.cpp): the connector and the connections it gives rise to, as any interleaving of
    their parts and as a machine with three states on the loop's thread.
  \<^item> \<open>Mpsc_Ring\<close> (AsyncLogger/include/async_logger/mpsc_ring_buffer.h): the lock-free queue, atomic
    access by atomic access. \<open>Log_File\<close> (async_logger.cpp, log_record.h): formatting, batching,
    rotation. \<open>Async_Logger\<close>: loggers, flushers, the worker, \<open>stop\<close>.

  \<^bold>\<open>Conventions.\<close> A class guarded by a mutex is a record, each critical section a function of it.
  What several threads do is an \<open>inductive\<close> step relation on such records and program counters;
  histories (what was pushed, started, sent) are extra fields no operation reads. Exceptions are
  \<open>Inl\<close>; \<open>UB\<close> is what the language leaves undefined and is shown unreachable. Unsigned integers
  keep their width where the code could wrap; the steady clock is an \<open>int\<close>. What the code lets
  go wrong is stated where it happens, as an exception in the property and as a reachable state in
  a lemma: a functor queued by the loop's own thread before \<open>loop()\<close> is not woken for
  (\<open>Event_Loop.early_functor_stranded\<close>), callbacks of calls that fail fast never run
  (\<open>Rpc_Client.fail_fast_drops_callback\<close>), an error reply too large for a frame is an exception
  (\<open>Rpc_Server.oversized_error_reply\<close>), a stopping logger can leave records
  (\<open>Async_Logger.stop_loses_record\<close>).

  \<^bold>\<open>Bounds.\<close> Timer ids and request ids are 64 bits; the step relations stop giving out ids when
  the counter has gone round (\<open>tm_next_id s \<noteq> - 1\<close>, \<open>cl_next_request c \<noteq> 0\<close>), so the theorems cover
  the first \<open>2 ^ 64\<close> ids. The connection ids of \<open>TcpServer\<close> and \<open>TcpClient\<close> are \<open>int\<close> in the code and
  unbounded in the model, which covers the first \<open>2 ^ 31 - 1\<close> connections of each. The logger's
  properties are for a queue of two cells or more: with one, which the code accepts, \<open>try_enqueue\<close>
  overwrites (\<open>Mpsc_Ring.one_cell_loses\<close>), and \<open>al_log\<close> has no step for it. No fuel is needed:
  every loop is structural or has a measure; \<open>cl_run\<close> takes a number of steps and is only used to write example runs.

  \<^bold>\<open>Not modelled.\<close> The wrappers of system calls (Socket, InetAddress; Poller is an interface), whose
  answers are inputs here; MiniReactor's Logger, which is one AsyncLogger made on first use;
  serializers and trace contexts (the server uses the name of the one serializer, and logs traces); the example programs and the tests;
  \<open>std::future\<close>; allocation failure, failure to create a thread and resource errors of \<open>epoll_ctl\<close>; log output of the servers. Memory
  is sequentially consistent.
\<close>

end
